(* ===== verification/Prelude.thy ===== *)
theory Prelude
  imports Main "HOL-Library.Word" "HOL-Library.Monad_Syntax"
begin

unbundle bit_operations_syntax

text \<open>
  Shared vocabulary of the development: the C integer types the kernel uses, the page
  geometry macros of \<^verbatim>\<open>410kern/x86/page.h\<close> and \<^verbatim>\<open>kern/inc/vmm_page.h\<close>, the generic
  word and list facts the components need, and the theorem collections their proofs add to.

  Pointers are 32-bit words; \<open>NULL\<close> is \<open>0\<close>.  A C function that can fail an \<open>assert\<close>, call
  \<open>panic\<close>, dereference a freed object or loop for ever returns an \<open>option\<close>; \<open>None\<close> stands
  for that abnormal end, never for an ordinary error return (those are the values the C
  code returns, such as \<open>-1\<close> or \<open>NULL\<close>).
\<close>

section \<open>Types\<close>

type_synonym u8 = "8 word"
type_synonym u16 = "16 word"
type_synonym u32 = "32 word"
type_synonym u64 = "64 word"
type_synonym addr = "32 word"

abbreviation (input) NULL :: addr where "NULL \<equiv> 0"

named_theorems page_simps \<open>page geometry rewritten to arithmetic on nat\<close>
named_theorems queue_simps \<open>refinement of the queue macros to list operations\<close>

section \<open>Page geometry\<close>

abbreviation (input) PAGE_SHIFT :: nat where "PAGE_SHIFT \<equiv> 12"
abbreviation (input) PAGE_SIZE :: u32 where "PAGE_SIZE \<equiv> 0x1000"

definition PAGE_MASK :: u32 where
  "PAGE_MASK = NOT (PAGE_SIZE - 1)"

definition PAGE_DIV :: u32 where
  "PAGE_DIV = PAGE_SIZE - 1"

definition USER_MEM_START :: u32 where
  "USER_MEM_START = 0x01000000"

lemma PAGE_MASK_eq: "PAGE_MASK = 0xfffff000"
  by (simp add: PAGE_MASK_def)

lemma PAGE_DIV_eq: "PAGE_DIV = 0xfff"
  by (simp add: PAGE_DIV_def)

lemma and_not_mask_eq: "(x :: 'a::len word) AND NOT (mask n) = push_bit n (drop_bit n x)"
  by (rule bit_word_eqI) (auto simp: bit_simps)

lemma unat_and_not_mask:
  "unat ((x :: 'a::len word) AND NOT (mask n)) = unat x div 2 ^ n * 2 ^ n"
proof -
  have "unat x div 2 ^ n * 2 ^ n \<le> unat x"
    by (rule div_times_less_eq_dividend)
  also have "unat x < 2 ^ LENGTH('a)"
    by (rule unsigned_less)
  finally have "unat x div 2 ^ n * 2 ^ n < 2 ^ LENGTH('a)" .
  then show ?thesis
    by (simp only: and_not_mask_eq unsigned_push_bit_eq unat_drop_bit_eq
        push_bit_eq_mult[where 'a = nat] drop_bit_eq_div[where 'a = nat] take_bit_nat_eq_self)
qed

lemma PAGE_MASK_mask: "PAGE_MASK = NOT (mask 12)"
  by (simp add: PAGE_MASK_def mask_eq_decr_exp)

lemma PAGE_DIV_mask: "PAGE_DIV = mask 12"
  by (simp add: PAGE_DIV_def mask_eq_decr_exp)

lemma unat_page [page_simps]: "unat (x AND PAGE_MASK) = unat x div 4096 * 4096"
  using unat_and_not_mask[of x 12] by (simp add: PAGE_MASK_mask)

lemma unat_page_off [page_simps]: "unat (x AND PAGE_DIV) = unat x mod 4096"
proof -
  have "x AND PAGE_DIV = take_bit 12 x"
    by (simp only: PAGE_DIV_mask take_bit_eq_mask)
  then have "unat (x AND PAGE_DIV) = take_bit 12 (unat x)"
    by (simp only: unsigned_take_bit_eq)
  then show ?thesis by (simp add: take_bit_eq_mod)
qed

lemma page_idem [simp]: "(x AND PAGE_MASK) AND PAGE_MASK = x AND PAGE_MASK"
  by (simp add: and.assoc)

lemma page_split: "(x AND PAGE_MASK) + (x AND PAGE_DIV) = x"
  proof -
  have "unat x < 2 ^ 32" using unsigned_less[of x] by simp
  then show ?thesis by (simp add: word_unat_eq_iff unat_word_ariths page_simps)
qed

lemma unat_add_no_wrap:
  "unat (a :: u32) + unat b < 2 ^ 32 \<Longrightarrow> unat (a + b) = unat a + unat b"
  by (simp add: unat_word_ariths)

lemma unat_lt32: "unat (x :: u32) < 4294967296"
  using unsigned_less[of x] by simp

lemma page_end_no_wrap:
  assumes "unat (a :: u32) mod 4096 = 0"
  shows "unat a + 4096 \<le> 4294967296"
proof -
  obtain k where k: "unat a = 4096 * k" using assms by (metis mod_eq_0_iff_dvd dvdE)
  then have "k < 1048576" using unat_lt32[of a] by linarith
  then show ?thesis using k by linarith
qed

lemma page_of_offset:
  assumes "p mod 4096 = 0" "j < 4096"
  shows "(p + j) div 4096 * 4096 = (p :: nat)"
proof -
  obtain k where "p = 4096 * k" using assms by (metis mod_eq_0_iff_dvd dvdE)
  then show ?thesis using assms(2) by simp
qed

lemma unat_sub_le: "b \<le> (a :: u32) \<Longrightarrow> unat (a - b) = unat a - unat b"
  by (rule unat_sub)

text \<open>The address of the \<open>i\<close>-th page from \<open>v\<close>: \<^verbatim>\<open>v + (i << PAGE_SHIFT)\<close>.\<close>

abbreviation page_at :: "addr \<Rightarrow> nat \<Rightarrow> addr" where
  "page_at v i \<equiv> v + push_bit 12 (of_nat i)"

lemma of_nat_inj32: "i < 2 ^ 32 \<Longrightarrow> j < 2 ^ 32 \<Longrightarrow> (of_nat i :: u32) = of_nat j \<longleftrightarrow> i = j"
  by (simp add: word_unat_eq_iff unsigned_of_nat take_bit_nat_eq_self)

lemma unat_of_nat32: "n < 2 ^ 32 \<Longrightarrow> unat (of_nat n :: u32) = n"
  by (simp add: unsigned_of_nat take_bit_nat_eq_self)

section \<open>Counted loops\<close>

text \<open>
  The loop \<^verbatim>\<open>for (i = 0; i < n; i++) { ... if (f(i) < 0) return -1; }\<close> over the indices of a
  list: the body returns a C status; a negative one is returned at once.
\<close>

fun c_for :: "'i list \<Rightarrow> ('i \<Rightarrow> 's \<Rightarrow> (int \<times> 's) option) \<Rightarrow> 's \<Rightarrow> (int \<times> 's) option" where
  "c_for [] body s = Some (0, s)"
| "c_for (i # is) body s =
     do { (rc, s) \<leftarrow> body i s; if rc < 0 then Some (rc, s) else c_for is body s }"

text \<open>The loop whose body cannot return early.\<close>

fun c_each :: "'i list \<Rightarrow> ('i \<Rightarrow> 's \<Rightarrow> 's option) \<Rightarrow> 's \<Rightarrow> 's option" where
  "c_each [] body s = Some s"
| "c_each (i # is) body s = do { s \<leftarrow> body i s; c_each is body s }"

lemma c_each_append: "c_each (xs @ ys) body s = Option.bind (c_each xs body s) (c_each ys body)"
  by (induction xs arbitrary: s) (auto split: Option.bind_splits)

section \<open>Lists\<close>

lemma hd_append_cons: "hd (xs @ y # ys) = (case xs of [] \<Rightarrow> y | x # _ \<Rightarrow> x)"
  by (cases xs) auto

lemma last_neq [simp]: "xs \<noteq> [] \<Longrightarrow> z \<notin> set xs \<Longrightarrow> last xs \<noteq> z"
  by (metis last_in_set)

lemma hd_neq [simp]: "xs \<noteq> [] \<Longrightarrow> z \<notin> set xs \<Longrightarrow> hd xs \<noteq> z"
  by (metis hd_in_set)

lemma last_disjoint [simp]: "xs \<noteq> [] \<Longrightarrow> set xs \<inter> set ys = {} \<Longrightarrow> last xs \<notin> set ys"
  by (metis disjoint_iff last_in_set)

lemma remove1_split: "x \<notin> set xs \<Longrightarrow> remove1 x (xs @ x # ys) = xs @ ys"
  by (simp add: remove1_append)

lemma split_upt: "k < n \<Longrightarrow> [0..<n] = [0..<k] @ k # [Suc k..<n]"
  using upt_add_eq_append[of 0 k "n - k"] by (simp add: upt_conv_Cons)

lemma unat_suc_less: "(x :: u32) < y \<Longrightarrow> unat (x + 1) = unat x + 1"
proof -
  assume "x < y"
  then have "unat x + 1 < 2 ^ 32" using unat_lt32[of y] by (simp add: word_less_nat_alt)
  then show ?thesis by (simp add: unat_add_no_wrap)
qed

text \<open>The signed value of a word, and alignment to pages, in arithmetic on the numbers.\<close>

lemma sint_bounds32: "- (2 ^ 31) \<le> sint (a :: u32)" "sint a < 2 ^ 31"
  using sint_ge[of a] sint_lt[of a] by simp_all

lemma sint32: "sint (x :: u32) = (if unat x < 2 ^ 31 then int (unat x) else int (unat x) - 2 ^ 32)"
proof -
  define n where "n = unat x"
  have u: "uint x = int n" by (simp add: n_def)
  have lt: "uint x < 2 ^ 32" "0 \<le> uint x" using uint_lt2p[of x] by simp_all
  have "sint x = signed_take_bit 31 (uint x)" by (simp add: sint_uint)
  also have "\<dots> = (uint x + 2 ^ 31) mod 2 ^ 32 - 2 ^ 31"
    by (simp add: signed_take_bit_eq_take_bit_shift take_bit_eq_mod)
  also have "\<dots> = (if uint x < 2 ^ 31 then uint x else uint x - 2 ^ 32)"
  proof (cases "uint x < 2 ^ 31")
    case True
    then have "(uint x + 2 ^ 31) mod 2 ^ 32 = uint x + 2 ^ 31" using lt by (intro mod_pos_pos_trivial) auto
    then show ?thesis using True by simp
  next
    case False
    have "(uint x + 2 ^ 31) mod 2 ^ 32 = (uint x - 2 ^ 31 + 1 * 2 ^ 32) mod 2 ^ 32" by (simp add: add.commute)
    also have "\<dots> = uint x - 2 ^ 31" using False lt by (subst mod_mult_self1, intro mod_pos_pos_trivial) auto
    finally show ?thesis using False by simp
  qed
  finally show ?thesis unfolding u n_def[symmetric] by simp
qed
lemma page_aligned_iff: "a AND PAGE_MASK = a \<longleftrightarrow> 4096 dvd unat a"
proof -
  have "a AND PAGE_MASK = a \<longleftrightarrow> unat a div 4096 * 4096 = unat a" by (simp only: word_unat_eq_iff unat_page)
  moreover have "n div 4096 * 4096 = n \<longleftrightarrow> 4096 dvd n" for n :: nat
    by (metis dvd_div_mult_self dvd_triv_right)
  ultimately show ?thesis by (simp only:)
qed

end
