(* ===== verification/Variable_Queue.thy ===== *)
theory Variable_Queue
  imports Prelude
begin

text \<open>
  The queue macros of \<^verbatim>\<open>kern/inc/variable_queue.h\<close>.  A queue head is a pair of pointers, an
  element carries a link with a next and a previous pointer; one link field of all
  elements together is a map from addresses to links, so that a structure with several
  link fields is modelled by several such maps.  Every macro is translated assignment by
  assignment; \<open>q_rep\<close> relates a head and a link map to the list of queued elements and
  the lemmas of the last sections show that each macro implements the list operation its
  comment promises.  The locale \<open>queue_interface\<close> is the contract the clients (run queue,
  hash buckets, free lists, VMA lists) rely on.
\<close>

section \<open>Queue heads, links and the macros\<close>

record qlink =
  q_next :: addr
  q_prev :: addr

record qhead =
  q_first :: addr
  q_last :: addr

type_synonym links = "addr \<Rightarrow> qlink"

definition set_next :: "addr \<Rightarrow> addr \<Rightarrow> links \<Rightarrow> links" where
  "set_next e v l = l(e := (l e)\<lparr>q_next := v\<rparr>)"

definition set_prev :: "addr \<Rightarrow> addr \<Rightarrow> links \<Rightarrow> links" where
  "set_prev e v l = l(e := (l e)\<lparr>q_prev := v\<rparr>)"

definition Q_INIT_HEAD :: qhead where
  "Q_INIT_HEAD = \<lparr>q_first = NULL, q_last = NULL\<rparr>"

definition Q_INIT_ELEM :: "addr \<Rightarrow> links \<Rightarrow> links" where
  "Q_INIT_ELEM e l = set_prev e NULL (set_next e NULL l)"

definition Q_INSERT_FRONT :: "addr \<Rightarrow> qhead \<times> links \<Rightarrow> qhead \<times> links" where
  "Q_INSERT_FRONT e hl =
     (let (h, l) = hl;
          l = (if q_first h \<noteq> NULL then set_prev (q_first h) e l else l);
          l = Q_INIT_ELEM e l;
          l = set_next e (q_first h) l;
          h = h\<lparr>q_first := e\<rparr>;
          h = (if q_last h = NULL then h\<lparr>q_last := e\<rparr> else h)
      in (h, l))"

definition Q_INSERT_TAIL :: "addr \<Rightarrow> qhead \<times> links \<Rightarrow> qhead \<times> links" where
  "Q_INSERT_TAIL e hl =
     (let (h, l) = hl;
          l = (if q_last h \<noteq> NULL then set_next (q_last h) e l else l);
          l = Q_INIT_ELEM e l;
          l = set_prev e (q_last h) l;
          h = h\<lparr>q_last := e\<rparr>;
          h = (if q_first h = NULL then h\<lparr>q_first := e\<rparr> else h)
      in (h, l))"

definition Q_GET_FRONT :: "qhead \<Rightarrow> addr" where
  "Q_GET_FRONT h = q_first h"

definition Q_GET_TAIL :: "qhead \<Rightarrow> addr" where
  "Q_GET_TAIL h = q_last h"

definition Q_GET_NEXT :: "addr \<Rightarrow> links \<Rightarrow> addr" where
  "Q_GET_NEXT e l = q_next (l e)"

definition Q_GET_PREV :: "addr \<Rightarrow> links \<Rightarrow> addr" where
  "Q_GET_PREV e l = q_prev (l e)"

definition Q_INSERT_AFTER :: "addr \<Rightarrow> addr \<Rightarrow> qhead \<times> links \<Rightarrow> qhead \<times> links" where
  "Q_INSERT_AFTER inq new hl =
     (let (h, l) = hl
      in if q_last h = inq then Q_INSERT_TAIL new (h, l)
         else
           (let l = set_next new (q_next (l inq)) l;
                l = set_prev new inq l;
                l = set_prev (q_next (l inq)) new l;
                l = set_next inq new l
            in (h, l)))"

definition Q_INSERT_BEFORE :: "addr \<Rightarrow> addr \<Rightarrow> qhead \<times> links \<Rightarrow> qhead \<times> links" where
  "Q_INSERT_BEFORE inq new hl =
     (let (h, l) = hl
      in if q_first h = inq then Q_INSERT_FRONT new (h, l)
         else
           (let l = set_prev new (q_prev (l inq)) l;
                l = set_next new inq l;
                l = set_next (q_prev (l inq)) new l;
                l = set_prev inq new l
            in (h, l)))"

definition Q_REMOVE :: "addr \<Rightarrow> qhead \<times> links \<Rightarrow> qhead \<times> links" where
  "Q_REMOVE e hl =
     (let (h, l) = hl;
          h = (if q_first h = e then h\<lparr>q_first := q_next (l e)\<rparr> else h);
          h = (if q_last h = e then h\<lparr>q_last := q_prev (l e)\<rparr> else h);
          l = (if q_prev (l e) \<noteq> NULL then set_next (q_prev (l e)) (q_next (l e)) l else l);
          l = (if q_next (l e) \<noteq> NULL then set_prev (q_next (l e)) (q_prev (l e)) l else l);
          l = set_prev e NULL l;
          l = set_next e NULL l
      in (h, l))"

text \<open>
  \<open>Q_FOREACH\<close> visits the elements from \<open>first\<close> along the next pointers until \<open>NULL\<close>; on a
  cyclic list the loop does not end, which is the value \<open>None\<close>.
\<close>

partial_function (option) q_walk :: "links \<Rightarrow> addr \<Rightarrow> addr list option" where
  "q_walk l a =
     (if a = NULL then Some []
      else Option.bind (q_walk l (q_next (l a))) (\<lambda>xs. Some (a # xs)))"

definition Q_FOREACH :: "qhead \<times> links \<Rightarrow> addr list option" where
  "Q_FOREACH hl = q_walk (snd hl) (q_first (fst hl))"

text \<open>A \<open>Q_FOREACH\<close> whose body leaves the loop at the first element that passes a test; the loop
  variable is \<open>NULL\<close> when none does.  The test may fail itself, as \<open>None\<close>.\<close>

partial_function (option) q_find :: "(addr \<Rightarrow> bool option) \<Rightarrow> links \<Rightarrow> addr \<Rightarrow> addr option" where
  "q_find P l a =
     (if a = NULL then Some NULL
      else Option.bind (P a) (\<lambda>b. if b then Some a else q_find P l (q_next (l a))))"

definition Q_FIND :: "(addr \<Rightarrow> bool option) \<Rightarrow> qhead \<times> links \<Rightarrow> addr option" where
  "Q_FIND P hl = q_find P (snd hl) (q_first (fst hl))"

lemma link_upd_simps [simp]:
  "q_next (set_next e v l x) = (if x = e then v else q_next (l x))"
  "q_prev (set_next e v l x) = q_prev (l x)"
  "q_prev (set_prev e v l x) = (if x = e then v else q_prev (l x))"
  "q_next (set_prev e v l x) = q_next (l x)"
  "q_next (Q_INIT_ELEM e l x) = (if x = e then NULL else q_next (l x))"
  "q_prev (Q_INIT_ELEM e l x) = (if x = e then NULL else q_prev (l x))"
  by (simp_all add: set_next_def set_prev_def Q_INIT_ELEM_def)

section \<open>The list a queue represents\<close>

text \<open>\<open>dseg l p xs n\<close>: the elements \<open>xs\<close> are linked in this order, the first one's previous
  pointer is \<open>p\<close> and the last one's next pointer is \<open>n\<close>.\<close>

fun dseg :: "links \<Rightarrow> addr \<Rightarrow> addr list \<Rightarrow> addr \<Rightarrow> bool" where
  "dseg l p [] n = True"
| "dseg l p (x # xs) n =
     (q_prev (l x) = p \<and> q_next (l x) = (case xs of [] \<Rightarrow> n | y # _ \<Rightarrow> y) \<and> dseg l x xs n)"

definition q_rep :: "qhead \<times> links \<Rightarrow> addr list \<Rightarrow> bool" where
  "q_rep hl xs \<longleftrightarrow>
     distinct xs \<and> NULL \<notin> set xs \<and>
     q_first (fst hl) = (if xs = [] then NULL else hd xs) \<and>
     q_last (fst hl) = (if xs = [] then NULL else last xs) \<and>
     dseg (snd hl) NULL xs NULL"

lemma dseg_append:
  "dseg l p (xs @ ys) n \<longleftrightarrow>
     dseg l p xs (case ys of [] \<Rightarrow> n | y # _ \<Rightarrow> y) \<and> dseg l (if xs = [] then p else last xs) ys n"
  by (induction xs arbitrary: p) (auto split: list.splits)

lemma dseg_cong:
  "(\<And>x. x \<in> set xs \<Longrightarrow> q_next (l x) = q_next (l' x) \<and> q_prev (l x) = q_prev (l' x)) \<Longrightarrow>
   dseg l p xs n = dseg l' p xs n"
  by (induction xs arbitrary: p) auto

lemma dseg_frame [simp]:
  "e \<notin> set xs \<Longrightarrow> dseg (set_next e v l) p xs n = dseg l p xs n"
  "e \<notin> set xs \<Longrightarrow> dseg (set_prev e v l) p xs n = dseg l p xs n"
  "e \<notin> set xs \<Longrightarrow> dseg (Q_INIT_ELEM e l) p xs n = dseg l p xs n"
  by (rule dseg_cong; auto)+

lemma q_rep_distinct: "q_rep hl xs \<Longrightarrow> distinct xs"
  by (simp add: q_rep_def)

lemma q_rep_null: "q_rep hl xs \<Longrightarrow> NULL \<notin> set xs"
  by (simp add: q_rep_def)

lemma q_rep_first: "q_rep (h, l) xs \<Longrightarrow> q_first h = (if xs = [] then NULL else hd xs)"
  by (simp add: q_rep_def)

lemma q_rep_last: "q_rep (h, l) xs \<Longrightarrow> q_last h = (if xs = [] then NULL else last xs)"
  by (simp add: q_rep_def)

lemma q_rep_empty: "q_rep (Q_INIT_HEAD, l) []"
  by (simp add: q_rep_def Q_INIT_HEAD_def)

text \<open>A queue is untouched by changes to the links of elements it does not hold.\<close>

lemma q_rep_frame:
  "q_rep (h, l) xs \<Longrightarrow> (\<And>x. x \<in> set xs \<Longrightarrow> l' x = l x) \<Longrightarrow> q_rep (h, l') xs"
  using dseg_cong[of xs l' l] by (auto simp: q_rep_def)

section \<open>Each macro implements its list operation\<close>

lemma q_repI:
  "distinct xs \<Longrightarrow> NULL \<notin> set xs \<Longrightarrow> q_first h = (if xs = [] then NULL else hd xs) \<Longrightarrow>
   q_last h = (if xs = [] then NULL else last xs) \<Longrightarrow> dseg l NULL xs NULL \<Longrightarrow> q_rep (h, l) xs"
  by (simp add: q_rep_def)

lemma q_rep_dseg: "q_rep (h, l) xs \<Longrightarrow> dseg l NULL xs NULL"
  by (simp add: q_rep_def)

lemma Q_INSERT_FRONT_rep:
  assumes rep: "q_rep (h, l) xs" and e: "e \<noteq> NULL" "e \<notin> set xs"
  shows "q_rep (Q_INSERT_FRONT e (h, l)) (e # xs)"
proof (cases xs)
  case Nil
  with rep e show ?thesis by (simp add: q_rep_def Q_INSERT_FRONT_def Let_def)
next
  case (Cons a ys)
  note f = q_rep_distinct[OF rep] q_rep_null[OF rep] q_rep_first[OF rep] q_rep_last[OF rep]
    q_rep_dseg[OF rep]
  have q: "q_first h = a" "q_last h \<noteq> NULL" "a \<noteq> NULL" "a \<notin> set ys" "e \<noteq> a" "e \<notin> set ys"
    using f e Cons last_in_set[of xs] by auto
  let ?l = "set_next e a (Q_INIT_ELEM e (set_prev a e l))"
  have "Q_INSERT_FRONT e (h, l) = (h\<lparr>q_first := e\<rparr>, ?l)"
    using q by (simp add: Q_INSERT_FRONT_def Let_def)
  moreover have "dseg ?l NULL (e # a # ys) NULL"
    using f(5) q unfolding Cons by simp
  ultimately show ?thesis
    using f e q unfolding Cons by (simp add: q_rep_def)
qed

lemma dseg_change_end:
  "dseg l p xs n \<Longrightarrow> xs \<noteq> [] \<Longrightarrow> distinct xs \<Longrightarrow> dseg (set_next (last xs) m l) p xs m"
proof (induction xs arbitrary: p)
  case (Cons x xs)
  then show ?case by (cases xs) auto
qed simp

lemma Q_INSERT_TAIL_rep:
  assumes rep: "q_rep (h, l) xs" and e: "e \<noteq> NULL" "e \<notin> set xs"
  shows "q_rep (Q_INSERT_TAIL e (h, l)) (xs @ [e])"
proof (cases "xs = []")
  case True
  with rep e show ?thesis by (simp add: q_rep_def Q_INSERT_TAIL_def Let_def)
next
  case False
  note f = q_rep_distinct[OF rep] q_rep_null[OF rep] q_rep_first[OF rep] q_rep_last[OF rep]
    q_rep_dseg[OF rep]
  have q: "q_last h = last xs" "last xs \<noteq> NULL" "q_first h \<noteq> NULL" "e \<noteq> last xs"
    using f e False last_in_set[of xs] hd_in_set[of xs] by auto
  let ?l = "set_prev e (last xs) (Q_INIT_ELEM e (set_next (last xs) e l))"
  have "Q_INSERT_TAIL e (h, l) = (h\<lparr>q_last := e\<rparr>, ?l)"
    using q by (simp add: Q_INSERT_TAIL_def Let_def)
  moreover have "dseg ?l NULL (xs @ [e]) NULL"
    using dseg_change_end[OF f(5) False f(1), of e] e False q by (simp add: dseg_append)
  ultimately show ?thesis
    using f e q False by (simp add: q_rep_def)
qed

lemma dseg_last_next: "dseg l p xs n \<Longrightarrow> xs \<noteq> [] \<Longrightarrow> q_next (l (last xs)) = n"
  by (induction xs arbitrary: p) (auto split: list.splits)

lemma Q_REMOVE_links_frame:
  "Q_REMOVE e (h, l) = (h', l') \<Longrightarrow> x \<noteq> e \<Longrightarrow> x \<noteq> q_next (l e) \<Longrightarrow> x \<noteq> q_prev (l e) \<Longrightarrow> l' x = l x"
  by (auto simp: Q_REMOVE_def Let_def set_next_def set_prev_def split: if_splits)

lemma Q_REMOVE_rep:
  assumes rep: "q_rep (h, l) (xs @ e # ys)"
  shows "q_rep (Q_REMOVE e (h, l)) (xs @ ys)"
proof -
  define p where "p = (if xs = [] then NULL else last xs)"
  define n where "n = (case ys of [] \<Rightarrow> NULL | y # _ \<Rightarrow> y)"
  have seg: "dseg l NULL xs e" "q_prev (l e) = p" "q_next (l e) = n" "dseg l e ys NULL"
    using rep by (auto simp: q_rep_def dseg_append p_def n_def split: list.splits)
  have d: "distinct (xs @ e # ys)" "NULL \<notin> set (xs @ e # ys)"
    using rep by (auto simp: q_rep_def)
  define l1 where "l1 = (if p \<noteq> NULL then set_next p n l else l)"
  define l2 where "l2 = (if n \<noteq> NULL then set_prev n p l1 else l1)"
  have en: "e \<noteq> p" "e \<noteq> n" "e \<noteq> NULL"
    using d by (auto simp: p_def n_def split: list.splits if_splits dest: last_in_set)
  have xs1: "dseg l1 NULL xs n"
    using seg d dseg_change_end[of l NULL xs e n]
    by (cases xs rule: rev_cases) (auto simp: l1_def p_def)
  have ys1: "dseg l1 e ys NULL"
  proof (cases "xs = []")
    case False
    then have "last xs \<notin> set ys" using d last_in_set[of xs] by auto
    then show ?thesis using seg False by (simp add: l1_def p_def)
  qed (use seg in \<open>simp add: l1_def p_def\<close>)
  have n_xs: "n \<notin> set xs" using d by (auto simp: n_def split: list.splits)
  have xs2: "dseg l2 NULL xs n" using xs1 n_xs by (auto simp: l2_def)
  have ys2: "dseg l2 p ys NULL"
  proof (cases ys)
    case (Cons y zs)
    then show ?thesis using ys1 d by (auto simp: l2_def n_def split: list.splits)
  qed simp
  have "snd (Q_REMOVE e (h, l)) = set_next e NULL (set_prev e NULL l2)"
    using seg en by (auto simp: Q_REMOVE_def Let_def l1_def l2_def)
  moreover have "q_first (fst (Q_REMOVE e (h, l))) = (if xs @ ys = [] then NULL else hd (xs @ ys))"
    using rep seg d by (cases xs; cases ys) (auto simp: Q_REMOVE_def Let_def q_rep_def n_def p_def)
  moreover have "q_last (fst (Q_REMOVE e (h, l))) = (if xs @ ys = [] then NULL else last (xs @ ys))"
    using rep seg d
    by (cases xs rule: rev_cases; cases ys rule: rev_cases)
       (auto simp: Q_REMOVE_def Let_def q_rep_def n_def p_def split: list.splits)
  moreover have "dseg (set_next e NULL (set_prev e NULL l2)) NULL (xs @ ys) NULL"
    using xs2 ys2 d by (auto simp: dseg_append n_def p_def split: list.splits)
  ultimately show ?thesis
    using d by (auto simp: q_rep_def)
qed

corollary Q_REMOVE_rep_remove1:
  "q_rep (h, l) xs \<Longrightarrow> e \<in> set xs \<Longrightarrow> q_rep (Q_REMOVE e (h, l)) (remove1 e xs)"
  by (metis Q_REMOVE_rep q_rep_distinct remove1_split distinct_append not_distinct_conv_prefix
      split_list_first)

lemma Q_INSERT_BEFORE_rep:
  assumes rep: "q_rep (h, l) (xs @ b # ys)" and e: "e \<noteq> NULL" "e \<notin> set (xs @ b # ys)"
  shows "q_rep (Q_INSERT_BEFORE b e (h, l)) (xs @ e # b # ys)"
proof (cases "xs = []")
  case True
  then show ?thesis
    using Q_INSERT_FRONT_rep[OF rep e(1)] e q_rep_first[OF rep]
    by (simp add: Q_INSERT_BEFORE_def)
next
  case False
  note f = q_rep_distinct[OF rep] q_rep_null[OF rep] q_rep_first[OF rep] q_rep_last[OF rep]
    q_rep_dseg[OF rep]
  have s: "dseg l NULL xs b" "q_prev (l b) = last xs" "dseg l (last xs) (b # ys) NULL"
    using f(5) False by (simp_all add: dseg_append)
  have q: "q_first h \<noteq> b" "last xs \<in> set xs" "last xs \<noteq> b" "last xs \<notin> set ys" "last xs \<noteq> e"
    "e \<noteq> b" "e \<notin> set xs" "e \<notin> set ys" "b \<notin> set xs" "b \<notin> set ys"
    using f(1,3) e False last_in_set[of xs] hd_in_set[of xs] by auto
  let ?l = "set_prev b e (set_next (last xs) e (set_next e b (set_prev e (last xs) l)))"
  have "Q_INSERT_BEFORE b e (h, l) = (h, ?l)"
    using q s by (simp add: Q_INSERT_BEFORE_def Let_def)
  moreover have "dseg ?l NULL xs e"
  proof -
    have "dseg (set_next e b (set_prev e (last xs) l)) NULL xs b" using s(1) q by simp
    from dseg_change_end[OF this False, of e] f(1) q show ?thesis by simp
  qed
  moreover have "dseg ?l (last xs) (e # b # ys) NULL"
    using s(3) q q(3)[symmetric] q(5)[symmetric] by simp
  ultimately show ?thesis
    using f e q q(3)[symmetric] q(5)[symmetric] False by (simp add: q_rep_def dseg_append)
qed

lemma Q_INSERT_AFTER_rep:
  assumes rep: "q_rep (h, l) (xs @ b # ys)" and e: "e \<noteq> NULL" "e \<notin> set (xs @ b # ys)"
  shows "q_rep (Q_INSERT_AFTER b e (h, l)) (xs @ b # e # ys)"
proof (cases ys)
  case Nil
  then show ?thesis
    using Q_INSERT_TAIL_rep[OF rep e(1)] e q_rep_last[OF rep]
    by (simp add: Q_INSERT_AFTER_def)
next
  case (Cons a zs)
  note f = q_rep_distinct[OF rep] q_rep_null[OF rep] q_rep_first[OF rep] q_rep_last[OF rep]
    q_rep_dseg[OF rep]
  have s: "dseg l NULL (xs @ [b]) a" "q_next (l b) = a" "dseg l b (a # zs) NULL"
    using f(5) Cons by (simp_all add: dseg_append split: list.splits)
  have q: "q_last h \<noteq> b" "a \<noteq> b" "a \<notin> set xs" "a \<notin> set zs" "e \<noteq> a"
    "e \<noteq> b" "e \<notin> set xs" "e \<notin> set zs" "b \<notin> set xs" "b \<notin> set zs"
    using f(1,4) e Cons last_in_set[of ys] by auto
  let ?l = "set_next b e (set_prev a e (set_prev e b (set_next e a l)))"
  have "Q_INSERT_AFTER b e (h, l) = (h, ?l)"
    using q s by (simp add: Q_INSERT_AFTER_def Let_def)
  moreover have "dseg ?l NULL (xs @ [b]) e"
  proof -
    have "dseg (set_prev a e (set_prev e b (set_next e a l))) NULL (xs @ [b]) a"
      using s(1) q by simp
    from dseg_change_end[OF this, of e] f(1) q show ?thesis by simp
  qed
  moreover have "dseg ?l b (e # a # zs) NULL"
    using s(3) q by simp
  moreover have "xs @ b # e # ys = (xs @ [b]) @ e # a # zs" using Cons by simp
  ultimately show ?thesis
    using f e q Cons by (simp add: q_rep_def dseg_append hd_append)
qed

lemma q_walk_dseg: "dseg l p xs NULL \<Longrightarrow> NULL \<notin> set xs \<Longrightarrow>
  q_walk l (if xs = [] then NULL else hd xs) = Some xs"
proof (induction xs arbitrary: p)
  case Nil
  then show ?case by (simp add: q_walk.simps)
next
  case (Cons x xs)
  then show ?case by (subst q_walk.simps) (auto split: list.splits)
qed

lemma Q_FOREACH_rep: "q_rep hl xs \<Longrightarrow> Q_FOREACH hl = Some xs"
  using q_walk_dseg[of "snd hl" NULL xs] by (simp add: q_rep_def Q_FOREACH_def)

fun list_find :: "(addr \<Rightarrow> bool option) \<Rightarrow> addr list \<Rightarrow> addr option" where
  "list_find P [] = Some NULL"
| "list_find P (x # xs) = Option.bind (P x) (\<lambda>b. if b then Some x else list_find P xs)"

lemma q_find_dseg: "dseg l p xs NULL \<Longrightarrow> NULL \<notin> set xs \<Longrightarrow>
  q_find P l (if xs = [] then NULL else hd xs) = list_find P xs"
proof (induction xs arbitrary: p)
  case Nil
  then show ?case by (simp add: q_find.simps)
next
  case (Cons x xs)
  have "q_next (l x) = (if xs = [] then NULL else hd xs)" using Cons.prems(1) by (auto split: list.splits)
  moreover have "q_find P l (if xs = [] then NULL else hd xs) = list_find P xs"
    by (rule Cons.IH[of x]) (use Cons.prems in auto)
  ultimately show ?case using Cons.prems(2) by (subst q_find.simps) (cases "P x"; simp)
qed

lemma Q_FIND_rep: "q_rep hl xs \<Longrightarrow> Q_FIND P hl = list_find P xs"
  using q_find_dseg[of "snd hl" NULL xs P] by (simp add: q_rep_def Q_FIND_def)

text \<open>When every test has a value, the search is that of the list library.\<close>

lemma list_find_total:
  "(\<And>x. x \<in> set xs \<Longrightarrow> P x = Some (p x)) \<Longrightarrow>
   list_find P xs = Some (case List.find p xs of None \<Rightarrow> NULL | Some x \<Rightarrow> x)"
  by (induction xs) auto

lemma q_rep_unique: "q_rep hl xs \<Longrightarrow> q_rep hl ys \<Longrightarrow> xs = ys"
  by (drule Q_FOREACH_rep)+ simp

lemma q_rep_next:
  "q_rep (h, l) (xs @ e # ys) \<Longrightarrow> Q_GET_NEXT e l = (case ys of [] \<Rightarrow> NULL | y # _ \<Rightarrow> y)"
  by (auto simp: q_rep_def dseg_append Q_GET_NEXT_def split: list.splits)

lemma q_rep_prev:
  "q_rep (h, l) (xs @ e # ys) \<Longrightarrow> Q_GET_PREV e l = (if xs = [] then NULL else last xs)"
  by (auto simp: q_rep_def dseg_append Q_GET_PREV_def split: list.splits)

section \<open>Locality: which links a macro writes\<close>

lemma Q_INSERT_FRONT_local:
  "q_rep (h, l) xs \<Longrightarrow> x \<noteq> e \<Longrightarrow> x \<notin> set xs \<Longrightarrow> snd (Q_INSERT_FRONT e (h, l)) x = l x"
  by (cases xs) (auto simp: q_rep_def Q_INSERT_FRONT_def Let_def set_next_def set_prev_def Q_INIT_ELEM_def)

lemma Q_INSERT_TAIL_local:
  "q_rep (h, l) xs \<Longrightarrow> x \<noteq> e \<Longrightarrow> x \<notin> set xs \<Longrightarrow> snd (Q_INSERT_TAIL e (h, l)) x = l x"
  by (cases "xs = []")
     (auto simp: q_rep_def Q_INSERT_TAIL_def Let_def set_next_def set_prev_def Q_INIT_ELEM_def)

lemma Q_REMOVE_local:
  assumes rep: "q_rep (h, l) xs" and e: "e \<in> set xs" and x: "x \<notin> set xs"
  shows "snd (Q_REMOVE e (h, l)) x = l x"
proof -
  obtain as bs where xs: "xs = as @ e # bs" using e by (metis split_list)
  have n: "q_next (l e) = (case bs of [] \<Rightarrow> NULL | y # _ \<Rightarrow> y)"
    and p: "q_prev (l e) = (if as = [] then NULL else last as)"
    using q_rep_next q_rep_prev rep unfolding xs Q_GET_NEXT_def Q_GET_PREV_def by blast+
  have "x = q_next (l e) \<Longrightarrow> q_next (l e) = NULL"
    using n x xs by (auto split: list.splits)
  moreover have "x = q_prev (l e) \<Longrightarrow> q_prev (l e) = NULL"
    using p x xs by (auto split: if_splits)
  ultimately show ?thesis
    using x e by (auto simp: Q_REMOVE_def Let_def set_next_def set_prev_def)
qed

section \<open>The contract the clients use\<close>

text \<open>
  \<open>queue_interface\<close>: what one queue promises.  \<open>shared_links\<close> extends it for several
  queues that link their elements through one link field (the run queue and the done queue
  through \<^verbatim>\<open>runnable_link\<close>, the buckets of a hash table, the free lists of the buddy
  allocator): an operation on one of them leaves the others alone as long as no element is
  in two of them, which is what the clients have to maintain.
\<close>

locale queue_interface =
  fixes rep :: "'h \<times> ('e \<Rightarrow> 'l) \<Rightarrow> 'e list \<Rightarrow> bool"
    and ins_front :: "'e \<Rightarrow> 'h \<times> ('e \<Rightarrow> 'l) \<Rightarrow> 'h \<times> ('e \<Rightarrow> 'l)"
    and ins_tail :: "'e \<Rightarrow> 'h \<times> ('e \<Rightarrow> 'l) \<Rightarrow> 'h \<times> ('e \<Rightarrow> 'l)"
    and del :: "'e \<Rightarrow> 'h \<times> ('e \<Rightarrow> 'l) \<Rightarrow> 'h \<times> ('e \<Rightarrow> 'l)"
    and front :: "'h \<Rightarrow> 'e"
    and null :: 'e
  assumes rep_ins_front: "rep q xs \<Longrightarrow> e \<noteq> null \<Longrightarrow> e \<notin> set xs \<Longrightarrow> rep (ins_front e q) (e # xs)"
    and rep_ins_tail: "rep q xs \<Longrightarrow> e \<noteq> null \<Longrightarrow> e \<notin> set xs \<Longrightarrow> rep (ins_tail e q) (xs @ [e])"
    and rep_del: "rep q xs \<Longrightarrow> e \<in> set xs \<Longrightarrow> rep (del e q) (remove1 e xs)"
    and rep_front: "rep (h, l) xs \<Longrightarrow> front h = (if xs = [] then null else hd xs)"
    and rep_distinct: "rep q xs \<Longrightarrow> distinct xs"
    and rep_null: "rep q xs \<Longrightarrow> null \<notin> set xs"
begin

lemma front_null_iff: "rep (h, l) xs \<Longrightarrow> front h = null \<longleftrightarrow> xs = []"
  using rep_front[of h l xs] rep_null[of "(h, l)" xs] by (cases xs) auto

lemma requeue:
  assumes "rep q xs" "e \<in> set xs"
  shows "rep (ins_tail e (del e q)) (remove1 e xs @ [e])"
proof (rule rep_ins_tail)
  show "rep (del e q) (remove1 e xs)" using assms by (rule rep_del)
  show "e \<noteq> null" using assms rep_null by blast
  show "e \<notin> set (remove1 e xs)" using rep_distinct[OF assms(1)] by simp
qed

lemma rotate_front: "rep q (e # xs) \<Longrightarrow> rep (ins_tail e (del e q)) (xs @ [e])"
  using requeue[of q "e # xs" e] by simp

lemma pop_front: "rep q (e # xs) \<Longrightarrow> rep (del e q) xs"
  using rep_del[of q "e # xs" e] by simp

end

locale shared_links = queue_interface +
  assumes frame: "rep (h, l) xs \<Longrightarrow> (\<And>x. x \<in> set xs \<Longrightarrow> l' x = l x) \<Longrightarrow> rep (h, l') xs"
    and ins_front_local: "rep (h, l) xs \<Longrightarrow> x \<noteq> e \<Longrightarrow> x \<notin> set xs \<Longrightarrow> snd (ins_front e (h, l)) x = l x"
    and ins_tail_local: "rep (h, l) xs \<Longrightarrow> x \<noteq> e \<Longrightarrow> x \<notin> set xs \<Longrightarrow> snd (ins_tail e (h, l)) x = l x"
    and del_local: "rep (h, l) xs \<Longrightarrow> e \<in> set xs \<Longrightarrow> x \<notin> set xs \<Longrightarrow> snd (del e (h, l)) x = l x"
begin

lemma other_ins_front:
  assumes "rep (h, l) xs" "rep (h', l) ys" "set xs \<inter> set ys = {}" "e \<notin> set ys"
  shows "rep (h', snd (ins_front e (h, l))) ys"
  by (rule frame[OF assms(2)]) (rule ins_front_local[OF assms(1)]; use assms in auto)

lemma other_ins_tail:
  assumes "rep (h, l) xs" "rep (h', l) ys" "set xs \<inter> set ys = {}" "e \<notin> set ys"
  shows "rep (h', snd (ins_tail e (h, l))) ys"
  by (rule frame[OF assms(2)]) (rule ins_tail_local[OF assms(1)]; use assms in auto)

lemma other_del:
  assumes "rep (h, l) xs" "rep (h', l) ys" "set xs \<inter> set ys = {}" "e \<in> set xs"
  shows "rep (h', snd (del e (h, l))) ys"
  by (rule frame[OF assms(2)]) (rule del_local[OF assms(1,4)]; use assms in auto)

lemma move_to_tail:
  assumes xs: "rep (h, l) xs" and ys: "rep (h', l) ys" and d: "set xs \<inter> set ys = {}"
    and e: "e \<in> set xs" and h1: "del e (h, l) = (h1, l1)" and h2: "ins_tail e (h', l1) = (h2, l2)"
  shows "rep (h1, l2) (remove1 e xs) \<and> rep (h2, l2) (ys @ [e])"
proof -
  have r1: "rep (h1, l1) (remove1 e xs)" using rep_del[OF xs e] h1 by simp
  have r2: "rep (h', l1) ys" using other_del[OF xs ys d e] h1 by simp
  have nn: "e \<noteq> null" using rep_null[OF xs] e by auto
  have ny: "e \<notin> set ys" using d e by auto
  have "rep (h2, l2) (ys @ [e])" using rep_ins_tail[OF r2 nn ny] h2 by simp
  moreover have "rep (h1, snd (ins_tail e (h', l1))) (remove1 e xs)"
  proof (rule other_ins_tail[OF r2 r1])
    show "set ys \<inter> set (remove1 e xs) = {}" using d by (auto dest: in_set_remove1[THEN iffD1, rotated] set_remove1_subset[THEN subsetD])
    show "e \<notin> set (remove1 e xs)" using rep_distinct[OF xs] by simp
  qed
  ultimately show ?thesis using h2 by simp
qed

end

interpretation vq: shared_links q_rep Q_INSERT_FRONT Q_INSERT_TAIL Q_REMOVE Q_GET_FRONT NULL
proof unfold_locales
  fix q :: "qhead \<times> links" and xs e
  show "q_rep q xs \<Longrightarrow> e \<noteq> NULL \<Longrightarrow> e \<notin> set xs \<Longrightarrow> q_rep (Q_INSERT_FRONT e q) (e # xs)"
    by (cases q) (simp add: Q_INSERT_FRONT_rep)
  show "q_rep q xs \<Longrightarrow> e \<noteq> NULL \<Longrightarrow> e \<notin> set xs \<Longrightarrow> q_rep (Q_INSERT_TAIL e q) (xs @ [e])"
    by (cases q) (simp add: Q_INSERT_TAIL_rep)
  show "q_rep q xs \<Longrightarrow> e \<in> set xs \<Longrightarrow> q_rep (Q_REMOVE e q) (remove1 e xs)"
    by (cases q) (simp add: Q_REMOVE_rep_remove1)
qed (simp_all add: q_rep_distinct q_rep_null q_rep_first Q_GET_FRONT_def q_rep_frame
      Q_INSERT_FRONT_local Q_INSERT_TAIL_local Q_REMOVE_local)

lemmas queue_rep_rules = vq.rep_ins_front vq.rep_ins_tail vq.rep_del vq.requeue vq.rotate_front
  vq.pop_front

end
