(* ===== verification/Block_Allocator.thy ===== *)
theory Block_Allocator
  imports Prelude
begin

text \<open>
  The interface of an allocator of blocks of memory, as its clients see it: requests for blocks, their release,
  and stores into them.  Two allocators of the kernel implement it, the buddy allocator (whose requests are orders)
  and the heap (whose requests are sizes).
\<close>

section \<open>Clients\<close>

text \<open>A client asks for a block, gives back one of those it has (by its number), or stores a byte into one.\<close>

datatype 'n request = Get 'n | Put nat | Store nat nat u8

fun serve ::
  "('n \<Rightarrow> 's \<Rightarrow> (addr \<times> 's) option) \<Rightarrow> (addr \<Rightarrow> 'n \<Rightarrow> 's \<Rightarrow> 's option) \<Rightarrow> (addr \<Rightarrow> 'n \<Rightarrow> nat \<Rightarrow> u8 \<Rightarrow> 's \<Rightarrow> 's) \<Rightarrow>
   'n request \<Rightarrow> 's \<times> (addr \<times> 'n) list \<Rightarrow> ('s \<times> (addr \<times> 'n) list) option" where
  "serve get put store (Get n) (s, live) =
     do { (a, s) \<leftarrow> get n s; Some (s, if a = NULL then live else live @ [(a, n)]) }"
| "serve get put store (Put i) (s, live) =
     (if i < length live
      then do { s \<leftarrow> put (fst (live ! i)) (snd (live ! i)) s; Some (s, take i live @ drop (Suc i) live) }
      else Some (s, live))"
| "serve get put store (Store i j b) (s, live) =
     Some (if i < length live then store (fst (live ! i)) (snd (live ! i)) j b s else s, live)"

section \<open>The interface\<close>

text \<open>\<open>inv s F\<close>: a good state whose free memory is \<open>F\<close>; \<open>own s a n\<close>: a block of the request \<open>n\<close> at \<open>a\<close> may be given
  back; \<open>block a n\<close>: the memory that it takes.\<close>

locale block_allocator =
  fixes inv :: "'s \<Rightarrow> nat set \<Rightarrow> bool"
    and own :: "'s \<Rightarrow> addr \<Rightarrow> 'n \<Rightarrow> bool"
    and block :: "addr \<Rightarrow> 'n \<Rightarrow> nat set"
    and valid :: "'n \<Rightarrow> bool"
    and get :: "'n \<Rightarrow> 's \<Rightarrow> (addr \<times> 's) option"
    and put :: "addr \<Rightarrow> 'n \<Rightarrow> 's \<Rightarrow> 's option"
    and store :: "addr \<Rightarrow> 'n \<Rightarrow> nat \<Rightarrow> u8 \<Rightarrow> 's \<Rightarrow> 's"
  assumes get_total: "inv s F \<Longrightarrow> valid n \<Longrightarrow> \<exists>a s'. get n s = Some (a, s')"
    and get_block: "inv s F \<Longrightarrow> valid n \<Longrightarrow> get n s = Some (a, s') \<Longrightarrow> a \<noteq> NULL \<Longrightarrow>
      block a n \<subseteq> F \<and> inv s' (F - block a n) \<and> own s' a n"
    and get_null: "inv s F \<Longrightarrow> valid n \<Longrightarrow> get n s = Some (NULL, s') \<Longrightarrow> inv s' F"
    and get_own: "inv s F \<Longrightarrow> valid n \<Longrightarrow> get n s = Some (a, s') \<Longrightarrow> own s b k \<Longrightarrow> block b k \<inter> F = {} \<Longrightarrow> own s' b k"
    and put_block: "inv s F \<Longrightarrow> own s a n \<Longrightarrow> block a n \<inter> F = {} \<Longrightarrow>
      \<exists>s'. put a n s = Some s' \<and> inv s' (F \<union> block a n)"
    and put_own: "inv s F \<Longrightarrow> own s a n \<Longrightarrow> block a n \<inter> F = {} \<Longrightarrow> put a n s = Some s' \<Longrightarrow>
      own s b k \<Longrightarrow> block b k \<inter> (F \<union> block a n) = {} \<Longrightarrow> own s' b k"
    and store_inv: "inv s F \<Longrightarrow> own s a n \<Longrightarrow> block a n \<inter> F = {} \<Longrightarrow> inv (store a n j x s) F"
    and store_own: "inv s F \<Longrightarrow> own s a n \<Longrightarrow> own s b k \<Longrightarrow> (b, k) = (a, n) \<or> block b k \<inter> block a n = {} \<Longrightarrow>
      own (store a n j x s) b k"
begin

text \<open>The blocks a client holds are apart from each other and from the free memory; \<open>M\<close> is all the memory.\<close>

definition holds :: "nat set \<Rightarrow> 's \<Rightarrow> (addr \<times> 'n) list \<Rightarrow> bool" where
  "holds M s live \<longleftrightarrow> (\<exists>F. inv s F \<and> F \<union> (\<Union>(a, n) \<in> set live. block a n) = M \<and>
     (\<forall>(a, n) \<in> set live. own s a n \<and> block a n \<inter> F = {}) \<and>
     sorted_wrt (\<lambda>(a, n) (b, k). block a n \<inter> block b k = {}) live)"

lemma holds_start: "inv s F \<Longrightarrow> holds F s []"
  by (simp add: holds_def)

lemma holds_end: "holds M s [] \<Longrightarrow> inv s M"
  by (simp add: holds_def)

lemma holdsI:
  "inv s F \<Longrightarrow> F \<union> (\<Union>(a, n) \<in> set live. block a n) = M \<Longrightarrow>
   (\<And>a n. (a, n) \<in> set live \<Longrightarrow> own s a n \<and> block a n \<inter> F = {}) \<Longrightarrow>
   sorted_wrt (\<lambda>(a, n) (b, k). block a n \<inter> block b k = {}) live \<Longrightarrow> holds M s live"
  unfolding holds_def by blast

lemma get_holds:
  assumes "holds M s live" "valid n"
  shows "\<exists>a s'. get n s = Some (a, s') \<and> holds M s' (if a = NULL then live else live @ [(a, n)])"
proof -
  obtain F where F: "inv s F" "F \<union> (\<Union>(a, n) \<in> set live. block a n) = M"
    "\<And>a n. (a, n) \<in> set live \<Longrightarrow> own s a n \<and> block a n \<inter> F = {}"
    "sorted_wrt (\<lambda>(a, n) (b, k). block a n \<inter> block b k = {}) live"
    using assms(1) unfolding holds_def by blast
  obtain a s' where g: "get n s = Some (a, s')" using get_total[OF F(1) assms(2)] by blast
  have own: "own s' b k" if "(b, k) \<in> set live" for b k
    using get_own[OF F(1) assms(2) g] F(3)[OF that] by blast
  have "holds M s' (if a = NULL then live else live @ [(a, n)])"
  proof (cases "a = NULL")
    case True
    then have "inv s' F" using get_null[OF F(1) assms(2)] g by simp
    then have "holds M s' live" by (rule holdsI[OF _ F(2) _ F(4)]) (use F(3) own in blast)
    then show ?thesis using True by simp
  next
    case False
    have b: "block a n \<subseteq> F" "inv s' (F - block a n)" "own s' a n"
      using get_block[OF F(1) assms(2) g False] by blast+
    have "sorted_wrt (\<lambda>(a, n) (b, k). block a n \<inter> block b k = {}) (live @ [(a, n)])"
      using F(3,4) b(1) by (fastforce simp: sorted_wrt_append)
    moreover have "(F - block a n) \<union> (\<Union>(a, n) \<in> set (live @ [(a, n)]). block a n) = M" using b(1) F(2) by auto
    moreover have "own s' c k \<and> block c k \<inter> (F - block a n) = {}" if "(c, k) \<in> set (live @ [(a, n)])" for c k
    proof (cases "(c, k) \<in> set live")
      case True
      then show ?thesis using own F(3)[OF True] by blast
    next
      case False
      then have "c = a" "k = n" using that by auto
      then show ?thesis using b(3) by blast
    qed
    ultimately have "holds M s' (live @ [(a, n)])" by (intro holdsI[OF b(2)])
    then show ?thesis using False by simp
  qed
  with g show ?thesis by blast
qed

lemma put_holds:
  assumes "holds M s (xs @ (a, n) # ys)"
  shows "\<exists>s'. put a n s = Some s' \<and> holds M s' (xs @ ys)"
proof -
  let ?live = "xs @ (a, n) # ys"
  obtain F where F: "inv s F" "F \<union> (\<Union>(a, n) \<in> set ?live. block a n) = M"
    "\<And>a n. (a, n) \<in> set ?live \<Longrightarrow> own s a n \<and> block a n \<inter> F = {}"
    "sorted_wrt (\<lambda>(a, n) (b, k). block a n \<inter> block b k = {}) ?live"
    using assms unfolding holds_def by blast
  have a: "own s a n" "block a n \<inter> F = {}" using F(3)[of a n] by auto
  obtain s' where p: "put a n s = Some s'" "inv s' (F \<union> block a n)" using put_block[OF F(1) a] by blast
  have apart: "block b k \<inter> block a n = {}" if "(b, k) \<in> set (xs @ ys)" for b k
    using F(4) that by (auto simp: sorted_wrt_append)
  have own: "own s' b k \<and> block b k \<inter> (F \<union> block a n) = {}" if "(b, k) \<in> set (xs @ ys)" for b k
    using put_own[OF F(1) a p(1), of b k] F(3)[of b k] apart[OF that] that by auto
  have "sorted_wrt (\<lambda>(a, n) (b, k). block a n \<inter> block b k = {}) (xs @ ys)" using F(4) by (simp add: sorted_wrt_append)
  moreover have "F \<union> block a n \<union> (\<Union>(a, n) \<in> set (xs @ ys). block a n) = M" using F(2) by auto
  ultimately have "holds M s' (xs @ ys)"
    using p(2) own unfolding holds_def by (intro exI[of _ "F \<union> block a n"]) auto
  with p(1) show ?thesis by blast
qed

lemma store_holds:
  assumes "holds M s live" "(a, n) \<in> set live"
  shows "holds M (store a n j x s) live"
proof -
  obtain F where F: "inv s F" "F \<union> (\<Union>(a, n) \<in> set live. block a n) = M"
    "\<And>a n. (a, n) \<in> set live \<Longrightarrow> own s a n \<and> block a n \<inter> F = {}"
    "sorted_wrt (\<lambda>(a, n) (b, k). block a n \<inter> block b k = {}) live"
    using assms(1) unfolding holds_def by blast
  have a: "own s a n" "block a n \<inter> F = {}" using F(3)[OF assms(2)] by auto
  have "own (store a n j x s) b k" if "(b, k) \<in> set live" for b k
  proof (rule store_own[OF F(1) a(1)])
    show "own s b k" using F(3)[OF that] by blast
    obtain xs ys where l: "live = xs @ (a, n) # ys" using assms(2) by (meson split_list)
    show "(b, k) = (a, n) \<or> block b k \<inter> block a n = {}" using F(4) that by (auto simp: l sorted_wrt_append)
  qed
  then show ?thesis by (intro holdsI[OF store_inv[OF F(1) a] F(2) _ F(4)]) (use F(3) in blast)
qed

text \<open>However many requests are served in whatever order, no memory is lost or handed out twice.\<close>

lemma serve_holds:
  assumes "holds M s live" "\<And>n. r = Get n \<Longrightarrow> valid n"
  shows "\<exists>s' live'. serve get put store r (s, live) = Some (s', live') \<and> holds M s' live'"
proof (cases r)
  case (Get n)
  then show ?thesis using get_holds[OF assms(1) assms(2)[OF Get]] by auto
next
  case (Put i)
  show ?thesis
  proof (cases "i < length live")
    case True
    have "live = take i live @ (fst (live ! i), snd (live ! i)) # drop (Suc i) live"
      using True by (simp add: id_take_nth_drop)
    then have "\<exists>s'. put (fst (live ! i)) (snd (live ! i)) s = Some s' \<and> holds M s' (take i live @ drop (Suc i) live)"
      using put_holds assms(1) by metis
    then show ?thesis using Put True by auto
  qed (use Put assms(1) in simp)
next
  case (Store i j b)
  then show ?thesis using store_holds[OF assms(1), of "fst (live ! i)" "snd (live ! i)"] assms(1) by auto
qed

lemma serve_all_holds:
  assumes "holds M s live" "\<And>n. Get n \<in> set rs \<Longrightarrow> valid n"
  shows "\<exists>s' live'. c_each rs (serve get put store) (s, live) = Some (s', live') \<and> holds M s' live'"
  using assms
proof (induction rs arbitrary: s live)
  case (Cons r rs)
  obtain s1 live1 where r: "serve get put store r (s, live) = Some (s1, live1)" "holds M s1 live1"
    using serve_holds[OF Cons.prems(1), of r] Cons.prems(2) by auto
  then show ?case using Cons.IH[OF r(2)] Cons.prems(2) by auto
qed simp

lemma holds_apart:
  assumes "holds M s live" "i < j" "j < length live"
  shows "block (fst (live ! i)) (snd (live ! i)) \<inter> block (fst (live ! j)) (snd (live ! j)) = {}"
  using assms unfolding holds_def sorted_wrt_iff_nth_less split_beta by blast

lemma holds_free:
  assumes "holds M s live"
  shows "inv s (M - (\<Union>(a, n) \<in> set live. block a n))"
proof -
  obtain F where "inv s F" "F \<union> (\<Union>(a, n) \<in> set live. block a n) = M"
    "\<forall>(a, n) \<in> set live. own s a n \<and> block a n \<inter> F = {}"
    using assms unfolding holds_def by blast
  moreover from this have "M - (\<Union>(a, n) \<in> set live. block a n) = F" by fast
  ultimately show ?thesis by simp
qed

end

end
