(* ===== verification/Vmm_Zone.thy ===== *)
theory Vmm_Zone
  imports Variable_Queue Block_Allocator
begin

text \<open>
  The buddy page allocator of \<^verbatim>\<open>kern/vmm_zone.c\<close> (and \<open>vmm_floor_log2\<close> of
  \<^verbatim>\<open>kern/vmm_page.c\<close>, which it calls).  A zone holds, per order \<open>k\<close>, a queue of free blocks of
  \<open>2 ^ k\<close> pages.  The header \<^verbatim>\<open>vmb_free_node_t\<close> that the C code keeps inside every free block
  is modelled by typed heaps of the zone (\<open>nodes\<close> for order and buddy, \<open>free_link\<close> for the
  list link), indexed by the address of the block.

  Orders are \<open>nat\<close>; an index of \<open>free_area_list\<close> above \<open>max_order\<close> is outside the array the
  C code initialises and is the abnormal end \<open>None\<close>.  Part one is the model, part two the
  abstraction to sets of free bytes and the correctness of initialisation, allocation and
  release.
\<close>

section \<open>The model\<close>

definition log2_step :: "nat \<Rightarrow> u32 \<times> nat \<Rightarrow> u32 \<times> nat" where
  "log2_step k = (\<lambda>(n, pos). if n \<ge> push_bit k 1 then (drop_bit k n, pos + k) else (n, pos))"

definition vmm_floor_log2 :: "u32 \<Rightarrow> nat" where
  "vmm_floor_log2 n =
     (let (n, pos) = log2_step 16 (n, 0);
          (n, pos) = log2_step 8 (n, pos);
          (n, pos) = log2_step 4 (n, pos);
          (n, pos) = log2_step 2 (n, pos);
          pos = (if n \<ge> push_bit 1 1 then pos + 1 else pos)
      in if n = 0 then 0 else pos)"

record vmb_free_node =
  node_order :: nat
  node_buddy :: addr

record vmb_free_area =
  num_free :: int
  free_list :: qhead

record vmm_zone =
  free_area_list :: "nat \<Rightarrow> vmb_free_area"
  zone_start :: addr
  zone_num_pages :: u32
  max_order :: nat
  nodes :: "addr \<Rightarrow> vmb_free_node"
  free_link :: links

definition block_size :: "nat \<Rightarrow> u32" where
  "block_size k = push_bit k PAGE_SIZE"

definition set_node_order :: "addr \<Rightarrow> nat \<Rightarrow> vmm_zone \<Rightarrow> vmm_zone" where
  "set_node_order a k z = z\<lparr>nodes := (nodes z)(a := (nodes z a)\<lparr>node_order := k\<rparr>)\<rparr>"

definition set_node_buddy :: "addr \<Rightarrow> addr \<Rightarrow> vmm_zone \<Rightarrow> vmm_zone" where
  "set_node_buddy a b z = z\<lparr>nodes := (nodes z)(a := (nodes z a)\<lparr>node_buddy := b\<rparr>)\<rparr>"

text \<open>The two statement pairs the C code repeats: count and queue a block, uncount and
  unqueue it.\<close>

definition zone_push :: "nat \<Rightarrow> addr \<Rightarrow> vmm_zone \<Rightarrow> vmm_zone" where
  "zone_push k a z =
     (let fa = free_area_list z k;
          (h, l) = Q_INSERT_FRONT a (free_list fa, free_link z)
      in z\<lparr>free_area_list :=
              (free_area_list z)(k := \<lparr>num_free = num_free fa + 1, free_list = h\<rparr>),
            free_link := l\<rparr>)"

definition zone_pop :: "nat \<Rightarrow> addr \<Rightarrow> vmm_zone \<Rightarrow> vmm_zone" where
  "zone_pop k a z =
     (let fa = free_area_list z k;
          (h, l) = Q_REMOVE a (free_list fa, free_link z)
      in z\<lparr>free_area_list :=
              (free_area_list z)(k := \<lparr>num_free = num_free fa - 1, free_list = h\<rparr>),
            free_link := l\<rparr>)"

text \<open>\<open>vmm_buddy_init\<close>: the first pages of the region hold the free area table, the largest
  power of two of the remaining pages becomes one free block.\<close>

definition vmm_buddy_init :: "addr \<Rightarrow> u32 \<Rightarrow> vmm_zone \<Rightarrow> vmm_zone" where
  "vmm_buddy_init mem_start num_pages z =
     (let upper_order = vmm_floor_log2 num_pages;
          free_area_struct_pages = drop_bit 12 (12 * of_nat upper_order - 1) + 1;
          first_page = mem_start + push_bit 12 free_area_struct_pages;
          num_pages = num_pages - free_area_struct_pages;
          upper_order = vmm_floor_log2 num_pages;
          z = z\<lparr>free_area_list := (\<lambda>i. if i \<le> upper_order
                  then \<lparr>num_free = 0, free_list = Q_INIT_HEAD\<rparr> else free_area_list z i)\<rparr>;
          node = first_page;
          z = set_node_order node upper_order z;
          z = set_node_buddy node NULL z;
          z = zone_push upper_order node z
      in z\<lparr>max_order := upper_order\<rparr>)"

fun buddy_split_loop :: "nat \<Rightarrow> nat \<Rightarrow> addr \<Rightarrow> vmm_zone \<Rightarrow> vmm_zone" where
  "buddy_split_loop i order node z =
     (if order < i then
        let z = set_node_order node (node_order (nodes z node) - 1) z;
            new_node = node + block_size (node_order (nodes z node));
            z = set_node_order new_node (node_order (nodes z node)) z;
            z = set_node_buddy new_node node z;
            z = set_node_buddy node new_node z;
            z = zone_push (node_order (nodes z node)) new_node z
        in buddy_split_loop (i - 1) order node z
      else z)"

definition buddy_split_node :: "addr \<Rightarrow> nat \<Rightarrow> vmm_zone \<Rightarrow> addr \<times> vmm_zone" where
  "buddy_split_node node order z =
     (let z = buddy_split_loop (node_order (nodes z node)) order node z
      in if node_order (nodes z node) = order then (node, z) else (NULL, z))"

function buddy_get_loop :: "nat \<Rightarrow> nat \<Rightarrow> vmm_zone \<Rightarrow> addr \<times> vmm_zone" where
  "buddy_get_loop i order z =
     (if i \<le> max_order z then
        if num_free (free_area_list z i) = 0 then buddy_get_loop (Suc i) order z
        else
          let node = Q_GET_FRONT (free_list (free_area_list z i));
              z = zone_pop i node z
          in buddy_split_node node order z
      else (NULL, z))"
  by pat_completeness auto
termination by (relation "measure (\<lambda>(i, order, z). Suc (max_order z) - i)") auto

definition vmm_buddy_get_free_pages :: "nat \<Rightarrow> vmm_zone \<Rightarrow> addr \<times> vmm_zone" where
  "vmm_buddy_get_free_pages order z = buddy_get_loop order order z"

text \<open>One scan of a free list for a block that is adjacent to \<open>node\<close>: none, a block to merge
  with (and the address of the merged block), or \<open>node\<close> itself.\<close>

datatype buddy_scan_result = NoBuddy | Buddy addr addr | DoubleFree

fun buddy_scan :: "nat \<Rightarrow> addr \<Rightarrow> addr list \<Rightarrow> buddy_scan_result" where
  "buddy_scan i node [] = NoBuddy"
| "buddy_scan i node (curpos # rest) =
     (if curpos > node then
        (if node + block_size i \<noteq> curpos then buddy_scan i node rest else Buddy curpos node)
      else if curpos < node then
        (if curpos + block_size i = node then Buddy curpos curpos else buddy_scan i node rest)
      else DoubleFree)"

text \<open>The result is \<open>Inl z\<close> when the double free check returned, \<open>Inr (node, z)\<close> when the loop
  ended with a block to insert.\<close>

function buddy_free_loop ::
  "nat \<Rightarrow> addr \<Rightarrow> vmm_zone \<Rightarrow> (vmm_zone + addr \<times> vmm_zone) option" where
  "buddy_free_loop i node z =
     (if i \<le> max_order z then
        case Q_FOREACH (free_list (free_area_list z i), free_link z) of
          None \<Rightarrow> None
        | Some curs \<Rightarrow>
            (case buddy_scan i node curs of
               NoBuddy \<Rightarrow> Some (Inr (node, z))
             | DoubleFree \<Rightarrow> Some (Inl z)
             | Buddy curpos node' \<Rightarrow>
                 (let z = set_node_order node' (node_order (nodes z node') + 1) z;
                      z = zone_pop i curpos z
                  in buddy_free_loop (Suc i) node' z))
      else Some (Inr (node, z)))"
  by pat_completeness auto
termination
  by (relation "measure (\<lambda>(i, node, z). Suc (max_order z) - i)")
     (auto simp: set_node_order_def zone_pop_def Let_def split: prod.splits)

definition vmm_buddy_free_pages :: "addr \<Rightarrow> nat \<Rightarrow> vmm_zone \<Rightarrow> vmm_zone option" where
  "vmm_buddy_free_pages pgaddr order z =
     (let z = set_node_order pgaddr order z
      in case buddy_free_loop order pgaddr z of
           None \<Rightarrow> None
         | Some (Inl z) \<Rightarrow> Some z
         | Some (Inr (node, z)) \<Rightarrow>
             (if node_order (nodes z node) \<le> max_order z
              then Some (zone_push (node_order (nodes z node)) node z) else None))"

definition vmm_zone_init :: "addr \<Rightarrow> u32 \<Rightarrow> vmm_zone \<Rightarrow> vmm_zone" where
  "vmm_zone_init start num_pages z =
     (vmm_buddy_init start num_pages z)\<lparr>zone_start := start, zone_num_pages := num_pages\<rparr>"

declare buddy_split_loop.simps [simp del] buddy_get_loop.simps [simp del]
  buddy_free_loop.simps [simp del]

section \<open>The logarithm\<close>

lemma unat_bit: "j < 32 \<Longrightarrow> unat (push_bit j (1::u32)) = 2 ^ j"
  by (simp only: unsigned_push_bit_eq push_bit_eq_mult[where 'a = nat])
     (simp add: take_bit_nat_eq_self)

lemma log2_step:
  assumes "unat k = N div 2 ^ p" "unat k < 2 ^ (2 * j)" "unat k \<noteq> 0" "j < 32"
    and "log2_step j (k, p) = (m, q)"
  shows "unat m = N div 2 ^ q \<and> unat m < 2 ^ j \<and> unat m \<noteq> 0"
proof (cases "push_bit j 1 \<le> k")
  case True
  have ge: "2 ^ j \<le> unat k" using True unat_bit[OF assms(4)] by (simp add: word_le_nat_alt)
  have "m = drop_bit j k" and q: "q = p + j"
    using True assms(5) by (auto simp: log2_step_def)
  then have m: "unat m = unat k div 2 ^ j"
    by (simp only: unat_drop_bit_eq drop_bit_eq_div[where 'a = nat])
  have "unat k < 2 ^ j * 2 ^ j" using assms(2) by (simp add: mult_2 power_add)
  then have "unat k div 2 ^ j < 2 ^ j" by (simp add: less_mult_imp_div_less)
  moreover have "unat k div 2 ^ j \<noteq> 0" using ge by (simp add: div_eq_0_iff)
  moreover have "unat k div 2 ^ j = N div 2 ^ q"
    unfolding assms(1) q by (simp add: div_mult2_eq power_add)
  ultimately show ?thesis using m by simp
next
  case False
  then have "unat k < 2 ^ j" using unat_bit[OF assms(4)] by (simp add: word_le_nat_alt not_le)
  with False assms show ?thesis by (auto simp: log2_step_def)
qed

lemma vmm_floor_log2_bounds:
  assumes "n \<noteq> 0"
  shows "2 ^ vmm_floor_log2 n \<le> unat n \<and> unat n < 2 ^ (vmm_floor_log2 n + 1)"
proof -
  obtain n1 p1 where 1: "log2_step 16 (n, 0) = (n1, p1)" by fastforce
  obtain n2 p2 where 2: "log2_step 8 (n1, p1) = (n2, p2)" by fastforce
  obtain n3 p3 where 3: "log2_step 4 (n2, p2) = (n3, p3)" by fastforce
  obtain n4 p4 where 4: "log2_step 2 (n3, p3) = (n4, p4)" by fastforce
  have "unat n \<noteq> 0" "unat n < 2 ^ 32" using assms unsigned_less[of n] by (auto simp: unat_eq_0)
  then have s1: "unat n1 = unat n div 2 ^ p1 \<and> unat n1 < 2 ^ 16 \<and> unat n1 \<noteq> 0"
    using log2_step[of n "unat n" 0 16, OF _ _ _ _ 1] by simp
  then have s2: "unat n2 = unat n div 2 ^ p2 \<and> unat n2 < 2 ^ 8 \<and> unat n2 \<noteq> 0"
    using log2_step[of n1 "unat n" p1 8, OF _ _ _ _ 2] by simp
  then have s3: "unat n3 = unat n div 2 ^ p3 \<and> unat n3 < 2 ^ 4 \<and> unat n3 \<noteq> 0"
    using log2_step[of n2 "unat n" p2 4, OF _ _ _ _ 3] by simp
  then have s4: "unat n4 = unat n div 2 ^ p4 \<and> unat n4 < 2 ^ 2 \<and> unat n4 \<noteq> 0"
    using log2_step[of n3 "unat n" p3 2, OF _ _ _ _ 4] by simp
  define p where "p = (if n4 \<ge> push_bit 1 1 then p4 + 1 else p4)"
  have "n4 \<noteq> 0" using s4 by (simp add: unat_eq_0[symmetric])
  then have r: "vmm_floor_log2 n = p"
    by (simp add: vmm_floor_log2_def 1 2 3 4 p_def)
  have "unat n div 2 ^ p = 1"
  proof (cases "n4 \<ge> push_bit 1 1")
    case True
    then have "2 \<le> unat n4" by (simp add: word_le_nat_alt)
    moreover have "2 \<le> x \<Longrightarrow> x < 4 \<Longrightarrow> x div 2 = 1" for x :: nat by auto
    ultimately have "unat n4 div 2 = 1" using s4 by (metis numeral_Bit0 power2_eq_square mult_2)
    moreover have "unat n div 2 ^ (p4 + 1) = unat n div 2 ^ p4 div 2"
      by (simp only: power_add power_one_right div_mult2_eq)
    ultimately show ?thesis using s4 True by (simp add: p_def)
  next
    case False
    then have "unat n4 = 1" using s4 by (simp add: word_le_nat_alt)
    then show ?thesis using s4 False by (simp add: p_def)
  qed
  then have "2 ^ p \<le> unat n \<and> unat n < 2 ^ (p + 1)"
  proof -
    have lt: "unat n mod 2 ^ p < 2 ^ p" by simp
    have eq: "unat n = 2 ^ p + unat n mod 2 ^ p"
      using div_mult_mod_eq[of "unat n" "2 ^ p"] \<open>unat n div 2 ^ p = 1\<close> by simp
    have "(2::nat) ^ (p + 1) = 2 ^ p + 2 ^ p" by simp
    with lt eq show ?thesis by linarith
  qed
  then show ?thesis using r by simp
qed

section \<open>What the free lists stand for\<close>

text \<open>
  A free block of order \<open>k\<close> at \<open>a\<close> covers the bytes \<open>blk a k\<close>.  \<open>zone_inv lo z fl\<close>: the
  free lists of \<open>z\<close> are \<open>fl\<close>, their counters and node headers are right, all blocks are
  page aligned, lie between \<open>lo\<close> and \<open>lo + 2 ^ max_order\<close> pages, do not overlap, and no list
  holds two adjacent blocks (release merges eagerly).
\<close>

definition blk_len :: "nat \<Rightarrow> nat" where
  "blk_len k = 4096 * 2 ^ k"

definition blk :: "addr \<Rightarrow> nat \<Rightarrow> nat set" where
  "blk a k = {unat a ..< unat a + blk_len k}"

definition in_zone :: "nat \<Rightarrow> nat \<Rightarrow> addr \<Rightarrow> nat \<Rightarrow> bool" where
  "in_zone lo m a k \<longleftrightarrow> lo \<le> unat a \<and> 4096 dvd unat a \<and> unat a + blk_len k \<le> lo + blk_len m"

definition lists_ok :: "vmm_zone \<Rightarrow> (nat \<Rightarrow> addr list) \<Rightarrow> bool" where
  "lists_ok z fl \<longleftrightarrow> (\<forall>k. k \<le> max_order z \<longrightarrow>
     q_rep (free_list (free_area_list z k), free_link z) (fl k) \<and>
     num_free (free_area_list z k) = int (length (fl k)) \<and>
     (\<forall>a \<in> set (fl k). node_order (nodes z a) = k))"

definition blocks_ok :: "nat \<Rightarrow> nat \<Rightarrow> (nat \<Rightarrow> addr list) \<Rightarrow> bool" where
  "blocks_ok lo m fl \<longleftrightarrow>
     (\<forall>k a. a \<in> set (fl k) \<longrightarrow> k \<le> m \<and> in_zone lo m a k) \<and>
     (\<forall>k j a b. a \<in> set (fl k) \<longrightarrow> b \<in> set (fl j) \<longrightarrow> (a, k) \<noteq> (b, j) \<longrightarrow> blk a k \<inter> blk b j = {}) \<and>
     (\<forall>k a b. a \<in> set (fl k) \<longrightarrow> b \<in> set (fl k) \<longrightarrow> unat a + blk_len k \<noteq> unat b)"

definition zone_inv :: "nat \<Rightarrow> vmm_zone \<Rightarrow> (nat \<Rightarrow> addr list) \<Rightarrow> bool" where
  "zone_inv lo z fl \<longleftrightarrow> 0 < lo \<and> 4096 dvd lo \<and> lo + blk_len (max_order z) \<le> 2 ^ 32 \<and>
     lists_ok z fl \<and> blocks_ok lo (max_order z) fl"

definition free_bytes :: "(nat \<Rightarrow> addr list) \<Rightarrow> nat set" where
  "free_bytes fl = (\<Union>k. \<Union>a \<in> set (fl k). blk a k)"

lemma blk_len_pos [simp]: "0 < blk_len k"
  by (simp add: blk_len_def)

lemma blk_len_Suc: "blk_len (Suc k) = blk_len k + blk_len k"
  by (simp add: blk_len_def)

lemma blk_len_mono: "j \<le> k \<Longrightarrow> blk_len j \<le> blk_len k"
  by (simp add: blk_len_def)

lemma in_zone_mono: "in_zone lo m a k \<Longrightarrow> j \<le> k \<Longrightarrow> in_zone lo m a j"
  using blk_len_mono[of j k] unfolding in_zone_def by linarith

lemma blk_self [simp]: "unat a \<in> blk a k"
  by (simp add: blk_def)

lemma zone_push_simps [simp]:
  "max_order (zone_push k a z) = max_order z" "nodes (zone_push k a z) = nodes z"
  "max_order (zone_pop k a z) = max_order z" "nodes (zone_pop k a z) = nodes z"
  "max_order (set_node_order a i z) = max_order z" "max_order (set_node_buddy a b z) = max_order z"
  "node_order (nodes (set_node_order a i z) b) = (if b = a then i else node_order (nodes z b))"
  "node_order (nodes (set_node_buddy a c z) b) = node_order (nodes z b)"
  by (simp_all add: zone_push_def zone_pop_def set_node_order_def set_node_buddy_def Let_def
      split: prod.splits)

lemma zone_inv_member:
  assumes "zone_inv lo z fl" "a \<in> set (fl k)"
  shows "k \<le> max_order z \<and> in_zone lo (max_order z) a k \<and> node_order (nodes z a) = k"
  using assms by (auto simp: zone_inv_def blocks_ok_def lists_ok_def)

lemma zone_inv_lists: "zone_inv lo z fl \<Longrightarrow> lists_ok z fl"
  by (simp add: zone_inv_def)

lemma blocks_ok_disjoint_lists:
  "blocks_ok lo m fl \<Longrightarrow> j \<noteq> k \<Longrightarrow> set (fl j) \<inter> set (fl k) = {}"
  unfolding blocks_ok_def using blk_self by (metis Pair_inject disjoint_iff)

lemma block_size_unat: "blk_len k < 2 ^ 32 \<Longrightarrow> unat (block_size k) = blk_len k"
  by (simp only: block_size_def unsigned_push_bit_eq push_bit_eq_mult[where 'a = nat])
     (simp add: take_bit_nat_eq_self blk_len_def mult.commute)

lemma block_end:
  assumes "0 < unat a" "unat a + blk_len k \<le> 2 ^ 32" "c \<noteq> NULL"
  shows "a + block_size k = c \<longleftrightarrow> unat a + blk_len k = unat c"
proof -
  have b: "unat (block_size k) = blk_len k" using assms by (intro block_size_unat) simp
  show ?thesis
  proof (cases "unat a + blk_len k = 2 ^ 32")
    case True
    then have "unat (a + block_size k) = 0" by (simp add: unat_word_ariths b)
    then have "a + block_size k = 0" by (simp add: unat_eq_0)
    moreover have "unat c < 2 ^ 32" using unsigned_less[of c] by simp
    ultimately show ?thesis using True assms(3) by auto
  next
    case False
    then have "unat (a + block_size k) = unat a + blk_len k"
      using assms(2) b by (simp add: unat_word_ariths)
    then show ?thesis by (metis word_unat_eq_iff)
  qed
qed

lemma in_zone_end:
  assumes "in_zone lo m a k" "0 < lo" "lo + blk_len m \<le> 2 ^ 32"
  shows "0 < unat a \<and> unat a + blk_len k \<le> 2 ^ 32 \<and> a \<noteq> NULL"
  using assms by (auto simp: in_zone_def)

section \<open>Queueing and unqueueing a block\<close>

lemma blocks_ok_push:
  assumes inv: "blocks_ok lo m fl" and k: "k \<le> m" "in_zone lo m b k"
    and dis: "\<And>j a. a \<in> set (fl j) \<Longrightarrow> blk a j \<inter> blk b k = {}"
    and adj: "\<And>a. a \<in> set (fl k) \<Longrightarrow> unat a + blk_len k \<noteq> unat b \<and> unat b + blk_len k \<noteq> unat a"
  shows "blocks_ok lo m (fl(k := b # fl k))"
proof -
  have dis': "\<And>j a. a \<in> set (fl j) \<Longrightarrow> blk b k \<inter> blk a j = {}" using dis by blast
  show ?thesis
    using inv k dis dis' adj unfolding blocks_ok_def
    by (intro conjI allI impI; simp split: if_splits; elim disjE conjE; simp)
qed

lemma blocks_ok_pop:
  "blocks_ok lo m fl \<Longrightarrow> blocks_ok lo m (fl(k := remove1 b (fl k)))"
  using set_remove1_subset[of b "fl k"] unfolding blocks_ok_def
  by (intro conjI allI impI; simp split: if_splits; blast)

lemma zone_push_lists:
  assumes inv: "lists_ok z fl" and dl: "\<And>j. j \<noteq> k \<Longrightarrow> set (fl k) \<inter> set (fl j) = {}"
    and b: "b \<noteq> NULL" "\<And>j. b \<notin> set (fl j)" and k: "k \<le> max_order z" "node_order (nodes z b) = k"
  shows "lists_ok (zone_push k b z) (fl(k := b # fl k))"
proof -
  have r: "\<And>j. j \<le> max_order z \<Longrightarrow> q_rep (free_list (free_area_list z j), free_link z) (fl j)"
    using inv by (simp add: lists_ok_def)
  obtain h l where hl: "Q_INSERT_FRONT b (free_list (free_area_list z k), free_link z) = (h, l)"
    by fastforce
  have new: "q_rep (h, l) (b # fl k)"
    using vq.rep_ins_front[OF r[OF k(1)] b] hl by simp
  have old: "q_rep (free_list (free_area_list z j), l) (fl j)" if "j \<noteq> k" "j \<le> max_order z" for j
    using vq.other_ins_front[OF r[OF k(1)] r[OF that(2)] dl[OF that(1)] b(2)] hl by simp
  show ?thesis
    using inv new old k by (auto simp: lists_ok_def zone_push_def hl Let_def)
qed

lemma zone_pop_lists:
  assumes inv: "lists_ok z fl" and dl: "\<And>j. j \<noteq> k \<Longrightarrow> set (fl k) \<inter> set (fl j) = {}"
    and b: "b \<in> set (fl k)" and k: "k \<le> max_order z"
  shows "lists_ok (zone_pop k b z) (fl(k := remove1 b (fl k)))"
proof -
  have r: "\<And>j. j \<le> max_order z \<Longrightarrow> q_rep (free_list (free_area_list z j), free_link z) (fl j)"
    using inv by (simp add: lists_ok_def)
  obtain h l where hl: "Q_REMOVE b (free_list (free_area_list z k), free_link z) = (h, l)"
    by fastforce
  have new: "q_rep (h, l) (remove1 b (fl k))"
    using vq.rep_del[OF r[OF k] b] hl by simp
  have old: "q_rep (free_list (free_area_list z j), l) (fl j)" if "j \<noteq> k" "j \<le> max_order z" for j
    using vq.other_del[OF r[OF k] r[OF that(2)] dl[OF that(1)] b] hl by simp
  have len: "int (length (remove1 b (fl k))) = int (length (fl k)) - 1"
  proof -
    have "1 \<le> length (fl k)" using b by (cases "fl k") auto
    then show ?thesis by (simp add: length_remove1 b of_nat_diff)
  qed
  show ?thesis
    using inv new old k b len set_remove1_subset[of b "fl k"]
    by (auto simp: lists_ok_def zone_pop_def hl Let_def)
qed

lemma zone_inv_dl: "zone_inv lo z fl \<Longrightarrow> j \<noteq> k \<Longrightarrow> set (fl k) \<inter> set (fl j) = {}"
  using blocks_ok_disjoint_lists[of lo "max_order z" fl k j] by (auto simp: zone_inv_def)

lemma zone_inv_push:
  assumes inv: "zone_inv lo z fl" and k: "k \<le> max_order z" "in_zone lo (max_order z) b k"
    "node_order (nodes z b) = k"
    and dis: "\<And>j a. a \<in> set (fl j) \<Longrightarrow> blk a j \<inter> blk b k = {}"
    and adj: "\<And>a. a \<in> set (fl k) \<Longrightarrow> unat a + blk_len k \<noteq> unat b \<and> unat b + blk_len k \<noteq> unat a"
  shows "zone_inv lo (zone_push k b z) (fl(k := b # fl k))"
proof -
  have nb: "\<And>j. b \<notin> set (fl j)" using dis blk_self by blast
  have "b \<noteq> NULL" using inv in_zone_end[OF k(2)] by (simp add: zone_inv_def)
  then have "lists_ok (zone_push k b z) (fl(k := b # fl k))"
    using zone_push_lists[OF zone_inv_lists[OF inv] zone_inv_dl[OF inv] _ nb k(1,3)] by simp
  moreover have "blocks_ok lo (max_order z) (fl(k := b # fl k))"
    using inv k(1,2) dis adj by (intro blocks_ok_push) (auto simp: zone_inv_def)
  ultimately show ?thesis using inv by (simp add: zone_inv_def)
qed

lemma zone_inv_pop:
  assumes inv: "zone_inv lo z fl" and b: "b \<in> set (fl k)"
  shows "zone_inv lo (zone_pop k b z) (fl(k := remove1 b (fl k)))"
proof -
  have k: "k \<le> max_order z" using zone_inv_member[OF inv b] by simp
  have "lists_ok (zone_pop k b z) (fl(k := remove1 b (fl k)))"
    by (rule zone_pop_lists[OF zone_inv_lists[OF inv] zone_inv_dl[OF inv] b k])
  then show ?thesis using inv blocks_ok_pop[of lo "max_order z" fl k b] by (simp add: zone_inv_def)
qed

lemma zone_inv_set_order:
  "zone_inv lo z fl \<Longrightarrow> (\<And>j. b \<notin> set (fl j)) \<Longrightarrow> zone_inv lo (set_node_order b k z) fl"
  by (auto simp: zone_inv_def lists_ok_def set_node_order_def)

lemma zone_inv_set_buddy: "zone_inv lo z fl \<Longrightarrow> zone_inv lo (set_node_buddy b c z) fl"
  by (auto simp: zone_inv_def lists_ok_def set_node_buddy_def)

lemma free_bytes_push: "free_bytes (fl(k := b # fl k)) = free_bytes fl \<union> blk b k"
  by (auto simp: free_bytes_def split: if_splits) metis+

lemma free_bytes_pop:
  assumes "zone_inv lo z fl" "b \<in> set (fl k)"
  shows "free_bytes (fl(k := remove1 b (fl k))) = free_bytes fl - blk b k"
    and "\<And>j a. a \<in> set ((fl(k := remove1 b (fl k))) j) \<Longrightarrow> blk a j \<inter> blk b k = {}"
    and "blk b k \<subseteq> free_bytes fl"
proof -
  let ?fl = "fl(k := remove1 b (fl k))"
  have d: "distinct (fl k)"
    using assms zone_inv_member[OF assms] q_rep_distinct by (auto simp: zone_inv_def lists_ok_def)
  have mem: "a \<in> set (?fl j) \<longleftrightarrow> a \<in> set (fl j) \<and> (a, j) \<noteq> (b, k)" for a j
    using d by (auto split: if_splits)
  have dis: "a \<in> set (fl j) \<Longrightarrow> (a, j) \<noteq> (b, k) \<Longrightarrow> blk a j \<inter> blk b k = {}" for a j
    using assms unfolding zone_inv_def blocks_ok_def by blast
  show "\<And>j a. a \<in> set (?fl j) \<Longrightarrow> blk a j \<inter> blk b k = {}"
    using mem dis by blast
  show "blk b k \<subseteq> free_bytes fl" using assms(2) by (auto simp: free_bytes_def)
  show "free_bytes ?fl = free_bytes fl - blk b k"
  proof
    show "free_bytes ?fl \<subseteq> free_bytes fl - blk b k"
      using mem dis unfolding free_bytes_def by blast
    show "free_bytes fl - blk b k \<subseteq> free_bytes ?fl"
      using mem unfolding free_bytes_def by blast
  qed
qed

section \<open>Allocation\<close>

lemma in_zone_half:
  assumes "in_zone lo m a (Suc k)" "0 < lo" "lo + blk_len m \<le> 2 ^ 32"
  shows "in_zone lo m a k" "unat (a + block_size k) = unat a + blk_len k"
    "in_zone lo m (a + block_size k) k"
proof -
  have le: "unat a + (blk_len k + blk_len k) \<le> lo + blk_len m" "lo \<le> unat a" "4096 dvd unat a"
    using assms(1) by (auto simp: in_zone_def blk_len_Suc)
  have lt: "unat a + blk_len k < 2 ^ 32"
    using le assms(3) blk_len_pos[of k] by linarith
  then have "unat (block_size k) = blk_len k" by (intro block_size_unat) linarith
  with lt show u: "unat (a + block_size k) = unat a + blk_len k"
    by (simp add: unat_word_ariths)
  show "in_zone lo m a k" using le by (auto simp: in_zone_def)
  have "4096 dvd blk_len k" by (simp add: blk_len_def)
  with le u show "in_zone lo m (a + block_size k) k" by (auto simp: in_zone_def)
qed

lemma blk_halves:
  assumes "unat (a + block_size k) = unat a + blk_len k"
  shows "blk a (Suc k) = blk a k \<union> blk (a + block_size k) k" "blk a k \<inter> blk (a + block_size k) k = {}"
  using assms by (auto simp: blk_def blk_len_Suc)

text \<open>Splitting a block that is not on any list: the upper halves go to the free lists.\<close>

lemma buddy_split_loop_correct:
  assumes "zone_inv lo z fl" "order \<le> i" "i \<le> max_order z" "in_zone lo (max_order z) a i"
    "node_order (nodes z a) = i"
    "\<And>j b. b \<in> set (fl j) \<Longrightarrow> blk b j \<inter> blk a i = {}"
    "\<And>k. order \<le> k \<Longrightarrow> k < i \<Longrightarrow> fl k = []"
  shows "\<exists>fl'. zone_inv lo (buddy_split_loop i order a z) fl' \<and>
    max_order (buddy_split_loop i order a z) = max_order z \<and>
    node_order (nodes (buddy_split_loop i order a z) a) = order \<and>
    free_bytes fl' = free_bytes fl \<union> (blk a i - blk a order) \<and>
    (\<forall>j b. b \<in> set (fl' j) \<longrightarrow> blk b j \<inter> blk a order = {})"
  using assms
proof (induction i arbitrary: z fl)
  case 0
  then show ?case by (intro exI[of _ fl]) (simp add: buddy_split_loop.simps)
next
  case (Suc k)
  show ?case
  proof (cases "order < Suc k")
    case False
    with Suc.prems have "order = Suc k" by simp
    with Suc.prems show ?thesis
      by (intro exI[of _ fl]) (simp add: buddy_split_loop.simps[of "Suc k"])
  next
    case True
    define b where "b = a + block_size k"
    define z1 where "z1 = set_node_buddy a b (set_node_buddy b a (set_node_order b k (set_node_order a k z)))"
    have lo: "0 < lo" "lo + blk_len (max_order z) \<le> 2 ^ 32"
      using Suc.prems(1) by (auto simp: zone_inv_def)
    note half = in_zone_half[OF Suc.prems(4) lo]
    note halves = blk_halves[OF half(2)]
    have ab: "a \<noteq> b" using half(2) blk_len_pos[of k] unfolding b_def by (metis add_cancel_right_right less_not_refl)
    have na: "\<And>j. a \<notin> set (fl j)" using Suc.prems(6) blk_self by blast
    have nb: "\<And>j. b \<notin> set (fl j)" using Suc.prems(6) halves(1) blk_self unfolding b_def by blast
    have inv1: "zone_inv lo z1 fl"
      unfolding z1_def
      by (intro zone_inv_set_buddy zone_inv_set_order Suc.prems(1) na nb)
    have nil: "fl k = []" using Suc.prems(7) True by simp
    define z2 where "z2 = zone_push k b z1"
    define fl2 where "fl2 = fl(k := b # fl k)"
    have disb: "\<And>j c. c \<in> set (fl j) \<Longrightarrow> blk c j \<inter> blk b k = {}"
      using Suc.prems(6) halves unfolding b_def by blast
    have inv2: "zone_inv lo z2 fl2"
      unfolding z2_def fl2_def
    proof (rule zone_inv_push[OF inv1])
      show "in_zone lo (max_order z1) b k" using half(3) by (simp add: z1_def b_def)
      show "k \<le> max_order z1" using Suc.prems(3) by (simp add: z1_def)
      show "node_order (nodes z1 b) = k" using ab by (simp add: z1_def)
    qed (use disb nil in auto)
    have step: "buddy_split_loop (Suc k) order a z = buddy_split_loop k order a z2"
      using True Suc.prems(5) ab
      by (subst buddy_split_loop.simps) (simp add: Let_def z1_def z2_def b_def)
    have "\<exists>fl'. zone_inv lo (buddy_split_loop k order a z2) fl' \<and>
      max_order (buddy_split_loop k order a z2) = max_order z2 \<and>
      node_order (nodes (buddy_split_loop k order a z2) a) = order \<and>
      free_bytes fl' = free_bytes fl2 \<union> (blk a k - blk a order) \<and>
      (\<forall>j b. b \<in> set (fl' j) \<longrightarrow> blk b j \<inter> blk a order = {})"
    proof (rule Suc.IH[OF inv2])
      show "\<And>j c. c \<in> set (fl2 j) \<Longrightarrow> blk c j \<inter> blk a k = {}"
        using Suc.prems(6) halves unfolding b_def fl2_def by (auto split: if_splits)
      show "\<And>j. order \<le> j \<Longrightarrow> j < k \<Longrightarrow> fl2 j = []"
        using Suc.prems(7) by (simp add: fl2_def)
    qed (use Suc.prems True half in \<open>simp_all add: z2_def z1_def\<close>)
    moreover have "free_bytes fl2 \<union> (blk a k - blk a order) = free_bytes fl \<union> (blk a (Suc k) - blk a order)"
    proof -
      have "blk a order \<subseteq> blk a k"
        using True by (auto simp: blk_def blk_len_def intro: order_less_le_trans)
      then show ?thesis
        using halves by (auto simp: fl2_def free_bytes_push b_def)
    qed
    ultimately show ?thesis unfolding step by (simp add: z2_def z1_def)
  qed
qed

text \<open>
  Allocation.  \<open>alloc_post\<close>: the returned block was free, is now out of the free bytes, and
  nothing else changed hands.
\<close>

definition alloc_post :: "nat \<Rightarrow> nat \<Rightarrow> (nat \<Rightarrow> addr list) \<Rightarrow> addr \<Rightarrow> vmm_zone \<Rightarrow> bool" where
  "alloc_post lo order fl a z' \<longleftrightarrow>
     (\<exists>fl'. zone_inv lo z' fl' \<and> in_zone lo (max_order z') a order \<and> a \<noteq> NULL \<and>
        blk a order \<subseteq> free_bytes fl \<and> free_bytes fl' = free_bytes fl - blk a order)"

lemma buddy_get_loop_correct:
  assumes "zone_inv lo z fl" "order \<le> i" "\<And>k. order \<le> k \<Longrightarrow> k < i \<Longrightarrow> fl k = []"
    and "buddy_get_loop i order z = (a, z')"
  shows "if \<exists>k \<le> max_order z. order \<le> k \<and> fl k \<noteq> []
         then alloc_post lo order fl a z' \<and> max_order z' = max_order z
         else a = NULL \<and> z' = z"
  using assms
proof (induction i order z rule: buddy_get_loop.induct)
  case (1 i order z)
  note inv = "1.prems"(1)
  show ?case
  proof (cases "i \<le> max_order z")
    case False
    with "1.prems" show ?thesis by (auto simp: buddy_get_loop.simps[of i])
  next
    case le: True
    have lists: "q_rep (free_list (free_area_list z i), free_link z) (fl i)"
      "num_free (free_area_list z i) = int (length (fl i))"
      using inv le by (auto simp: zone_inv_def lists_ok_def)
    show ?thesis
    proof (cases "fl i = []")
      case True
      have "buddy_get_loop i order z = buddy_get_loop (Suc i) order z"
        using le True lists by (simp add: buddy_get_loop.simps[of i])
      moreover have "\<And>k. order \<le> k \<Longrightarrow> k < Suc i \<Longrightarrow> fl k = []"
        using True "1.prems"(3) by (metis less_Suc_eq)
      ultimately show ?thesis
        using "1.IH"[OF le _ inv] True lists "1.prems" by simp
    next
      case False
      define node where "node = hd (fl i)"
      have mem: "node \<in> set (fl i)" using False by (simp add: node_def)
      define z1 where "z1 = zone_pop i node z"
      define fl1 where "fl1 = fl(i := remove1 node (fl i))"
      have m: "in_zone lo (max_order z) node i" "node_order (nodes z node) = i"
        using zone_inv_member[OF inv mem] by auto
      have inv1: "zone_inv lo z1 fl1"
        unfolding z1_def fl1_def by (rule zone_inv_pop[OF inv mem])
      note fb = free_bytes_pop[OF inv mem, folded fl1_def]
      have eq: "buddy_get_loop i order z = buddy_split_node node order z1"
        using le False lists vq.rep_front[OF lists(1)]
        by (simp add: buddy_get_loop.simps[of i] z1_def node_def Let_def)
      obtain fl' where fl': "zone_inv lo (buddy_split_loop i order node z1) fl'"
        "max_order (buddy_split_loop i order node z1) = max_order z1"
        "node_order (nodes (buddy_split_loop i order node z1) node) = order"
        "free_bytes fl' = free_bytes fl1 \<union> (blk node i - blk node order)"
        using buddy_split_loop_correct[OF inv1 "1.prems"(2), of node] le m fb(2) "1.prems"(3)
        by (auto simp: z1_def fl1_def)
      have res: "a = node" "z' = buddy_split_loop i order node z1"
        using "1.prems"(4) fl'(3) m by (auto simp: eq buddy_split_node_def Let_def z1_def)
      have sub: "blk node order \<subseteq> blk node i"
        using "1.prems"(2) by (auto simp: blk_def blk_len_def intro: order_less_le_trans)
      have "in_zone lo (max_order z) node order"
        by (rule in_zone_mono[OF m(1) "1.prems"(2)])
      moreover have "node \<noteq> NULL"
        using in_zone_end[OF m(1)] inv by (simp add: zone_inv_def)
      ultimately have "alloc_post lo order fl a z'"
        unfolding alloc_post_def res
        using fl' fb sub by (intro exI[of _ fl']) (auto simp: z1_def)
      then show ?thesis using le False "1.prems"(2) res fl'(2) by (auto simp: z1_def)
    qed
  qed
qed

lemma buddy_alloc_post:
  assumes "zone_inv lo z fl" "vmm_buddy_get_free_pages order z = (a, z')"
  shows "if \<exists>k \<le> max_order z. order \<le> k \<and> fl k \<noteq> []
         then alloc_post lo order fl a z' \<and> max_order z' = max_order z
         else a = NULL \<and> z' = z"
  using buddy_get_loop_correct[OF assms(1) order_refl _ assms(2)[unfolded vmm_buddy_get_free_pages_def]]
  by simp

section \<open>Release\<close>

lemma buddy_scan_cases:
  "(buddy_scan i node xs = NoBuddy \<longrightarrow>
      (\<forall>c \<in> set xs. c \<noteq> node \<and> (node < c \<longrightarrow> node + block_size i \<noteq> c) \<and>
         (c < node \<longrightarrow> c + block_size i \<noteq> node))) \<and>
   (buddy_scan i node xs = DoubleFree \<longrightarrow> node \<in> set xs) \<and>
   (\<forall>c n. buddy_scan i node xs = Buddy c n \<longrightarrow> c \<in> set xs \<and>
      (node < c \<and> node + block_size i = c \<and> n = node \<or>
       c < node \<and> c + block_size i = node \<and> n = c))"
  by (induction xs) (auto simp: not_less_iff_gr_or_eq)

lemma zone_pop_set_order:
  "zone_pop i c (set_node_order n k z) = set_node_order n k (zone_pop i c z)"
  by (simp add: zone_pop_def set_node_order_def Let_def split: prod.splits)

lemma merged_block:
  assumes "0 < lo" "lo + blk_len m \<le> 2 ^ 32" "in_zone lo m a i" "in_zone lo m b i"
    and "a + block_size i = b"
  shows "unat b = unat a + blk_len i" "blk a (Suc i) = blk a i \<union> blk b i" "in_zone lo m a (Suc i)"
    "Suc i \<le> m"
proof -
  note e = in_zone_end[OF assms(3,1,2)] in_zone_end[OF assms(4,1,2)]
  show u: "unat b = unat a + blk_len i"
    using block_end[of a i b] e assms(5) by simp
  then show "blk a (Suc i) = blk a i \<union> blk b i" by (auto simp: blk_def blk_len_Suc)
  show z: "in_zone lo m a (Suc i)" using assms(3,4) u by (auto simp: in_zone_def blk_len_Suc)
  then have "blk_len (Suc i) \<le> blk_len m" by (auto simp: in_zone_def)
  then show "Suc i \<le> m" unfolding blk_len_def by (simp del: power_Suc)
qed

definition merge_post :: "nat \<Rightarrow> nat set \<Rightarrow> addr \<Rightarrow> vmm_zone \<Rightarrow> nat \<Rightarrow> bool" where
  "merge_post lo bytes node z m \<longleftrightarrow>
     (\<exists>fl k. zone_inv lo z fl \<and> max_order z = m \<and> k \<le> m \<and> node_order (nodes z node) = k \<and>
        in_zone lo m node k \<and>
        (\<forall>j a. a \<in> set (fl j) \<longrightarrow> blk a j \<inter> blk node k = {}) \<and>
        (\<forall>a \<in> set (fl k). unat a + blk_len k \<noteq> unat node \<and> unat node + blk_len k \<noteq> unat a) \<and>
        free_bytes fl \<union> blk node k = bytes)"

lemma buddy_free_loop_correct:
  assumes "zone_inv lo z fl" "i \<le> max_order z" "in_zone lo (max_order z) node i"
    "node_order (nodes z node) = i"
    "\<And>j a. a \<in> set (fl j) \<Longrightarrow> blk a j \<inter> blk node i = {}"
  shows "\<exists>node' z'. buddy_free_loop i node z = Some (Inr (node', z')) \<and>
     merge_post lo (free_bytes fl \<union> blk node i) node' z' (max_order z)"
  using assms
proof (induction "max_order z - i" arbitrary: i node z fl rule: less_induct)
  case less
  note inv = less.prems(1) and i = less.prems(2) and nz = less.prems(3)
  have lo: "0 < lo" "lo + blk_len (max_order z) \<le> 2 ^ 32"
    using inv by (auto simp: zone_inv_def)
  have "q_rep (free_list (free_area_list z i), free_link z) (fl i)"
    using inv i by (auto simp: zone_inv_def lists_ok_def)
  then have walk: "Q_FOREACH (free_list (free_area_list z i), free_link z) = Some (fl i)"
    by (rule Q_FOREACH_rep)
  have notin: "\<And>j. node \<notin> set (fl j)" using less.prems(5) blk_self by blast
  note scan = buddy_scan_cases[of i node "fl i"]
  show ?case
  proof (cases "buddy_scan i node (fl i)")
    case NoBuddy
    have adj: "unat a + blk_len i \<noteq> unat node \<and> unat node + blk_len i \<noteq> unat a"
      if a: "a \<in> set (fl i)" for a
    proof -
      have az: "in_zone lo (max_order z) a i" using zone_inv_member[OF inv a] by simp
      note ea = in_zone_end[OF az lo] and en = in_zone_end[OF nz lo]
      have "a \<noteq> node \<and> (node < a \<longrightarrow> node + block_size i \<noteq> a) \<and> (a < node \<longrightarrow> a + block_size i \<noteq> node)"
        using scan NoBuddy a by simp
      moreover have "unat a + blk_len i = unat node \<Longrightarrow> a < node"
        "unat node + blk_len i = unat a \<Longrightarrow> node < a"
        using blk_len_pos[of i] unfolding word_less_nat_alt by linarith+
      moreover have "a + block_size i = node \<longleftrightarrow> unat a + blk_len i = unat node"
        "node + block_size i = a \<longleftrightarrow> unat node + blk_len i = unat a"
        using block_end[of a i node] block_end[of node i a] ea en by simp_all
      ultimately show ?thesis by metis
    qed
    have "buddy_free_loop i node z = Some (Inr (node, z))"
      using i walk NoBuddy by (simp add: buddy_free_loop.simps[of i])
    moreover have "merge_post lo (free_bytes fl \<union> blk node i) node z (max_order z)"
      unfolding merge_post_def using less.prems adj by (intro exI[of _ fl] exI[of _ i]) auto
    ultimately show ?thesis by blast
  next
    case DoubleFree
    then show ?thesis using scan notin by simp
  next
    case (Buddy c n)
    then have c: "c \<in> set (fl i)"
      and cn: "node < c \<and> node + block_size i = c \<and> n = node \<or>
               c < node \<and> c + block_size i = node \<and> n = c"
      using scan by auto
    have cz: "in_zone lo (max_order z) c i" "node_order (nodes z c) = i"
      using zone_inv_member[OF inv c] by auto
    define z1 where "z1 = set_node_order n (Suc i) (zone_pop i c z)"
    define fl1 where "fl1 = fl(i := remove1 c (fl i))"
    note fb = free_bytes_pop[OF inv c, folded fl1_def]
    have merged: "blk n (Suc i) = blk node i \<union> blk c i" "in_zone lo (max_order z) n (Suc i)"
      "Suc i \<le> max_order z"
      using cn merged_block[OF lo nz cz(1)] merged_block[OF lo cz(1) nz] by auto
    have dis1: "blk a j \<inter> blk n (Suc i) = {}" if "a \<in> set (fl1 j)" for a j
    proof -
      have "a \<in> set (fl j)"
        using that set_remove1_subset[of c "fl i"] by (auto simp: fl1_def split: if_splits)
      then show ?thesis using less.prems(5) fb(2)[OF that] merged(1) by blast
    qed
    have n1: "\<And>j. n \<notin> set (fl1 j)" using dis1 blk_self by blast
    have inv1: "zone_inv lo z1 fl1"
      unfolding z1_def using zone_inv_pop[OF inv c] n1
      by (intro zone_inv_set_order) (simp_all add: fl1_def)
    have ordn: "node_order (nodes z n) = i" using cn cz less.prems(4) by auto
    have step: "buddy_free_loop i node z = buddy_free_loop (Suc i) n z1"
      using i walk Buddy ordn
      by (simp add: buddy_free_loop.simps[of i] Let_def z1_def zone_pop_set_order)
    have "\<exists>node' z'. buddy_free_loop (Suc i) n z1 = Some (Inr (node', z')) \<and>
       merge_post lo (free_bytes fl1 \<union> blk n (Suc i)) node' z' (max_order z1)"
      by (rule less.hyps[OF _ inv1])
         (use merged dis1 in \<open>auto simp: z1_def\<close>)
    moreover have "free_bytes fl1 \<union> blk n (Suc i) = free_bytes fl \<union> blk node i"
      using fb merged(1) by blast
    ultimately show ?thesis unfolding step by (simp add: z1_def)
  qed
qed

lemma buddy_free_post:
  assumes inv: "zone_inv lo z fl" and k: "order \<le> max_order z"
    and z: "in_zone lo (max_order z) a order" and dis: "blk a order \<inter> free_bytes fl = {}"
  shows "\<exists>z' fl'. vmm_buddy_free_pages a order z = Some z' \<and> zone_inv lo z' fl' \<and>
           max_order z' = max_order z \<and> free_bytes fl' = free_bytes fl \<union> blk a order"
proof -
  have d: "\<And>j b. b \<in> set (fl j) \<Longrightarrow> blk b j \<inter> blk a order = {}"
    using dis by (auto simp: free_bytes_def)
  then have n: "\<And>j. a \<notin> set (fl j)" using blk_self by blast
  define z1 where "z1 = set_node_order a order z"
  have inv1: "zone_inv lo z1 fl" unfolding z1_def by (rule zone_inv_set_order[OF inv n])
  obtain node z2 where loop: "buddy_free_loop order a z1 = Some (Inr (node, z2))"
    and post: "merge_post lo (free_bytes fl \<union> blk a order) node z2 (max_order z)"
    using buddy_free_loop_correct[OF inv1, of order a] k z d by (auto simp: z1_def)
  from post obtain fl2 j where m: "zone_inv lo z2 fl2" "max_order z2 = max_order z"
    "j \<le> max_order z" "node_order (nodes z2 node) = j" "in_zone lo (max_order z) node j"
    "\<forall>i b. b \<in> set (fl2 i) \<longrightarrow> blk b i \<inter> blk node j = {}"
    "\<forall>b \<in> set (fl2 j). unat b + blk_len j \<noteq> unat node \<and> unat node + blk_len j \<noteq> unat b"
    "free_bytes fl2 \<union> blk node j = free_bytes fl \<union> blk a order"
    unfolding merge_post_def by blast
  have "zone_inv lo (zone_push j node z2) (fl2(j := node # fl2 j))"
    by (rule zone_inv_push[OF m(1)]) (use m in auto)
  moreover have "vmm_buddy_free_pages a order z = Some (zone_push j node z2)"
    using loop m by (simp add: vmm_buddy_free_pages_def z1_def[symmetric])
  ultimately show ?thesis using m by (auto simp: free_bytes_push)
qed

text \<open>
  The double free check finds every block that is already on the list of the order it is
  released with: no other block of that list is adjacent to it, so the scan cannot stop
  earlier.  The zone is left as it was.
\<close>

lemma buddy_double_free:
  assumes inv: "zone_inv lo z fl" and a: "a \<in> set (fl order)"
  shows "vmm_buddy_free_pages a order z = Some z"
proof -
  have k: "order \<le> max_order z" and az: "in_zone lo (max_order z) a order"
    and ord: "node_order (nodes z a) = order"
    using zone_inv_member[OF inv a] by auto
  have lo: "0 < lo" "lo + blk_len (max_order z) \<le> 2 ^ 32" using inv by (auto simp: zone_inv_def)
  have same: "set_node_order a order z = z"
    using ord by (cases z) (auto simp: set_node_order_def fun_upd_idem)
  have "q_rep (free_list (free_area_list z order), free_link z) (fl order)"
    using inv k by (auto simp: zone_inv_def lists_ok_def)
  then have walk: "Q_FOREACH (free_list (free_area_list z order), free_link z) = Some (fl order)"
    by (rule Q_FOREACH_rep)
  have "buddy_scan order a xs = DoubleFree" if "set xs \<subseteq> set (fl order)" "a \<in> set xs" for xs
    using that
  proof (induction xs)
    case (Cons c xs)
    then have c: "c \<in> set (fl order)" by simp
    have cz: "in_zone lo (max_order z) c order" using zone_inv_member[OF inv c] by simp
    have "unat c + blk_len order \<noteq> unat a" "unat a + blk_len order \<noteq> unat c"
      using inv a c by (auto simp: zone_inv_def blocks_ok_def)
    then have "c + block_size order \<noteq> a" "a + block_size order \<noteq> c"
      using block_end[of c order a] block_end[of a order c] in_zone_end[OF az lo] in_zone_end[OF cz lo]
      by auto
    then show ?case using Cons by (auto simp: not_less_iff_gr_or_eq)
  qed simp
  then have "buddy_scan order a (fl order) = DoubleFree" using a by simp
  then show ?thesis
    using k walk by (simp add: vmm_buddy_free_pages_def same buddy_free_loop.simps[of order])
qed

section \<open>Initialisation\<close>

lemma vmm_floor_log2_le: "vmm_floor_log2 n < 32"
proof (cases "n = 0")
  case False
  have "unat n < 2 ^ 32" using unsigned_less[of n] by simp
  then have "(2::nat) ^ vmm_floor_log2 n < 2 ^ 32"
    using vmm_floor_log2_bounds[OF False] by linarith
  then show ?thesis by (simp only: power_strict_increasing_iff[of "2::nat"])
qed (simp add: vmm_floor_log2_def log2_step_def)

lemma free_area_pages:
  assumes "1 \<le> u" "u < 32"
  shows "drop_bit 12 (12 * of_nat u - 1 :: u32) + 1 = 1"
proof -
  have "unat (12 * of_nat u :: u32) = 12 * u"
    using assms by (simp add: unat_word_ariths unat_of_nat)
  then have "unat (12 * of_nat u - 1 :: u32) = 12 * u - 1"
    using assms by (subst unat_sub) (simp_all add: word_le_nat_alt)
  then have "unat (drop_bit 12 (12 * of_nat u - 1 :: u32)) = (12 * u - 1) div 4096"
    by (simp only: unat_drop_bit_eq drop_bit_eq_div[where 'a = nat]) simp
  then have "drop_bit 12 (12 * of_nat u - 1 :: u32) = 0"
    using assms by (simp add: unat_eq_0[symmetric] del: unat_eq_0)
  then show ?thesis by simp
qed

lemma vmm_zone_init_post:
  assumes start: "start \<noteq> NULL" "4096 dvd unat start" and n: "2 \<le> unat num_pages"
    and fits: "unat start + 4096 * unat num_pages \<le> 2 ^ 32"
  shows "\<exists>fl. zone_inv (unat start + 4096) (vmm_zone_init start num_pages z) fl \<and>
    max_order (vmm_zone_init start num_pages z) = vmm_floor_log2 (num_pages - 1) \<and>
    free_bytes fl = {unat start + 4096 ..< unat start + 4096 + 4096 * 2 ^ vmm_floor_log2 (num_pages - 1)}"
proof -
  define u where "u = vmm_floor_log2 num_pages"
  define m where "m = vmm_floor_log2 (num_pages - 1)"
  define a where "a = start + PAGE_SIZE"
  define lo where "lo = unat start + 4096"
  have nn: "num_pages \<noteq> 0" "1 \<le> num_pages" using n by (auto simp: word_le_nat_alt unat_eq_0[symmetric])
  have u: "1 \<le> u" "u < 32"
  proof -
    have "unat num_pages < 2 ^ (u + 1)" using vmm_floor_log2_bounds[OF nn(1)] by (simp add: u_def)
    then have "u \<noteq> 0" using n by (cases u) auto
    then show "1 \<le> u" by simp
  qed (simp add: u_def vmm_floor_log2_le)
  have fp: "drop_bit 12 (12 * of_nat u - 1 :: u32) + 1 = 1" by (rule free_area_pages[OF u])
  have pm: "unat (num_pages - 1) = unat num_pages - 1" using nn(2) by (subst unat_sub) simp_all
  then have "num_pages - 1 \<noteq> 0" using n by (auto simp: unat_eq_0[symmetric])
  from vmm_floor_log2_bounds[OF this] pm have m: "2 ^ m \<le> unat num_pages - 1" by (simp add: m_def)
  have au: "unat a = lo"
    unfolding a_def lo_def using fits n by (subst unat_add_no_wrap) simp_all
  have hi: "lo + blk_len m \<le> 2 ^ 32" using fits m n by (simp add: lo_def blk_len_def)
  define z0 where "z0 = z\<lparr>free_area_list := (\<lambda>i. if i \<le> m
                  then \<lparr>num_free = 0, free_list = Q_INIT_HEAD\<rparr> else free_area_list z i)\<rparr>"
  define z1 where "z1 = (zone_push m a (set_node_buddy a NULL (set_node_order a m z0)))\<lparr>max_order := m\<rparr>"
  have init: "vmm_zone_init start num_pages z = z1\<lparr>zone_start := start, zone_num_pages := num_pages\<rparr>"
    by (simp add: vmm_zone_init_def vmm_buddy_init_def Let_def u_def[symmetric] fp m_def[symmetric]
        z1_def z0_def a_def)
  define zi where "zi = z0\<lparr>max_order := m\<rparr>"
  have z1': "z1 = zone_push m a (set_node_buddy a NULL (set_node_order a m zi))"
    by (simp add: z1_def zi_def z0_def zone_push_def set_node_buddy_def set_node_order_def Let_def
        split: prod.splits)
  have base: "zone_inv lo zi (\<lambda>k. [])"
    using hi start by (auto simp: zone_inv_def lists_ok_def blocks_ok_def zi_def z0_def q_rep_empty lo_def)
  have "zone_inv lo z1 ((\<lambda>k. [])(m := a # []))"
    unfolding z1'
    by (rule zone_inv_push) (use base hi start au in
        \<open>auto intro!: zone_inv_set_buddy zone_inv_set_order simp: zi_def in_zone_def lo_def\<close>)
  then have inv: "zone_inv lo (z1\<lparr>zone_start := start, zone_num_pages := num_pages\<rparr>) ((\<lambda>k. [])(m := [a]))"
    by (simp add: zone_inv_def lists_ok_def)
  have "free_bytes ((\<lambda>k. [])(m := [a])) = {lo ..< lo + 4096 * 2 ^ m}"
    by (auto simp: free_bytes_def blk_def blk_len_def au split: if_splits)
  with inv init show ?thesis
    by (intro exI[of _ "(\<lambda>k. [])(m := [a])"]) (simp add: lo_def m_def z1_def)
qed

section \<open>The allocator as an implementation of its interface\<close>

definition zone_avail :: "nat \<Rightarrow> vmm_zone \<Rightarrow> nat set \<Rightarrow> bool" where
  "zone_avail lo z F \<longleftrightarrow> (\<exists>fl. zone_inv lo z fl \<and> free_bytes fl = F)"

definition zone_own :: "nat \<Rightarrow> vmm_zone \<Rightarrow> addr \<Rightarrow> nat \<Rightarrow> bool" where
  "zone_own lo z a k \<longleftrightarrow> k \<le> max_order z \<and> in_zone lo (max_order z) a k"

text \<open>A store into a page is no operation of the allocator, which keeps its data in free pages only.\<close>

interpretation buddy: block_allocator "zone_avail lo" "zone_own lo" blk "\<lambda>k. True"
  "\<lambda>k z. Some (vmm_buddy_get_free_pages k z)" "\<lambda>a k z. vmm_buddy_free_pages a k z" "\<lambda>a k j b z. z"
  for lo
proof
  fix z :: vmm_zone and F n a z'
  assume inv: "zone_avail lo z F" and get: "Some (vmm_buddy_get_free_pages n z) = Some (a, z')"
  then obtain fl where fl: "zone_inv lo z fl" "free_bytes fl = F" by (auto simp: zone_avail_def)
  note post = buddy_alloc_post[OF fl(1)] get
  show "blk a n \<subseteq> F \<and> zone_avail lo z' (F - blk a n) \<and> zone_own lo z' a n" if "a \<noteq> NULL"
    using post that fl(2) by (force simp: alloc_post_def zone_avail_def zone_own_def split: if_splits)
  show "zone_own lo z' b k" if "zone_own lo z b k" for b k
    using post that by (force simp: zone_own_def split: if_splits)
next
  fix z :: vmm_zone and F n z'
  assume "zone_avail lo z F" "Some (vmm_buddy_get_free_pages n z) = Some (NULL, z')"
  then show "zone_avail lo z' F"
    using buddy_alloc_post by (force simp: alloc_post_def zone_avail_def split: if_splits)
next
  fix z :: vmm_zone and F a n
  assume "zone_avail lo z F" "zone_own lo z a n" "blk a n \<inter> F = {}"
  then show "\<exists>z'. vmm_buddy_free_pages a n z = Some z' \<and> zone_avail lo z' (F \<union> blk a n)"
    using buddy_free_post by (fastforce simp: zone_avail_def zone_own_def)
next
  fix z :: vmm_zone and F a n z' b k
  assume "zone_avail lo z F" "zone_own lo z a n" "blk a n \<inter> F = {}" "vmm_buddy_free_pages a n z = Some z'"
    "zone_own lo z b k"
  then show "zone_own lo z' b k"
    using buddy_free_post by (fastforce simp: zone_avail_def zone_own_def)
qed auto

section \<open>The properties of the allocator\<close>

text \<open>A zone of three pages: one for the table, two to allocate.\<close>

definition zero_zone :: vmm_zone where
  "zero_zone =
     \<lparr>free_area_list = (\<lambda>_. \<lparr>num_free = 0, free_list = \<lparr>q_first = NULL, q_last = NULL\<rparr>\<rparr>),
      zone_start = 0, zone_num_pages = 0, max_order = 0,
      nodes = (\<lambda>_. \<lparr>node_order = 0, node_buddy = 0\<rparr>), free_link = (\<lambda>_. \<lparr>q_next = NULL, q_prev = NULL\<rparr>)\<rparr>"

definition two_pages :: vmm_zone where
  "two_pages = vmm_zone_init 0x100000 3 zero_zone"

lemma distinct_singleton:
  assumes "distinct xs" "set xs = {x}"
  shows "xs = [x]"
proof (cases xs)
  case (Cons y ys)
  with assms have "y = x" "set ys \<subseteq> {x}" "x \<notin> set ys" by auto
  then have "ys = []" by (cases ys) auto
  with Cons \<open>y = x\<close> show ?thesis by simp
qed (use assms in simp)

lemma two_pages_init:
  obtains fl where "zone_inv 0x101000 two_pages fl" "max_order two_pages = 1"
    "free_bytes fl = {0x101000 ..< 0x103000}" "fl 1 = [0x101000]" "fl 0 = []"
proof -
  have l: "vmm_floor_log2 2 = 1" by (simp add: vmm_floor_log2_def log2_step_def)
  obtain fl where fl: "zone_inv 0x101000 two_pages fl" "max_order two_pages = 1"
    "free_bytes fl = {0x101000 ..< 0x103000}"
    using vmm_zone_init_post[of "0x100000" 3 zero_zone] by (auto simp: l two_pages_def)
  have "free_list (free_area_list two_pages 0) = Q_INIT_HEAD"
    by (simp add: two_pages_def vmm_zone_init_def vmm_buddy_init_def Let_def vmm_floor_log2_def log2_step_def
        zone_push_def set_node_buddy_def set_node_order_def split: prod.splits)
  moreover have "q_rep (free_list (free_area_list two_pages 0), free_link two_pages) (fl 0)"
    using fl by (auto simp: zone_inv_def lists_ok_def)
  ultimately have fl0: "fl 0 = []" by (auto simp: q_rep_def Q_INIT_HEAD_def split: if_splits)
  have blocks: "k = 1 \<and> a = 0x101000" if a: "a \<in> set (fl k)" for a k
  proof -
    have "k \<le> 1" "in_zone 0x101000 1 a k" using zone_inv_member[OF fl(1) a] fl(2) by auto
    moreover have "k \<noteq> 0" using a fl0 by (cases k) auto
    ultimately have "k = 1" by simp
    with \<open>in_zone 0x101000 1 a k\<close> have "unat a = 0x101000" by (simp add: in_zone_def blk_len_def)
    with \<open>k = 1\<close> show ?thesis by (simp add: word_unat_eq_iff)
  qed
  have "0x101000 \<in> free_bytes fl" using fl(3) by simp
  then obtain a k where "a \<in> set (fl k)" by (auto simp: free_bytes_def)
  then have "set (fl 1) = {0x101000}" using blocks by blast
  moreover have "distinct (fl 1)" using fl by (auto simp: zone_inv_def lists_ok_def intro: q_rep_distinct)
  ultimately have "fl 1 = [0x101000]" by (rule distinct_singleton[rotated])
  then show ?thesis using that fl fl0 by blast
qed

text \<open>\<open>vmm_floor_log2\<close> is the floor of the binary logarithm for every non-zero word.\<close>

theorem vmm_floor_log2_correct:
  assumes "n \<noteq> 0"
  shows "2 ^ vmm_floor_log2 n \<le> unat n \<and> unat n < 2 ^ (vmm_floor_log2 n + 1)"
  by (rule vmm_floor_log2_bounds[OF assms])

theorem vmm_floor_log2_correct_witness: "(2::nat) ^ vmm_floor_log2 0x12345 \<le> 0x12345"
  using vmm_floor_log2_correct[of "0x12345"] by simp

text \<open>Initialising a zone of at least two pages gives a well-formed allocator whose free bytes
  are one block: the largest power of two of pages that fits behind the first page, which
  holds the table of free lists.\<close>

theorem vmm_zone_init_correct:
  assumes "start \<noteq> NULL" "4096 dvd unat start" "2 \<le> unat num_pages"
    and "unat start + 4096 * unat num_pages \<le> 2 ^ 32"
  shows "\<exists>fl. zone_inv (unat start + 4096) (vmm_zone_init start num_pages z) fl \<and>
    free_bytes fl = {unat start + 4096 ..< unat start + 4096 + 4096 * 2 ^ vmm_floor_log2 (num_pages - 1)}"
  using vmm_zone_init_post[OF assms] by blast

theorem vmm_zone_init_correct_witness:
  "\<exists>fl. zone_inv 0x101000 (vmm_zone_init 0x100000 3 zero_zone) fl"
  using vmm_zone_init_correct[of "0x100000" 3 zero_zone] by auto

text \<open>C2: If some list of the requested order or above is not empty, allocation returns a block of
  that order, aligned to pages and inside the zone, all of whose bytes were free; exactly these
  bytes stop being free, and the invariant is kept.  Otherwise it returns NULL and changes
  nothing.\<close>

theorem buddy_alloc_correct:
  assumes "zone_inv lo z fl" "vmm_buddy_get_free_pages order z = (a, z')"
  shows "if \<exists>k \<le> max_order z. order \<le> k \<and> fl k \<noteq> []
         then a \<noteq> NULL \<and> in_zone lo (max_order z) a order \<and>
           (\<exists>fl'. zone_inv lo z' fl' \<and> blk a order \<subseteq> free_bytes fl \<and>
              free_bytes fl' = free_bytes fl - blk a order)
         else a = NULL \<and> z' = z"
  using buddy_alloc_post[OF assms] by (auto simp: alloc_post_def split: if_splits)

theorem buddy_alloc_correct_witness:
  "fst (vmm_buddy_get_free_pages 0 two_pages) \<noteq> NULL"
proof -
  obtain fl where fl: "zone_inv 0x101000 two_pages fl" "max_order two_pages = 1" "fl 1 = [0x101000]"
    by (rule two_pages_init)
  obtain a z' where "vmm_buddy_get_free_pages 0 two_pages = (a, z')" by fastforce
  moreover have "\<exists>k \<le> max_order two_pages. 0 \<le> k \<and> fl k \<noteq> []" using fl by (intro exI[of _ 1]) simp
  ultimately show ?thesis using buddy_alloc_correct[OF fl(1), of 0 a z'] by simp
qed

text \<open>C3: Releasing a block of the zone that overlaps no free block always ends; it makes exactly the
  bytes of the block free and keeps the invariant, however many buddies it merges with.\<close>

theorem buddy_free_correct:
  assumes "zone_inv lo z fl" "order \<le> max_order z"
    and "in_zone lo (max_order z) a order" "blk a order \<inter> free_bytes fl = {}"
  shows "\<exists>z' fl'. vmm_buddy_free_pages a order z = Some z' \<and> zone_inv lo z' fl' \<and>
           free_bytes fl' = free_bytes fl \<union> blk a order"
  using buddy_free_post[OF assms] by blast

theorem buddy_free_correct_witness:
  "\<exists>a z1 z2. a \<noteq> NULL \<and> vmm_buddy_get_free_pages 0 two_pages = (a, z1) \<and>
     vmm_buddy_free_pages a 0 z1 = Some z2"
proof -
  obtain fl where fl: "zone_inv 0x101000 two_pages fl" "max_order two_pages = 1" "fl 1 = [0x101000]"
    "free_bytes fl = {0x101000 ..< 0x103000}" "fl 0 = []"
    by (rule two_pages_init)
  obtain a z1 where al: "vmm_buddy_get_free_pages 0 two_pages = (a, z1)" by fastforce
  have "\<exists>k \<le> max_order two_pages. 0 \<le> k \<and> fl k \<noteq> []" using fl by (intro exI[of _ 1]) simp
  then have post: "alloc_post 0x101000 0 fl a z1" "max_order z1 = 1"
    using buddy_alloc_post[OF fl(1) al] fl(2) by auto
  then have nz: "a \<noteq> NULL" by (auto simp: alloc_post_def)
  from post obtain fl1 where fl1: "zone_inv 0x101000 z1 fl1" "in_zone 0x101000 1 a 0"
    "free_bytes fl1 = free_bytes fl - blk a 0"
    unfolding alloc_post_def by auto
  then show ?thesis
    using buddy_free_correct[OF fl1(1), of 0 a] fl1 al nz post(2) by auto
qed

text \<open>Releasing a block that is free already, with the order it is listed under, is detected:
  the operation returns without changing the zone.\<close>

theorem buddy_double_free_detected:
  assumes "zone_inv lo z fl" "a \<in> set (fl order)"
  shows "vmm_buddy_free_pages a order z = Some z"
  by (rule buddy_double_free[OF assms])

theorem buddy_double_free_detected_witness:
  "vmm_buddy_free_pages 0x101000 1 two_pages = Some two_pages"
proof -
  obtain fl where "zone_inv 0x101000 two_pages fl" "fl 1 = [0x101000]" by (rule two_pages_init)
  then show ?thesis using buddy_double_free_detected[of "0x101000" two_pages fl "0x101000" 1] by simp
qed

text \<open>C9: Allocating a block and releasing it with the same order never fails and gives back the
  free bytes the zone had before.\<close>

theorem buddy_alloc_free_roundtrip:
  assumes inv: "zone_inv lo z fl" and alloc: "vmm_buddy_get_free_pages order z = (a, z1)"
    and a: "a \<noteq> NULL"
  shows "\<exists>z2 fl2. vmm_buddy_free_pages a order z1 = Some z2 \<and> zone_inv lo z2 fl2 \<and>
    free_bytes fl2 = free_bytes fl"
proof -
  have post: "alloc_post lo order fl a z1" "\<exists>k \<le> max_order z. order \<le> k" "max_order z1 = max_order z"
    using buddy_alloc_post[OF inv alloc] a by (auto split: if_splits)
  then obtain fl1 where f: "zone_inv lo z1 fl1" "in_zone lo (max_order z1) a order"
    "blk a order \<subseteq> free_bytes fl" "free_bytes fl1 = free_bytes fl - blk a order"
    unfolding alloc_post_def by blast
  have "order \<le> max_order z1" using post by auto
  then obtain z2 fl2 where "vmm_buddy_free_pages a order z1 = Some z2" "zone_inv lo z2 fl2"
    "free_bytes fl2 = free_bytes fl1 \<union> blk a order"
    using buddy_free_post[OF f(1) _ f(2)] f(4) by auto
  then show ?thesis using f by (intro exI[of _ z2] exI[of _ fl2]) auto
qed

theorem buddy_alloc_free_roundtrip_witness:
  "\<exists>a z1 z2. a \<noteq> NULL \<and> vmm_buddy_get_free_pages 1 two_pages = (a, z1) \<and> vmm_buddy_free_pages a 1 z1 = Some z2"
proof -
  obtain fl where fl: "zone_inv 0x101000 two_pages fl" "max_order two_pages = 1" "fl 1 = [0x101000]"
    by (rule two_pages_init)
  obtain a z1 where al: "vmm_buddy_get_free_pages 1 two_pages = (a, z1)" by fastforce
  have "\<exists>k \<le> max_order two_pages. 1 \<le> k \<and> fl k \<noteq> []" using fl by (intro exI[of _ 1]) simp
  then have "a \<noteq> NULL" using buddy_alloc_post[OF fl(1) al] by (auto simp: alloc_post_def)
  then show ?thesis using buddy_alloc_free_roundtrip[OF fl(1) al] al by blast
qed

end
