(* ===== verification/C_Memory.thy ===== *)
theory C_Memory
  imports Prelude
begin

text \<open>
  Byte memory with the C operations the kernel applies to it: 32-bit little-endian loads and
  stores (page directory and page table entries), \<open>memset\<close> and \<open>memcpy\<close>, and the laws the
  components use: a load after a store, loads from disjoint words, loads from a cleared
  page.
\<close>

type_synonym bytes = "u32 \<Rightarrow> u8"

definition ld32 :: "bytes \<Rightarrow> u32 \<Rightarrow> u32" where
  "ld32 m a = ucast (m a) OR push_bit 8 (ucast (m (a + 1))) OR
              push_bit 16 (ucast (m (a + 2))) OR push_bit 24 (ucast (m (a + 3)))"

definition st32 :: "u32 \<Rightarrow> u32 \<Rightarrow> bytes \<Rightarrow> bytes" where
  "st32 a v m = m(a := ucast v, a + 1 := ucast (drop_bit 8 v),
                  a + 2 := ucast (drop_bit 16 v), a + 3 := ucast (drop_bit 24 v))"

definition memset_b :: "u32 \<Rightarrow> u8 \<Rightarrow> u32 \<Rightarrow> bytes \<Rightarrow> bytes" where
  "memset_b a v n m = (\<lambda>x. if x - a < n then v else m x)"

definition memcpy_b :: "u32 \<Rightarrow> u32 \<Rightarrow> u32 \<Rightarrow> bytes \<Rightarrow> bytes" where
  "memcpy_b dst src n m = (\<lambda>x. if x - dst < n then m (src + (x - dst)) else m x)"

definition word_aligned :: "u32 \<Rightarrow> bool" where
  "word_aligned a \<longleftrightarrow> unat a mod 4 = 0"

lemma ld32_bytes: "m a = ucast v \<Longrightarrow> m (a + 1) = ucast (drop_bit 8 v) \<Longrightarrow>
  m (a + 2) = ucast (drop_bit 16 v) \<Longrightarrow> m (a + 3) = ucast (drop_bit 24 v) \<Longrightarrow> ld32 m a = (v :: u32)"
proof (rule bit_word_eqI)
  fix n
  assume m: "m a = ucast v" "m (a + 1) = ucast (drop_bit 8 v)"
    "m (a + 2) = ucast (drop_bit 16 v)" "m (a + 3) = ucast (drop_bit 24 v)" and n: "n < LENGTH(32)"
  consider "n < 8" | "8 \<le> n" "n < 16" | "16 \<le> n" "n < 24" | "24 \<le> n" "n < 32"
    using n by fastforce
  then show "bit (ld32 m a) n = bit v n"
    unfolding ld32_def m
    by cases (auto simp: bit_or_iff bit_push_bit_iff bit_unsigned_iff bit_drop_bit_eq)
qed

lemma ld32_st32_same [simp]: "ld32 (st32 a v m) a = v"
  by (rule ld32_bytes) (simp_all add: st32_def)

lemma unat_add_small:
  "word_aligned a \<Longrightarrow> i < 4 \<Longrightarrow> unat (a + of_nat i) = unat a + i"
proof -
  assume a: "word_aligned a" and i: "i < 4"
  have "unat a < 4294967296" by (rule unat_lt32)
  moreover have "unat a mod 4 = 0" using a by (simp add: word_aligned_def)
  ultimately have "unat a + 3 < 4294967296" by presburger
  then show ?thesis using i by (simp add: unat_word_ariths unat_of_nat)
qed

lemma aligned_offset_neq:
  assumes "word_aligned a" "word_aligned b" "a \<noteq> b" "i < 4" "j < 4"
  shows "a + of_nat i \<noteq> b + of_nat j"
proof
  assume "a + of_nat i = b + of_nat j"
  then have "unat a + i = unat b + j"
    using unat_add_small[OF assms(1,4)] unat_add_small[OF assms(2,5)] by metis
  moreover have "unat a mod 4 = 0" "unat b mod 4 = 0" using assms by (auto simp: word_aligned_def)
  ultimately have "unat a = unat b" using assms(4,5) by presburger
  then show False using assms(3) by (simp add: word_unat_eq_iff)
qed

lemma ld32_cong:
  "m a = m' a \<Longrightarrow> m (a + 1) = m' (a + 1) \<Longrightarrow> m (a + 2) = m' (a + 2) \<Longrightarrow> m (a + 3) = m' (a + 3) \<Longrightarrow>
   ld32 m a = ld32 m' a"
  by (simp add: ld32_def)

lemma ld32_st32_other:
  assumes "word_aligned a" "word_aligned b" "a \<noteq> b"
  shows "ld32 (st32 a v m) b = ld32 m b"
proof -
  have ne: "b + of_nat j \<noteq> a + of_nat i" if "i < 4" "j < 4" for i j
    using aligned_offset_neq[of b a j i] assms that by auto
  have "st32 a v m (b + of_nat j) = m (b + of_nat j)" if "j < 4" for j
    using ne[of 0 j] ne[of 1 j] ne[of 2 j] ne[of 3 j] that by (simp add: st32_def)
  from this[of 0] this[of 1] this[of 2] this[of 3] show ?thesis
    by (intro ld32_cong) simp_all
qed

lemma memset_b_in: "x - a < n \<Longrightarrow> memset_b a v n m x = v"
  by (simp add: memset_b_def)

lemma memset_b_out: "\<not> x - a < n \<Longrightarrow> memset_b a v n m x = m x"
  by (simp add: memset_b_def)

lemma page_member:
  assumes "unat a mod 4096 = 0"
  shows "x - a < PAGE_SIZE \<longleftrightarrow> x AND PAGE_MASK = a"
proof
  assume l: "x - a < PAGE_SIZE"
  then have u: "unat (x - a) < 4096" by (simp add: word_less_nat_alt)
  have "x = a + (x - a)" by simp
  moreover have "unat a + unat (x - a) < 2 ^ 32"
    using page_end_no_wrap[OF assms] u by simp
  ultimately have "unat x = unat a + unat (x - a)" by (metis unat_add_no_wrap)
  then have "unat x div 4096 * 4096 = unat a"
    using page_of_offset[OF assms u] by simp
  then show "x AND PAGE_MASK = a" by (simp add: word_unat_eq_iff page_simps)
next
  assume "x AND PAGE_MASK = a"
  then have "x - a = x AND PAGE_DIV" by (metis add_diff_cancel_left' page_split)
  then show "x - a < PAGE_SIZE" by (simp add: word_less_nat_alt page_simps)
qed

lemma word_in_page:
  assumes "unat a mod 4 = 0" "i < 4"
  shows "(a + of_nat i) AND PAGE_MASK = a AND PAGE_MASK"
proof -
  have "unat (a + of_nat i) = unat a + i"
    using unat_add_small assms by (simp add: word_aligned_def)
  moreover have "(unat a + i) div 4096 = unat a div 4096"
  proof -
    obtain k where "unat a = 4 * k" using assms(1) by (metis mod_eq_0_iff_dvd dvdE)
    then have "(unat a + i) div 4 = unat a div 4" using assms(2) by simp
    then have "(unat a + i) div 4 div 1024 = unat a div 4 div 1024" by simp
    then show ?thesis by (simp flip: div_mult2_eq)
  qed
  ultimately show ?thesis by (simp add: word_unat_eq_iff page_simps)
qed

lemma ld32_memset_page:
  assumes p: "unat p mod 4096 = 0" and a: "word_aligned a"
  shows "ld32 (memset_b p 0 PAGE_SIZE m) a = (if a AND PAGE_MASK = p then 0 else ld32 m a)"
proof -
  have b: "memset_b p 0 PAGE_SIZE m (a + of_nat i) = (if a AND PAGE_MASK = p then 0 else m (a + of_nat i))"
    if "i < 4" for i
    using page_member[OF p, of "a + of_nat i"] word_in_page[of a i] a that
    by (simp add: memset_b_def word_aligned_def)
  from b[of 0] b[of 1] b[of 2] b[of 3] show ?thesis
    by (auto simp: ld32_def)
qed

text \<open>Storing a run of bytes.\<close>

fun store_bytes :: "addr \<Rightarrow> u8 list \<Rightarrow> bytes \<Rightarrow> bytes" where
  "store_bytes a [] m = m"
| "store_bytes a (b # bs) m = store_bytes (a + 1) bs (m(a := b))"

lemma store_bytes_out:
  "(\<And>i. i < length bs \<Longrightarrow> x \<noteq> a + of_nat i) \<Longrightarrow> store_bytes a bs m x = m x"
proof (induction bs arbitrary: a m)
  case (Cons b bs)
  have "x \<noteq> a + 1 + of_nat i" if "i < length bs" for i
    using Cons.prems[of "Suc i"] that by (simp add: algebra_simps)
  then have "store_bytes (a + 1) bs (m(a := b)) x = (m(a := b)) x" by (rule Cons.IH)
  then show ?case using Cons.prems[of 0] by simp
qed simp

lemma store_bytes_in:
  "i < length bs \<Longrightarrow> length bs \<le> 2 ^ 32 \<Longrightarrow> store_bytes a bs m (a + of_nat i) = bs ! i"
proof (induction bs arbitrary: a m i)
  case (Cons b bs)
  show ?case
  proof (cases i)
    case 0
    have "a \<noteq> a + 1 + of_nat j" if "j < length bs" for j
    proof
      assume "a = a + 1 + of_nat j"
      then have "of_nat (Suc j) = (0 :: u32)" by (metis add.assoc add_cancel_right_right of_nat_Suc)
      then have "2 ^ 32 dvd Suc j" by (simp only: of_nat_eq_0_iff[symmetric] word_of_nat_eq_0_iff) simp
      then have "2 ^ 32 \<le> Suc j" by (rule dvd_imp_le) simp
      then show False using that Cons.prems(2) by simp
    qed
    then have "store_bytes (a + 1) bs (m(a := b)) a = (m(a := b)) a" by (rule store_bytes_out)
    then show ?thesis using 0 by simp
  next
    case (Suc j)
    then have "store_bytes (a + 1) bs (m(a := b)) (a + 1 + of_nat j) = bs ! j"
      using Cons.prems by (intro Cons.IH) auto
    then show ?thesis using Suc by (simp add: algebra_simps)
  qed
qed simp

end
