(* ===== verification/Vmm_Page.thy ===== *)
theory Vmm_Page
  imports Vmm_Zone C_Memory
begin

text \<open>
  Page directories and page tables, \<^verbatim>\<open>kern/vmm_page.c\<close> and the macros of
  \<^verbatim>\<open>kern/inc/vmm_page.h\<close>.

  The kernel runs on Xen: it does not write page tables but queues requests, each a machine
  address and a value, and passes the queue to the hypervisor.  The hypervisor, the two
  frame translation tables and the size of the memory are parameters of the model, the
  fields of \<open>xen_env\<close>.  Memory is the pseudo-physical memory of the guest, a byte map; the
  kernel reads it through its direct map, that is at \<open>VMM_V2P\<close> of a virtual address.
\<close>

section \<open>Address translation macros\<close>

definition VMM_KERNEL_BASE :: u32 where "VMM_KERNEL_BASE = 0xc0000000"
definition VMM_KERNEL_MASK :: u32 where "VMM_KERNEL_MASK = 0x3fffffff"

definition VMM_V2P :: "addr \<Rightarrow> addr" where "VMM_V2P vaddr = vaddr AND VMM_KERNEL_MASK"
definition VMM_P2V :: "addr \<Rightarrow> addr" where "VMM_P2V paddr = paddr OR VMM_KERNEL_BASE"

definition VMM_KERNEL_STACK_PAGES :: u32 where "VMM_KERNEL_STACK_PAGES = 4096"

definition PG_FLAG_PRESENT :: u32 where "PG_FLAG_PRESENT = 0x1"
definition PG_FLAG_WR :: u32 where "PG_FLAG_WR = 0x2"
definition PG_FLAG_USR :: u32 where "PG_FLAG_USR = 0x4"
definition PG_FLAG_PWT :: u32 where "PG_FLAG_PWT = 0x8"
definition PD_FLAG_RSVD :: u32 where "PD_FLAG_RSVD = 0x40"
definition PGTAB_ATTRIB_SU_RO :: u32 where "PGTAB_ATTRIB_SU_RO = 0x001"
definition PGTAB_ATTRIB_SU_RW :: u32 where "PGTAB_ATTRIB_SU_RW = 0x003"
definition PGTAB_ATTRIB_USR_RO :: u32 where "PGTAB_ATTRIB_USR_RO = 0x005"
definition PGTAB_ATTRIB_USR_RW :: u32 where "PGTAB_ATTRIB_USR_RW = 0x007"

definition PDE_INDEX :: "addr \<Rightarrow> u32" where
  "PDE_INDEX vaddr = drop_bit 22 (vaddr AND 0xffc00000)"

definition PTE_INDEX :: "addr \<Rightarrow> u32" where
  "PTE_INDEX vaddr = drop_bit 12 (vaddr AND 0x003ff000)"

definition VMM_GET_PDE :: "addr \<Rightarrow> addr \<Rightarrow> addr" where
  "VMM_GET_PDE pgdir vaddr = pgdir + 4 * PDE_INDEX vaddr"

definition VMM_NUM_PDES :: "u32 \<Rightarrow> u32" where
  "VMM_NUM_PDES num_pages = drop_bit 22 (push_bit 12 (num_pages - 1)) + 1"

section \<open>State and environment\<close>

datatype mmuext = TlbFlushLocal | NewBaseptr u32

record xen_env =
  xen_mfn_list :: "u32 \<Rightarrow> u32"
  machine_to_phys_mapping :: "u32 \<Rightarrow> u32"
  HYPERVISOR_mmu_update :: "(u64 \<times> u32) list \<Rightarrow> bytes \<Rightarrow> int \<times> int \<times> bytes"
  HYPERVISOR_mmuext_op :: "mmuext \<Rightarrow> int \<times> int"
  machine_phys_frames :: u32
  xen_start_pt_base :: addr
  xen_start_shared_info :: u32
  xen_start_store_mfn :: u32

text \<open>
  \<open>xen_queue\<close> are the pending entries of \<open>xen_update_queue\<close> (its length is \<open>xen_update_pos\<close>);
  \<open>boot_pages\<close> are the addresses \<open>memalign\<close> will hand out while the kernel boots;
  \<open>mmuext_log\<close> records the extended operations Xen accepted, the last one first.
\<close>

record pg_state =
  pmem :: bytes
  xen_queue :: "(u64 \<times> u32) list"
  mmuext_log :: "mmuext list"
  lomem_zone :: vmm_zone
  himem_zone :: vmm_zone
  kernel_page_dir :: addr
  boot_pages :: "addr list"
  xen_shared_info :: addr
  xen_store :: addr
  num_phys_mem_ppf :: u32

definition XEN_UPDATE_QUEUE_SIZE :: nat where "XEN_UPDATE_QUEUE_SIZE = 2048"

definition kld32 :: "'a pg_state_scheme \<Rightarrow> addr \<Rightarrow> u32" where
  "kld32 s va = ld32 (pmem s) (VMM_V2P va)"

definition kst32 :: "addr \<Rightarrow> u32 \<Rightarrow> 'a pg_state_scheme \<Rightarrow> 'a pg_state_scheme" where
  "kst32 va v s = s\<lparr>pmem := st32 (VMM_V2P va) v (pmem s)\<rparr>"

definition kmemset :: "addr \<Rightarrow> u8 \<Rightarrow> u32 \<Rightarrow> 'a pg_state_scheme \<Rightarrow> 'a pg_state_scheme" where
  "kmemset va v n s = s\<lparr>pmem := memset_b (VMM_V2P va) v n (pmem s)\<rparr>"

definition kmemcpy :: "addr \<Rightarrow> addr \<Rightarrow> u32 \<Rightarrow> 'a pg_state_scheme \<Rightarrow> 'a pg_state_scheme" where
  "kmemcpy dst src n s = s\<lparr>pmem := memcpy_b (VMM_V2P dst) (VMM_V2P src) n (pmem s)\<rparr>"

text \<open>The macros that read the page directory; the addresses they yield are machine
  addresses, since that is what Xen keeps in page directory entries.\<close>

definition VMM_GET_PGTAB :: "'a pg_state_scheme \<Rightarrow> addr \<Rightarrow> addr \<Rightarrow> addr" where
  "VMM_GET_PGTAB s pgdir vaddr = kld32 s (VMM_GET_PDE pgdir vaddr) AND PAGE_MASK"

definition VMM_GET_PTE :: "'a pg_state_scheme \<Rightarrow> addr \<Rightarrow> addr \<Rightarrow> addr" where
  "VMM_GET_PTE s pgdir vaddr =
     (if VMM_GET_PGTAB s pgdir vaddr = NULL then NULL
      else VMM_GET_PGTAB s pgdir vaddr + 4 * PTE_INDEX vaddr)"

definition mach_to_phys :: "xen_env \<Rightarrow> addr \<Rightarrow> addr" where
  "mach_to_phys E mach =
     (let index = drop_bit 12 mach; offset = mach AND (PAGE_SIZE - 1);
          pfn = machine_to_phys_mapping E index
      in push_bit 12 pfn OR offset)"

definition phys_to_mach :: "xen_env \<Rightarrow> addr \<Rightarrow> addr" where
  "phys_to_mach E phys =
     (let index = drop_bit 12 phys; offset = phys AND (PAGE_SIZE - 1);
          mfn = xen_mfn_list E index
      in push_bit 12 mfn OR offset)"

section \<open>The update queue\<close>

definition vmm_mmuext_op :: "xen_env \<Rightarrow> mmuext \<Rightarrow> 'a pg_state_scheme \<Rightarrow> 'a pg_state_scheme option" where
  "vmm_mmuext_op E op s =
     (let (ret, succ_count) = HYPERVISOR_mmuext_op E op
      in if ret = 0 \<and> succ_count = 1 then Some (s\<lparr>mmuext_log := op # mmuext_log s\<rparr>) else None)"

definition vmm_flush_mmu_update_queue :: "xen_env \<Rightarrow> 'a pg_state_scheme \<Rightarrow> 'a pg_state_scheme option" where
  "vmm_flush_mmu_update_queue E s =
     (let count = int (length (xen_queue s));
          (ret, succ_count, m) = HYPERVISOR_mmu_update E (xen_queue s) (pmem s)
      in if ret < 0 then None
         else if succ_count \<noteq> count then None
         else vmm_mmuext_op E TlbFlushLocal (s\<lparr>pmem := m, xen_queue := []\<rparr>))"

definition vmm_queue_mmu_update ::
  "xen_env \<Rightarrow> u64 \<Rightarrow> u32 \<Rightarrow> 'a pg_state_scheme \<Rightarrow> 'a pg_state_scheme option" where
  "vmm_queue_mmu_update E p val s =
     (let s = s\<lparr>xen_queue := xen_queue s @ [(p, val)]\<rparr>
      in if length (xen_queue s) = XEN_UPDATE_QUEUE_SIZE
         then vmm_flush_mmu_update_queue E s else Some s)"

section \<open>Page frames\<close>

definition vmm_ppf_alloc :: "'a pg_state_scheme \<Rightarrow> addr \<times> 'a pg_state_scheme" where
  "vmm_ppf_alloc s =
     (let (ppf, z) = vmm_buddy_get_free_pages 1 (lomem_zone s) in (ppf, s\<lparr>lomem_zone := z\<rparr>))"

definition vmm_ppf_free :: "addr \<Rightarrow> 'a pg_state_scheme \<Rightarrow> 'a pg_state_scheme option" where
  "vmm_ppf_free page_addr s =
     do { z \<leftarrow> vmm_buddy_free_pages page_addr 1 (lomem_zone s); Some (s\<lparr>lomem_zone := z\<rparr>) }"

definition vmm_ppfs_alloc :: "u32 \<Rightarrow> 'a pg_state_scheme \<Rightarrow> addr \<times> 'a pg_state_scheme" where
  "vmm_ppfs_alloc num_pages s =
     (let order = vmm_floor_log2 num_pages + 1;
          (ppf, z) = vmm_buddy_get_free_pages order (lomem_zone s)
      in (ppf, s\<lparr>lomem_zone := z\<rparr>))"

definition vmm_ppfs_free :: "addr \<Rightarrow> u32 \<Rightarrow> 'a pg_state_scheme \<Rightarrow> 'a pg_state_scheme option" where
  "vmm_ppfs_free pgaddr num_pages s =
     (let order = vmm_floor_log2 num_pages
      in do { z \<leftarrow> vmm_buddy_free_pages pgaddr order (lomem_zone s); Some (s\<lparr>lomem_zone := z\<rparr>) })"

definition vmm_ppf_highmem_alloc :: "'a pg_state_scheme \<Rightarrow> addr \<times> 'a pg_state_scheme" where
  "vmm_ppf_highmem_alloc s =
     (let (ppfhm, z) = vmm_buddy_get_free_pages 1 (himem_zone s) in (ppfhm, s\<lparr>himem_zone := z\<rparr>))"

definition vmm_ppf_highmem_free :: "addr \<Rightarrow> 'a pg_state_scheme \<Rightarrow> 'a pg_state_scheme option" where
  "vmm_ppf_highmem_free pgaddr s =
     do { z \<leftarrow> vmm_buddy_free_pages pgaddr 1 (himem_zone s); Some (s\<lparr>himem_zone := z\<rparr>) }"

definition vmm_ppfs_highmem_alloc :: "u32 \<Rightarrow> 'a pg_state_scheme \<Rightarrow> addr \<times> 'a pg_state_scheme" where
  "vmm_ppfs_highmem_alloc num_pages s =
     (let order = vmm_floor_log2 num_pages;
          (ppfhm_addr, z) = vmm_buddy_get_free_pages order (himem_zone s)
      in (ppfhm_addr, s\<lparr>himem_zone := z\<rparr>))"

definition vmm_ppfs_highmem_free :: "addr \<Rightarrow> u32 \<Rightarrow> 'a pg_state_scheme \<Rightarrow> 'a pg_state_scheme option" where
  "vmm_ppfs_highmem_free pgaddr num_pages s =
     (let order = vmm_floor_log2 num_pages
      in do { z \<leftarrow> vmm_buddy_free_pages pgaddr order (himem_zone s); Some (s\<lparr>himem_zone := z\<rparr>) })"

definition vmm_init_ppf_alloc :: "'a pg_state_scheme \<Rightarrow> addr \<times> 'a pg_state_scheme" where
  "vmm_init_ppf_alloc s =
     (case boot_pages s of [] \<Rightarrow> (NULL, s) | p # ps \<Rightarrow> (p, s\<lparr>boot_pages := ps\<rparr>))"

text \<open>Only the first of the pages comes from the heap, the address of the others is lost.\<close>

definition vmm_init_ppfs_alloc :: "nat \<Rightarrow> 'a pg_state_scheme \<Rightarrow> addr \<times> 'a pg_state_scheme" where
  "vmm_init_ppfs_alloc num_pages s =
     fold (\<lambda>i (ppf_addr, s). if i = 0 then vmm_init_ppf_alloc s else (ppf_addr, snd (vmm_ppf_alloc s))) [0..<num_pages] (NULL, s)"

definition vmm_pt_alloc :: "'a pg_state_scheme \<Rightarrow> addr \<times> 'a pg_state_scheme" where
  "vmm_pt_alloc s = vmm_ppf_alloc s"

section \<open>Mapping pages\<close>

text \<open>The part of \<open>vmm_map_page\<close> that installs a page table when the directory entry is empty.\<close>

definition vmm_map_new_pgtab ::
  "xen_env \<Rightarrow> addr \<Rightarrow> addr \<Rightarrow> 'a pg_state_scheme \<Rightarrow> (int \<times> 'a pg_state_scheme) option" where
  "vmm_map_new_pgtab E page_dir pde_ma s =
     (let (pt_ppf, s) = vmm_ppf_alloc s
      in if pt_ppf = NULL then Some (-1, s)
         else
           let s = kmemset pt_ppf 0 PAGE_SIZE s;
               pt_ppf_ma = phys_to_mach E (VMM_V2P pt_ppf);
               pt_ppf_pte_ma = VMM_GET_PTE s page_dir pt_ppf;
               val = PGTAB_ATTRIB_SU_RO OR PG_FLAG_PRESENT OR (pt_ppf_ma AND PAGE_MASK)
           in do {
             s \<leftarrow> vmm_queue_mmu_update E (ucast pt_ppf_pte_ma) val s;
             let val = (PGTAB_ATTRIB_USR_RW OR PG_FLAG_PRESENT OR (pt_ppf_ma AND PAGE_MASK))
                         AND NOT PD_FLAG_RSVD;
             s \<leftarrow> vmm_queue_mmu_update E (ucast pde_ma) val s;
             s \<leftarrow> vmm_flush_mmu_update_queue E s;
             Some (0, s)
           })"

definition vmm_map_page ::
  "xen_env \<Rightarrow> addr \<Rightarrow> addr \<Rightarrow> addr \<Rightarrow> u32 \<Rightarrow> 'a pg_state_scheme \<Rightarrow> (int \<times> 'a pg_state_scheme) option" where
  "vmm_map_page E page_dir vaddr ppf flags s =
     (let pde = VMM_P2V (VMM_GET_PDE page_dir vaddr);
          pde_pa = VMM_V2P pde;
          pde_ma = phys_to_mach E pde_pa
      in do {
        (rc, s) \<leftarrow> (if kld32 s pde = 0 then vmm_map_new_pgtab E page_dir pde_ma s else Some (0, s));
        if rc < 0 then Some (-1, s)
        else do {
          let pte_ma = VMM_GET_PTE s page_dir vaddr;
          let pte = VMM_P2V (mach_to_phys E pte_ma);
          let val = (if ppf \<noteq> NULL then flags OR phys_to_mach E (VMM_V2P ppf) else 0);
          s \<leftarrow> (if kld32 s pte \<noteq> val then vmm_queue_mmu_update E (ucast pte_ma) val s else Some s);
          Some (0, s)
        }
      })"

definition vmm_map_pages ::
  "xen_env \<Rightarrow> addr \<Rightarrow> addr \<Rightarrow> addr \<Rightarrow> nat \<Rightarrow> u32 \<Rightarrow> 'a pg_state_scheme \<Rightarrow> (int \<times> 'a pg_state_scheme) option" where
  "vmm_map_pages E page_dir vaddr ppf num_pages flags s =
     do {
       (rc, s) \<leftarrow> c_for [0..<num_pages]
         (\<lambda>i. vmm_map_page E page_dir (vaddr + push_bit 12 (of_nat i)) (ppf + push_bit 12 (of_nat i)) flags) s;
       if rc < 0 then Some (-1, s)
       else do { s \<leftarrow> vmm_flush_mmu_update_queue E s; Some (0, s) }
     }"

definition vmm_get_mapping :: "xen_env \<Rightarrow> addr \<Rightarrow> addr \<Rightarrow> 'a pg_state_scheme \<Rightarrow> u32" where
  "vmm_get_mapping E page_dir vaddr s =
     (let pde = VMM_P2V (VMM_GET_PDE page_dir vaddr)
      in if kld32 s pde = 0 then 0
         else
           let pte_ma = VMM_GET_PTE s page_dir vaddr
           in if pte_ma = NULL then 0
              else
                let pte_pa = mach_to_phys E pte_ma;
                    pte = VMM_P2V pte_pa;
                    mapping_ma = kld32 s pte;
                    ppf_ma = mapping_ma AND PAGE_MASK;
                    mapping_flags = mapping_ma AND PAGE_DIV;
                    ppf_pa = (if ppf_ma \<noteq> 0 then mach_to_phys E ppf_ma else 0)
                in ppf_pa OR mapping_flags)"

section \<open>Page directories\<close>

text \<open>\<open>cur\<close> is the page directory of the current task, \<open>None\<close> while there is no current
  thread.\<close>

definition vmm_create_pgdir ::
  "xen_env \<Rightarrow> addr option \<Rightarrow> 'a pg_state_scheme \<Rightarrow> (addr \<times> 'a pg_state_scheme) option" where
  "vmm_create_pgdir E cur s =
     (let (page_dir, s) = vmm_ppf_alloc s
      in if page_dir = NULL then Some (NULL, s)
         else
           let s = kmemcpy page_dir (kernel_page_dir s) PAGE_SIZE s;
               current_page_dir = (case cur of None \<Rightarrow> kernel_page_dir s | Some pd \<Rightarrow> pd)
           in do {
             (rc, s) \<leftarrow> vmm_map_page E current_page_dir page_dir (VMM_V2P page_dir)
                          (PGTAB_ATTRIB_USR_RO OR PG_FLAG_PRESENT) s;
             s \<leftarrow> vmm_flush_mmu_update_queue E s;
             Some (page_dir, s)
           })"

definition vmm_free_pgtab :: "xen_env \<Rightarrow> addr \<Rightarrow> nat \<Rightarrow> 'a pg_state_scheme \<Rightarrow> 'a pg_state_scheme option" where
  "vmm_free_pgtab E pgdir i s =
     (let pde = pgdir + 4 * of_nat i;
          pgtab_ma = kld32 s pde AND PAGE_MASK
      in if pgtab_ma = NULL then Some s
         else
           let pgtab_pa = mach_to_phys E pgtab_ma;
               pgtab_va = VMM_P2V pgtab_pa;
               pde_pa = VMM_V2P pde;
               pde_ma = phys_to_mach E pde_pa
           in do {
             s \<leftarrow> vmm_queue_mmu_update E (ucast pde_ma) 0 s;
             let pgtab_pte_ma = VMM_GET_PTE s pgdir pgtab_va;
             let pgtab_pte_val = pgtab_ma OR PGTAB_ATTRIB_SU_RW;
             s \<leftarrow> vmm_queue_mmu_update E (ucast pgtab_pte_ma) pgtab_pte_val s;
             s \<leftarrow> vmm_flush_mmu_update_queue E s;
             if pgtab_va \<noteq> NULL then vmm_ppf_free pgtab_va s else Some s
           })"

definition vmm_free_pgdir :: "xen_env \<Rightarrow> addr \<Rightarrow> 'a pg_state_scheme \<Rightarrow> 'a pg_state_scheme option" where
  "vmm_free_pgdir E pgdir s =
     (let user_mem_end = (VMM_KERNEL_BASE - 1) AND PAGE_MASK;
          first = unat (drop_bit 22 USER_MEM_START);
          pde_limit = unat (drop_bit 22 user_mem_end)
      in do {
        s \<leftarrow> c_each [first..<Suc pde_limit] (vmm_free_pgtab E pgdir) s;
        let pgdir_ma = phys_to_mach E (VMM_V2P pgdir);
        let pgdir_pte_ma = VMM_GET_PTE s pgdir pgdir;
        let pgdir_pte_val = pgdir_ma OR PGTAB_ATTRIB_SU_RW;
        s \<leftarrow> vmm_queue_mmu_update E (ucast pgdir_pte_ma) pgdir_pte_val s;
        s \<leftarrow> vmm_flush_mmu_update_queue E s;
        vmm_ppf_free pgdir s
      })"

definition vmm_set_user_pgdir :: "xen_env \<Rightarrow> addr \<Rightarrow> 'a pg_state_scheme \<Rightarrow> 'a pg_state_scheme option" where
  "vmm_set_user_pgdir E page_dir s =
     do {
       s \<leftarrow> vmm_flush_mmu_update_queue E s;
       let mfn = drop_bit 12 (phys_to_mach E (VMM_V2P page_dir));
       vmm_mmuext_op E (NewBaseptr mfn) s
     }"

definition vmm_set_kernel_pgdir :: "xen_env \<Rightarrow> 'a pg_state_scheme \<Rightarrow> 'a pg_state_scheme option" where
  "vmm_set_kernel_pgdir E s =
     do {
       s \<leftarrow> vmm_flush_mmu_update_queue E s;
       let mfn = drop_bit 12 (phys_to_mach E (VMM_V2P (kernel_page_dir s)));
       vmm_mmuext_op E (NewBaseptr mfn) s
     }"

section \<open>Booting\<close>

text \<open>While the kernel boots all addresses are literal, so no direct map offset is involved.\<close>

definition vmm_init_map_page ::
  "xen_env \<Rightarrow> addr \<Rightarrow> addr \<Rightarrow> addr \<Rightarrow> u32 \<Rightarrow> 'a pg_state_scheme \<Rightarrow> 'a pg_state_scheme option" where
  "vmm_init_map_page E page_dir vaddr ppf flags s =
     (let pte_ma = VMM_GET_PTE s page_dir vaddr
      in if pte_ma = NULL then None
         else
           let ppf_ma = phys_to_mach E ppf;
               ppf_pte_ma = VMM_GET_PTE s page_dir ppf;
               ppf_pte = kld32 s (mach_to_phys E ppf_pte_ma);
               pte = kld32 s (mach_to_phys E pte_ma)
           in if ppf_pte_ma \<noteq> NULL \<and> ppf_pte \<noteq> 0
              then vmm_queue_mmu_update E (ucast pte_ma) ppf_pte s
              else if pte \<noteq> 0 then Some s
              else vmm_queue_mmu_update E (ucast pte_ma) (flags OR ppf_ma) s)"

definition vmm_init_map_pages ::
  "xen_env \<Rightarrow> addr \<Rightarrow> addr \<Rightarrow> addr \<Rightarrow> nat \<Rightarrow> u32 \<Rightarrow> 'a pg_state_scheme \<Rightarrow> 'a pg_state_scheme option" where
  "vmm_init_map_pages E page_dir vaddr ppf num_pages flags s =
     do {
       s \<leftarrow> c_each [0..<num_pages]
         (\<lambda>i. vmm_init_map_page E page_dir (vaddr + push_bit 12 (of_nat i)) (ppf + push_bit 12 (of_nat i)) flags) s;
       vmm_flush_mmu_update_queue E s
     }"

definition vmm_xen_create_pde :: "xen_env \<Rightarrow> addr \<Rightarrow> nat \<Rightarrow> 'a pg_state_scheme \<Rightarrow> 'a pg_state_scheme option" where
  "vmm_xen_create_pde E page_dir i s =
     (let vaddr = VMM_P2V (push_bit 22 (of_nat i));
          pde_kvirt = VMM_GET_PDE page_dir vaddr;
          (pt_ppf, s) = vmm_init_ppf_alloc s;
          s = kmemset pt_ppf 0 PAGE_SIZE s;
          pt_ppf_ma = phys_to_mach E pt_ppf;
          pt_pte = VMM_GET_PTE s page_dir pt_ppf;
          pteval = PGTAB_ATTRIB_SU_RO OR PG_FLAG_PRESENT OR (pt_ppf_ma AND PAGE_MASK)
      in do {
        s \<leftarrow> vmm_queue_mmu_update E (ucast pt_pte) pteval s;
        let p = phys_to_mach E pde_kvirt;
        let val = (PGTAB_ATTRIB_USR_RW OR PG_FLAG_PRESENT OR (pt_ppf_ma AND PAGE_MASK)) AND NOT PD_FLAG_RSVD;
        vmm_queue_mmu_update E (ucast p) val s
      })"

definition vmm_xen_create_kernel_pgdir :: "xen_env \<Rightarrow> 'a pg_state_scheme \<Rightarrow> (addr \<times> 'a pg_state_scheme) option" where
  "vmm_xen_create_kernel_pgdir E s =
     (let page_dir = kernel_page_dir s;
          num_phys_mem_pdes = VMM_NUM_PDES (num_phys_mem_ppf s)
      in do {
        s \<leftarrow> c_each [0..<unat num_phys_mem_pdes] (vmm_xen_create_pde E page_dir) s;
        s \<leftarrow> vmm_flush_mmu_update_queue E s;
        s \<leftarrow> vmm_init_map_pages E page_dir VMM_KERNEL_BASE 0 (unat (num_phys_mem_ppf s)) PGTAB_ATTRIB_SU_RW s;
        Some (VMM_P2V page_dir, s)
      })"

text \<open>Without Xen: the directory is written directly, its tables map the kernel's text at its own address and the
  whole memory from \<open>VMM_KERNEL_BASE\<close> on.\<close>

definition vmm_create_pde :: "addr \<Rightarrow> addr \<Rightarrow> 'a pg_state_scheme \<Rightarrow> 'a pg_state_scheme" where
  "vmm_create_pde page_dir vaddr s =
     (let pde = VMM_GET_PDE page_dir vaddr;
          (pt_ppf, s) = vmm_init_ppf_alloc s;
          s = kmemset pt_ppf 0 PAGE_SIZE s
      in kst32 pde ((PGTAB_ATTRIB_SU_RW OR PG_FLAG_PRESENT OR (pt_ppf AND PAGE_MASK)) AND NOT PD_FLAG_RSVD) s)"

definition vmm_create_kernel_pgdir :: "xen_env \<Rightarrow> 'a pg_state_scheme \<Rightarrow> (addr \<times> 'a pg_state_scheme) option" where
  "vmm_create_kernel_pgdir E s =
     (let (page_dir, s) = vmm_init_ppf_alloc s;
          s = kmemset page_dir 0 PAGE_SIZE s;
          num_kernel_text_ppf = drop_bit 12 USER_MEM_START;
          num_kernel_text_pdes = VMM_NUM_PDES num_kernel_text_ppf;
          num_phys_mem_pdes = VMM_NUM_PDES (num_phys_mem_ppf s);
          s = fold (\<lambda>i. vmm_create_pde page_dir (push_bit 22 (of_nat i))) [0..<unat num_kernel_text_pdes] s
      in do {
        s \<leftarrow> vmm_init_map_pages E page_dir 0 0 (unat num_kernel_text_ppf) PGTAB_ATTRIB_SU_RW s;
        let s = fold (\<lambda>i. vmm_create_pde page_dir (VMM_P2V (push_bit 22 (of_nat i)))) [0..<unat num_phys_mem_pdes] s;
        s \<leftarrow> vmm_init_map_pages E page_dir VMM_KERNEL_BASE 0 (unat (num_phys_mem_ppf s)) PGTAB_ATTRIB_SU_RW s;
        Some (VMM_P2V page_dir, s)
      })"

text \<open>The entries of one page table, up to the end of the physical memory.\<close>

definition vmm_xen_map_pt :: "xen_env \<Rightarrow> addr \<Rightarrow> addr \<Rightarrow> 'a pg_state_scheme \<Rightarrow> 'a pg_state_scheme" where
  "vmm_xen_map_pt E pgtab vaddr s =
     (let max_addr = VMM_P2V (push_bit 12 (num_phys_mem_ppf s));
          pages = takeWhile (\<lambda>i. \<not> vaddr + push_bit 12 (of_nat i) \<ge> max_addr) [0..<1024]
      in fold (\<lambda>i s.
           let va = vaddr + push_bit 12 (of_nat i);
               ma = phys_to_mach E (VMM_V2P va)
           in kst32 (pgtab + 4 * of_nat i) ((PGTAB_ATTRIB_SU_RW OR PG_FLAG_PRESENT OR (ma AND PAGE_MASK)) AND NOT PD_FLAG_RSVD) s)
         pages s)"

definition vmm_xen_page_init :: "xen_env \<Rightarrow> 'a pg_state_scheme \<Rightarrow> 'a pg_state_scheme option" where
  "vmm_xen_page_init E s =
     (if xen_start_pt_base E = NULL then None else Some (s\<lparr>kernel_page_dir := xen_start_pt_base E\<rparr>))"

definition vmm_xen_map_shared :: "xen_env \<Rightarrow> 'a pg_state_scheme \<Rightarrow> (int \<times> 'a pg_state_scheme) option" where
  "vmm_xen_map_shared E s =
     (let (ppf_va, s) = vmm_ppf_alloc s
      in if ppf_va = NULL then None
         else do {
           let pte_ma = VMM_GET_PTE s (kernel_page_dir s) ppf_va;
           let val = PGTAB_ATTRIB_SU_RW OR PG_FLAG_PRESENT OR PG_FLAG_PWT OR xen_start_shared_info E;
           s \<leftarrow> vmm_queue_mmu_update E (ucast pte_ma) val s;
           let s = s\<lparr>xen_shared_info := ppf_va\<rparr>;
           let (ppf_va, s) = vmm_ppf_alloc s;
           if ppf_va = NULL then None
           else do {
             let pte_ma = VMM_GET_PTE s (kernel_page_dir s) ppf_va;
             let store_ma = push_bit 12 (xen_start_store_mfn E);
             let val = PGTAB_ATTRIB_SU_RW OR PG_FLAG_PRESENT OR store_ma;
             s \<leftarrow> vmm_queue_mmu_update E (ucast pte_ma) val s;
             let s = s\<lparr>xen_store := ppf_va\<rparr>;
             s \<leftarrow> vmm_flush_mmu_update_queue E s;
             Some (0, s)
           }
         })"

text \<open>The part of \<open>vmm_page_init\<close> after the kernel page directory exists: the two zones.
  \<open>init_page_count\<close> is never incremented, so the kernel pages are the pages below
  \<open>USER_MEM_START\<close>.\<close>

definition vmm_zones_init :: "'a pg_state_scheme \<Rightarrow> 'a pg_state_scheme" where
  "vmm_zones_init s =
     (let num_ppf = num_phys_mem_ppf s;
          kernel_pages = drop_bit 12 USER_MEM_START;
          lomem_free_start = VMM_P2V (push_bit 12 kernel_pages);
          lomem_free_pages = num_ppf - kernel_pages - VMM_KERNEL_STACK_PAGES;
          highmem_free_start = VMM_P2V (push_bit 12 (num_ppf - VMM_KERNEL_STACK_PAGES))
      in s\<lparr>lomem_zone := vmm_zone_init lomem_free_start lomem_free_pages (lomem_zone s),
            himem_zone := vmm_zone_init highmem_free_start VMM_KERNEL_STACK_PAGES (himem_zone s)\<rparr>)"

definition vmm_page_init :: "xen_env \<Rightarrow> 'a pg_state_scheme \<Rightarrow> 'a pg_state_scheme option" where
  "vmm_page_init E s =
     (let s = s\<lparr>num_phys_mem_ppf := machine_phys_frames E\<rparr>
      in do {
        (pd, s) \<leftarrow> vmm_xen_create_kernel_pgdir E s;
        let s = vmm_zones_init (s\<lparr>kernel_page_dir := pd\<rparr>);
        if xen_shared_info s = NULL then None else Some s
      })"

section \<open>Address arithmetic\<close>

lemma V2P_P2V: "VMM_V2P (VMM_P2V a) = VMM_V2P a"
  unfolding VMM_V2P_def VMM_P2V_def VMM_KERNEL_MASK_def VMM_KERNEL_BASE_def
  by (simp add: and.assoc bit.conj_disj_distrib2)

lemma V2P_idem: "VMM_V2P (VMM_V2P a) = VMM_V2P a"
  by (simp add: VMM_V2P_def and.assoc)

lemma P2V_nonnull: "VMM_P2V a \<noteq> NULL"
  by (simp add: VMM_P2V_def VMM_KERNEL_BASE_def or_eq_0_iff)

lemma V2P_bound: "unat (VMM_V2P a) < 0x40000000"
proof -
  have "VMM_V2P a = take_bit 30 a"
    unfolding VMM_V2P_def VMM_KERNEL_MASK_def by (simp only: take_bit_eq_mask) (simp add: mask_eq_decr_exp)
  then have "unat (VMM_V2P a) = take_bit 30 (unat a)" by (simp only: unsigned_take_bit_eq)
  then show ?thesis by (simp add: take_bit_eq_mod)
qed

lemma unat_PDE_INDEX: "unat (PDE_INDEX v) = unat v div 4194304"
proof -
  have m: "drop_bit 22 (0xffc00000 :: u32) = mask 10" by (simp add: mask_eq_decr_exp)
  have "PDE_INDEX v = take_bit 10 (drop_bit 22 v)"
    by (simp only: PDE_INDEX_def drop_bit_and m take_bit_eq_mask)
  then have "unat (PDE_INDEX v) = unat v div 4194304 mod 1024"
    by (simp only: unat_drop_bit_eq drop_bit_eq_div[where 'a = nat] unsigned_take_bit_eq
        take_bit_eq_mod[where 'a = nat]) simp
  moreover have "unat v div 4194304 < 1024" using unat_lt32[of v] by simp
  ultimately show ?thesis by simp
qed

lemma unat_PTE_INDEX: "unat (PTE_INDEX v) = unat v div 4096 mod 1024"
proof -
  have m: "drop_bit 12 (0x003ff000 :: u32) = mask 10" by (simp add: mask_eq_decr_exp)
  have "PTE_INDEX v = take_bit 10 (drop_bit 12 v)"
    by (simp only: PTE_INDEX_def drop_bit_and m take_bit_eq_mask)
  then show ?thesis
    by (simp only: unat_drop_bit_eq drop_bit_eq_div[where 'a = nat] unsigned_take_bit_eq
        take_bit_eq_mod[where 'a = nat]) simp
qed

text \<open>A virtual address is its directory index, its table index and its page offset.\<close>

lemma vaddr_decompose:
  "unat v = unat (PDE_INDEX v) * 4194304 + unat (PTE_INDEX v) * 4096 + unat (v AND PAGE_DIV)"
proof -
  have "unat v div 4194304 = unat v div 4096 div 1024" by (simp flip: div_mult2_eq)
  moreover have "unat v = unat v div 4096 * 4096 + unat v mod 4096" by simp
  moreover have "unat v div 4096 = unat v div 4096 div 1024 * 1024 + unat v div 4096 mod 1024"
    by simp
  ultimately show ?thesis
    unfolding unat_PDE_INDEX unat_PTE_INDEX unat_page_off by linarith
qed

lemma page_number: "unat x div 4096 = unat (PDE_INDEX x) * 1024 + unat (PTE_INDEX x)"
proof -
  have "unat x div 4194304 = unat x div 4096 div 1024" by (simp flip: div_mult2_eq)
  then show ?thesis unfolding unat_PDE_INDEX unat_PTE_INDEX
    using div_mult_mod_eq[of "unat x div 4096" 1024] by linarith
qed

lemma page_eq_iff: "v AND PAGE_MASK = w AND PAGE_MASK \<longleftrightarrow> unat v div 4096 = unat w div 4096"
  by (simp add: word_unat_eq_iff page_simps)

lemma PDE_INDEX_bound: "unat (PDE_INDEX v) < 1024"
  unfolding unat_PDE_INDEX using unat_lt32[of v] by (simp add: less_mult_imp_div_less)

lemma PTE_INDEX_bound: "unat (PTE_INDEX v) < 1024"
  unfolding unat_PTE_INDEX by simp

lemma digits_unique:
  fixes a b c d :: nat
  assumes "b < 1024" "d < 1024" "a * 1024 + b = c * 1024 + d"
  shows "a = c \<and> b = d"
proof -
  have "(a * 1024 + b) mod 1024 = b" "(c * 1024 + d) mod 1024 = d" using assms(1,2) by simp_all
  then have "b = d" using assms(3) by simp
  with assms(3) show ?thesis by simp
qed

lemma same_page_iff:
  "v AND PAGE_MASK = w AND PAGE_MASK \<longleftrightarrow> PDE_INDEX v = PDE_INDEX w \<and> PTE_INDEX v = PTE_INDEX w"
proof -
  have "unat (PDE_INDEX v) * 1024 + unat (PTE_INDEX v) = unat (PDE_INDEX w) * 1024 + unat (PTE_INDEX w)
      \<longleftrightarrow> unat (PDE_INDEX v) = unat (PDE_INDEX w) \<and> unat (PTE_INDEX v) = unat (PTE_INDEX w)"
    using digits_unique[OF PTE_INDEX_bound PTE_INDEX_bound] by metis
  then show ?thesis unfolding page_eq_iff page_number by (simp only: word_unat_eq_iff)
qed

end
