(* ===== verification/Page_Map.thy ===== *)
theory Page_Map
  imports Vmm_Page
begin

text \<open>
  What the page table code of \<^verbatim>\<open>kern/vmm_page.c\<close> promises.  The abstraction of the lazy update
  queue is \<open>eff\<close>, the memory as it will be once Xen has applied the pending requests; queueing
  a request is one store to that memory and a flush leaves it unchanged.  Over it
  \<open>vmm_map_pages\<close> maps exactly the pages it is asked to map.
\<close>

section \<open>What the hypervisor promises\<close>

text \<open>The documented contract of Xen's \<^verbatim>\<open>mmu_update\<close>: every request of an accepted batch is
  applied in order to the page its machine address names.\<close>

definition xen_apply :: "xen_env \<Rightarrow> (u64 \<times> u32) list \<Rightarrow> bytes \<Rightarrow> bytes" where
  "xen_apply E q m = fold (\<lambda>(p, v) m. st32 (mach_to_phys E (ucast p)) v m) q m"

definition xen_accepts :: "xen_env \<Rightarrow> bool" where
  "xen_accepts E \<longleftrightarrow>
     (\<forall>q m. HYPERVISOR_mmu_update E q m = (0, int (length q), xen_apply E q m)) \<and>
     (\<forall>op. HYPERVISOR_mmuext_op E op = (0, 1))"

text \<open>The two frame tables are inverse on the guest's frames, and machine frame 0 is never the
  guest's.\<close>

definition xen_frames :: "xen_env \<Rightarrow> bool" where
  "xen_frames E \<longleftrightarrow>
     (\<forall>pfn. unat pfn < 0x40000 \<longrightarrow>
        unat (xen_mfn_list E pfn) < 0x100000 \<and> xen_mfn_list E pfn \<noteq> 0 \<and>
        machine_to_phys_mapping E (xen_mfn_list E pfn) = pfn)"

section \<open>Frame and offset\<close>

lemma frame_or_offset:
  assumes "unat (p :: u32) < 0x100000"
  shows "unat (push_bit 12 p OR (x AND PAGE_DIV)) = unat p * 4096 + unat x mod 4096"
proof -
  have d: "push_bit 12 p AND (x AND PAGE_DIV) = 0"
    by (rule bit_word_eqI) (auto simp: bit_simps PAGE_DIV_mask)
  have pb: "unat (push_bit 12 p) = unat p * 4096"
    using assms
    by (simp only: unsigned_push_bit_eq push_bit_eq_mult[where 'a = nat])
       (simp add: take_bit_nat_eq_self)
  have "push_bit 12 p OR (x AND PAGE_DIV) = push_bit 12 p + (x AND PAGE_DIV)"
    using d by (simp add: disjunctive_add_eq_or)
  moreover have "unat x mod 4096 < 4096" by simp
  then have "unat (push_bit 12 p) + unat (x AND PAGE_DIV) < 2 ^ 32"
    unfolding pb unat_page_off using assms by simp
  ultimately show ?thesis
    by (simp add: unat_add_no_wrap pb unat_page_off)
qed

lemma unat_drop12: "unat (drop_bit 12 (x :: u32)) = unat x div 4096"
  by (simp only: unat_drop_bit_eq drop_bit_eq_div[where 'a = nat]) simp

lemma mach_to_phys_alt:
  "mach_to_phys E a = push_bit 12 (machine_to_phys_mapping E (drop_bit 12 a)) OR (a AND PAGE_DIV)"
  by (simp add: mach_to_phys_def PAGE_DIV_eq)

lemma phys_to_mach_alt:
  "phys_to_mach E a = push_bit 12 (xen_mfn_list E (drop_bit 12 a)) OR (a AND PAGE_DIV)"
  by (simp add: phys_to_mach_def PAGE_DIV_eq)

lemma unat_mach_to_phys:
  "unat (machine_to_phys_mapping E (drop_bit 12 a)) < 0x100000 \<Longrightarrow>
   unat (mach_to_phys E a) = unat (machine_to_phys_mapping E (drop_bit 12 a)) * 4096 + unat a mod 4096"
  unfolding mach_to_phys_alt by (rule frame_or_offset)

lemma V2P_small: "unat a < 0x40000000 \<Longrightarrow> VMM_V2P a = a"
proof -
  assume l: "unat a < 0x40000000"
  have "VMM_V2P a = take_bit 30 a"
    unfolding VMM_V2P_def VMM_KERNEL_MASK_def by (simp only: take_bit_eq_mask) (simp add: mask_eq_decr_exp)
  then have "unat (VMM_V2P a) = take_bit 30 (unat a)" by (simp only: unsigned_take_bit_eq)
  then show ?thesis using l by (simp add: take_bit_nat_eq_self word_unat_eq_iff)
qed

lemma drop12_frame:
  assumes "unat (p :: u32) < 0x100000"
  shows "drop_bit 12 (push_bit 12 p OR (x AND PAGE_DIV)) = p"
  unfolding word_unat_eq_iff unat_drop12 frame_or_offset[OF assms] by simp

text \<open>A frame's machine address leads back to the frame, offset included.\<close>

lemma mach_phys_roundtrip:
  assumes "xen_frames E" "unat pa < 0x40000000"
  shows "mach_to_phys E (phys_to_mach E pa) = pa" "phys_to_mach E pa AND PAGE_MASK \<noteq> 0"
proof -
  let ?pfn = "drop_bit 12 pa"
  have l: "unat ?pfn < 0x40000" using assms(2) by (simp add: unat_drop12)
  then have f: "unat (xen_mfn_list E ?pfn) < 0x100000" "xen_mfn_list E ?pfn \<noteq> 0"
      "machine_to_phys_mapping E (xen_mfn_list E ?pfn) = ?pfn"
    using assms(1) by (auto simp: xen_frames_def)
  have d: "drop_bit 12 (phys_to_mach E pa) = xen_mfn_list E ?pfn"
    unfolding phys_to_mach_alt by (rule drop12_frame[OF f(1)])
  have u: "unat (phys_to_mach E pa) = unat (xen_mfn_list E ?pfn) * 4096 + unat pa mod 4096"
    unfolding phys_to_mach_alt by (rule frame_or_offset[OF f(1)])
  have "unat (mach_to_phys E (phys_to_mach E pa)) = unat ?pfn * 4096 + unat pa mod 4096"
    using unat_mach_to_phys[of E "phys_to_mach E pa"] l by (simp add: d f(3) u)
  then show "mach_to_phys E (phys_to_mach E pa) = pa"
    by (simp add: word_unat_eq_iff unat_drop12)
  show "phys_to_mach E pa AND PAGE_MASK \<noteq> 0"
    using f(2) by (simp add: word_unat_eq_iff[of "phys_to_mach E pa AND PAGE_MASK"] unat_page u unat_eq_0)
qed

section \<open>The queue\<close>

definition eff :: "xen_env \<Rightarrow> 'a pg_state_scheme \<Rightarrow> bytes" where
  "eff E s = xen_apply E (xen_queue s) (pmem s)"

lemma xen_apply_simps [simp]:
  "xen_apply E [] m = m"
  "xen_apply E (q @ [(p, v)]) m = st32 (mach_to_phys E (ucast p)) v (xen_apply E q m)"
  by (simp_all add: xen_apply_def)

lemma flush_accepted:
  assumes "xen_accepts E"
  shows "vmm_flush_mmu_update_queue E s =
    Some (s\<lparr>pmem := eff E s, xen_queue := [], mmuext_log := TlbFlushLocal # mmuext_log s\<rparr>)"
  using assms by (simp add: vmm_flush_mmu_update_queue_def vmm_mmuext_op_def xen_accepts_def eff_def)

text \<open>Only the memory, the queue and the log of flushes differ.\<close>

definition queue_only :: "'a pg_state_scheme \<Rightarrow> 'a pg_state_scheme \<Rightarrow> bool" where
  "queue_only s s' \<longleftrightarrow>
     s' = s\<lparr>pmem := pmem s', xen_queue := xen_queue s', mmuext_log := mmuext_log s'\<rparr>"

lemma queue_only_refl [simp]: "queue_only s s"
  by (simp add: queue_only_def)

lemma queue_only_trans: "queue_only s t \<Longrightarrow> queue_only t u \<Longrightarrow> queue_only s u"
  unfolding queue_only_def by (cases s, cases t, cases u) simp

text \<open>The queue implements one immediate store, whether or not it has to be flushed; it never
  holds a full batch.\<close>

lemma queue_update_refines:
  assumes "xen_accepts E" "length (xen_queue s) < XEN_UPDATE_QUEUE_SIZE"
  obtains s' where "vmm_queue_mmu_update E p v s = Some s'"
    "eff E s' = st32 (mach_to_phys E (ucast p)) v (eff E s)"
    "pmem s' = pmem s \<or> pmem s' = eff E s'"
    "length (xen_queue s') < XEN_UPDATE_QUEUE_SIZE"
    "queue_only s s'"
proof (cases "length (xen_queue s) = XEN_UPDATE_QUEUE_SIZE - 1")
  case True
  then show ?thesis
    using that[of "s\<lparr>pmem := xen_apply E (xen_queue s @ [(p, v)]) (pmem s), xen_queue := [],
        mmuext_log := TlbFlushLocal # mmuext_log s\<rparr>"]
    by (auto simp: vmm_queue_mmu_update_def flush_accepted[OF assms(1)] eff_def XEN_UPDATE_QUEUE_SIZE_def
        queue_only_def)
next
  case False
  have "s\<lparr>xen_queue := q\<rparr> = s\<lparr>pmem := pmem s, xen_queue := q, mmuext_log := mmuext_log s\<rparr>" for q
    by (cases s) simp
  then have "queue_only s (s\<lparr>xen_queue := q\<rparr>)" for q
    by (simp add: queue_only_def)
  with False show ?thesis
    using that[of "s\<lparr>xen_queue := xen_queue s @ [(p, v)]\<rparr>"] assms(2)
    by (auto simp: vmm_queue_mmu_update_def eff_def XEN_UPDATE_QUEUE_SIZE_def)
qed

section \<open>Well-formed page directories\<close>

definition pde_val :: "bytes \<Rightarrow> addr \<Rightarrow> addr \<Rightarrow> u32" where
  "pde_val m pd v = ld32 m (VMM_V2P (VMM_GET_PDE pd v))"

definition pt_ma :: "bytes \<Rightarrow> addr \<Rightarrow> addr \<Rightarrow> addr" where
  "pt_ma m pd v = pde_val m pd v AND PAGE_MASK"

definition pt_pfn :: "xen_env \<Rightarrow> bytes \<Rightarrow> addr \<Rightarrow> addr \<Rightarrow> u32" where
  "pt_pfn E m pd v = machine_to_phys_mapping E (drop_bit 12 (pt_ma m pd v))"

definition pte_pa :: "xen_env \<Rightarrow> bytes \<Rightarrow> addr \<Rightarrow> addr \<Rightarrow> addr" where
  "pte_pa E m pd v = mach_to_phys E (pt_ma m pd v + 4 * PTE_INDEX v)"

text \<open>On the addresses \<open>V\<close>: the directory is a page, every page table it names is a frame of
  the guest other than the directory, and no frame serves two directory entries.\<close>

definition pgdir_wf :: "xen_env \<Rightarrow> bytes \<Rightarrow> addr \<Rightarrow> addr set \<Rightarrow> bool" where
  "pgdir_wf E m pd V \<longleftrightarrow>
     unat pd mod 4096 = 0 \<and>
     (\<forall>v. v \<in> V \<longrightarrow> pt_ma m pd v \<noteq> 0 \<longrightarrow>
        unat (pt_pfn E m pd v) < 0x40000 \<and> push_bit 12 (pt_pfn E m pd v) \<noteq> VMM_V2P pd) \<and>
     (\<forall>v w. v \<in> V \<longrightarrow> w \<in> V \<longrightarrow> pt_ma m pd v \<noteq> 0 \<longrightarrow> pt_ma m pd w \<noteq> 0 \<longrightarrow>
        pt_pfn E m pd v = pt_pfn E m pd w \<longrightarrow> PDE_INDEX v = PDE_INDEX w)"

lemma unat_times4: "unat (x :: u32) < 1024 \<Longrightarrow> unat (4 * x) = 4 * unat x"
  by (simp add: unat_word_ariths)

lemma unat_GET_PDE_phys:
  assumes "unat pd mod 4096 = 0"
  shows "unat (VMM_V2P (VMM_GET_PDE pd v)) = unat (VMM_V2P pd) + 4 * unat (PDE_INDEX v)"
    "unat (VMM_V2P pd) mod 4096 = 0"
proof -
  have v2p: "unat (VMM_V2P x) = unat x mod 0x40000000" for x
  proof -
    have "VMM_V2P x = take_bit 30 x"
      unfolding VMM_V2P_def VMM_KERNEL_MASK_def by (simp only: take_bit_eq_mask) (simp add: mask_eq_decr_exp)
    then have "unat (VMM_V2P x) = take_bit 30 (unat x)" by (simp only: unsigned_take_bit_eq)
    then show ?thesis by (simp add: take_bit_eq_mod)
  qed
  obtain k where k: "unat pd = 4096 * k" using assms by (metis mod_eq_0_iff_dvd dvdE)
  have b: "4 * unat (PDE_INDEX v) < 4096" using PDE_INDEX_bound[of v] by simp
  have u: "unat (VMM_GET_PDE pd v) = 4096 * k + 4 * unat (PDE_INDEX v)"
    unfolding VMM_GET_PDE_def
    using b page_end_no_wrap[OF assms] PDE_INDEX_bound[of v] k
    by (simp add: unat_add_no_wrap unat_times4)
  have m: "(4096 * k + r) mod 1073741824 = 4096 * (k mod 262144) + r" if "r < 4096" for r
  proof -
    have "4096 * (k mod 262144) + r < 1073741824"
      using that mod_less_divisor[of 262144 k] by linarith
    moreover have "4096 * k + r = 1073741824 * (k div 262144) + (4096 * (k mod 262144) + r)"
      using mult_div_mod_eq[of 262144 k] by linarith
    ultimately show ?thesis by (metis mod_less mod_mult_self4)
  qed
  have "unat (VMM_V2P pd) = 4096 * (k mod 262144)" using m[of 0] by (simp add: v2p k)
  then show "unat (VMM_V2P (VMM_GET_PDE pd v)) = unat (VMM_V2P pd) + 4 * unat (PDE_INDEX v)"
    "unat (VMM_V2P pd) mod 4096 = 0"
    using m[OF b] by (simp_all add: v2p u)
qed

lemma pt_ma_aligned: "unat (pt_ma m pd v) mod 4096 = 0"
  by (simp add: pt_ma_def unat_page)

lemma pte_ma_frame:
  "drop_bit 12 (pt_ma m pd v + 4 * PTE_INDEX v) = drop_bit 12 (pt_ma m pd v)"
  "unat (pt_ma m pd v + 4 * PTE_INDEX v) mod 4096 = 4 * unat (PTE_INDEX v)"
proof -
  obtain k where k: "unat (pt_ma m pd v) = 4096 * k"
    using pt_ma_aligned by (metis mod_eq_0_iff_dvd dvdE)
  have b: "4 * unat (PTE_INDEX v) < 4096" using PTE_INDEX_bound[of v] by simp
  have u: "unat (pt_ma m pd v + 4 * PTE_INDEX v) = 4096 * k + 4 * unat (PTE_INDEX v)"
    using b page_end_no_wrap[OF pt_ma_aligned, of m pd v] PTE_INDEX_bound[of v] k
    by (simp add: unat_add_no_wrap unat_times4)
  show "unat (pt_ma m pd v + 4 * PTE_INDEX v) mod 4096 = 4 * unat (PTE_INDEX v)"
    unfolding u using b by simp
  show "drop_bit 12 (pt_ma m pd v + 4 * PTE_INDEX v) = drop_bit 12 (pt_ma m pd v)"
    unfolding word_unat_eq_iff unat_drop12 u k using b by simp
qed

lemma unat_pte_pa:
  assumes "unat (pt_pfn E m pd v) < 0x40000"
  shows "unat (pte_pa E m pd v) = unat (pt_pfn E m pd v) * 4096 + 4 * unat (PTE_INDEX v)"
proof -
  have f: "machine_to_phys_mapping E (drop_bit 12 (pt_ma m pd v + 4 * PTE_INDEX v)) = pt_pfn E m pd v"
    by (simp only: pte_ma_frame pt_pfn_def)
  show ?thesis
    unfolding pte_pa_def using assms unat_mach_to_phys[of E "pt_ma m pd v + 4 * PTE_INDEX v"]
    unfolding f pte_ma_frame(2) by linarith
qed

lemma pte_pa_facts:
  assumes "unat (pt_pfn E m pd v) < 0x40000"
  shows "word_aligned (pte_pa E m pd v)" "VMM_V2P (pte_pa E m pd v) = pte_pa E m pd v"
proof -
  have "unat (pte_pa E m pd v) = 4 * (unat (pt_pfn E m pd v) * 1024 + unat (PTE_INDEX v))"
    using unat_pte_pa[OF assms] by simp
  then show "word_aligned (pte_pa E m pd v)" unfolding word_aligned_def by simp
  show "VMM_V2P (pte_pa E m pd v) = pte_pa E m pd v"
    using unat_pte_pa[OF assms] assms PTE_INDEX_bound[of v] by (intro V2P_small) linarith
qed

lemma pde_addr_aligned:
  assumes "unat pd mod 4096 = 0"
  shows "word_aligned (VMM_V2P (VMM_GET_PDE pd v))"
proof -
  obtain k where "unat (VMM_V2P pd) = 4096 * k"
    using unat_GET_PDE_phys(2)[OF assms] by (metis mod_eq_0_iff_dvd dvdE)
  then have "unat (VMM_V2P (VMM_GET_PDE pd v)) = 4 * (1024 * k + unat (PDE_INDEX v))"
    using unat_GET_PDE_phys(1)[OF assms] by simp
  then show ?thesis unfolding word_aligned_def by simp
qed

lemma pde_not_pte:
  assumes wf: "pgdir_wf E m pd V" and v: "v \<in> V" "pt_ma m pd v \<noteq> 0"
  shows "VMM_V2P (VMM_GET_PDE pd w) \<noteq> pte_pa E m pd v"
proof
  assume "VMM_V2P (VMM_GET_PDE pd w) = pte_pa E m pd v"
  moreover have a: "unat pd mod 4096 = 0" and p: "unat (pt_pfn E m pd v) < 0x40000"
    and ne: "push_bit 12 (pt_pfn E m pd v) \<noteq> VMM_V2P pd" using wf v by (auto simp: pgdir_wf_def)
  obtain k where k: "unat (VMM_V2P pd) = 4096 * k"
    using unat_GET_PDE_phys(2)[OF a] by (metis mod_eq_0_iff_dvd dvdE)
  ultimately have "4096 * k + 4 * unat (PDE_INDEX w) = unat (pt_pfn E m pd v) * 4096 + 4 * unat (PTE_INDEX v)"
    using unat_pte_pa[OF p] unat_GET_PDE_phys(1)[OF a] by metis
  then have "k = unat (pt_pfn E m pd v)"
    using digits_unique[OF PDE_INDEX_bound[of w] PTE_INDEX_bound[of v], of k "unat (pt_pfn E m pd v)"]
    by linarith
  moreover have "unat (push_bit 12 (pt_pfn E m pd v)) = unat (pt_pfn E m pd v) * 4096"
    using frame_or_offset[of "pt_pfn E m pd v" 0] p by simp
  ultimately show False using ne k by (simp add: word_unat_eq_iff)
qed

lemma pte_pa_inj:
  assumes wf: "pgdir_wf E m pd V" and v: "v \<in> V" "pt_ma m pd v \<noteq> 0" and w: "w \<in> V" "pt_ma m pd w \<noteq> 0"
    and eq: "pte_pa E m pd v = pte_pa E m pd w"
  shows "v AND PAGE_MASK = w AND PAGE_MASK"
proof -
  have p: "unat (pt_pfn E m pd v) < 0x40000" "unat (pt_pfn E m pd w) < 0x40000"
    using wf v w by (auto simp: pgdir_wf_def)
  have "unat (pt_pfn E m pd v) * 1024 + unat (PTE_INDEX v) = unat (pt_pfn E m pd w) * 1024 + unat (PTE_INDEX w)"
    using eq unat_pte_pa[OF p(1)] unat_pte_pa[OF p(2)] by simp
  then have "pt_pfn E m pd v = pt_pfn E m pd w" "PTE_INDEX v = PTE_INDEX w"
    using digits_unique[OF PTE_INDEX_bound PTE_INDEX_bound] by (metis word_unat_eq_iff)+
  then show ?thesis
    using wf v w unfolding same_page_iff pgdir_wf_def by blast
qed

section \<open>Mapping one page\<close>

lemma VMM_GET_PTE_alt:
  "VMM_GET_PTE s pd v = (if pt_ma (pmem s) pd v = 0 then 0 else pt_ma (pmem s) pd v + 4 * PTE_INDEX v)"
  by (simp add: VMM_GET_PTE_def VMM_GET_PGTAB_def pt_ma_def pde_val_def kld32_def)

definition pte_value :: "xen_env \<Rightarrow> addr \<Rightarrow> u32 \<Rightarrow> u32" where
  "pte_value E ppf flags = (if ppf \<noteq> NULL then flags OR phys_to_mach E (VMM_V2P ppf) else 0)"

text \<open>What mapping a page comes to when the page table exists: one request to Xen, unless the entry in
  the table, as it is now, has the wanted value already.\<close>

lemma map_page_run:
  assumes pt: "pt_ma (pmem s) pd v \<noteq> 0" and p: "unat (pt_pfn E (pmem s) pd v) < 0x40000"
  shows "vmm_map_page E pd v ppf flags s =
      (if ld32 (pmem s) (pte_pa E (pmem s) pd v) \<noteq> pte_value E ppf flags
       then Option.bind (vmm_queue_mmu_update E (ucast (pt_ma (pmem s) pd v + 4 * PTE_INDEX v)) (pte_value E ppf flags) s)
              (\<lambda>s. Some (0, s))
       else Some (0, s))"
proof -
  let ?ma = "pt_ma (pmem s) pd v + 4 * PTE_INDEX v"
  have pde: "kld32 s (VMM_P2V (VMM_GET_PDE pd v)) \<noteq> 0"
    using pt by (auto simp: kld32_def V2P_P2V pt_ma_def pde_val_def)
  have pte: "kld32 s (VMM_P2V (mach_to_phys E ?ma)) = ld32 (pmem s) (pte_pa E (pmem s) pd v)"
    using pte_pa_facts(2)[OF p] by (simp add: kld32_def V2P_P2V pte_pa_def)
  show ?thesis
    using pde pte pt by (simp add: vmm_map_page_def VMM_GET_PTE_alt pte_value_def Let_def)
qed

lemma map_page_present:
  assumes acc: "xen_accepts E" and q: "length (xen_queue s) < XEN_UPDATE_QUEUE_SIZE"
    and pt: "pt_ma (pmem s) pd v \<noteq> 0" and p: "unat (pt_pfn E (pmem s) pd v) < 0x40000"
    and fresh: "ld32 (eff E s) (pte_pa E (pmem s) pd v) = ld32 (pmem s) (pte_pa E (pmem s) pd v)"
  obtains s' where "vmm_map_page E pd v ppf flags s = Some (0, s')"
    "\<And>a. word_aligned a \<Longrightarrow> ld32 (eff E s') a =
       (if a = pte_pa E (pmem s) pd v then pte_value E ppf flags else ld32 (eff E s) a)"
    "pmem s' = pmem s \<or> pmem s' = eff E s'"
    "length (xen_queue s') < XEN_UPDATE_QUEUE_SIZE"
    "queue_only s s'"
proof -
  let ?ma = "pt_ma (pmem s) pd v + 4 * PTE_INDEX v"
  let ?pa = "pte_pa E (pmem s) pd v"
  have cast: "ucast (ucast ?ma :: u64) = ?ma" by (rule bit_word_eqI) (auto simp: bit_simps)
  note unfold = map_page_run[OF pt p, of ppf flags]
  show ?thesis
  proof (cases "ld32 (pmem s) ?pa = pte_value E ppf flags")
    case True
    from True show ?thesis using that[of s] unfold fresh q by simp
  next
    case False
    obtain s' where s': "vmm_queue_mmu_update E (ucast ?ma) (pte_value E ppf flags) s = Some s'"
      "eff E s' = st32 (mach_to_phys E ?ma) (pte_value E ppf flags) (eff E s)"
      "pmem s' = pmem s \<or> pmem s' = eff E s'" "length (xen_queue s') < XEN_UPDATE_QUEUE_SIZE"
      "queue_only s s'"
      using queue_update_refines[OF acc q, of "ucast ?ma" "pte_value E ppf flags"] unfolding cast by metis
    have "ld32 (eff E s') a = (if a = ?pa then pte_value E ppf flags else ld32 (eff E s) a)"
      if "word_aligned a" for a
      using that pte_pa_facts(1)[OF p] unfolding s'(2) pte_pa_def[symmetric]
      by (simp add: ld32_st32_other)
    then show ?thesis using that[of s'] s' False unfold by simp
  qed
qed

section \<open>Reading a mapping\<close>

definition mapping_of :: "xen_env \<Rightarrow> u32 \<Rightarrow> u32" where
  "mapping_of E x =
     (if x AND PAGE_MASK \<noteq> 0 then mach_to_phys E (x AND PAGE_MASK) else 0) OR (x AND PAGE_DIV)"

lemma get_mapping_absent: "pt_ma (pmem s) pd v = 0 \<Longrightarrow> vmm_get_mapping E pd v s = 0"
  by (simp add: vmm_get_mapping_def VMM_GET_PTE_alt)

lemma get_mapping_present:
  assumes "pt_ma (pmem s) pd v \<noteq> 0" "unat (pt_pfn E (pmem s) pd v) < 0x40000"
  shows "vmm_get_mapping E pd v s = mapping_of E (ld32 (pmem s) (pte_pa E (pmem s) pd v))"
proof -
  let ?ma = "pt_ma (pmem s) pd v + 4 * PTE_INDEX v"
  have pde: "kld32 s (VMM_P2V (VMM_GET_PDE pd v)) \<noteq> 0"
    using assms(1) by (auto simp: kld32_def V2P_P2V pt_ma_def pde_val_def)
  have pte: "kld32 s (VMM_P2V (mach_to_phys E ?ma)) = ld32 (pmem s) (pte_pa E (pmem s) pd v)"
    using pte_pa_facts(2)[OF assms(2)] by (simp add: kld32_def V2P_P2V pte_pa_def)
  have "unat ?ma \<noteq> 0"
  proof
    assume z: "unat ?ma = 0"
    have "drop_bit 12 (pt_ma (pmem s) pd v) = drop_bit 12 ?ma" by (simp only: pte_ma_frame)
    then have "unat (pt_ma (pmem s) pd v) div 4096 = 0"
      using z by (simp only: word_unat_eq_iff unat_drop12)
    then have "unat (pt_ma (pmem s) pd v) = 0"
      using pt_ma_aligned[of "pmem s" pd v] div_mult_mod_eq[of "unat (pt_ma (pmem s) pd v)" 4096] by linarith
    with assms(1) show False by (simp add: unat_eq_0)
  qed
  then have "?ma \<noteq> 0" by (auto simp: unat_eq_0)
  with pde pte assms(1) show ?thesis
    by (simp add: vmm_get_mapping_def VMM_GET_PTE_alt mapping_of_def Let_def)
qed

lemma and_page_mask_self: "unat a mod 4096 = 0 \<Longrightarrow> a AND PAGE_MASK = a"
  using div_mult_mod_eq[of "unat a" 4096] by (simp add: word_unat_eq_iff unat_page)

lemma and_page_div_zero: "unat a mod 4096 = 0 \<Longrightarrow> a AND PAGE_DIV = 0"
  by (simp add: word_unat_eq_iff unat_page_off)

lemma flags_page_div: "flags AND PAGE_MASK = 0 \<Longrightarrow> flags AND PAGE_DIV = flags"
  using page_split[of flags] by simp

lemma mapping_of_pte_value:
  assumes "xen_frames E" "ppf \<noteq> NULL" "unat (VMM_V2P ppf) mod 4096 = 0" "flags AND PAGE_MASK = 0"
  shows "mapping_of E (pte_value E ppf flags) = VMM_V2P ppf OR flags"
proof -
  let ?ma = "phys_to_mach E (VMM_V2P ppf)"
  have l: "unat (VMM_V2P ppf) < 0x40000000" by (rule V2P_bound)
  have rt: "mach_to_phys E ?ma = VMM_V2P ppf" "?ma AND PAGE_MASK \<noteq> 0"
    using mach_phys_roundtrip[OF assms(1) l] by auto
  have "?ma AND PAGE_DIV = VMM_V2P ppf AND PAGE_DIV"
    by (rule bit_word_eqI) (auto simp: phys_to_mach_alt bit_simps PAGE_DIV_mask)
  then have z: "?ma AND PAGE_DIV = 0" using and_page_div_zero[OF assms(3)] by simp
  then have self: "?ma AND PAGE_MASK = ?ma" using page_split[of ?ma] by simp
  have "(flags OR ?ma) AND PAGE_MASK = ?ma" "(flags OR ?ma) AND PAGE_DIV = flags"
    using assms(4) self z flags_page_div[OF assms(4)] by (simp_all add: bit.conj_disj_distrib2)
  then show ?thesis
    using rt self assms(2) by (simp add: mapping_of_def pte_value_def)
qed

section \<open>Ranges of pages\<close>

lemma push12_of_nat: "push_bit 12 (of_nat i) = (of_nat (4096 * i) :: u32)"
  by (simp add: push_bit_eq_mult)

lemma page_shift_nat:
  fixes k r d :: nat
  assumes "r < 4096" "k < 1048576" "0 < d" "d < 1048576"
  shows "(4096 * k + r + 4096 * d) mod 4294967296 div 4096 \<noteq> k"
proof (cases "k + d < 1048576")
  case True
  then have "(4096 * k + r + 4096 * d) mod 4294967296 = 4096 * (k + d) + r"
    using assms(1) by (simp add: distrib_left)
  then show ?thesis using assms by simp
next
  case False
  then have e: "4096 * k + r + 4096 * d = 4096 * (k + d - 1048576) + r + 4294967296" by linarith
  have "(4096 * k + r + 4096 * d) mod 4294967296 = 4096 * (k + d - 1048576) + r"
    unfolding e mod_add_self2 by (rule mod_less) (use assms in linarith)
  then show ?thesis using assms False by simp
qed

lemma page_shift_neq:
  assumes "0 < d" "d < 0x100000"
  shows "unat (x + of_nat (4096 * d) :: u32) div 4096 \<noteq> unat x div 4096"
proof -
  have l: "4096 * d < 2 ^ 32" using assms(2) by simp
  then have d: "unat (of_nat (4096 * d) :: u32) = 4096 * d"
    unfolding unsigned_of_nat of_nat_id by (intro take_bit_nat_eq_self) simp
  have "unat x = 4096 * (unat x div 4096) + unat x mod 4096" by simp
  moreover have "unat x div 4096 < 1048576" using unat_lt32[of x] by (simp add: less_mult_imp_div_less)
  moreover have "unat x mod 4096 < 4096" by simp
  moreover have "unat (x + of_nat (4096 * d) :: u32) = (unat x + 4096 * d) mod 4294967296"
    unfolding unat_word_ariths(1) d by simp
  ultimately show ?thesis using page_shift_nat[of "unat x mod 4096" "unat x div 4096" d] assms by metis
qed

lemma page_at_distinct:
  assumes "i < j" "j < 0x100000"
  shows "page_at v i AND PAGE_MASK \<noteq> page_at v j AND PAGE_MASK"
proof -
  have "page_at v j = page_at v i + of_nat (4096 * (j - i))"
    using assms(1) by (simp add: push12_of_nat of_nat_diff algebra_simps)
  moreover have "unat (page_at v i + of_nat (4096 * (j - i))) div 4096 \<noteq> unat (page_at v i) div 4096"
    by (rule page_shift_neq) (use assms in auto)
  ultimately show ?thesis unfolding page_eq_iff by metis
qed

lemma page_at_inj:
  "i < 0x100000 \<Longrightarrow> j < 0x100000 \<Longrightarrow> page_at v i AND PAGE_MASK = page_at v j AND PAGE_MASK \<Longrightarrow> i = j"
  using page_at_distinct[of i j v] page_at_distinct[of j i v] by (metis linorder_neqE_nat)

lemma V2P_page_at:
  assumes "unat (VMM_V2P ppf) + 4096 * n \<le> 0x40000000" "i < n"
  shows "unat (VMM_V2P (page_at ppf i)) = unat (VMM_V2P ppf) + 4096 * i"
proof -
  have v2p: "unat (VMM_V2P x) = unat x mod 0x40000000" for x
  proof -
    have "VMM_V2P x = take_bit 30 x"
      unfolding VMM_V2P_def VMM_KERNEL_MASK_def by (simp only: take_bit_eq_mask) (simp add: mask_eq_decr_exp)
    then have "unat (VMM_V2P x) = take_bit 30 (unat x)" by (simp only: unsigned_take_bit_eq)
    then show ?thesis by (simp add: take_bit_eq_mod)
  qed
  have l: "4096 * i < 2 ^ 32" using assms by simp
  then have d: "unat (of_nat (4096 * i) :: u32) = 4096 * i"
    unfolding unsigned_of_nat of_nat_id by (intro take_bit_nat_eq_self) simp
  have b: "unat ppf mod 1073741824 + 4096 * i < 1073741824"
    using assms unfolding v2p by linarith
  have "unat (page_at ppf i) = (unat ppf + 4096 * i) mod 4294967296"
    unfolding push12_of_nat unat_word_ariths(1) d by simp
  then have "unat (page_at ppf i) mod 1073741824 = (unat ppf + 4096 * i) mod 1073741824"
    by (simp add: mod_mod_cancel)
  also have "\<dots> = (unat ppf mod 1073741824 + 4096 * i) mod 1073741824" by (simp add: mod_add_left_eq)
  also have "\<dots> = unat ppf mod 1073741824 + 4096 * i" using b by (rule mod_less)
  finally show ?thesis unfolding v2p .
qed

text \<open>What holds after the pages in \<open>D\<close> have been requested, relative to the memory \<open>m0\<close> the
  loop started from.\<close>

definition map_inv ::
  "xen_env \<Rightarrow> bytes \<Rightarrow> addr \<Rightarrow> addr \<Rightarrow> addr \<Rightarrow> u32 \<Rightarrow> nat set \<Rightarrow> 'a pg_state_scheme \<Rightarrow> bool" where
  "map_inv E m0 pd v ppf flags D s \<longleftrightarrow>
     length (xen_queue s) < XEN_UPDATE_QUEUE_SIZE \<and>
     (\<forall>a. word_aligned a \<longrightarrow> a \<notin> (\<lambda>i. pte_pa E m0 pd (page_at v i)) ` D \<longrightarrow>
        ld32 (eff E s) a = ld32 m0 a \<and> ld32 (pmem s) a = ld32 m0 a) \<and>
     (\<forall>i\<in>D. ld32 (eff E s) (pte_pa E m0 pd (page_at v i)) = pte_value E (page_at ppf i) flags)"

lemma map_step:
  assumes acc: "xen_accepts E" and wf: "pgdir_wf E m0 pd V"
    and rng: "\<forall>i\<in>insert i D. page_at v i \<in> V \<and> pt_ma m0 pd (page_at v i) \<noteq> 0 \<and> i < 0x100000"
    and inv: "map_inv E m0 pd v ppf flags D s" and new: "i \<notin> D"
  obtains s' where "vmm_map_page E pd (page_at v i) (page_at ppf i) flags s = Some (0, s')"
    "map_inv E m0 pd v ppf flags (insert i D) s'"
    "queue_only s s'"
proof -
  let ?P = "\<lambda>i. pte_pa E m0 pd (page_at v i)"
  have pfn: "unat (pt_pfn E m0 pd (page_at v k)) < 0x40000" if "k \<in> insert i D" for k
    using wf rng that by (auto simp: pgdir_wf_def)
  have al: "word_aligned (?P k)" if "k \<in> insert i D" for k using pte_pa_facts(1)[OF pfn[OF that]] .
  have nin: "?P i \<notin> ?P ` D"
  proof
    assume "?P i \<in> ?P ` D"
    then obtain k where k: "k \<in> D" "?P i = ?P k" by auto
    then have "page_at v i AND PAGE_MASK = page_at v k AND PAGE_MASK"
      using rng by (intro pte_pa_inj[OF wf]) auto
    then have "i = k" using rng k(1) by (intro page_at_inj[of i k v]) auto
    with k new show False by simp
  qed
  have pd_al: "unat pd mod 4096 = 0" using wf by (simp add: pgdir_wf_def)
  have "VMM_V2P (VMM_GET_PDE pd w) \<notin> ?P ` D" for w
  proof
    assume "VMM_V2P (VMM_GET_PDE pd w) \<in> ?P ` D"
    then obtain k where "k \<in> D" "VMM_V2P (VMM_GET_PDE pd w) = ?P k" by auto
    then show False using pde_not_pte[OF wf, of "page_at v k" w] rng by auto
  qed
  then have pde: "pde_val (pmem s) pd w = pde_val m0 pd w" for w
    using inv pde_addr_aligned[OF pd_al] unfolding map_inv_def pde_val_def by blast
  then have same: "pt_ma (pmem s) pd w = pt_ma m0 pd w" "pt_pfn E (pmem s) pd w = pt_pfn E m0 pd w"
      "pte_pa E (pmem s) pd w = pte_pa E m0 pd w" for w
    by (simp_all add: pt_ma_def pt_pfn_def pte_pa_def)
  have q: "length (xen_queue s) < XEN_UPDATE_QUEUE_SIZE" using inv by (simp add: map_inv_def)
  have fresh: "ld32 (eff E s) (?P i) = ld32 (pmem s) (?P i)"
    using inv nin al[of i] by (auto simp: map_inv_def)
  obtain s' where s': "vmm_map_page E pd (page_at v i) (page_at ppf i) flags s = Some (0, s')"
    "\<And>a. word_aligned a \<Longrightarrow> ld32 (eff E s') a =
       (if a = ?P i then pte_value E (page_at ppf i) flags else ld32 (eff E s) a)"
    "pmem s' = pmem s \<or> pmem s' = eff E s'" "length (xen_queue s') < XEN_UPDATE_QUEUE_SIZE"
    "queue_only s s'"
    by (rule map_page_present[OF acc q, of pd "page_at v i" "page_at ppf i" flags, unfolded same])
       (use rng pfn[of i] fresh in auto)
  have "map_inv E m0 pd v ppf flags (insert i D) s'"
    unfolding map_inv_def
  proof (intro conjI allI impI ballI)
    show "length (xen_queue s') < XEN_UPDATE_QUEUE_SIZE" by (rule s'(4))
  next
    fix a assume a: "word_aligned a" "a \<notin> ?P ` insert i D"
    then have e: "ld32 (eff E s') a = ld32 (eff E s) a" using s'(2)[OF a(1)] by auto
    show "ld32 (eff E s') a = ld32 m0 a" using e inv a unfolding map_inv_def by auto
    then show "ld32 (pmem s') a = ld32 m0 a"
      using s'(3) inv a unfolding map_inv_def by auto
  next
    fix k assume k: "k \<in> insert i D"
    show "ld32 (eff E s') (?P k) = pte_value E (page_at ppf k) flags"
    proof (cases "k = i")
      case True then show ?thesis using s'(2)[OF al[OF k]] by simp
    next
      case False
      then have "k \<in> D" using k by simp
      moreover from this have "?P k \<noteq> ?P i" using nin by (metis imageI)
      ultimately show ?thesis using s'(2)[OF al[OF k]] inv unfolding map_inv_def by simp
    qed
  qed
  with s' that show ?thesis by blast
qed

lemma map_loop:
  assumes acc: "xen_accepts E" and wf: "pgdir_wf E m0 pd V"
    and inv: "map_inv E m0 pd v ppf flags D s"
    and rng: "\<forall>i\<in>set is \<union> D. page_at v i \<in> V \<and> pt_ma m0 pd (page_at v i) \<noteq> 0 \<and> i < 0x100000"
    and dist: "distinct is" "set is \<inter> D = {}"
  shows "\<exists>s'. c_for is (\<lambda>i. vmm_map_page E pd (page_at v i) (page_at ppf i) flags) s = Some (0, s') \<and>
     map_inv E m0 pd v ppf flags (set is \<union> D) s' \<and> queue_only s s'"
  using inv rng dist
proof (induction "is" arbitrary: D s)
  case Nil
  then show ?case by auto
next
  case (Cons i ks)
  have r: "\<forall>k\<in>insert i D. page_at v k \<in> V \<and> pt_ma m0 pd (page_at v k) \<noteq> 0 \<and> k < 0x100000"
    using Cons.prems(2) by auto
  obtain s1 where s1: "vmm_map_page E pd (page_at v i) (page_at ppf i) flags s = Some (0, s1)"
    "map_inv E m0 pd v ppf flags (insert i D) s1" "queue_only s s1"
    using map_step[OF acc wf r Cons.prems(1)] Cons.prems(4) by auto
  obtain s2 where s2: "c_for ks (\<lambda>i. vmm_map_page E pd (page_at v i) (page_at ppf i) flags) s1 = Some (0, s2)"
     "map_inv E m0 pd v ppf flags (set ks \<union> insert i D) s2" "queue_only s1 s2"
    using Cons.IH[OF s1(2)] Cons.prems by auto
  show ?case using s1(1) s2(1,2) queue_only_trans[OF s1(3) s2(3)] by auto
qed

lemma get_mapping_unchanged:
  assumes wf: "pgdir_wf E (pmem s) pd V" and w: "w \<in> V"
    and same: "\<And>a. word_aligned a \<Longrightarrow> a \<notin> T \<Longrightarrow> ld32 (pmem s') a = ld32 (pmem s) a"
    and T: "\<And>u. VMM_V2P (VMM_GET_PDE pd u) \<notin> T"
    and nT: "pt_ma (pmem s) pd w \<noteq> 0 \<Longrightarrow> pte_pa E (pmem s) pd w \<notin> T"
  shows "vmm_get_mapping E pd w s' = vmm_get_mapping E pd w s"
proof -
  have "unat pd mod 4096 = 0" using wf by (simp add: pgdir_wf_def)
  then have "pde_val (pmem s') pd u = pde_val (pmem s) pd u" for u
    unfolding pde_val_def by (intro same pde_addr_aligned T)
  then have eq: "pt_ma (pmem s') pd w = pt_ma (pmem s) pd w" "pt_pfn E (pmem s') pd w = pt_pfn E (pmem s) pd w"
      "pte_pa E (pmem s') pd w = pte_pa E (pmem s) pd w"
    by (simp_all add: pt_ma_def pt_pfn_def pte_pa_def)
  show ?thesis
  proof (cases "pt_ma (pmem s) pd w = 0")
    case True then show ?thesis using eq by (simp add: get_mapping_absent)
  next
    case False
    then have p: "unat (pt_pfn E (pmem s) pd w) < 0x40000" using wf w by (simp add: pgdir_wf_def)
    show ?thesis
      using same[OF pte_pa_facts(1)[OF p] nT[OF False]] False p eq by (simp add: get_mapping_present)
  qed
qed

lemma map_pages_spec:
  assumes acc: "xen_accepts E" and wf: "pgdir_wf E (pmem s) pd V" and q: "xen_queue s = []"
    and n: "n < 0x100000"
    and rng: "\<forall>i<n. page_at v i \<in> V \<and> pt_ma (pmem s) pd (page_at v i) \<noteq> 0"
  obtains s' where "vmm_map_pages E pd v ppf n flags s = Some (0, s')" "xen_queue s' = []"
    "queue_only s s'"
    "\<And>i. i < n \<Longrightarrow> vmm_get_mapping E pd (page_at v i) s' = mapping_of E (pte_value E (page_at ppf i) flags)"
    "\<And>w. w \<in> V \<Longrightarrow> (\<forall>i<n. w AND PAGE_MASK \<noteq> page_at v i AND PAGE_MASK) \<Longrightarrow>
       vmm_get_mapping E pd w s' = vmm_get_mapping E pd w s"
proof -
  let ?m = "pmem s" and ?P = "\<lambda>i. pte_pa E (pmem s) pd (page_at v i)"
  have inv0: "map_inv E ?m pd v ppf flags {} s"
    using q by (simp add: map_inv_def eff_def XEN_UPDATE_QUEUE_SIZE_def)
  obtain s1 where s1: "c_for [0..<n] (\<lambda>i. vmm_map_page E pd (page_at v i) (page_at ppf i) flags) s = Some (0, s1)"
    "map_inv E ?m pd v ppf flags ({0..<n} \<union> {}) s1" "queue_only s s1"
    using map_loop[OF acc wf inv0, of "[0..<n]"] rng n by auto
  define s2 where "s2 = s1\<lparr>pmem := eff E s1, xen_queue := [], mmuext_log := TlbFlushLocal # mmuext_log s1\<rparr>"
  have r: "vmm_map_pages E pd v ppf n flags s = Some (0, s2)"
    using s1(1) by (simp add: vmm_map_pages_def flush_accepted[OF acc] s2_def)
  have qo: "queue_only s s2"
    using s1(3) by (rule queue_only_trans) (simp add: s2_def queue_only_def)
  have al: "unat pd mod 4096 = 0" using wf by (simp add: pgdir_wf_def)
  have mem: "ld32 (pmem s2) a = ld32 ?m a" if "word_aligned a" "a \<notin> ?P ` {0..<n}" for a
    using s1(2) that by (simp add: map_inv_def s2_def)
  have T: "VMM_V2P (VMM_GET_PDE pd u) \<notin> ?P ` {0..<n}" for u
  proof
    assume "VMM_V2P (VMM_GET_PDE pd u) \<in> ?P ` {0..<n}"
    then obtain k where "k < n" "VMM_V2P (VMM_GET_PDE pd u) = ?P k" by auto
    then show False using pde_not_pte[OF wf, of "page_at v k" u] rng by auto
  qed
  have "pde_val (pmem s2) pd u = pde_val ?m pd u" for u
    unfolding pde_val_def by (intro mem pde_addr_aligned[OF al] T)
  then have eq: "pt_ma (pmem s2) pd u = pt_ma ?m pd u" "pt_pfn E (pmem s2) pd u = pt_pfn E ?m pd u"
      "pte_pa E (pmem s2) pd u = pte_pa E ?m pd u" for u
    by (simp_all add: pt_ma_def pt_pfn_def pte_pa_def)
  have new: "vmm_get_mapping E pd (page_at v i) s2 = mapping_of E (pte_value E (page_at ppf i) flags)"
    if i: "i < n" for i
  proof -
    have "unat (pt_pfn E ?m pd (page_at v i)) < 0x40000" using wf rng i by (auto simp: pgdir_wf_def)
    moreover have "ld32 (pmem s2) (?P i) = pte_value E (page_at ppf i) flags"
      using s1(2) i by (simp add: map_inv_def s2_def)
    ultimately show ?thesis
      using get_mapping_present[of s2 pd "page_at v i" E] rng i by (simp add: eq)
  qed
  have old: "vmm_get_mapping E pd w s2 = vmm_get_mapping E pd w s"
    if w: "w \<in> V" and ne: "\<forall>i<n. w AND PAGE_MASK \<noteq> page_at v i AND PAGE_MASK" for w
  proof (rule get_mapping_unchanged[OF wf w mem T])
    assume p: "pt_ma ?m pd w \<noteq> 0"
    show "pte_pa E ?m pd w \<notin> ?P ` {0..<n}"
    proof
      assume "pte_pa E ?m pd w \<in> ?P ` {0..<n}"
      then obtain k where "k < n" "pte_pa E ?m pd w = ?P k" by auto
      then show False using pte_pa_inj[OF wf w p, of "page_at v k"] rng ne by auto
    qed
  qed
  show ?thesis by (rule that[OF r _ qo new old]) (simp_all add: s2_def)
qed

lemma mapping_of_range:
  assumes "xen_frames E" "ppf \<noteq> NULL" "unat (VMM_V2P ppf) mod 4096 = 0" "flags AND PAGE_MASK = 0"
    and "unat (VMM_V2P ppf) + 4096 * n \<le> 0x40000000" "i < n"
  shows "mapping_of E (pte_value E (page_at ppf i) flags) = VMM_V2P (page_at ppf i) OR flags"
proof (rule mapping_of_pte_value[OF assms(1) _ _ assms(4)])
  have u: "unat (VMM_V2P (page_at ppf i)) = unat (VMM_V2P ppf) + 4096 * i"
    by (rule V2P_page_at[OF assms(5,6)])
  then show "unat (VMM_V2P (page_at ppf i)) mod 4096 = 0" using assms(3) by simp
  show "page_at ppf i \<noteq> NULL"
  proof
    assume z: "page_at ppf i = NULL"
    then have "unat (VMM_V2P (page_at ppf i)) = 0" by (simp add: VMM_V2P_def)
    then have "i = 0" using u by simp
    with z assms(2) show False by simp
  qed
qed

section \<open>A hypervisor\<close>

text \<open>Machine frames are the guest's frames shifted by one; every batch is applied.\<close>

definition linear_xen :: xen_env where
  "linear_xen =
     \<lparr>xen_mfn_list = (\<lambda>p. p + 1), machine_to_phys_mapping = (\<lambda>f. f - 1),
      HYPERVISOR_mmu_update = (\<lambda>q m. (0, int (length q),
        fold (\<lambda>(p, v) m. st32 (push_bit 12 (drop_bit 12 (ucast p) - 1) OR (ucast p AND (PAGE_SIZE - 1))) v m) q m)),
      HYPERVISOR_mmuext_op = (\<lambda>op. (0, 1)),
      machine_phys_frames = 0x4000, xen_start_pt_base = 0x2000,
      xen_start_shared_info = 0x1000, xen_start_store_mfn = 2\<rparr>"

lemma linear_xen_accepts: "xen_accepts linear_xen"
  by (simp add: xen_accepts_def xen_apply_def linear_xen_def mach_to_phys_def Let_def)

lemma linear_xen_frames: "xen_frames linear_xen"
proof -
  have "unat (p + 1) = unat p + 1" if "unat p < 0x40000" for p :: u32
    using that by (simp add: unat_add_no_wrap)
  then show ?thesis
    unfolding xen_frames_def by (auto simp: linear_xen_def unat_eq_0 [symmetric])
qed

text \<open>A directory at frame 2 with one page table, frame 3, for the addresses from
  \<^verbatim>\<open>0x1000000\<close>.\<close>

definition one_table :: pg_state where
  "one_table =
     \<lparr>pmem = st32 0x2010 0x4007 (\<lambda>_. 0), xen_queue = [], mmuext_log = [],
      lomem_zone = zero_zone,
      himem_zone = zero_zone,
      kernel_page_dir = 0xc0002000, boot_pages = [], xen_shared_info = 0, xen_store = 0,
      num_phys_mem_ppf = 0x4000\<rparr>"

lemma one_table_pde:
  "pde_val (pmem one_table) 0xc0002000 v = (if PDE_INDEX v = 4 then 0x4007 else 0)"
proof -
  let ?a = "VMM_V2P (VMM_GET_PDE 0xc0002000 v)"
  have pd: "VMM_V2P (0xc0002000 :: addr) = 0x2000" by (simp add: VMM_V2P_def VMM_KERNEL_MASK_def)
  have u: "unat ?a = 0x2000 + 4 * unat (PDE_INDEX v)"
    using unat_GET_PDE_phys(1)[of "0xc0002000" v] by (simp add: pd)
  have "?a = 0x2010 \<longleftrightarrow> PDE_INDEX v = 4" using u by (simp add: word_unat_eq_iff)
  moreover have "word_aligned ?a" by (rule pde_addr_aligned) simp
  moreover have "ld32 (\<lambda>_. 0) ?a = 0" by (simp add: ld32_def)
  moreover have "word_aligned 0x2010" by (simp add: word_aligned_def)
  ultimately have "ld32 (st32 0x2010 0x4007 (\<lambda>_. 0)) ?a = (if PDE_INDEX v = 4 then 0x4007 else 0)"
    by (cases "?a = 0x2010") (simp_all add: ld32_st32_other del: fun_upd_apply)
  then show ?thesis by (simp add: pde_val_def one_table_def)
qed

lemma one_table_wf: "pgdir_wf linear_xen (pmem one_table) 0xc0002000 UNIV"
proof -
  have m: "pt_ma (pmem one_table) 0xc0002000 v = (if PDE_INDEX v = 4 then 0x4000 else 0)" for v
    by (simp add: pt_ma_def one_table_pde PAGE_MASK_eq)
  have f: "pt_pfn linear_xen (pmem one_table) 0xc0002000 v = 3" if "PDE_INDEX v = 4" for v
    using that by (simp add: pt_pfn_def m linear_xen_def)
  show ?thesis
    unfolding pgdir_wf_def by (auto simp: m f VMM_V2P_def VMM_KERNEL_MASK_def)
qed

section \<open>The properties of the mapping operations\<close>

text \<open>C1: Where every page of a range has a page table, \<open>vmm_map_pages\<close> succeeds and leaves the
  update queue empty; afterwards \<open>vmm_get_mapping\<close> returns for each page of the range its frame
  with the given flags, and for every other page what it returned before.  Holds for any number
  of pages, so whether or not the queue had to be flushed on the way.  It is assumed that Xen accepts every batch of
  requests and applies it (\<open>xen_accepts\<close>), that the first frame is page-aligned and not \<open>NULL\<close>, that the flags lie in
  the low 12 bits and the frames below 1 GB, and that the queue is empty at the start.\<close>

theorem map_pages_correct:
  assumes "xen_accepts E" "xen_frames E" "pgdir_wf E (pmem s) pd V" "xen_queue s = []"
    and "ppf \<noteq> NULL" "unat (VMM_V2P ppf) mod 4096 = 0" "flags AND PAGE_MASK = 0"
    and "unat (VMM_V2P ppf) + 4096 * n \<le> 0x40000000"
    and "\<forall>i<n. page_at v i \<in> V \<and> pt_ma (pmem s) pd (page_at v i) \<noteq> 0"
  shows "\<exists>s'. vmm_map_pages E pd v ppf n flags s = Some (0, s') \<and> xen_queue s' = [] \<and>
    (\<forall>i<n. vmm_get_mapping E pd (page_at v i) s' = VMM_V2P (page_at ppf i) OR flags) \<and>
    (\<forall>w\<in>V. (\<forall>i<n. w AND PAGE_MASK \<noteq> page_at v i AND PAGE_MASK) \<longrightarrow>
       vmm_get_mapping E pd w s' = vmm_get_mapping E pd w s)"
proof -
  have n: "n < 0x100000" using assms(8) by linarith
  obtain s' where "vmm_map_pages E pd v ppf n flags s = Some (0, s')" "xen_queue s' = []"
    "\<And>i. i < n \<Longrightarrow> vmm_get_mapping E pd (page_at v i) s' = mapping_of E (pte_value E (page_at ppf i) flags)"
    "\<And>w. w \<in> V \<Longrightarrow> (\<forall>i<n. w AND PAGE_MASK \<noteq> page_at v i AND PAGE_MASK) \<Longrightarrow>
       vmm_get_mapping E pd w s' = vmm_get_mapping E pd w s"
    using map_pages_spec[OF assms(1,3,4) n assms(9)] by metis
  then show ?thesis using mapping_of_range[OF assms(2,5,6,7,8)] by auto
qed

lemma one_table_ready:
  "xen_queue one_table = []"
  "\<forall>i<2. page_at 0x1000000 i \<in> UNIV \<and> pt_ma (pmem one_table) 0xc0002000 (page_at 0x1000000 i) \<noteq> 0"
proof -
  have "PDE_INDEX (0x1000000 + push_bit 12 (of_nat i)) = 4" if "i < 2" for i
  proof -
    have "i = 0 \<or> i = 1" using that by auto
    then show ?thesis by (auto simp: PDE_INDEX_def)
  qed
  then show "\<forall>i<2. page_at 0x1000000 i \<in> UNIV \<and> pt_ma (pmem one_table) 0xc0002000 (page_at 0x1000000 i) \<noteq> 0"
    by (simp add: pt_ma_def one_table_pde PAGE_MASK_eq)
qed (simp add: one_table_def)

theorem map_pages_correct_witness:
  "\<exists>s'. vmm_map_pages linear_xen 0xc0002000 0x1000000 0xc0005000 2 PGTAB_ATTRIB_USR_RW one_table = Some (0, s') \<and>
    vmm_get_mapping linear_xen 0xc0002000 0x1001000 s' = 0x6007"
proof -
  have "\<exists>s'. vmm_map_pages linear_xen 0xc0002000 0x1000000 0xc0005000 2 PGTAB_ATTRIB_USR_RW one_table = Some (0, s') \<and>
      xen_queue s' = [] \<and>
      (\<forall>i<2. vmm_get_mapping linear_xen 0xc0002000 (page_at 0x1000000 i) s' =
         VMM_V2P (page_at 0xc0005000 i) OR PGTAB_ATTRIB_USR_RW) \<and>
      (\<forall>w\<in>UNIV. (\<forall>i<2. w AND PAGE_MASK \<noteq> page_at 0x1000000 i AND PAGE_MASK) \<longrightarrow>
         vmm_get_mapping linear_xen 0xc0002000 w s' = vmm_get_mapping linear_xen 0xc0002000 w one_table)"
    by (rule map_pages_correct[OF linear_xen_accepts linear_xen_frames one_table_wf one_table_ready(1)])
       (use one_table_ready(2) in
         \<open>simp_all add: VMM_V2P_def VMM_KERNEL_MASK_def PGTAB_ATTRIB_USR_RW_def PAGE_MASK_eq\<close>)
  then obtain s' where "vmm_map_pages linear_xen 0xc0002000 0x1000000 0xc0005000 2 PGTAB_ATTRIB_USR_RW one_table = Some (0, s')"
    and g: "\<forall>i<2. vmm_get_mapping linear_xen 0xc0002000 (page_at 0x1000000 i) s' =
         VMM_V2P (page_at 0xc0005000 i) OR PGTAB_ATTRIB_USR_RW" by auto
  moreover have "vmm_get_mapping linear_xen 0xc0002000 0x1001000 s' = 0x6007"
    using g[rule_format, of 1] by (simp add: VMM_V2P_def VMM_KERNEL_MASK_def PGTAB_ATTRIB_USR_RW_def)
  ultimately show ?thesis by auto
qed

end
