(* ===== verification/Page_Properties.thy ===== *)
theory Page_Properties
  imports Page_Map
begin

text \<open>
  Further properties of \<^verbatim>\<open>kern/vmm_page.c\<close>: the lazy update queue, removing a mapping, what happens
  when a page is mapped twice before the queue is flushed, and the two zones of page frames.
\<close>

section \<open>The update queue\<close>

text \<open>Queueing an update never overflows the queue and refines one store to the effective memory
  (the memory with all pending updates applied), whether or not it triggers a flush; flushing
  makes the effective memory the real one and empties the queue.\<close>

theorem update_queue_refines:
  assumes "xen_accepts E" "length (xen_queue s) < XEN_UPDATE_QUEUE_SIZE"
  shows "\<exists>s' s''. vmm_queue_mmu_update E p v s = Some s' \<and>
    eff E s' = st32 (mach_to_phys E (ucast p)) v (eff E s) \<and> length (xen_queue s') < XEN_UPDATE_QUEUE_SIZE \<and>
    vmm_flush_mmu_update_queue E s' = Some s'' \<and> pmem s'' = eff E s' \<and> eff E s'' = eff E s' \<and> xen_queue s'' = []"
proof -
  obtain s' where "vmm_queue_mmu_update E p v s = Some s'"
    "eff E s' = st32 (mach_to_phys E (ucast p)) v (eff E s)" "length (xen_queue s') < XEN_UPDATE_QUEUE_SIZE"
    using queue_update_refines[OF assms, of p v] by metis
  then show ?thesis using flush_accepted[OF assms(1), of s'] by (auto simp: eff_def)
qed

theorem update_queue_refines_witness:
  "\<exists>s'. vmm_queue_mmu_update linear_xen 0x4010 7 (one_table\<lparr>xen_queue := replicate 2047 (0x4020, 5)\<rparr>) = Some s' \<and>
    length (xen_queue s') < XEN_UPDATE_QUEUE_SIZE"
  using update_queue_refines[OF linear_xen_accepts, of "one_table\<lparr>xen_queue := replicate 2047 (0x4020, 5)\<rparr>" "0x4010" 7]
  by (auto simp: XEN_UPDATE_QUEUE_SIZE_def)

section \<open>Removing a mapping\<close>

text \<open>Mapping the null frame and flushing removes the mapping of the page and of no other
  page.\<close>

theorem unmap_page_correct:
  assumes "xen_accepts E" "pgdir_wf E (pmem s) pd V" "xen_queue s = []"
    and "v \<in> V" "pt_ma (pmem s) pd v \<noteq> 0"
  shows "\<exists>s1 s2. vmm_map_page E pd v NULL flags s = Some (0, s1) \<and> vmm_flush_mmu_update_queue E s1 = Some s2 \<and>
    vmm_get_mapping E pd v s2 = 0 \<and>
    (\<forall>w\<in>V. w AND PAGE_MASK \<noteq> v AND PAGE_MASK \<longrightarrow> vmm_get_mapping E pd w s2 = vmm_get_mapping E pd w s)"
proof -
  obtain s2 where s2: "vmm_map_pages E pd v NULL 1 flags s = Some (0, s2)"
    "\<And>i. i < 1 \<Longrightarrow> vmm_get_mapping E pd (page_at v i) s2 = mapping_of E (pte_value E (page_at NULL i) flags)"
    "\<And>w. w \<in> V \<Longrightarrow> (\<forall>i<1. w AND PAGE_MASK \<noteq> page_at v i AND PAGE_MASK) \<Longrightarrow>
       vmm_get_mapping E pd w s2 = vmm_get_mapping E pd w s"
    using map_pages_spec[OF assms(1,2,3), of 1 v NULL flags] assms(4,5) by auto
  have "mapping_of E (pte_value E NULL flags) = 0" by (simp add: mapping_of_def pte_value_def)
  moreover have "unat (pt_pfn E (pmem s) pd v) < 0x40000" using assms(2,4,5) by (auto simp: pgdir_wf_def)
  then obtain s1 where s1: "vmm_map_page E pd v NULL flags s = Some (0, s1)"
    using map_page_present[OF assms(1) _ assms(5), of NULL flags] assms(3) by (auto simp: eff_def XEN_UPDATE_QUEUE_SIZE_def)
  moreover have "vmm_flush_mmu_update_queue E s1 = Some s2"
    using s2(1) s1 by (auto simp: vmm_map_pages_def split: Option.bind_splits)
  ultimately show ?thesis using s2(2)[of 0] s2(3) by auto
qed


text \<open>A directory in which the page \<^verbatim>\<open>0x1000000\<close> is mapped to the frame at \<^verbatim>\<open>0x5000\<close>.\<close>

lemma one_table_pt: "pt_ma (pmem one_table) 0xc0002000 0x1000000 \<noteq> 0"
  using one_table_ready(2)[rule_format, of 0] by simp

theorem unmap_page_correct_witness:
  "\<exists>s1 s2. vmm_map_page linear_xen 0xc0002000 0x1000000 NULL 0 one_table = Some (0, s1) \<and>
     vmm_flush_mmu_update_queue linear_xen s1 = Some s2 \<and> vmm_get_mapping linear_xen 0xc0002000 0x1000000 s2 = 0"
  using unmap_page_correct[OF linear_xen_accepts one_table_wf one_table_ready(1) UNIV_I one_table_pt, of 0] by blast

section \<open>Mapping twice before a flush\<close>

text \<open>C39: The comparison that saves a request looks at the page table as it is, not at the pending
  updates.  If a page is mapped to a new frame and then, before a flush, back to the frame it
  had, the second request is dropped: with the queue that is left applied to memory, as a flush does that Xen accepts,
  the entry of the page is that of the first request.\<close>

theorem remap_before_flush_is_lost:
  assumes "xen_accepts E" "pgdir_wf E (pmem s) pd V" "xen_queue s = []"
    and "v \<in> V" "pt_ma (pmem s) pd v \<noteq> 0"
    and "ld32 (pmem s) (pte_pa E (pmem s) pd v) = pte_value E old fl"
    and "pte_value E new fl \<noteq> pte_value E old fl"
  shows "\<exists>s1. vmm_map_page E pd v new fl s = Some (0, s1) \<and> vmm_map_page E pd v old fl s1 = Some (0, s1) \<and>
    ld32 (eff E s1) (pte_pa E (pmem s) pd v) = pte_value E new fl"
proof -
  let ?ma = "pt_ma (pmem s) pd v + 4 * PTE_INDEX v"
  have p: "unat (pt_pfn E (pmem s) pd v) < 0x40000" using assms(2,4,5) by (auto simp: pgdir_wf_def)
  have cast: "ucast (ucast ?ma :: u64) = ?ma" by (rule bit_word_eqI) (auto simp: bit_simps)
  define s1 where "s1 = s\<lparr>xen_queue := [(ucast ?ma, pte_value E new fl)]\<rparr>"
  have q: "vmm_queue_mmu_update E (ucast ?ma) (pte_value E new fl) s = Some s1"
    by (simp add: vmm_queue_mmu_update_def assms(3) XEN_UPDATE_QUEUE_SIZE_def s1_def)
  have first: "vmm_map_page E pd v new fl s = Some (0, s1)"
    using map_page_run[OF assms(5) p, of new fl] q assms(6,7) by simp
  have m: "pmem s1 = pmem s" by (simp add: s1_def)
  have second: "vmm_map_page E pd v old fl s1 = Some (0, s1)"
    using map_page_run[of s1 pd v E old fl] assms(5,6) p by (simp add: m)
  have "eff E s1 = st32 (pte_pa E (pmem s) pd v) (pte_value E new fl) (pmem s)"
    by (simp add: eff_def s1_def xen_apply_def cast pte_pa_def)
  then have "ld32 (eff E s1) (pte_pa E (pmem s) pd v) = pte_value E new fl" by simp
  then show ?thesis using first second by blast
qed

theorem remap_before_flush_is_lost_witness:
  "\<exists>s1. vmm_map_page linear_xen 0xc0002000 0x1000000 0xc0005000 7 one_table = Some (0, s1) \<and>
     vmm_map_page linear_xen 0xc0002000 0x1000000 NULL 7 s1 = Some (0, s1)"
proof -
  have "pt_pfn linear_xen (pmem one_table) 0xc0002000 0x1000000 = 3"
    by (simp add: pt_pfn_def pt_ma_def one_table_pde PAGE_MASK_eq linear_xen_def PDE_INDEX_def)
  then have "pte_pa linear_xen (pmem one_table) 0xc0002000 0x1000000 = 0x3000"
    by (simp add: pte_pa_def pt_ma_def one_table_pde PAGE_MASK_eq linear_xen_def PDE_INDEX_def PTE_INDEX_def
        mach_to_phys_def)
  then have "ld32 (pmem one_table) (pte_pa linear_xen (pmem one_table) 0xc0002000 0x1000000) = pte_value linear_xen NULL 7"
    by (simp add: pte_value_def one_table_def ld32_def st32_def)
  moreover have "pte_value linear_xen 0xc0005000 7 \<noteq> pte_value linear_xen NULL 7"
    by (simp add: pte_value_def linear_xen_def phys_to_mach_def VMM_V2P_def VMM_KERNEL_MASK_def)
  ultimately show ?thesis
    using remap_before_flush_is_lost[OF linear_xen_accepts one_table_wf one_table_ready(1) UNIV_I one_table_pt,
        of NULL 7 "0xc0005000"] by blast
qed

end
