(* ===== verification/Frames.thy ===== *)
theory Frames
  imports Vmm_Page
begin

text \<open>
  The two zones of page frames set up by \<open>vmm_page_init\<close> and the allocation functions over them
  (\<^verbatim>\<open>kern/vmm_page.c\<close>).
\<close>

section \<open>Setting up the zones\<close>

text \<open>Before initialisation.\<close>

definition zero_pages :: pg_state where
  "zero_pages =
     \<lparr>pmem = \<lambda>_. 0, xen_queue = [], mmuext_log = [], lomem_zone = zero_zone, himem_zone = zero_zone,
      kernel_page_dir = NULL, boot_pages = [], xen_shared_info = NULL, xen_store = NULL, num_phys_mem_ppf = 0\<rparr>"


lemma unat_push12: "unat (p :: u32) < 0x100000 \<Longrightarrow> unat (push_bit 12 p) = unat p * 4096"
  by (simp only: unsigned_push_bit_eq push_bit_eq_mult[where 'a = nat])
     (simp add: take_bit_nat_eq_self)

lemma unat_P2V:
  assumes "unat a < 0x40000000"
  shows "unat (VMM_P2V a) = 0xc0000000 + unat a"
proof -
  have "take_bit 30 a = a" using assms by (simp add: word_unat_eq_iff unsigned_take_bit_eq take_bit_nat_eq_self)
  then have hi: "\<not> bit a n" if "30 \<le> n" for n using that by (metis bit_take_bit_iff not_less)
  have lo: "\<not> bit (0xc0000000 :: u32) n" if "n < 30" for n
  proof -
    have "(0xc0000000 :: u32) = push_bit 30 3" by simp
    then show ?thesis using that by (simp only: bit_push_bit_iff) simp
  qed
  have "VMM_P2V a = a + 0xc0000000"
    unfolding VMM_P2V_def VMM_KERNEL_BASE_def
    by (rule disjunctive_add[symmetric]) (metis hi lo not_less)
  then show ?thesis using assms by (simp add: unat_add_no_wrap)
qed

lemma intervals_apart:
  fixes a b c :: nat
  assumes "A \<subseteq> {a ..< b}" "B \<subseteq> {b ..< c}" "a \<le> b" "b \<le> c"
  shows "A \<inter> B = {} \<and> A \<union> B \<subseteq> {a ..< c}"
  using assms by fastforce

text \<open>With between 8194 page frames and the gigabyte the kernel can map, initialisation leaves two
  well-formed allocators: their free bytes are apart from each other, above the kernel's image
  and below the end of memory, all of them in the direct map.\<close>

theorem vmm_zones_init_correct:
  assumes "8194 \<le> unat (num_phys_mem_ppf s)" "unat (num_phys_mem_ppf s) \<le> 0x40000"
  shows "\<exists>lo hi. zone_inv 0xc1001000 (lomem_zone (vmm_zones_init s)) lo \<and>
    zone_inv (0xc0000000 + (unat (num_phys_mem_ppf s) - 4096) * 4096 + 4096) (himem_zone (vmm_zones_init s)) hi \<and>
    free_bytes lo \<inter> free_bytes hi = {} \<and>
    free_bytes lo \<union> free_bytes hi \<subseteq> {0xc1000000 ..< 0xc0000000 + unat (num_phys_mem_ppf s) * 4096}"
proof -
  let ?n = "num_phys_mem_ppf s"
  have k: "drop_bit 12 USER_MEM_START = (4096 :: u32)" by (simp add: USER_MEM_START_def)
  have lp: "unat (?n - 4096 - 4096) = unat ?n - 8192"
    using assms by (subst unat_sub_le; simp add: word_le_nat_alt)+
  have hp: "unat (?n - 4096) = unat ?n - 4096" using assms by (subst unat_sub_le) (simp_all add: word_le_nat_alt)
  define ls where "ls = VMM_P2V (push_bit 12 4096)"
  define hs where "hs = VMM_P2V (push_bit 12 (?n - 4096))"
  have ls: "unat ls = 0xc1000000" unfolding ls_def by (subst unat_P2V) simp_all
  have hs: "unat hs = 0xc0000000 + (unat ?n - 4096) * 4096"
    unfolding hs_def using hp assms by (subst unat_P2V) (simp_all add: unat_push12)
  have lm: "lomem_zone (vmm_zones_init s) = vmm_zone_init ls (?n - 4096 - 4096) (lomem_zone s)"
    and hm: "himem_zone (vmm_zones_init s) = vmm_zone_init hs 4096 (himem_zone s)"
    by (simp_all add: vmm_zones_init_def k VMM_KERNEL_STACK_PAGES_def ls_def hs_def Let_def)
  have nn: "ls \<noteq> NULL" "hs \<noteq> NULL" by (simp_all add: ls_def hs_def P2V_nonnull)
  have dls: "4096 dvd unat ls" unfolding ls by simp
  have dhs: "4096 dvd unat hs" unfolding hs by (simp add: dvd_add_right_iff)
  have lpages: "2 \<le> unat (?n - 4096 - 4096)" "unat ls + 4096 * unat (?n - 4096 - 4096) \<le> 2 ^ 32"
    unfolding lp ls using assms by simp_all
  have hpages: "2 \<le> unat (4096 :: u32)" "unat hs + 4096 * unat (4096 :: u32) \<le> 2 ^ 32"
    unfolding hs using assms by simp_all
  obtain lo where lo: "zone_inv 0xc1001000 (lomem_zone (vmm_zones_init s)) lo"
    "free_bytes lo = {0xc1001000 ..< 0xc1001000 + 4096 * 2 ^ vmm_floor_log2 (?n - 4096 - 4096 - 1)}"
    using vmm_zone_init_post[OF nn(1) dls lpages, of "lomem_zone s"] unfolding lm ls by auto
  obtain hi where hi: "zone_inv (unat hs + 4096) (himem_zone (vmm_zones_init s)) hi"
    "free_bytes hi = {unat hs + 4096 ..< unat hs + 4096 + 4096 * 2 ^ vmm_floor_log2 (4096 - 1)}"
    using vmm_zone_init_post[OF nn(2) dhs hpages, of "himem_zone s"] unfolding hm by auto
  have "unat (?n - 4096 - 4096 - 1) = unat ?n - 8193"
    using lp assms by (subst unat_sub_le) (simp_all add: word_le_nat_alt)
  then have l1: "2 ^ vmm_floor_log2 (?n - 4096 - 4096 - 1) \<le> unat ?n - 8193"
    using vmm_floor_log2_bounds[of "?n - 4096 - 4096 - 1"] assms by (simp add: unat_eq_0[symmetric])
  have l2: "2 ^ vmm_floor_log2 (4096 - 1) \<le> (4095 :: nat)"
    using vmm_floor_log2_bounds[of "4095"] by simp
  have "free_bytes lo \<subseteq> {0xc1000000 ..< unat hs}" "free_bytes hi \<subseteq> {unat hs ..< 0xc0000000 + unat ?n * 4096}"
    unfolding lo(2) hi(2) using l1 l2 hs assms by auto
  moreover have "0xc1000000 \<le> unat hs" "unat hs \<le> 0xc0000000 + unat ?n * 4096"
    unfolding hs using assms by simp_all
  ultimately have "free_bytes lo \<inter> free_bytes hi = {} \<and>
      free_bytes lo \<union> free_bytes hi \<subseteq> {0xc1000000 ..< 0xc0000000 + unat ?n * 4096}"
    by (rule intervals_apart)
  then show ?thesis using lo(1) hi(1) unfolding hs by blast
qed


theorem vmm_zones_init_correct_witness:
  "\<exists>lo. zone_inv 0xc1001000 (lomem_zone (vmm_zones_init (zero_pages\<lparr>num_phys_mem_ppf := 0x4000\<rparr>))) lo"
  using vmm_zones_init_correct[of "zero_pages\<lparr>num_phys_mem_ppf := 0x4000\<rparr>"] by auto

section \<open>Blocks of several pages\<close>

text \<open>C38: \<open>vmm_ppfs_alloc\<close> takes a block of twice the order that \<open>vmm_ppfs_free\<close> gives back: after
  allocating and releasing the same number of pages the zone is well formed, but the upper half
  of the block is lost.\<close>

theorem ppfs_alloc_free_leaks:
  assumes "zone_inv lo (lomem_zone s) fl" "vmm_ppfs_alloc n s = (a, s1)" "a \<noteq> NULL"
  shows "\<exists>s2 fl2. vmm_ppfs_free a n s1 = Some s2 \<and> zone_inv lo (lomem_zone s2) fl2 \<and>
    blk a (vmm_floor_log2 n + 1) \<subseteq> free_bytes fl \<and>
    free_bytes fl2 = free_bytes fl - (blk a (vmm_floor_log2 n + 1) - blk a (vmm_floor_log2 n))"
proof -
  let ?o = "vmm_floor_log2 n"
  obtain z1 where z1: "vmm_buddy_get_free_pages (?o + 1) (lomem_zone s) = (a, z1)" and s1: "s1 = s\<lparr>lomem_zone := z1\<rparr>"
    using assms(2) by (auto simp: vmm_ppfs_alloc_def Let_def split: prod.splits)
  have post: "alloc_post lo (?o + 1) fl a z1" "\<exists>k \<le> max_order (lomem_zone s). ?o + 1 \<le> k" "max_order z1 = max_order (lomem_zone s)"
    using buddy_alloc_post[OF assms(1) z1] assms(3) by (auto split: if_splits)
  then obtain fl1 where f: "zone_inv lo z1 fl1" "in_zone lo (max_order z1) a (?o + 1)"
    "blk a (?o + 1) \<subseteq> free_bytes fl" "free_bytes fl1 = free_bytes fl - blk a (?o + 1)"
    unfolding alloc_post_def by blast
  have sub: "blk a ?o \<subseteq> blk a (?o + 1)" by (auto simp: blk_def blk_len_def)
  have iz: "in_zone lo (max_order z1) a ?o"
    using f(2) blk_len_mono[of ?o "?o + 1"] by (auto simp: in_zone_def)
  have le: "?o \<le> max_order z1" using post by auto
  have dis: "blk a ?o \<inter> free_bytes fl1 = {}" using f(4) sub by blast
  obtain z2 fl2 where "vmm_buddy_free_pages a ?o z1 = Some z2" "zone_inv lo z2 fl2"
    "free_bytes fl2 = free_bytes fl1 \<union> blk a ?o"
    using buddy_free_post[OF f(1) le iz dis] by blast
  moreover have "free_bytes fl1 \<union> blk a ?o = free_bytes fl - (blk a (?o + 1) - blk a ?o)"
    unfolding f(4) using f(3) sub by blast
  ultimately show ?thesis using f(3) by (auto simp: vmm_ppfs_free_def s1)
qed

theorem ppfs_alloc_free_leaks_witness:
  "\<exists>a s1 s2. vmm_ppfs_alloc 1 (zero_pages\<lparr>lomem_zone := two_pages\<rparr>) = (a, s1) \<and> vmm_ppfs_free a 1 s1 = Some s2"
proof -
  let ?s = "zero_pages\<lparr>lomem_zone := two_pages\<rparr>"
  obtain fl where fl: "zone_inv 0x101000 two_pages fl" "max_order two_pages = 1" "fl 1 = [0x101000]"
    by (rule two_pages_init)
  obtain a s1 where al: "vmm_ppfs_alloc 1 ?s = (a, s1)" by fastforce
  have o1: "vmm_floor_log2 1 = 0" 
    using vmm_floor_log2_bounds[of 1] power_increasing_iff[of "2 :: nat" "vmm_floor_log2 1" 0] by simp
  obtain z1 where z1: "vmm_buddy_get_free_pages 1 two_pages = (a, z1)"
    using al by (auto simp: vmm_ppfs_alloc_def o1 split: prod.splits)
  have "\<exists>k \<le> max_order two_pages. 1 \<le> k \<and> fl k \<noteq> []" using fl by (intro exI[of _ 1]) simp
  then have "a \<noteq> NULL" using buddy_alloc_post[OF fl(1) z1] by (auto simp: alloc_post_def)
  then show ?thesis using ppfs_alloc_free_leaks[of "0x101000" ?s fl 1 a s1] fl(1) al by auto
qed

end
