(* ===== verification/Loader.thy ===== *)
theory Loader
  imports C_Memory
begin

text \<open>
  The file system of the kernel, \<^verbatim>\<open>kern/loader.c\<close> and the path buffer of \<^verbatim>\<open>kern/file.c\<close>: a table
  of program images linked into the kernel, searched by name.  The table itself is a
  generated file; it is the parameter \<open>toc\<close>.
\<close>

section \<open>C strings as byte lists\<close>

definition cstr :: "u8 list \<Rightarrow> u8 list" where
  "cstr buf = takeWhile (\<lambda>c. c \<noteq> 0) buf"

definition strncpy_b :: "u8 list \<Rightarrow> nat \<Rightarrow> u8 list" where
  "strncpy_b src n = take n (src @ replicate n 0)"

section \<open>The table of programs\<close>

record toc_entry =
  execname :: "u8 list"
  execbytes :: "u8 list"

definition execlen :: "toc_entry \<Rightarrow> int" where
  "execlen e = int (length (execbytes e))"

fun toc_find :: "toc_entry list \<Rightarrow> u8 list \<Rightarrow> toc_entry option" where
  "toc_find [] filename = None"
| "toc_find (e # es) filename = (if cstr filename = execname e then Some e else toc_find es filename)"

text \<open>\<open>getbytes\<close> yields its return value and the memory; \<open>None\<close> is a copy that starts before
  the image or has a negative length, which the code does not guard against.\<close>

definition getbytes ::
  "toc_entry list \<Rightarrow> u8 list \<Rightarrow> int \<Rightarrow> int \<Rightarrow> addr \<Rightarrow> bytes \<Rightarrow> (int \<times> bytes) option" where
  "getbytes toc filename offset sz buf m =
     (case toc_find toc filename of
        None \<Rightarrow> Some (-1, m)
      | Some toc_entry \<Rightarrow>
          if offset \<ge> execlen toc_entry then Some (0, m)
          else
            let bytes_to_read = (if sz + offset > execlen toc_entry then execlen toc_entry - offset else sz)
            in if offset < 0 \<or> bytes_to_read < 0 then None
               else Some (bytes_to_read,
                 store_bytes buf (take (nat bytes_to_read) (drop (nat offset) (execbytes toc_entry))) m))"

section \<open>What a read delivers\<close>

lemma getbytes_run:
  assumes "toc_find toc name = Some e" "0 \<le> offset" "offset < execlen e" "0 \<le> sz"
    and "execlen e \<le> 2 ^ 31"
  shows "\<exists>n m'. getbytes toc name offset sz buf m = Some (int n, m') \<and>
    n = min (nat sz) (length (execbytes e) - nat offset) \<and>
    (\<forall>i<n. m' (buf + of_nat i) = execbytes e ! (nat offset + i)) \<and>
    (\<forall>x. (\<forall>i<n. x \<noteq> buf + of_nat i) \<longrightarrow> m' x = m x)"
proof -
  define n where "n = min (nat sz) (length (execbytes e) - nat offset)"
  define bs where "bs = take n (drop (nat offset) (execbytes e))"
  have btr: "(if sz + offset > execlen e then execlen e - offset else sz) = int n"
    using assms by (auto simp: n_def execlen_def)
  have len: "length bs = n" using assms by (simp add: bs_def n_def execlen_def)
  have small: "length bs \<le> 2 ^ 32" using assms unfolding len n_def execlen_def by simp
  have "getbytes toc name offset sz buf m = Some (int n, store_bytes buf bs m)"
    using assms btr by (simp add: getbytes_def bs_def Let_def)
  moreover have "store_bytes buf bs m (buf + of_nat i) = execbytes e ! (nat offset + i)" if "i < n" for i
    using store_bytes_in[of i bs buf m] small that assms unfolding len
    by (simp add: bs_def n_def execlen_def)
  moreover have "store_bytes buf bs m x = m x" if "\<forall>i<n. x \<noteq> buf + of_nat i" for x
    using that by (intro store_bytes_out) (simp add: len)
  ultimately show ?thesis using n_def by auto
qed

text \<open>Reading from a file copies exactly the bytes of the image from the offset on, at most
  the requested number and never past the end of the image: the result is the number of bytes
  copied, each lands at its place in the buffer, and no byte outside of it changes.\<close>

theorem getbytes_correct:
  assumes "toc_find toc name = Some e" "0 \<le> offset" "offset < execlen e" "0 \<le> sz"
    and "execlen e \<le> 2 ^ 31"
  shows "\<exists>n m'. getbytes toc name offset sz buf m = Some (int n, m') \<and>
    n = min (nat sz) (length (execbytes e) - nat offset) \<and>
    (\<forall>i<n. m' (buf + of_nat i) = execbytes e ! (nat offset + i)) \<and>
    (\<forall>x. (\<forall>i<n. x \<noteq> buf + of_nat i) \<longrightarrow> m' x = m x)"
  using assms by (rule getbytes_run)

theorem getbytes_correct_witness:
  "\<exists>n m'. getbytes [\<lparr>execname = [105], execbytes = [10, 11, 12, 13]\<rparr>] [105, 0] 1 8 0x1000 (\<lambda>_. 0) = Some (int n, m') \<and>
    n = 3"
proof -
  let ?e = "\<lparr>execname = [105], execbytes = [10, 11, 12, 13]\<rparr> :: toc_entry"
  have "toc_find [?e] [105, 0] = Some ?e" by (simp add: cstr_def)
  from getbytes_correct[OF this, where offset = 1 and sz = 8 and buf = "0x1000" and m = "\<lambda>_. 0"]
  show ?thesis by (auto simp: execlen_def)
qed

end
