(* ===== verification/Usercopy.thy ===== *)
theory Usercopy
  imports C_Memory
begin

text \<open>
  Copying between user programs and the kernel, \<^verbatim>\<open>kern/usercopy.c\<close>.  The kernel reads and writes
  user addresses directly, so all of it works on one byte map, the address space of the
  current task with the kernel's own buffers in it.  A page fault on the way is served by the
  page fault handler and is not visible here.
\<close>

section \<open>C strings in memory\<close>

text \<open>\<open>strlen\<close> and \<open>strcpy\<close> run to the terminating 0; without one they do not return.\<close>

partial_function (option) strlen_m :: "bytes \<Rightarrow> addr \<Rightarrow> u32 option" where
  "strlen_m m a = (if m a = 0 then Some 0 else Option.bind (strlen_m m (a + 1)) (\<lambda>n. Some (n + 1)))"

partial_function (option) strcpy_m :: "addr \<Rightarrow> addr \<Rightarrow> bytes \<Rightarrow> bytes option" where
  "strcpy_m dst src m =
     (let m' = m(dst := m src) in if m src = 0 then Some m' else strcpy_m (dst + 1) (src + 1) m')"

section \<open>From user space\<close>

definition copy_user_byte :: "bytes \<Rightarrow> addr \<Rightarrow> u8" where
  "copy_user_byte m user_str = m user_str"

text \<open>The double word is assembled byte by byte, in the memory order of the machine.\<close>

fun dword_of :: "u8 list \<Rightarrow> u32" where
  "dword_of [] = 0"
| "dword_of (b # bs) = ucast b OR push_bit 8 (dword_of bs)"

definition copy_user_dword :: "bytes \<Rightarrow> addr \<Rightarrow> u32" where
  "copy_user_dword m user_dword = dword_of (map (\<lambda>i. copy_user_byte m (user_dword + of_nat i)) [0..<4])"

function strncpy_user_loop :: "addr \<Rightarrow> addr \<Rightarrow> int \<Rightarrow> int \<Rightarrow> bytes \<Rightarrow> int \<times> bytes" where
  "strncpy_user_loop usr_str buf sz n m =
     (if copy_user_byte m (usr_str + of_int n) = 0 then (n + 1, m(buf + of_int n := 0))
      else if n \<ge> sz - 1 then (-1, m)
      else strncpy_user_loop usr_str buf sz (n + 1)
             (m(buf + of_int n := copy_user_byte m (usr_str + of_int n))))"
  by pat_completeness auto
termination by (relation "measure (\<lambda>(_, _, sz, n, _). nat (sz - n))") auto

declare strncpy_user_loop.simps [simp del]

definition strncpy_user :: "addr \<Rightarrow> addr \<Rightarrow> int \<Rightarrow> bytes \<Rightarrow> int \<times> bytes" where
  "strncpy_user usr_str buf sz m =
     (if sz = 0 then (-1, m) else strncpy_user_loop usr_str buf sz 0 m)"

definition copy_user_string :: "addr \<Rightarrow> nat \<Rightarrow> addr \<Rightarrow> int \<Rightarrow> bytes \<Rightarrow> int \<times> bytes" where
  "copy_user_string userarg arg_num buf sz m =
     strncpy_user (copy_user_dword m (userarg + 4 * of_nat arg_num)) buf sz m"

definition copy_user_int :: "bytes \<Rightarrow> addr \<Rightarrow> nat \<Rightarrow> u32" where
  "copy_user_int m userarg arg_num = ld32 m (userarg + 4 * of_nat arg_num)"

section \<open>Argument vectors\<close>

text \<open>The number of strings before the \<open>NULL\<close> and their total length, terminators included.\<close>

partial_function (option) string_array_loop :: "bytes \<Rightarrow> addr \<Rightarrow> u32 \<Rightarrow> u32 \<Rightarrow> (u32 \<times> u32) option" where
  "string_array_loop m argvec argc str_size =
     (if ld32 m (argvec + 4 * argc) = NULL then Some (argc, str_size)
      else Option.bind (strlen_m m (ld32 m (argvec + 4 * argc))) (\<lambda>n.
             string_array_loop m argvec (argc + 1) (str_size + n + 1)))"

definition get_string_array_dim :: "bytes \<Rightarrow> addr \<Rightarrow> (u32 \<times> u32 \<times> u32) option" where
  "get_string_array_dim m argvec =
     do { (argc, argvec_str_size) \<leftarrow> string_array_loop m argvec 0 0;
          Some (argc, 4 * (argc + 1), argvec_str_size) }"

text \<open>The loop that \<open>copy_string_array\<close> and \<open>vmm_copy_argvec\<close> share: the pointers go to
  \<open>dst\<close>, the strings one after the other to \<open>str\<close>.\<close>

fun copy_strings :: "nat list \<Rightarrow> addr \<Rightarrow> addr \<Rightarrow> addr \<Rightarrow> bytes \<Rightarrow> (addr \<times> bytes) option" where
  "copy_strings [] dst str argvec m = Some (str, m)"
| "copy_strings (i # is) dst str argvec m =
     do { let m = st32 (dst + 4 * of_nat i) str m;
          m \<leftarrow> strcpy_m str (ld32 m (argvec + 4 * of_nat i)) m;
          n \<leftarrow> strlen_m m (ld32 m (dst + 4 * of_nat i));
          copy_strings is dst (str + n + 1) argvec m }"

definition copy_string_array :: "addr \<Rightarrow> addr \<Rightarrow> nat \<Rightarrow> u32 \<Rightarrow> bytes \<Rightarrow> (int \<times> bytes) option" where
  "copy_string_array dest_buf argvec argc argvec_array_size m =
     do { (str, m) \<leftarrow> copy_strings [0..<argc] dest_buf (dest_buf + argvec_array_size) argvec m;
          Some (0, st32 (dest_buf + 4 * of_nat argc) NULL m) }"

section \<open>To user space\<close>

definition copy_to_user_byte :: "u8 \<Rightarrow> addr \<Rightarrow> bytes \<Rightarrow> bytes" where
  "copy_to_user_byte kern_byte usr_byte_ptr m = m(usr_byte_ptr := kern_byte)"

definition copy_to_user_dword :: "u32 \<Rightarrow> addr \<Rightarrow> bytes \<Rightarrow> bytes" where
  "copy_to_user_dword kern_dword usr_dword_ptr m =
     fold (\<lambda>i. copy_to_user_byte (ucast (drop_bit (8 * i) kern_dword)) (usr_dword_ptr + of_nat i)) [0..<4] m"

definition copy_to_user_buf :: "u8 list \<Rightarrow> addr \<Rightarrow> bytes \<Rightarrow> bytes" where
  "copy_to_user_buf kern_buf usr_buf m =
     fold (\<lambda>i. copy_to_user_byte (kern_buf ! i) (usr_buf + of_nat i)) [0..<length kern_buf] m"

definition copy_char_to_user_argpkt_buf ::
  "u8 \<Rightarrow> int \<Rightarrow> int \<Rightarrow> addr \<Rightarrow> nat \<Rightarrow> bytes \<Rightarrow> bytes" where
  "copy_char_to_user_argpkt_buf kern_ch offset sz argpkt arg_num m =
     (if offset \<ge> sz then m
      else copy_to_user_byte kern_ch (copy_user_dword m (argpkt + 4 * of_nat arg_num) + of_int offset) m)"

definition copy_buf_to_user_argpkt_buf ::
  "u8 list \<Rightarrow> int \<Rightarrow> addr \<Rightarrow> nat \<Rightarrow> bytes \<Rightarrow> bytes" where
  "copy_buf_to_user_argpkt_buf kern_buf offset argpkt arg_num m =
     copy_to_user_buf kern_buf (copy_user_dword m (argpkt + 4 * of_nat arg_num) + of_int offset) m"

definition copy_to_user_argpkt_buf :: "u8 list \<Rightarrow> addr \<Rightarrow> nat \<Rightarrow> bytes \<Rightarrow> bytes" where
  "copy_to_user_argpkt_buf kern_buf argpkt arg_num m =
     copy_to_user_buf kern_buf (copy_user_dword m (argpkt + 4 * of_nat arg_num)) m"

definition copy_to_user_argpkt_int :: "u32 \<Rightarrow> addr \<Rightarrow> nat \<Rightarrow> bytes \<Rightarrow> bytes" where
  "copy_to_user_argpkt_int kern_int argpkt arg_num m =
     copy_to_user_dword kern_int (copy_user_dword m (argpkt + 4 * of_nat arg_num)) m"

section \<open>Lemmas\<close>

lemma copy_user_dword_ld32: "copy_user_dword m a = ld32 m a"
proof -
  have "[0..<4] = [0, 1, 2, 3::nat]" by (simp add: upt_conv_Cons)
  then show ?thesis
    by (simp add: copy_user_dword_def copy_user_byte_def ld32_def push_bit_or or.assoc)
qed

lemma copy_to_user_dword_st32: "copy_to_user_dword v a m = st32 a v m"
proof -
  have "[0..<4] = [0, 1, 2, 3::nat]" by (simp add: upt_conv_Cons)
  then show ?thesis
    by (simp add: copy_to_user_dword_def copy_to_user_byte_def st32_def)
qed

text \<open>A double word written to user space with \<open>copy_to_user_dword\<close> is read back unchanged
  by \<open>copy_user_dword\<close>, at any address: the two byte loops are inverse.\<close>

theorem user_dword_roundtrip: "copy_user_dword (copy_to_user_dword v a m) a = v"
  by (simp add: copy_user_dword_ld32 copy_to_user_dword_st32)

text \<open>The string at an address.\<close>

definition string_at :: "bytes \<Rightarrow> addr \<Rightarrow> u8 list \<Rightarrow> bool" where
  "string_at m a cs \<longleftrightarrow> (\<forall>i<length cs. m (a + of_nat i) = cs ! i \<and> cs ! i \<noteq> 0) \<and> m (a + of_nat (length cs)) = 0"

definition disjoint_bufs :: "addr \<Rightarrow> nat \<Rightarrow> addr \<Rightarrow> nat \<Rightarrow> bool" where
  "disjoint_bufs a n b k \<longleftrightarrow> (\<forall>i<n. \<forall>j<k. a + of_nat i \<noteq> b + of_nat j)"

lemma strncpy_user_loop_correct:
  assumes "string_at m usr cs" "disjoint_bufs usr (length cs + 1) buf n" "k \<le> length cs" "k < n"
  shows "strncpy_user_loop usr buf (int n) (int k) m =
    (if length cs < n then (int (length cs) + 1, store_bytes (buf + of_nat k) (drop k cs @ [0]) m)
     else (-1, store_bytes (buf + of_nat k) (take (n - 1 - k) (drop k cs)) m))"
  using assms
proof (induction "n - k" arbitrary: k m)
  case 0
  then show ?case by simp
next
  case (Suc d)
  show ?case
  proof (cases "k = length cs")
    case True
    then have "m (usr + of_nat k) = 0" using Suc.prems(1) by (simp add: string_at_def)
    then show ?thesis using True Suc.prems(4)
      by (subst strncpy_user_loop.simps) (simp add: copy_user_byte_def)
  next
    case False
    then have k: "k < length cs" using Suc.prems(3) by simp
    then have c: "m (usr + of_nat k) = cs ! k" "cs ! k \<noteq> 0"
      using Suc.prems(1) by (simp_all add: string_at_def)
    have dc: "drop k cs = cs ! k # drop (Suc k) cs" using k by (simp add: Cons_nth_drop_Suc)
    show ?thesis
    proof (cases "n - 1 \<le> k")
      case True
      then have "n - 1 - k = 0" "\<not> length cs < n" "int n - 1 \<le> int k" using k Suc.prems(4) by auto
      then show ?thesis using c by (subst strncpy_user_loop.simps) (simp add: copy_user_byte_def)
    next
      case False
      let ?m = "m(buf + of_nat k := cs ! k)"
      have ne: "usr + of_nat i \<noteq> buf + of_nat k" if "i \<le> length cs" for i
        using Suc.prems(2,4) that by (auto simp: disjoint_bufs_def)
      have "string_at ?m usr cs"
        using Suc.prems(1) ne unfolding string_at_def by (simp add: less_imp_le)
      then have IH: "strncpy_user_loop usr buf (int n) (int (Suc k)) ?m =
          (if length cs < n then (int (length cs) + 1, store_bytes (buf + of_nat (Suc k)) (drop (Suc k) cs @ [0]) ?m)
           else (-1, store_bytes (buf + of_nat (Suc k)) (take (n - 1 - Suc k) (drop (Suc k) cs)) ?m))"
        by (intro Suc.hyps(1)) (use Suc.hyps(2) Suc.prems k False in auto)
      have t: "take (n - 1 - k) (drop k cs) = cs ! k # take (n - 1 - Suc k) (drop (Suc k) cs)"
      proof -
        have "n - 1 - k = Suc (n - 1 - Suc k)" using False by simp
        then show ?thesis by (simp only: dc take_Suc_Cons)
      qed
      have "\<not> int n - 1 \<le> int k" using False by linarith
      then have step: "strncpy_user_loop usr buf (int n) (int k) m = strncpy_user_loop usr buf (int n) (int (Suc k)) ?m"
        using c by (subst strncpy_user_loop.simps) (simp add: copy_user_byte_def add.commute)
      have e: "buf + of_nat (Suc k) = buf + of_nat k + 1" by simp
      show ?thesis unfolding t unfolding step IH e dc append_Cons store_bytes.simps by (rule refl)
    qed
  qed
qed

text \<open>C31: For a string in user space and a kernel buffer of \<open>n\<close> bytes away from it,
  \<open>strncpy_user\<close> copies the string with its terminator and returns the number of bytes copied if
  it fits; otherwise it returns -1 and the only bytes written are the first \<open>n - 1\<close> of the buffer.
  In neither case is a byte outside of the buffer written.\<close>

theorem strncpy_user_correct:
  assumes "string_at m usr cs" "disjoint_bufs usr (length cs + 1) buf n" "0 < n"
  shows "strncpy_user usr buf (int n) m =
      (if length cs < n then (int (length cs) + 1, store_bytes buf (cs @ [0]) m)
       else (-1, store_bytes buf (take (n - 1) cs) m)) \<and>
    (\<forall>x. (\<forall>i<n. x \<noteq> buf + of_nat i) \<longrightarrow> snd (strncpy_user usr buf (int n) m) x = m x)"
proof -
  have eq: "strncpy_user usr buf (int n) m =
      (if length cs < n then (int (length cs) + 1, store_bytes buf (cs @ [0]) m)
       else (-1, store_bytes buf (take (n - 1) cs) m))"
    using strncpy_user_loop_correct[OF assms(1,2), of 0] assms(3) by (simp add: strncpy_user_def)
  moreover have "snd (strncpy_user usr buf (int n) m) x = m x" if "\<forall>i<n. x \<noteq> buf + of_nat i" for x
  proof (cases "length cs < n")
    case True
    then have "store_bytes buf (cs @ [0]) m x = m x" using that by (intro store_bytes_out) auto
    then show ?thesis unfolding eq using True by simp
  next
    case False
    then have "store_bytes buf (take (n - 1) cs) m x = m x" using that by (intro store_bytes_out) auto
    then show ?thesis unfolding eq using False by simp
  qed
  ultimately show ?thesis by blast
qed

theorem strncpy_user_correct_witness:
  "fst (strncpy_user 0x1000000 0x2000 8 ((\<lambda>_. 0)(0x1000000 := 104, 0x1000001 := 105))) = 3"
proof -
  let ?m = "(\<lambda>_. 0)(0x1000000 := 104, 0x1000001 := 105) :: bytes"
  have "string_at ?m 0x1000000 [104, 105]" by (auto simp: string_at_def less_Suc_eq)
  moreover have d: "disjoint_bufs 0x1000000 3 0x2000 8"
    unfolding disjoint_bufs_def
  proof (intro allI impI)
    fix i j :: nat assume "i < 3" "j < 8"
    then have u: "unat (0x1000000 + of_nat i :: u32) = 0x1000000 + i" "unat (0x2000 + of_nat j :: u32) = 0x2000 + j"
      by (simp_all add: unat_word_ariths unsigned_of_nat take_bit_nat_eq_self)
    show "0x1000000 + of_nat i \<noteq> (0x2000 + of_nat j :: u32)"
    proof
      assume e: "0x1000000 + of_nat i = (0x2000 + of_nat j :: u32)"
      have "unat (0x1000000 + of_nat i :: u32) = unat (0x2000 + of_nat j :: u32)" by (simp only: e)
      then have "0x1000000 + i = 0x2000 + j" by (simp only: u)
      with \<open>j < 8\<close> show False by linarith
    qed
  qed
  moreover from d have "disjoint_bufs 0x1000000 (length [104, 105 :: u8] + 1) 0x2000 8"
    by (simp add: numeral_3_eq_3)
  ultimately show ?thesis
    using strncpy_user_correct[of ?m "0x1000000" "[104, 105]" "0x2000" 8] by auto
qed

end
