(* ===== verification/Keyboard.thy ===== *)
theory Keyboard
  imports Prelude
begin

text \<open>
  The keyboard driver's ring of scancodes, \<^verbatim>\<open>kern/keyboard.c\<close> and \<^verbatim>\<open>kern/inc/keyboard.h\<close>: the
  interrupt side adds at \<open>scancode_buffer_end\<close>, \<open>readchar\<close> takes from
  \<open>scancode_buffer_begin\<close>.  One slot stays free to tell a full ring from an empty one.
\<close>

section \<open>A contract for bounded queues\<close>

text \<open>A queue of limited capacity: adding to a full one changes nothing, taking yields the oldest
  element.  What a client observes of a sequence of additions follows from the contract.\<close>

locale bounded_fifo =
  fixes inv :: "'q \<Rightarrow> bool"
    and elems :: "'q \<Rightarrow> 'a list"
    and enq :: "'a \<Rightarrow> 'q \<Rightarrow> 'q"
    and deq :: "'q \<Rightarrow> ('a \<times> 'q) option"
    and capacity :: nat
  assumes inv_enq: "inv q \<Longrightarrow> inv (enq x q)"
    and elems_enq: "inv q \<Longrightarrow>
      elems (enq x q) = (if length (elems q) < capacity then elems q @ [x] else elems q)"
    and inv_deq: "inv q \<Longrightarrow> deq q = Some (x, q') \<Longrightarrow> inv q'"
    and elems_deq: "inv q \<Longrightarrow> deq q = Some (x, q') \<Longrightarrow> elems q = x # elems q'"
    and deq_empty: "inv q \<Longrightarrow> deq q = None \<longleftrightarrow> elems q = []"
    and elems_bound: "inv q \<Longrightarrow> length (elems q) \<le> capacity"
begin

lemma inv_fold_enq: "inv q \<Longrightarrow> inv (fold enq xs q)"
  by (induction xs arbitrary: q) (simp_all add: inv_enq)

lemma elems_fold_enq:
  "inv q \<Longrightarrow> elems (fold enq xs q) = elems q @ take (capacity - length (elems q)) xs"
proof (induction xs arbitrary: q)
  case (Cons x xs)
  show ?case
  proof (cases "length (elems q) < capacity")
    case True
    then have "capacity - length (elems q) = Suc (capacity - Suc (length (elems q)))" by simp
    then show ?thesis
      using True Cons.IH[OF inv_enq[OF Cons.prems, of x]] by (simp add: elems_enq[OF Cons.prems])
  next
    case False
    then show ?thesis
      using Cons.IH[OF inv_enq[OF Cons.prems, of x]] by (simp add: elems_enq[OF Cons.prems])
  qed
qed simp

text \<open>Taking repeatedly from a queue yields its elements in order.\<close>

lemma deq_order:
  assumes "inv q" "i < length (elems q)"
  shows "\<exists>q'. ((\<lambda>r. case deq r of None \<Rightarrow> r | Some (_, r') \<Rightarrow> r') ^^ i) q = q' \<and> inv q' \<and>
    (\<exists>q''. deq q' = Some (elems q ! i, q''))"
  using assms
proof (induction i arbitrary: q)
  case 0
  then obtain x q' where "deq q = Some (x, q')"
    using deq_empty[of q] by (cases "deq q") auto
  then show ?case using 0 elems_deq by (auto intro!: exI[of _ q'])
next
  case (Suc i)
  then obtain x q1 where d: "deq q = Some (x, q1)"
    using deq_empty[of q] by (cases "deq q") auto
  then have e: "elems q = x # elems q1" "inv q1" using Suc.prems elems_deq inv_deq by blast+
  then show ?case using Suc.IH[of q1] Suc.prems d by (simp add: funpow_Suc_right del: funpow.simps)
qed

end

section \<open>The ring of scancodes\<close>

definition SCANCODE_BUFFER_SIZE :: nat where "SCANCODE_BUFFER_SIZE = 1024"
definition SCANCODE_BUFFER_SIZE_MASK :: u32 where "SCANCODE_BUFFER_SIZE_MASK = 1023"

definition SCANCODE_BUFFER_NEXTLOC :: "u32 \<Rightarrow> u32" where
  "SCANCODE_BUFFER_NEXTLOC x = (x + 1) AND SCANCODE_BUFFER_SIZE_MASK"

record keyb_state =
  scancode_buffer :: "u8 list"
  scancode_buffer_begin :: u32
  scancode_buffer_end :: u32

definition keyb_initial :: keyb_state where
  "keyb_initial = \<lparr>scancode_buffer = replicate SCANCODE_BUFFER_SIZE 0,
     scancode_buffer_begin = 0, scancode_buffer_end = 0\<rparr>"

definition SCANCODE_BUFFER_ISFULL :: "keyb_state \<Rightarrow> bool" where
  "SCANCODE_BUFFER_ISFULL k \<longleftrightarrow> SCANCODE_BUFFER_NEXTLOC (scancode_buffer_end k) = scancode_buffer_begin k"

definition SCANCODE_BUFFER_ISEMPTY :: "keyb_state \<Rightarrow> bool" where
  "SCANCODE_BUFFER_ISEMPTY k \<longleftrightarrow> scancode_buffer_begin k = scancode_buffer_end k"

definition keyb_add_scancode :: "u8 \<Rightarrow> keyb_state \<Rightarrow> keyb_state" where
  "keyb_add_scancode sc k =
     (if SCANCODE_BUFFER_ISFULL k then k
      else k\<lparr>scancode_buffer := (scancode_buffer k)[unat (scancode_buffer_end k) := sc],
             scancode_buffer_end := SCANCODE_BUFFER_NEXTLOC (scancode_buffer_end k)\<rparr>)"

definition keyb_remove_scancode :: "keyb_state \<Rightarrow> int \<times> keyb_state" where
  "keyb_remove_scancode k =
     (if SCANCODE_BUFFER_ISEMPTY k then (-1, k)
      else (uint (scancode_buffer k ! unat (scancode_buffer_begin k)),
            k\<lparr>scancode_buffer_begin := SCANCODE_BUFFER_NEXTLOC (scancode_buffer_begin k)\<rparr>))"

definition keyboard_interrupt_handler :: "u8 \<Rightarrow> keyb_state \<Rightarrow> keyb_state" where
  "keyboard_interrupt_handler scan_code k = keyb_add_scancode scan_code k"

definition readchar :: "keyb_state \<Rightarrow> int \<times> keyb_state" where
  "readchar k =
     (let (sc, k) = keyb_remove_scancode k in if sc = -1 then (-1, k) else (sc, k))"

section \<open>The ring is a bounded queue\<close>

definition keyb_inv :: "keyb_state \<Rightarrow> bool" where
  "keyb_inv k \<longleftrightarrow> length (scancode_buffer k) = 1024 \<and>
     unat (scancode_buffer_begin k) < 1024 \<and> unat (scancode_buffer_end k) < 1024"

definition keyb_len :: "keyb_state \<Rightarrow> nat" where
  "keyb_len k = (unat (scancode_buffer_end k) + 1024 - unat (scancode_buffer_begin k)) mod 1024"

definition keyb_contents :: "keyb_state \<Rightarrow> u8 list" where
  "keyb_contents k =
     map (\<lambda>i. scancode_buffer k ! ((unat (scancode_buffer_begin k) + i) mod 1024)) [0..<keyb_len k]"

definition keyb_deq :: "keyb_state \<Rightarrow> (u8 \<times> keyb_state) option" where
  "keyb_deq k = (let (sc, k') = keyb_remove_scancode k in if sc = -1 then None else Some (of_int sc, k'))"

lemma unat_NEXTLOC: "unat x < 1024 \<Longrightarrow> unat (SCANCODE_BUFFER_NEXTLOC x) = (unat x + 1) mod 1024"
proof -
  assume x: "unat x < 1024"
  have "SCANCODE_BUFFER_NEXTLOC x = take_bit 10 (x + 1)"
    by (simp only: SCANCODE_BUFFER_NEXTLOC_def SCANCODE_BUFFER_SIZE_MASK_def take_bit_eq_mask)
       (simp add: mask_eq_decr_exp)
  then have "unat (SCANCODE_BUFFER_NEXTLOC x) = take_bit 10 (unat (x + 1))" by (simp only: unsigned_take_bit_eq)
  moreover have "unat (x + 1) = unat x + 1" using x by (simp add: unat_add_no_wrap)
  ultimately show ?thesis by (simp add: take_bit_eq_mod)
qed

lemma keyb_len_bound: "keyb_len k < 1024"
  by (simp add: keyb_len_def)

lemma length_contents [simp]: "length (keyb_contents k) = keyb_len k"
  by (simp add: keyb_contents_def)

lemma ring_dist_next:
  "b < 1024 \<Longrightarrow> e < (1024::nat) \<Longrightarrow> (e + 1) mod 1024 \<noteq> b \<Longrightarrow>
   ((e + 1) mod 1024 + 1024 - b) mod 1024 = (e + 1024 - b) mod 1024 + 1"
  by (cases "e = 1023"; cases "b \<le> e") (auto simp: mod_if)

lemma ring_dist_full: "b < 1024 \<Longrightarrow> e < (1024::nat) \<Longrightarrow> (e + 1) mod 1024 = b \<longleftrightarrow> (e + 1024 - b) mod 1024 = 1023"
  by (cases "e = 1023"; cases "b \<le> e") (auto simp: mod_if)

lemma ring_dist_empty: "b < 1024 \<Longrightarrow> e < (1024::nat) \<Longrightarrow> b = e \<longleftrightarrow> (e + 1024 - b) mod 1024 = 0"
  by (cases "b \<le> e") (auto simp: mod_if)

lemma ring_slot:
  "b < 1024 \<Longrightarrow> e < (1024::nat) \<Longrightarrow> (b + (e + 1024 - b) mod 1024) mod 1024 = e"
  by (cases "b \<le> e") (auto simp: mod_if)

lemma ring_slot_inj:
  "b < 1024 \<Longrightarrow> i < 1024 \<Longrightarrow> j < (1024::nat) \<Longrightarrow> (b + i) mod 1024 = (b + j) mod 1024 \<Longrightarrow> i = j"
  by (auto simp: mod_if split: if_splits)

lemma ring_dist_prev:
  "b < 1024 \<Longrightarrow> e < (1024::nat) \<Longrightarrow> b \<noteq> e \<Longrightarrow>
   (e + 1024 - b) mod 1024 = Suc ((e + 1024 - (b + 1) mod 1024) mod 1024)"
  by (cases "b = 1023"; cases "b \<le> e") (auto simp: mod_if)

lemma keyb_full_iff: "keyb_inv k \<Longrightarrow> SCANCODE_BUFFER_ISFULL k \<longleftrightarrow> keyb_len k = 1023"
  unfolding SCANCODE_BUFFER_ISFULL_def keyb_len_def keyb_inv_def
  by (simp add: word_unat_eq_iff unat_NEXTLOC flip: ring_dist_full)

lemma keyb_empty_iff: "keyb_inv k \<Longrightarrow> SCANCODE_BUFFER_ISEMPTY k \<longleftrightarrow> keyb_len k = 0"
  unfolding SCANCODE_BUFFER_ISEMPTY_def keyb_len_def keyb_inv_def
  using ring_dist_empty[of "unat (scancode_buffer_begin k)" "unat (scancode_buffer_end k)"]
  by (simp add: word_unat_eq_iff)

lemma keyb_add_inv: "keyb_inv k \<Longrightarrow> keyb_inv (keyb_add_scancode c k)"
  by (auto simp: keyb_inv_def keyb_add_scancode_def unat_NEXTLOC)

lemma keyb_add_contents:
  assumes inv: "keyb_inv k"
  shows "keyb_contents (keyb_add_scancode c k) =
    (if keyb_len k < 1023 then keyb_contents k @ [c] else keyb_contents k)"
proof (cases "SCANCODE_BUFFER_ISFULL k")
  case True
  then show ?thesis using keyb_full_iff[OF inv] by (simp add: keyb_add_scancode_def)
next
  case False
  let ?b = "unat (scancode_buffer_begin k)" and ?e = "unat (scancode_buffer_end k)"
  let ?k = "keyb_add_scancode c k"
  have r: "?b < 1024" "?e < 1024" "length (scancode_buffer k) = 1024" using inv by (auto simp: keyb_inv_def)
  have nf: "(?e + 1) mod 1024 \<noteq> ?b"
    using False r by (simp add: SCANCODE_BUFFER_ISFULL_def word_unat_eq_iff unat_NEXTLOC)
  have len: "keyb_len ?k = Suc (keyb_len k)"
    using False ring_dist_next[OF r(1,2) nf] r by (simp add: keyb_len_def keyb_add_scancode_def unat_NEXTLOC)
  have slot: "(?b + keyb_len k) mod 1024 = ?e" unfolding keyb_len_def by (rule ring_slot[OF r(1,2)])
  have old: "scancode_buffer ?k ! ((?b + i) mod 1024) = scancode_buffer k ! ((?b + i) mod 1024)"
    if "i < keyb_len k" for i
  proof -
    have "(?b + i) mod 1024 \<noteq> ?e"
      using ring_slot_inj[OF r(1), of i "keyb_len k"] that keyb_len_bound[of k] slot by auto
    then show ?thesis using False by (simp add: keyb_add_scancode_def)
  qed
  have new: "scancode_buffer ?k ! ?e = c" using False r by (simp add: keyb_add_scancode_def)
  have beg: "scancode_buffer_begin ?k = scancode_buffer_begin k" using False by (simp add: keyb_add_scancode_def)
  have "keyb_contents ?k = keyb_contents k @ [c]"
    unfolding keyb_contents_def len beg by (simp add: old slot new)
  moreover have "keyb_len k < 1023" using keyb_full_iff[OF inv] False keyb_len_bound[of k] by linarith
  ultimately show ?thesis by simp
qed

lemma keyb_deq_Some:
  assumes inv: "keyb_inv k" and d: "keyb_deq k = Some (x, k')"
  shows "keyb_inv k'" "keyb_contents k = x # keyb_contents k'"
proof -
  let ?b = "unat (scancode_buffer_begin k)" and ?e = "unat (scancode_buffer_end k)"
  have r: "?b < 1024" "?e < 1024" "length (scancode_buffer k) = 1024" using inv by (auto simp: keyb_inv_def)
  have ne: "\<not> SCANCODE_BUFFER_ISEMPTY k" using d by (auto simp: keyb_deq_def keyb_remove_scancode_def)
  then have x: "x = scancode_buffer k ! ?b"
    and k': "k' = k\<lparr>scancode_buffer_begin := SCANCODE_BUFFER_NEXTLOC (scancode_buffer_begin k)\<rparr>"
    using d by (auto simp: keyb_deq_def keyb_remove_scancode_def Let_def split: if_splits)
  show "keyb_inv k'" using inv r by (auto simp: keyb_inv_def k' unat_NEXTLOC)
  have "?b \<noteq> ?e" using ne by (auto simp: SCANCODE_BUFFER_ISEMPTY_def word_unat_eq_iff)
  then have len: "keyb_len k = Suc (keyb_len k')"
    using ring_dist_prev[OF r(1,2)] r by (simp add: keyb_len_def k' unat_NEXTLOC)
  have ix: "(Suc ?b mod 1024 + i) mod 1024 = Suc (?b + i) mod 1024" for i
    using mod_add_left_eq[of "Suc ?b" 1024 i] by simp
  have "keyb_contents k = scancode_buffer k ! (?b mod 1024) #
      map (\<lambda>i. scancode_buffer k ! ((?b + Suc i) mod 1024)) [0..<keyb_len k']"
    unfolding keyb_contents_def len by (simp add: upt_conv_Cons map_Suc_upt[symmetric] o_def del: upt_Suc)
  also have "\<dots> = x # keyb_contents k'"
    using r by (simp add: keyb_contents_def x k' unat_NEXTLOC ix)
  finally show "keyb_contents k = x # keyb_contents k'" .
qed

lemma uint_not_minus_one: "uint (c :: u8) \<noteq> -1"
  using unsigned_greater_eq[of c, where 'a = int] by linarith

lemma keyb_deq_None: "keyb_inv k \<Longrightarrow> keyb_deq k = None \<longleftrightarrow> keyb_contents k = []"
proof -
  assume inv: "keyb_inv k"
  have "keyb_deq k = None \<longleftrightarrow> SCANCODE_BUFFER_ISEMPTY k"
    by (auto simp: keyb_deq_def keyb_remove_scancode_def Let_def uint_not_minus_one)
  moreover have "keyb_contents k = [] \<longleftrightarrow> keyb_len k = 0"
    by (simp flip: length_0_conv)
  ultimately show ?thesis using keyb_empty_iff[OF inv] by simp
qed

interpretation keyb: bounded_fifo keyb_inv keyb_contents keyb_add_scancode keyb_deq 1023
proof unfold_locales
  fix q x q'
  show "keyb_inv q \<Longrightarrow> keyb_inv (keyb_add_scancode x q)" by (rule keyb_add_inv)
  show "keyb_inv q \<Longrightarrow> keyb_contents (keyb_add_scancode x q) =
      (if length (keyb_contents q) < 1023 then keyb_contents q @ [x] else keyb_contents q)"
    by (simp add: keyb_add_contents)
  show "keyb_inv q \<Longrightarrow> keyb_deq q = Some (x, q') \<Longrightarrow> keyb_inv q'" by (rule keyb_deq_Some)
  show "keyb_inv q \<Longrightarrow> keyb_deq q = Some (x, q') \<Longrightarrow> keyb_contents q = x # keyb_contents q'"
    by (rule keyb_deq_Some)
  show "keyb_inv q \<Longrightarrow> (keyb_deq q = None) = (keyb_contents q = [])" by (rule keyb_deq_None)
  show "keyb_inv q \<Longrightarrow> length (keyb_contents q) \<le> 1023" using keyb_len_bound[of q] by simp
qed

lemma keyb_initial_inv: "keyb_inv keyb_initial"
  by (simp add: keyb_inv_def keyb_initial_def SCANCODE_BUFFER_SIZE_def)

lemma keyb_initial_contents: "keyb_contents keyb_initial = []"
  by (simp add: keyb_contents_def keyb_len_def keyb_initial_def)

lemma readchar_deq:
  "readchar k = (case keyb_deq k of None \<Rightarrow> (-1, snd (readchar k)) | Some (c, k') \<Rightarrow> (uint c, k'))"
  "keyb_deq k = None \<Longrightarrow> snd (readchar k) = k"
proof -
  have u: "uint c \<noteq> -1" "(word_of_int (uint c) :: u8) = c" for c :: u8
    by (simp_all add: uint_not_minus_one)
  show "readchar k = (case keyb_deq k of None \<Rightarrow> (-1, snd (readchar k)) | Some (c, k') \<Rightarrow> (uint c, k'))"
    by (auto simp: readchar_def keyb_deq_def keyb_remove_scancode_def Let_def u)
  show "keyb_deq k = None \<Longrightarrow> snd (readchar k) = k"
    by (auto simp: readchar_def keyb_deq_def keyb_remove_scancode_def Let_def u split: if_splits)
qed

text \<open>What happens to the ring: a key gives a scancode, or a task reads a character.  The reference is a list of at most
  1023 scancodes.\<close>

datatype keyb_event = Key_interrupt u8 | Read_char

fun keyb_events :: "keyb_event list \<Rightarrow> keyb_state \<Rightarrow> int list \<times> keyb_state" where
  "keyb_events [] k = ([], k)"
| "keyb_events (Key_interrupt c # es) k = keyb_events es (keyboard_interrupt_handler c k)"
| "keyb_events (Read_char # es) k =
     (let (r, k1) = readchar k; (rs, k2) = keyb_events es k1 in (r # rs, k2))"

fun fifo_events :: "keyb_event list \<Rightarrow> u8 list \<Rightarrow> int list \<times> u8 list" where
  "fifo_events [] q = ([], q)"
| "fifo_events (Key_interrupt c # es) q = fifo_events es (if length q < 1023 then q @ [c] else q)"
| "fifo_events (Read_char # es) [] = (let (rs, q) = fifo_events es [] in (-1 # rs, q))"
| "fifo_events (Read_char # es) (c # q) = (let (rs, q) = fifo_events es q in (uint c # rs, q))"

lemma readchar_contents:
  assumes "keyb_inv k"
  shows "case keyb_contents k of [] \<Rightarrow> readchar k = (-1, k)
    | c # q \<Rightarrow> \<exists>k'. readchar k = (uint c, k') \<and> keyb_inv k' \<and> keyb_contents k' = q"
proof (cases "keyb_deq k")
  case None
  then have "keyb_contents k = []" using keyb_deq_None[OF assms] by simp
  moreover have "readchar k = (-1, k)" using readchar_deq[of k] None by simp
  ultimately show ?thesis by simp
next
  case (Some r)
  then obtain c k' where "keyb_deq k = Some (c, k')" by (cases r) simp
  then show ?thesis using keyb_deq_Some[OF assms] readchar_deq(1)[of k] by simp
qed

text \<open>C30: The keyboard ring is first in, first out and loses only what does not fit.  From any well-formed state, wherever in
  the ring its indices are, and for any sequence of key interrupts and reads in any order, the reads return what a
  queue of at most 1023 scancodes that starts with the contents of the ring returns (the scancodes in the order in
  which they came, those dropped that meet a full queue, and -1 when it is empty), and the ring ends well-formed
  with the contents of that queue.\<close>

theorem keyboard_fifo:
  assumes "keyb_inv k"
  shows "case keyb_events es k of (rs, k') \<Rightarrow> keyb_inv k' \<and> fifo_events es (keyb_contents k) = (rs, keyb_contents k')"
  using assms
proof (induction es arbitrary: k)
  case (Cons e es)
  show ?case
  proof (cases e)
    case (Key_interrupt c)
    have "keyb_inv (keyb_add_scancode c k)" by (rule keyb_add_inv[OF Cons.prems])
    from Cons.IH[OF this] show ?thesis
      using keyb_add_contents[OF Cons.prems, of c] by (simp add: Key_interrupt keyboard_interrupt_handler_def)
  next
    case Read_char
    show ?thesis
    proof (cases "keyb_contents k")
      case Nil
      then have "readchar k = (-1, k)" using readchar_contents[OF Cons.prems] by simp
      then show ?thesis using Cons.IH[OF Cons.prems] Nil by (simp add: Read_char split: prod.splits)
    next
      case (Cons c q)
      then obtain k' where "readchar k = (uint c, k')" "keyb_inv k'" "keyb_contents k' = q"
        using readchar_contents[OF Cons.prems] by auto
      then show ?thesis using Cons.IH[of k'] Cons by (simp add: Read_char split: prod.splits)
    qed
  qed
qed simp

text \<open>A ring whose indices are at its end: the second scancode is stored at its beginning.\<close>

theorem keyboard_fifo_witness:
  "let k = \<lparr>scancode_buffer = replicate 1024 0, scancode_buffer_begin = 1023, scancode_buffer_end = 1023\<rparr>
   in fst (keyb_events [Key_interrupt 7, Key_interrupt 8, Read_char, Read_char, Read_char] k) = [7, 8, -1]"
proof -
  let ?k = "\<lparr>scancode_buffer = replicate 1024 0, scancode_buffer_begin = 1023, scancode_buffer_end = 1023\<rparr>"
  have "keyb_inv ?k" by (simp add: keyb_inv_def)
  moreover have "keyb_contents ?k = []" by (simp add: keyb_contents_def keyb_len_def)
  ultimately show ?thesis
    using keyboard_fifo[of ?k "[Key_interrupt 7, Key_interrupt 8, Read_char, Read_char, Read_char]"]
    by (auto split: prod.splits)
qed

end
