(* ===== verification/Xen_Console.thy ===== *)
theory Xen_Console
  imports C_Memory Keyboard
begin

text \<open>
  The paravirtual console: the shared rings of \<^verbatim>\<open>kern/xencons_ring.c\<close> and the printing of
  \<^verbatim>\<open>kern/xen_console.c\<close>.  The indices of a ring run freely as 32-bit words and are masked when a
  byte is read or written.  The kernel produces on the output ring and consumes from the input
  ring, passing the bytes on to the keyboard ring.
\<close>

section \<open>The rings\<close>

record xencons =
  in_ring :: "u8 list"
  in_cons :: u32
  in_prod :: u32
  out_ring :: "u8 list"
  out_cons :: u32
  out_prod :: u32
  notified :: nat
  console_initialised :: bool

definition XENCONS_OUT_SIZE :: u32 where "XENCONS_OUT_SIZE = 2048"
definition XENCONS_IN_SIZE :: u32 where "XENCONS_IN_SIZE = 1024"

definition MASK_XENCONS_OUT :: "u32 \<Rightarrow> nat" where
  "MASK_XENCONS_OUT idx = unat (idx AND (XENCONS_OUT_SIZE - 1))"

definition MASK_XENCONS_IN :: "u32 \<Rightarrow> nat" where
  "MASK_XENCONS_IN idx = unat (idx AND (XENCONS_IN_SIZE - 1))"

definition notify_daemon :: "xencons \<Rightarrow> xencons" where
  "notify_daemon r = r\<lparr>notified := notified r + 1\<rparr>"

section \<open>Output\<close>

text \<open>The copy loop of \<open>xencons_ring_send_no_notify\<close>: at most \<open>len\<close> bytes, as long as the ring has
  room.  The remaining room decreases, so it ends.\<close>

function send_loop :: "bytes \<Rightarrow> addr \<Rightarrow> u32 \<Rightarrow> u32 \<Rightarrow> u32 \<Rightarrow> u32 \<Rightarrow> u8 list \<Rightarrow> u32 \<times> u32 \<times> u8 list" where
  "send_loop m data len cons sent prd out =
     (if sent < len \<and> prd - cons < XENCONS_OUT_SIZE
      then send_loop m data len cons (sent + 1) (prd + 1) (out[MASK_XENCONS_OUT prd := m (data + sent)])
      else (sent, prd, out))"
  by pat_completeness auto

termination
proof (relation "measure (\<lambda>(m, data, len, cons, sent, prd, out). unat len - unat sent)")
  fix m :: bytes and data len cons sent prd :: u32 and out :: "u8 list"
  assume "sent < len \<and> prd - cons < XENCONS_OUT_SIZE"
  then show "((m, data, len, cons, sent + 1, prd + 1, out[MASK_XENCONS_OUT prd := m (data + sent)]),
      m, data, len, cons, sent, prd, out)
    \<in> measure (\<lambda>(m, data, len, cons, sent, prd, out). unat len - unat sent)"
    using unat_suc_less[of sent len] by (auto simp: word_less_nat_alt)
qed simp

declare send_loop.simps [simp del]

text \<open>\<open>BUG_ON\<close> spins for ever, which is \<open>None\<close>.\<close>

definition xencons_ring_send_no_notify :: "bytes \<Rightarrow> addr \<Rightarrow> u32 \<Rightarrow> xencons \<Rightarrow> (u32 \<times> xencons) option" where
  "xencons_ring_send_no_notify m data len r =
     (if out_prod r - out_cons r > XENCONS_OUT_SIZE then None
      else let (sent, prd, out) = send_loop m data len (out_cons r) 0 (out_prod r) (out_ring r)
           in Some (sent, r\<lparr>out_ring := out, out_prod := prd\<rparr>))"

definition xencons_ring_send :: "bytes \<Rightarrow> addr \<Rightarrow> u32 \<Rightarrow> xencons \<Rightarrow> (u32 \<times> xencons) option" where
  "xencons_ring_send m data len r =
     do { (sent, r) \<leftarrow> xencons_ring_send_no_notify m data len r;
          Some (sent, notify_daemon r) }"

section \<open>Input\<close>

definition xencons_rx :: "u8 \<Rightarrow> keyb_state \<Rightarrow> keyb_state" where
  "xencons_rx c k = (if c = 13 then keyb_add_scancode 10 k else keyb_add_scancode c k)"

function rx_loop :: "u8 list \<Rightarrow> u32 \<Rightarrow> u32 \<Rightarrow> keyb_state \<Rightarrow> u32 \<times> keyb_state" where
  "rx_loop inr cons prd k =
     (if cons \<noteq> prd then rx_loop inr (cons + 1) prd (xencons_rx (inr ! MASK_XENCONS_IN cons) k) else (cons, k))"
  by pat_completeness auto
termination
proof (relation "measure (\<lambda>(inr, cons, prd, k). unat (prd - cons))")
  fix inr :: "u8 list" and cons prd :: u32 and k :: keyb_state
  assume ne: "cons \<noteq> prd"
  have "prd - (cons + 1) = (prd - cons) - 1" by simp
  moreover have "unat (prd - cons) \<noteq> 0" using ne by (simp add: unat_eq_0)
  moreover have "unat ((prd - cons) - 1) = unat (prd - cons) - 1"
    using ne by (intro unat_minus_one) auto
  ultimately have "unat (prd - (cons + 1)) < unat (prd - cons)" by (metis diff_less neq0_conv zero_less_one)
  then show "((inr, cons + 1, prd, xencons_rx (inr ! MASK_XENCONS_IN cons) k), inr, cons, prd, k)
      \<in> measure (\<lambda>(inr, cons, prd, k). unat (prd - cons))"
    by simp
qed simp

declare rx_loop.simps [simp del]

definition handle_input :: "xencons \<times> keyb_state \<Rightarrow> (xencons \<times> keyb_state) option" where
  "handle_input rk =
     (let (r, k) = rk
      in if in_prod r - in_cons r > XENCONS_IN_SIZE then None
         else let (cons, k) = rx_loop (in_ring r) (in_cons r) (in_prod r) k
              in Some (notify_daemon (r\<lparr>in_cons := cons\<rparr>), k))"

section \<open>Printing\<close>

definition ring_send_fn :: "bytes \<Rightarrow> addr \<Rightarrow> int \<Rightarrow> xencons \<Rightarrow> (u32 \<times> xencons) option" where
  "ring_send_fn m data len r =
     (if \<not> console_initialised r then xencons_ring_send_no_notify m data (of_int len) r
      else xencons_ring_send m data (of_int len) r)"

text \<open>The loop of \<open>xen_console_print\<close> over the characters before the last; a newline is sent with a
  carriage return in the place of the character after it, which is restored afterwards.\<close>

fun print_loop :: "nat \<Rightarrow> bytes \<Rightarrow> addr \<Rightarrow> addr \<Rightarrow> int \<Rightarrow> xencons \<Rightarrow> (addr \<times> int \<times> xencons) option" where
  "print_loop 0 m data curr_char len r = Some (data, len, r)"
| "print_loop (Suc n) m data curr_char len r =
     (if m curr_char = 10 then
        let part_len = uint (curr_char - data) + 2
        in do { (sent, r) \<leftarrow> ring_send_fn (m(curr_char + 1 := 13)) data part_len r;
                print_loop n m (curr_char + 1) (curr_char + 1) (len - (part_len - 1)) r }
      else print_loop n m data (curr_char + 1) len r)"

definition xen_console_print :: "bytes \<Rightarrow> addr \<Rightarrow> int \<Rightarrow> xencons \<Rightarrow> xencons option" where
  "xen_console_print m rodata len r =
     do { (data, len, r) \<leftarrow> print_loop (nat (len - 1)) m rodata rodata len r;
          (sent, r) \<leftarrow> ring_send_fn m data len r;
          if m (data + of_int len - 1) = 10 then
            do { (sent, r) \<leftarrow> ring_send_fn ((\<lambda>_. 0)(0 := 13)) 0 1 r; Some r }
          else Some r }"

definition putbytes :: "bytes \<Rightarrow> addr \<Rightarrow> int \<Rightarrow> xencons \<Rightarrow> xencons option" where
  "putbytes m str len r = xen_console_print m str len r"

definition putbyte :: "u8 \<Rightarrow> xencons \<Rightarrow> xencons option" where
  "putbyte ch r = xen_console_print ((\<lambda>_. 0)(0 := ch)) 0 1 r"

section \<open>The output ring is a bounded queue\<close>

definition out_inv :: "xencons \<Rightarrow> bool" where
  "out_inv r \<longleftrightarrow> length (out_ring r) = 2048 \<and> unat (out_prod r - out_cons r) \<le> 2048"

definition out_contents :: "xencons \<Rightarrow> u8 list" where
  "out_contents r =
     map (\<lambda>i. out_ring r ! MASK_XENCONS_OUT (out_cons r + of_nat i)) [0..<unat (out_prod r - out_cons r)]"

definition out_enq :: "u8 \<Rightarrow> xencons \<Rightarrow> xencons" where
  "out_enq c r =
     (if out_prod r - out_cons r < XENCONS_OUT_SIZE
      then r\<lparr>out_ring := (out_ring r)[MASK_XENCONS_OUT (out_prod r) := c], out_prod := out_prod r + 1\<rparr> else r)"

text \<open>The consumer, Xen's console daemon.\<close>

definition out_deq :: "xencons \<Rightarrow> (u8 \<times> xencons) option" where
  "out_deq r =
     (if out_cons r = out_prod r then None
      else Some (out_ring r ! MASK_XENCONS_OUT (out_cons r), r\<lparr>out_cons := out_cons r + 1\<rparr>))"

lemma mask_out: "MASK_XENCONS_OUT x = unat x mod 2048"
proof -
  have "x AND (XENCONS_OUT_SIZE - 1) = take_bit 11 x"
    by (simp only: XENCONS_OUT_SIZE_def take_bit_eq_mask) (simp add: mask_eq_decr_exp)
  then have "MASK_XENCONS_OUT x = take_bit 11 (unat x)"
    by (simp only: MASK_XENCONS_OUT_def unsigned_take_bit_eq)
  then show ?thesis by (simp add: take_bit_eq_mod)
qed

lemma mask_out_add: "MASK_XENCONS_OUT (x + of_nat i) = (unat x + i) mod 2048"
proof -
  have "unat (x + of_nat i) mod 2048 = (unat x + unat (of_nat i :: u32)) mod 2 ^ 32 mod 2048"
    by (simp add: unat_word_ariths)
  also have "\<dots> = (unat x + i mod 2 ^ 32) mod 2048"
    by (simp add: mod_mod_cancel unsigned_of_nat take_bit_eq_mod)
  also have "\<dots> = (unat x + i) mod 2048"
    using mod_add_right_eq[of "unat x" "i mod 2 ^ 32" 2048] mod_add_right_eq[of "unat x" i 2048]
    by (simp add: mod_mod_cancel)
  finally show ?thesis by (simp add: mask_out)
qed

lemma mod_offset_neq:
  assumes "i < j" "j < 2048"
  shows "((x::nat) + i) mod 2048 \<noteq> (x + j) mod 2048"
proof
  assume "(x + i) mod 2048 = (x + j) mod 2048"
  then have "2048 dvd (x + j) - (x + i)" using assms(1) by (metis mod_eq_dvd_iff_nat add_le_cancel_left less_imp_le)
  then have "2048 dvd j - i" by simp
  then have "2048 \<le> j - i" using assms(1) by (intro dvd_imp_le) auto
  with assms show False by simp
qed

lemma out_inv_enq: "out_inv r \<Longrightarrow> out_inv (out_enq c r)"
proof -
  assume inv: "out_inv r"
  show ?thesis
  proof (cases "out_prod r - out_cons r < XENCONS_OUT_SIZE")
    case True
    have "out_prod r + 1 - out_cons r = (out_prod r - out_cons r) + 1" by simp
    then have "unat (out_prod r + 1 - out_cons r) = unat (out_prod r - out_cons r) + 1"
      using unat_suc_less[OF True] by (simp only:)
    moreover have "unat (out_prod r - out_cons r) < 2048"
      using True by (simp add: word_less_nat_alt XENCONS_OUT_SIZE_def)
    ultimately show ?thesis using inv True by (simp add: out_inv_def out_enq_def)
  qed (use inv in \<open>simp add: out_enq_def\<close>)
qed

lemma out_contents_enq:
  assumes inv: "out_inv r"
  shows "out_contents (out_enq c r) =
    (if length (out_contents r) < 2048 then out_contents r @ [c] else out_contents r)"
proof (cases "out_prod r - out_cons r < XENCONS_OUT_SIZE")
  case True
  let ?n = "unat (out_prod r - out_cons r)"
  have n: "?n < 2048" using True by (simp add: word_less_nat_alt XENCONS_OUT_SIZE_def)
  have "out_prod r + 1 - out_cons r = (out_prod r - out_cons r) + 1" by simp
  then have len: "unat (out_prod r + 1 - out_cons r) = Suc ?n"
    using unat_suc_less[OF True] by (simp only: Suc_eq_plus1)
  have p: "MASK_XENCONS_OUT (out_prod r) = (unat (out_cons r) + ?n) mod 2048"
    using mask_out_add[of "out_cons r" ?n] by simp
  let ?out = "(out_ring r)[(unat (out_cons r) + ?n) mod 2048 := c]"
  have old: "?out ! ((unat (out_cons r) + i) mod 2048) = out_ring r ! ((unat (out_cons r) + i) mod 2048)"
    if "i < ?n" for i
    using mod_offset_neq[OF that n, of "unat (out_cons r)"] by (simp add: nth_list_update)
  have new: "?out ! ((unat (out_cons r) + ?n) mod 2048) = c"
    using inv by (simp add: out_inv_def)
  show ?thesis
    using True n by (simp add: out_contents_def out_enq_def len p mask_out_add old new)
next
  case False
  then show ?thesis by (simp add: out_contents_def out_enq_def word_less_nat_alt XENCONS_OUT_SIZE_def)
qed

lemma out_deq_Some:
  assumes "out_inv r" "out_deq r = Some (x, r')"
  shows "out_inv r'" "out_contents r = x # out_contents r'"
proof -
  have ne: "out_cons r \<noteq> out_prod r" and x: "x = out_ring r ! MASK_XENCONS_OUT (out_cons r)"
    and r': "r' = r\<lparr>out_cons := out_cons r + 1\<rparr>"
    using assms(2) by (auto simp: out_deq_def split: if_splits)
  have eq: "out_prod r - (out_cons r + 1) = (out_prod r - out_cons r) - 1" by simp
  have "unat ((out_prod r - out_cons r) - 1) = unat (out_prod r - out_cons r) - 1"
    using ne by (intro unat_minus_one) auto
  moreover have "unat (out_prod r - out_cons r) \<noteq> 0" using ne by (simp add: unat_eq_0)
  ultimately have len: "unat (out_prod r - out_cons r) = Suc (unat (out_prod r' - out_cons r'))"
    unfolding r' by (simp add: eq del: diff_diff_eq)
  show "out_inv r'" using assms(1) len by (simp add: out_inv_def r')
  have ix: "MASK_XENCONS_OUT (out_cons r + of_nat (Suc i)) = MASK_XENCONS_OUT (out_cons r' + of_nat i)" for i
    by (simp add: r' algebra_simps)
  have "out_contents r = out_ring r ! MASK_XENCONS_OUT (out_cons r + of_nat 0) #
      map (\<lambda>i. out_ring r ! MASK_XENCONS_OUT (out_cons r + of_nat (Suc i))) [0..<unat (out_prod r' - out_cons r')]"
    unfolding out_contents_def len
    by (simp add: upt_conv_Cons map_Suc_upt[symmetric] o_def del: upt_Suc)
  then show "out_contents r = x # out_contents r'"
    unfolding ix by (simp add: x out_contents_def r')
qed

interpretation xencons_out: bounded_fifo out_inv out_contents out_enq out_deq 2048
proof unfold_locales
  fix q x q'
  show "out_inv q \<Longrightarrow> out_inv (out_enq x q)" by (rule out_inv_enq)
  show "out_inv q \<Longrightarrow> out_contents (out_enq x q) =
      (if length (out_contents q) < 2048 then out_contents q @ [x] else out_contents q)"
    by (rule out_contents_enq)
  show "out_inv q \<Longrightarrow> out_deq q = Some (x, q') \<Longrightarrow> out_inv q'" by (rule out_deq_Some)
  show "out_inv q \<Longrightarrow> out_deq q = Some (x, q') \<Longrightarrow> out_contents q = x # out_contents q'" by (rule out_deq_Some)
  show "out_inv q \<Longrightarrow> (out_deq q = None) = (out_contents q = [])"
    by (auto simp: out_deq_def out_contents_def unat_eq_0)
  show "out_inv q \<Longrightarrow> length (out_contents q) \<le> 2048"
    by (simp add: out_inv_def out_contents_def)
qed

section \<open>What printing sends\<close>

definition mem_slice :: "bytes \<Rightarrow> addr \<Rightarrow> nat \<Rightarrow> u8 list" where
  "mem_slice m a n = map (\<lambda>i. m (a + of_nat i)) [0..<n]"

text \<open>\<open>sends xs r r'\<close>: the ring takes the bytes \<open>xs\<close> as far as they fit.\<close>

definition sends :: "u8 list \<Rightarrow> xencons \<Rightarrow> xencons \<Rightarrow> bool" where
  "sends xs r r' \<longleftrightarrow> out_inv r' \<and> out_contents r' = take 2048 (out_contents r @ xs) \<and>
     console_initialised r' = console_initialised r"

lemma take_take_append: "take n (take n xs @ ys) = take n (xs @ ys)"
  by (simp add: take_take min_def)

lemma sends_trans: "sends xs r s \<Longrightarrow> sends ys s t \<Longrightarrow> sends (xs @ ys) r t"
  using take_take_append[of 2048 "out_contents r @ xs" ys] by (simp add: sends_def)

lemma sends_nil: "out_inv r \<Longrightarrow> sends [] r r"
  using xencons_out.elems_bound[of r] by (simp add: sends_def)

lemma fold_enq_frame:
  "out_cons (fold out_enq xs r) = out_cons r" "console_initialised (fold out_enq xs r) = console_initialised r"
  "notified (fold out_enq xs r) = notified r" "in_ring (fold out_enq xs r) = in_ring r"
  "in_cons (fold out_enq xs r) = in_cons r" "in_prod (fold out_enq xs r) = in_prod r"
  by (induction xs arbitrary: r) (simp_all add: out_enq_def)

lemma sends_fold: "out_inv r \<Longrightarrow> sends xs r (fold out_enq xs r)"
  using xencons_out.elems_fold_enq[of r xs] xencons_out.inv_fold_enq[of r xs] xencons_out.elems_bound[of r]
  by (simp add: sends_def fold_enq_frame)

lemma fold_enq_full: "\<not> out_prod r - out_cons r < XENCONS_OUT_SIZE \<Longrightarrow> fold out_enq xs r = r"
  by (induction xs) (simp_all add: out_enq_def)

lemma send_loop_fold:
  "sent \<le> len \<Longrightarrow>
   (let (n, prd, out) = send_loop m data len (out_cons r) sent (out_prod r) (out_ring r)
    in r\<lparr>out_ring := out, out_prod := prd\<rparr>) =
   fold out_enq (map (\<lambda>i. m (data + of_nat i)) [unat sent..<unat len]) r"
proof (induction "unat len - unat sent" arbitrary: sent r)
  case 0
  then have "sent = len" by (simp add: word_le_nat_alt word_unat_eq_iff)
  then show ?case by (subst send_loop.simps) simp
next
  case (Suc k)
  then have lt: "sent < len" by (simp add: word_less_nat_alt)
  have u: "unat (sent + 1) = unat sent + 1" by (rule unat_suc_less[OF lt])
  show ?case
  proof (cases "out_prod r - out_cons r < XENCONS_OUT_SIZE")
    case False
    then show ?thesis by (subst send_loop.simps) (simp add: fold_enq_full)
  next
    case True
    let ?r = "out_enq (m (data + sent)) r"
    have r: "out_cons ?r = out_cons r" "out_prod ?r = out_prod r + 1"
      "out_ring ?r = (out_ring r)[MASK_XENCONS_OUT (out_prod r) := m (data + sent)]"
      "?r\<lparr>out_ring := o', out_prod := p'\<rparr> = r\<lparr>out_ring := o', out_prod := p'\<rparr>" for o' p'
      using True by (simp_all add: out_enq_def)
    have IH: "(let (n, prd, out) = send_loop m data len (out_cons ?r) (sent + 1) (out_prod ?r) (out_ring ?r)
        in ?r\<lparr>out_ring := out, out_prod := prd\<rparr>) =
      fold out_enq (map (\<lambda>i. m (data + of_nat i)) [unat (sent + 1)..<unat len]) ?r"
      by (rule Suc.hyps(1)) (use Suc.hyps(2) lt u in \<open>auto simp: word_le_nat_alt word_less_nat_alt\<close>)
    have "[unat sent..<unat len] = unat sent # [unat (sent + 1)..<unat len]"
      using lt u by (simp add: upt_conv_Cons word_less_nat_alt)
    then show ?thesis
      using IH lt True by (subst send_loop.simps) (simp add: r(1-3) r(4) Let_def split_beta)
  qed
qed

lemma ring_send_ok:
  assumes "out_inv r"
  shows "\<exists>n r'. ring_send_fn m data (int k) r = Some (n, r') \<and>
    (unat (of_nat k :: u32) = k \<longrightarrow> sends (mem_slice m data k) r r')"
proof -
  have b: "\<not> out_prod r - out_cons r > XENCONS_OUT_SIZE"
    using assms by (simp add: out_inv_def word_less_nat_alt XENCONS_OUT_SIZE_def)
  obtain n prd out where l: "send_loop m data (of_nat k) (out_cons r) 0 (out_prod r) (out_ring r) = (n, prd, out)"
    by (metis prod_cases3)
  have f: "r\<lparr>out_ring := out, out_prod := prd\<rparr> =
      fold out_enq (map (\<lambda>i. m (data + of_nat i)) [0..<unat (of_nat k :: u32)]) r"
    using send_loop_fold[of 0 "of_nat k" m data r] l by simp
  have "sends (mem_slice m data k) r (r\<lparr>out_ring := out, out_prod := prd\<rparr>)" if "unat (of_nat k :: u32) = k"
    unfolding f that mem_slice_def by (rule sends_fold[OF assms])
  moreover have "sends xs r (notify_daemon q)" if "sends xs r q" for xs q
    using that by (simp add: sends_def notify_daemon_def out_inv_def out_contents_def)
  ultimately show ?thesis
    using b l by (simp add: ring_send_fn_def xencons_ring_send_def xencons_ring_send_no_notify_def)
qed

text \<open>The output of a text: every newline is followed by a carriage return.\<close>

definition crlf :: "u8 list \<Rightarrow> u8 list" where
  "crlf cs = concat (map (\<lambda>c. if c = 10 then [10, 13] else [c]) cs)"

lemma crlf_append: "crlf (xs @ ys) = crlf xs @ crlf ys"
  by (simp add: crlf_def)

lemma crlf_id: "10 \<notin> set cs \<Longrightarrow> crlf cs = cs"
  by (induction cs) (auto simp: crlf_def)

lemma crlf_single: "crlf [c] = (if c = 10 then [10, 13] else [c])"
  by (simp add: crlf_def)

lemma mem_slice_Suc: "mem_slice m a (Suc n) = mem_slice m a n @ [m (a + of_nat n)]"
  by (simp add: mem_slice_def)

lemma mem_slice_cong: "(\<And>i. i < n \<Longrightarrow> m (a + of_nat i) = m' (a + of_nat i)) \<Longrightarrow> mem_slice m a n = mem_slice m' a n"
  by (simp add: mem_slice_def)

lemma mem_slice_append: "mem_slice m a (i + j) = mem_slice m a i @ mem_slice m (a + of_nat i) j"
  by (induction j) (simp_all add: mem_slice_def add.assoc)

lemma newline_part:
  assumes "d \<le> c" "c < 2 ^ 31" "m (a + of_nat c) = 10"
  shows "mem_slice (m(a + of_nat c + 1 := 13)) (a + of_nat d) (c - d + 2) =
    mem_slice m (a + of_nat d) (c - d) @ [10, 13]"
proof -
  let ?m = "m(a + of_nat c + 1 := 13)"
  have at: "a + of_nat d + of_nat (c - d) = a + of_nat c" using assms(1) by (simp add: of_nat_diff)
  have "a + of_nat d + of_nat i \<noteq> a + of_nat c + 1" if "i \<le> c - d" for i
  proof
    assume "a + of_nat d + of_nat i = a + of_nat c + 1"
    then have "(of_nat (d + i) :: u32) = of_nat (c + 1)" by (simp add: algebra_simps)
    then have "d + i = c + 1" using assms that by (subst (asm) of_nat_inj32) auto
    with that assms(1) show False by simp
  qed
  then have "mem_slice ?m (a + of_nat d) (Suc (c - d)) = mem_slice m (a + of_nat d) (Suc (c - d))"
    by (intro mem_slice_cong) simp
  moreover have "a + of_nat d + of_nat (Suc (c - d)) = a + of_nat c + 1" using at by (simp add: algebra_simps)
  ultimately have "mem_slice ?m (a + of_nat d) (Suc (Suc (c - d))) =
      mem_slice m (a + of_nat d) (Suc (c - d)) @ [13]"
    by (subst mem_slice_Suc) simp
  also have "mem_slice m (a + of_nat d) (Suc (c - d)) = mem_slice m (a + of_nat d) (c - d) @ [10]"
    unfolding mem_slice_Suc at assms(3) ..
  finally have "mem_slice ?m (a + of_nat d) (Suc (Suc (c - d))) = mem_slice m (a + of_nat d) (c - d) @ [10, 13]"
    by (simp only: append_assoc append_Cons append_Nil)
  moreover have "c - d + 2 = Suc (Suc (c - d))" by simp
  ultimately show ?thesis by (simp only:)
qed

lemma mem_slice_no_newline:
  assumes "d \<le> c" "\<forall>i. d \<le> i \<longrightarrow> i < c \<longrightarrow> m (a + of_nat i) \<noteq> 10"
  shows "10 \<notin> set (mem_slice m (a + of_nat d) (c - d))"
proof -
  have "m (a + of_nat d + of_nat i) \<noteq> 10" if "i < c - d" for i
    using assms(2)[rule_format, of "d + i"] that by (simp add: add.assoc)
  then show ?thesis by (auto simp: mem_slice_def)
qed

lemma print_loop_sends:
  assumes "d \<le> c" "c + k = n - 1" "0 < n" "n < 2 ^ 31"
    and "\<forall>i. d \<le> i \<longrightarrow> i < c \<longrightarrow> m (a + of_nat i) \<noteq> 10"
    and "sends (crlf (mem_slice m a d)) r0 r"
  shows "\<exists>d' r'. print_loop k m (a + of_nat d) (a + of_nat c) (int n - int d) r =
      Some (a + of_nat d', int n - int d', r') \<and> d' \<le> n - 1 \<and>
    (\<forall>i. d' \<le> i \<longrightarrow> i < n - 1 \<longrightarrow> m (a + of_nat i) \<noteq> 10) \<and> sends (crlf (mem_slice m a d')) r0 r'"
  using assms
proof (induction k arbitrary: d c r)
  case 0
  then show ?case by auto
next
  case (Suc k)
  have next1: "a + of_nat c + 1 = a + of_nat (Suc c)" by (simp add: algebra_simps)
  show ?case
  proof (cases "m (a + of_nat c) = 10")
    case True
    have "unat (a + of_nat c - (a + of_nat d) :: u32) = c - d"
    proof -
      have "a + of_nat c - (a + of_nat d) = (of_nat (c - d) :: u32)" using Suc.prems(1) by (simp add: of_nat_diff)
      moreover have "c - d < 2 ^ 32" using Suc.prems(2,4) by simp
      ultimately show ?thesis by (simp only: unat_of_nat32)
    qed
    moreover have "uint (a + of_nat c - (a + of_nat d)) = int (unat (a + of_nat c - (a + of_nat d)))"
      by (simp only: of_nat_unat)
    ultimately have part: "uint (a + of_nat c - (a + of_nat d)) + 2 = int (c - d + 2)" by linarith
    have inv: "out_inv r" using Suc.prems(6) by (simp add: sends_def)
    have small: "unat (of_nat (c - d + 2) :: u32) = c - d + 2"
      by (rule unat_of_nat32) (use Suc.prems(2,4) in simp)
    obtain nn r1 where r1: "ring_send_fn (m(a + of_nat c + 1 := 13)) (a + of_nat d) (int (c - d + 2)) r = Some (nn, r1)"
      "sends (mem_slice (m(a + of_nat c + 1 := 13)) (a + of_nat d) (c - d + 2)) r r1"
      using ring_send_ok[OF inv, of "m(a + of_nat c + 1 := 13)" "a + of_nat d" "c - d + 2"] small by blast
    have cl: "crlf (mem_slice m a (Suc c)) =
        crlf (mem_slice m a d) @ mem_slice (m(a + of_nat c + 1 := 13)) (a + of_nat d) (c - d + 2)"
    proof -
      have "mem_slice m a (Suc c) = mem_slice m a d @ mem_slice m (a + of_nat d) (c - d) @ [10]"
        using mem_slice_append[of m a d "c - d"] Suc.prems(1) True by (simp add: mem_slice_Suc)
      moreover have "crlf (mem_slice m (a + of_nat d) (c - d)) = mem_slice m (a + of_nat d) (c - d)"
        by (rule crlf_id[OF mem_slice_no_newline[OF Suc.prems(1,5)]])
      moreover have "crlf [10] = [10, 13]" by (simp add: crlf_def)
      moreover have "c < 2 ^ 31" using Suc.prems(2,4) by simp
      note np = newline_part[of d c m a, OF Suc.prems(1) this True]
      ultimately show ?thesis by (simp only: crlf_append np)
    qed
    have s1: "sends (crlf (mem_slice m a (Suc c))) r0 r1"
      unfolding cl by (rule sends_trans[OF Suc.prems(6) r1(2)])
    have len: "int n - int d - (int (c - d + 2) - 1) = int n - int (Suc c)"
      using Suc.prems(1) by simp
    obtain d' r' where "print_loop k m (a + of_nat (Suc c)) (a + of_nat (Suc c)) (int n - int (Suc c)) r1 =
        Some (a + of_nat d', int n - int d', r')" "d' \<le> n - 1"
      "\<forall>i. d' \<le> i \<longrightarrow> i < n - 1 \<longrightarrow> m (a + of_nat i) \<noteq> 10" "sends (crlf (mem_slice m a d')) r0 r'"
      using Suc.IH[of "Suc c" "Suc c" r1] Suc.prems s1 by auto
    then show ?thesis
      using True r1(1) by (simp only: print_loop.simps part Let_def len next1 if_True) simp
  next
    case False
    have "\<forall>i. d \<le> i \<longrightarrow> i < Suc c \<longrightarrow> m (a + of_nat i) \<noteq> 10"
      using Suc.prems(5) False by (auto simp: less_Suc_eq)
    then show ?thesis
      using Suc.IH[of d "Suc c" r] Suc.prems False by (simp only: print_loop.simps next1 if_False)
  qed
qed

lemma print_until_last:
  assumes "out_inv r" "0 < n" "n < 2 ^ 31"
  obtains bs r2 where "sends bs r r2"
    "crlf (mem_slice m a n) = bs @ (if m (a + of_nat (n - 1)) = 10 then [13] else [])"
    "xen_console_print m a (int n) r =
       (if m (a + of_nat (n - 1)) = 10 then ring_send_fn ((\<lambda>_. 0)(0 := 13)) 0 1 r2 \<bind> (\<lambda>(sent, r). Some r)
        else Some r2)"
proof -
  have "sends (crlf (mem_slice m a 0)) r r"
    using sends_nil[OF assms(1)] by (simp add: mem_slice_def crlf_def)
  then obtain d r1 where l: "print_loop (n - 1) m a a (int n) r = Some (a + of_nat d, int n - int d, r1)"
    and d: "d \<le> n - 1" and nn: "\<forall>i. d \<le> i \<longrightarrow> i < n - 1 \<longrightarrow> m (a + of_nat i) \<noteq> 10"
    and s1: "sends (crlf (mem_slice m a d)) r r1"
    using print_loop_sends[of 0 0 "n - 1" n m a r r] assms(2,3) by auto
  have len: "int n - int d = int (n - d)" using d by linarith
  have "unat (of_nat (n - d) :: u32) = n - d" by (rule unat_of_nat32) (use assms(3) in simp)
  then obtain k r2 where r2: "ring_send_fn m (a + of_nat d) (int (n - d)) r1 = Some (k, r2)"
    and s2: "sends (mem_slice m (a + of_nat d) (n - d)) r1 r2"
    using ring_send_ok[of r1 m "a + of_nat d" "n - d"] s1 by (auto simp: sends_def)
  let ?last = "m (a + of_nat (n - 1))"
  have last: "a + of_nat d + of_int (int (n - d)) - 1 = a + of_nat (n - 1)"
    using d assms(2) by (simp add: of_nat_diff)
  have piece: "mem_slice m (a + of_nat d) (n - d) = mem_slice m (a + of_nat d) (n - 1 - d) @ [?last]"
  proof -
    have "n - d = Suc (n - 1 - d)" "a + of_nat d + of_nat (n - 1 - d) = a + of_nat (n - 1)"
      using d assms(2) by (simp_all add: of_nat_diff)
    then show ?thesis by (simp only: mem_slice_Suc)
  qed
  have whole: "mem_slice m a n = mem_slice m a d @ mem_slice m (a + of_nat d) (n - d)"
    using mem_slice_append[of m a d "n - d"] d by simp
  have front: "crlf (mem_slice m (a + of_nat d) (n - 1 - d)) = mem_slice m (a + of_nat d) (n - 1 - d)"
    by (rule crlf_id[OF mem_slice_no_newline[OF d nn]])
  have s12: "sends (crlf (mem_slice m a d) @ mem_slice m (a + of_nat d) (n - d)) r r2"
    by (rule sends_trans[OF s1 s2])
  have nm: "nat (int n - 1) = n - 1" using assms(2) by simp
  have fin: "xen_console_print m a (int n) r =
      (if ?last = 10 then ring_send_fn ((\<lambda>_. 0)(0 := 13)) 0 1 r2 \<bind> (\<lambda>(sent, r). Some r) else Some r2)"
    by (simp only: xen_console_print_def nm l len r2 bind.bind_lunit prod.case last)
  have "crlf (mem_slice m a n) =
      (crlf (mem_slice m a d) @ mem_slice m (a + of_nat d) (n - d)) @ (if ?last = 10 then [13] else [])"
    unfolding whole piece by (simp add: crlf_append crlf_single front[simplified])
  then show ?thesis using that s12 fin by blast
qed

text \<open>Printing a text of at least one byte to the console puts the text with a carriage return
  after every newline on the output ring, behind what is there already and cut off where the
  ring is full; the text itself is left as it was.\<close>

theorem console_print_correct:
  assumes "out_inv r" "0 < n" "n < 2 ^ 31"
  shows "\<exists>r'. xen_console_print m a (int n) r = Some r' \<and> out_inv r' \<and>
    out_contents r' = take 2048 (out_contents r @ crlf (mem_slice m a n))"
proof -
  obtain bs r2 where s: "sends bs r r2"
    and c: "crlf (mem_slice m a n) = bs @ (if m (a + of_nat (n - 1)) = 10 then [13] else [])"
    and fin: "xen_console_print m a (int n) r =
       (if m (a + of_nat (n - 1)) = 10 then ring_send_fn ((\<lambda>_. 0)(0 := 13)) 0 1 r2 \<bind> (\<lambda>(sent, r). Some r)
        else Some r2)"
    by (rule print_until_last[OF assms])
  show ?thesis
  proof (cases "m (a + of_nat (n - 1)) = 10")
    case True
    obtain k3 r3 where r3: "ring_send_fn ((\<lambda>_. 0)(0 := 13)) 0 (int 1) r2 = Some (k3, r3)"
      "sends (mem_slice ((\<lambda>_. 0)(0 := 13)) 0 1) r2 r3"
      using ring_send_ok[of r2 "(\<lambda>_. 0)(0 := 13)" 0 1] s by (auto simp: sends_def)
    have "mem_slice ((\<lambda>_. 0)(0 := 13)) 0 1 = [13]" by (simp add: mem_slice_def)
    then have "sends (bs @ [13]) r r3" using sends_trans[OF s r3(2)] by simp
    then show ?thesis using fin c True r3(1) unfolding sends_def by auto
  next
    case False
    then show ?thesis using fin c s unfolding sends_def by auto
  qed
qed

definition empty_xencons :: xencons where
  "empty_xencons = \<lparr>in_ring = replicate 1024 0, in_cons = 0, in_prod = 0, out_ring = replicate 2048 0,
     out_cons = 0, out_prod = 0, notified = 0, console_initialised = True\<rparr>"

lemma empty_xencons_inv: "out_inv empty_xencons" "out_contents empty_xencons = []"
  by (simp_all add: out_inv_def empty_xencons_def out_contents_def)

theorem console_print_correct_witness:
  "\<exists>r'. xen_console_print ((\<lambda>_. 65)(0x1001 := 10)) 0x1000 (int 3) empty_xencons = Some r' \<and>
    out_contents r' = [65, 10, 13, 65]"
proof -
  have "mem_slice ((\<lambda>_. 65)(0x1001 := 10)) 0x1000 3 = [65, 10, 65]"
    by (simp add: mem_slice_def upt_rec)
  then have "crlf (mem_slice ((\<lambda>_. 65)(0x1001 := 10)) 0x1000 3) = [65, 10, 13, 65]"
    by (simp add: crlf_def)
  then show ?thesis
    using console_print_correct[OF empty_xencons_inv(1), of 3 "(\<lambda>_. 65)(0x1001 := 10)" "0x1000"]
    by (auto simp: empty_xencons_inv)
qed

text \<open>With a negative length the loop is skipped and the length reaches the ring as a huge unsigned
  number: the ring is filled with whatever follows the text.\<close>

lemma console_print_negative_len:
  assumes "out_inv r" "- (2 ^ 31) \<le> len" "len < 0"
  shows "\<exists>r'. xen_console_print m a len r = Some r' \<and> out_inv r' \<and>
    out_contents r' = take 2048 (out_contents r @ mem_slice m a 2048)"
proof -
  define k where "k = unat (of_int len :: u32)"
  have k: "k = nat (len + 2 ^ 32)"
  proof -
    have "uint (of_int len :: u32) = len mod 2 ^ 32"
      by (simp add: unsigned_of_int take_bit_eq_mod)
    also have "\<dots> = (len + 2 ^ 32) mod 2 ^ 32" by simp
    also have "\<dots> = len + 2 ^ 32" using assms(2,3) by (intro mod_pos_pos_trivial) auto
    finally show ?thesis unfolding k_def by (metis nat_uint_eq)
  qed
  have kb: "2048 \<le> k" "k < 2 ^ 32" using assms(2,3) by (auto simp: k nat_less_iff le_nat_iff)
  have wk: "(of_int len :: u32) = of_nat k" unfolding k_def by simp
  have same: "ring_send_fn m a len r = ring_send_fn m a (int k) r"
    by (simp add: ring_send_fn_def wk)
  obtain n r1 where r1: "ring_send_fn m a len r = Some (n, r1)" "sends (mem_slice m a k) r r1"
    using ring_send_ok[OF assms(1), of m a k] unat_of_nat32[OF kb(2)] unfolding same by blast
  have full: "out_contents r1 = take 2048 (out_contents r @ mem_slice m a 2048)"
  proof -
    have "mem_slice m a k = mem_slice m a 2048 @ mem_slice m (a + of_nat 2048) (k - 2048)"
      using mem_slice_append[of m a 2048 "k - 2048"] kb(1) by simp
    moreover have "length (mem_slice m a 2048) = 2048" by (simp add: mem_slice_def)
    ultimately show ?thesis using r1(2) by (simp add: sends_def)
  qed
  have inv1: "out_inv r1" using r1(2) by (simp add: sends_def)
  obtain n2 r2 where r2: "ring_send_fn ((\<lambda>_. 0)(0 := 13)) 0 (int 1) r1 = Some (n2, r2)"
    "sends (mem_slice ((\<lambda>_. 0)(0 := 13)) 0 1) r1 r2"
    using ring_send_ok[OF inv1, of "(\<lambda>_. 0)(0 := 13)" 0 1] by auto
  have "length (out_contents r1) = 2048" unfolding full by (simp add: mem_slice_def)
  then have "out_contents r2 = out_contents r1" "out_inv r2" using r2(2) by (simp_all add: sends_def)
  then show ?thesis
    using r1(1) r2(1) inv1 full assms(3) by (simp add: xen_console_print_def)
qed

end
