(* ===== verification/Text_Console.thy ===== *)
theory Text_Console
  imports C_Memory
begin

text \<open>
  The text console of \<^verbatim>\<open>kern/console.c\<close>: 25 rows of 80 cells in video memory, a cursor with its colour, and
  the cursor of the display controller.  Under Xen, printing goes to the hypervisor's console, but the
  cursor and colour calls, drawing and clearing act on this one.
\<close>

section \<open>State and operations\<close>

text \<open>\<open>fb\<close> is memory as far as the console uses it, \<open>ports\<close> the bytes written to I/O ports so far.\<close>

record vga =
  fb :: bytes
  cons_curr_row :: u8
  cons_curr_col :: u8
  cons_curr_color :: u8
  cons_cursor_state :: u8
  ports :: "(u16 \<times> u8) list"

definition CONSOLE_MEM_BASE :: u32 where "CONSOLE_MEM_BASE = 0xB8000"
definition CONSOLE_WIDTH :: u32 where "CONSOLE_WIDTH = 80"
definition CONSOLE_HEIGHT :: u32 where "CONSOLE_HEIGHT = 25"
definition CONS_DEFAULT_COLOR :: u8 where "CONS_DEFAULT_COLOR = 0xF OR 0x00"
definition CONS_CHAR_SPC :: u8 where "CONS_CHAR_SPC = 0x20"
definition CONS_CHAR_BKSPC :: u8 where "CONS_CHAR_BKSPC = 8"
definition CONS_CHAR_CR :: u8 where "CONS_CHAR_CR = 13"
definition CONS_CHAR_LF :: u8 where "CONS_CHAR_LF = 10"
definition CONS_CURSOR_VISIBLE :: u8 where "CONS_CURSOR_VISIBLE = 1"
definition CONS_CURSOR_HIDDEN :: u8 where "CONS_CURSOR_HIDDEN = 0"
definition CRTC_IDX_REG :: u16 where "CRTC_IDX_REG = 0x3d4"
definition CRTC_DATA_REG :: u16 where "CRTC_DATA_REG = 0x3d5"
definition CRTC_CURSOR_LSB_IDX :: u8 where "CRTC_CURSOR_LSB_IDX = 15"
definition CRTC_CURSOR_MSB_IDX :: u8 where "CRTC_CURSOR_MSB_IDX = 14"

definition FB_LOC_CHAR :: "u32 \<Rightarrow> u32 \<Rightarrow> addr" where
  "FB_LOC_CHAR row col = CONSOLE_MEM_BASE + 2 * (row * CONSOLE_WIDTH + col)"

definition st16 :: "addr \<Rightarrow> u16 \<Rightarrow> bytes \<Rightarrow> bytes" where
  "st16 a v m = m(a := ucast v, a + 1 := ucast (drop_bit 8 v))"

text \<open>A cell with a space in the default colour, and the loops that store it.\<close>

definition cons_blank :: u16 where
  "cons_blank = push_bit 8 (ucast CONS_DEFAULT_COLOR) OR ucast CONS_CHAR_SPC"

definition blank_cells :: "addr \<Rightarrow> nat \<Rightarrow> bytes \<Rightarrow> bytes" where
  "blank_cells loc n m = fold (\<lambda>i. st16 (loc + 2 * of_nat i) cons_blank) [0..<n] m"

text \<open>The copy runs upwards in memory and its destination lies below its source, so that the overlap does
  no harm and \<open>memcpy_b\<close> describes it.\<close>

definition cons_scroll :: "vga \<Rightarrow> vga" where
  "cons_scroll v =
     v\<lparr>fb := blank_cells (FB_LOC_CHAR (ucast (cons_curr_row v)) 0) (unat CONSOLE_WIDTH)
        (memcpy_b (FB_LOC_CHAR 0 0) (FB_LOC_CHAR 1 0) (2 * (CONSOLE_HEIGHT - 1) * CONSOLE_WIDTH) (fb v))\<rparr>"

definition cons_clear :: "vga \<Rightarrow> vga" where
  "cons_clear v = v\<lparr>fb := blank_cells (FB_LOC_CHAR 0 0) (unat (CONSOLE_WIDTH * CONSOLE_HEIGHT)) (fb v)\<rparr>"

definition cons_draw_char :: "u32 \<Rightarrow> u32 \<Rightarrow> u8 \<Rightarrow> u8 \<Rightarrow> vga \<Rightarrow> vga" where
  "cons_draw_char row col ch color v =
     (let cursor = FB_LOC_CHAR row col in v\<lparr>fb := (fb v)(cursor + 1 := color, cursor := ch)\<rparr>)"

definition cons_putbyte :: "u8 \<Rightarrow> vga \<Rightarrow> vga" where
  "cons_putbyte ch v =
     (let v = (if ch \<noteq> CONS_CHAR_BKSPC \<and> ch \<noteq> CONS_CHAR_CR \<and> ch \<noteq> CONS_CHAR_LF
               then cons_draw_char (ucast (cons_curr_row v)) (ucast (cons_curr_col v)) ch (cons_curr_color v) v
               else v)
      in if ch = CONS_CHAR_BKSPC then
           if cons_curr_col v > 0 then
             let v = v\<lparr>cons_curr_col := cons_curr_col v - 1\<rparr>
             in cons_draw_char (ucast (cons_curr_row v)) (ucast (cons_curr_col v)) CONS_CHAR_SPC CONS_DEFAULT_COLOR v
           else v
         else if ch = CONS_CHAR_CR then v\<lparr>cons_curr_col := 0\<rparr>
         else if ch \<noteq> CONS_CHAR_LF \<and> ucast (cons_curr_col v) < CONSOLE_WIDTH - 1
         then v\<lparr>cons_curr_col := cons_curr_col v + 1\<rparr>
         else
           let v = v\<lparr>cons_curr_col := 0\<rparr>
           in if ucast (cons_curr_row v) < CONSOLE_HEIGHT - 1 then v\<lparr>cons_curr_row := cons_curr_row v + 1\<rparr>
              else cons_scroll v)"

definition outb :: "u16 \<Rightarrow> u8 \<Rightarrow> vga \<Rightarrow> vga" where
  "outb port b v = v\<lparr>ports := ports v @ [(port, b)]\<rparr>"

definition cons_hide_cursor :: "vga \<Rightarrow> vga" where
  "cons_hide_cursor v =
     (let v = v\<lparr>cons_cursor_state := CONS_CURSOR_HIDDEN\<rparr>;
          v = outb CRTC_IDX_REG CRTC_CURSOR_LSB_IDX v;
          v = outb CRTC_DATA_REG 0xff v;
          v = outb CRTC_IDX_REG CRTC_CURSOR_MSB_IDX v
      in outb CRTC_DATA_REG 0xff v)"

definition cons_display_cursor :: "vga \<Rightarrow> vga" where
  "cons_display_cursor v =
     (let curpos = (ucast (cons_curr_row v) * 80 + ucast (cons_curr_col v) :: u16);
          v = outb CRTC_IDX_REG CRTC_CURSOR_LSB_IDX v;
          v = outb CRTC_DATA_REG (ucast curpos) v;
          v = outb CRTC_IDX_REG CRTC_CURSOR_MSB_IDX v
      in outb CRTC_DATA_REG (ucast (drop_bit 8 curpos)) v)"

definition cons_show_cursor :: "vga \<Rightarrow> vga" where
  "cons_show_cursor v = cons_display_cursor (v\<lparr>cons_cursor_state := CONS_CURSOR_VISIBLE\<rparr>)"

definition cons_update_cursor :: "vga \<Rightarrow> vga" where
  "cons_update_cursor v = (if cons_cursor_state v = CONS_CURSOR_VISIBLE then cons_display_cursor v else v)"

section \<open>What the kernel calls\<close>

definition draw_char :: "u32 \<Rightarrow> u32 \<Rightarrow> u32 \<Rightarrow> u32 \<Rightarrow> vga \<Rightarrow> vga" where
  "draw_char row col ch color v = cons_draw_char row col (ucast ch) (ucast color) v"

definition get_char :: "u32 \<Rightarrow> u32 \<Rightarrow> vga \<Rightarrow> u8" where
  "get_char row col v = fb v (FB_LOC_CHAR row col)"

definition set_term_color :: "u32 \<Rightarrow> vga \<Rightarrow> int \<times> vga" where
  "set_term_color color v =
     (if color AND push_bit 8 (NOT 0) = 0 then (0, v\<lparr>cons_curr_color := ucast color\<rparr>) else (-1, v))"

definition get_term_color :: "vga \<Rightarrow> u32" where
  "get_term_color v = ucast (cons_curr_color v) AND 0xff"

definition set_cursor :: "u32 \<Rightarrow> u32 \<Rightarrow> vga \<Rightarrow> int \<times> vga" where
  "set_cursor row col v =
     (if sint row < 0 \<or> sint row \<ge> sint CONSOLE_HEIGHT \<or> sint col < 0 \<or> sint col \<ge> sint CONSOLE_WIDTH
      then (-1, v)
      else (0, cons_update_cursor (v\<lparr>cons_curr_row := ucast row, cons_curr_col := ucast col\<rparr>)))"

definition get_cursor :: "vga \<Rightarrow> u32 \<times> u32" where
  "get_cursor v = (ucast (cons_curr_row v) AND 0xff, ucast (cons_curr_col v) AND 0xff)"

definition clear_console :: "vga \<Rightarrow> vga" where
  "clear_console v =
     (let v = cons_clear v in cons_update_cursor (v\<lparr>cons_curr_row := 0, cons_curr_col := 0\<rparr>))"

definition show_cursor :: "vga \<Rightarrow> vga" where "show_cursor v = cons_show_cursor v"

definition hide_cursor :: "vga \<Rightarrow> vga" where "hide_cursor v = cons_hide_cursor v"

definition console_init :: "vga \<Rightarrow> vga" where
  "console_init v = show_cursor (clear_console (snd (set_term_color (ucast CONS_DEFAULT_COLOR) v)))"

section \<open>The screen as a list of cells\<close>

text \<open>Row by row, each cell its character and its attribute; the address of the \<open>i\<close>-th cell.\<close>

definition cell_addr :: "nat \<Rightarrow> addr" where
  "cell_addr i = CONSOLE_MEM_BASE + 2 * of_nat i"

definition cells :: "bytes \<Rightarrow> (u8 \<times> u8) list" where
  "cells m = map (\<lambda>i. (m (cell_addr i), m (cell_addr i + 1))) [0..<2000]"

definition blank :: "u8 \<times> u8" where "blank = (CONS_CHAR_SPC, CONS_DEFAULT_COLOR)"

definition in_video :: "addr \<Rightarrow> bool" where
  "in_video x \<longleftrightarrow> 0xB8000 \<le> unat x \<and> unat x < 0xB8000 + 4000"

lemma unat_cell: "i < 2000 \<Longrightarrow> unat (cell_addr i) = 0xB8000 + 2 * i"
  and unat_attr: "i < 2000 \<Longrightarrow> unat (cell_addr i + 1) = 0xB8000 + 2 * i + 1"
proof -
  assume i: "i < 2000"
  have "(2 * of_nat i :: addr) = of_nat (2 * i)" by simp
  moreover have "unat (of_nat (2 * i) :: addr) = 2 * i" using i by (intro unat_of_nat32) simp
  ultimately show c: "unat (cell_addr i) = 0xB8000 + 2 * i"
    unfolding cell_addr_def CONSOLE_MEM_BASE_def using i by (simp only:) (subst unat_add_no_wrap, simp_all)
  show "unat (cell_addr i + 1) = 0xB8000 + 2 * i + 1"
    using c i by (subst unat_add_no_wrap) simp_all
qed

lemma cell_addr_eq:
  assumes "i < 2000" "j < 2000"
  shows "cell_addr i = cell_addr j \<longleftrightarrow> i = j" "cell_addr i + 1 = cell_addr j + 1 \<longleftrightarrow> i = j"
    "cell_addr i \<noteq> cell_addr j + 1" "cell_addr j + 1 \<noteq> cell_addr i"
proof -
  have "unat (cell_addr i) \<noteq> unat (cell_addr j + 1)"
    unfolding unat_cell[OF assms(1)] unat_attr[OF assms(2)] by presburger
  then show "cell_addr i \<noteq> cell_addr j + 1" "cell_addr j + 1 \<noteq> cell_addr i" by metis+
  show "cell_addr i = cell_addr j \<longleftrightarrow> i = j"
  proof
    assume "cell_addr i = cell_addr j"
    then have "0xB8000 + 2 * i = 0xB8000 + 2 * j" using unat_cell[OF assms(1)] unat_cell[OF assms(2)] by metis
    then show "i = j" by linarith
  qed simp
  then show "cell_addr i + 1 = cell_addr j + 1 \<longleftrightarrow> i = j" by simp
qed

lemma length_cells [simp]: "length (cells m) = 2000"
  by (simp add: cells_def)

lemma cells_nth: "i < 2000 \<Longrightarrow> cells m ! i = (m (cell_addr i), m (cell_addr i + 1))"
  by (simp add: cells_def)

lemma cells_store:
  assumes "i < 2000"
  shows "cells (m(cell_addr i + 1 := color, cell_addr i := ch)) = (cells m)[i := (ch, color)]"
    "cells (m(cell_addr i := ch, cell_addr i + 1 := color)) = (cells m)[i := (ch, color)]"
  by (rule nth_equalityI; use assms in \<open>auto simp: cells_nth nth_list_update cell_addr_eq\<close>)+

lemma store_outside:
  assumes "i < 2000" "\<not> in_video x"
  shows "x \<noteq> cell_addr i" "x \<noteq> cell_addr i + 1"
  using assms unat_cell[OF assms(1)] unat_attr[OF assms(1)] by (auto simp: in_video_def)

lemma cons_blank_bytes: "ucast cons_blank = CONS_CHAR_SPC" "ucast (drop_bit 8 cons_blank) = CONS_DEFAULT_COLOR"
  by (simp_all add: cons_blank_def CONS_CHAR_SPC_def CONS_DEFAULT_COLOR_def)

lemma cells_st16:
  assumes "i < 2000"
  shows "cells (st16 (cell_addr i) cons_blank m) = (cells m)[i := blank]"
    "\<not> in_video x \<Longrightarrow> st16 (cell_addr i) cons_blank m x = m x"
  using cells_store(2)[OF assms] store_outside[OF assms]
  by (simp_all add: st16_def blank_def cons_blank_bytes)

lemma fill_step:
  "i + n < length cs \<Longrightarrow> (take i cs @ replicate n b @ drop (i + n) cs)[i + n := b] = take i cs @ replicate (Suc n) b @ drop (i + Suc n) cs"
proof -
  assume n: "i + n < length cs"
  then have "take i cs @ replicate n b @ drop (i + n) cs =
      (take i cs @ replicate n b) @ cs ! (i + n) # drop (Suc (i + n)) cs"
    by (simp add: Cons_nth_drop_Suc)
  moreover have "length (take i cs @ replicate n b) = i + n" using n by simp
  ultimately have "(take i cs @ replicate n b @ drop (i + n) cs)[i + n := b] =
      (take i cs @ replicate n b) @ b # drop (Suc (i + n)) cs"
    by (metis list_update_length)
  then show ?thesis by (simp add: replicate_append_same[symmetric])
qed

lemma cells_blank:
  assumes "i + n \<le> 2000"
  shows "cells (blank_cells (cell_addr i) n m) = take i (cells m) @ replicate n blank @ drop (i + n) (cells m)"
    and "\<not> in_video x \<Longrightarrow> blank_cells (cell_addr i) n m x = m x"
proof -
  have "cells (blank_cells (cell_addr i) n m) = take i (cells m) @ replicate n blank @ drop (i + n) (cells m) \<and>
      (\<not> in_video x \<longrightarrow> blank_cells (cell_addr i) n m x = m x)"
    using assms
  proof (induction n)
    case (Suc n)
    have "blank_cells (cell_addr i) (Suc n) m = st16 (cell_addr (i + n)) cons_blank (blank_cells (cell_addr i) n m)"
      by (simp add: blank_cells_def cell_addr_def algebra_simps)
    then show ?case
      using Suc cells_st16(1)[of "i + n" "blank_cells (cell_addr i) n m"]
        cells_st16(2)[of "i + n" x "blank_cells (cell_addr i) n m"] fill_step[of i n "cells m" blank] by simp
  qed (simp add: blank_cells_def)
  then show "cells (blank_cells (cell_addr i) n m) = take i (cells m) @ replicate n blank @ drop (i + n) (cells m)"
    "\<not> in_video x \<Longrightarrow> blank_cells (cell_addr i) n m x = m x" by blast+
qed

section \<open>Printing a character\<close>

type_synonym screen = "nat \<times> nat \<times> (u8 \<times> u8) list"

definition screen :: "vga \<Rightarrow> screen" where
  "screen v = (unat (cons_curr_row v), unat (cons_curr_col v), cells (fb v))"

definition cursor_ok :: "vga \<Rightarrow> bool" where
  "cursor_ok v \<longleftrightarrow> unat (cons_curr_row v) < 25 \<and> unat (cons_curr_col v) < 80"

definition spec_newline :: "nat \<Rightarrow> (u8 \<times> u8) list \<Rightarrow> screen" where
  "spec_newline r cs = (if r < 24 then (r + 1, 0, cs) else (r, 0, drop 80 cs @ replicate 80 blank))"

fun spec_putbyte :: "u8 \<Rightarrow> u8 \<Rightarrow> screen \<Rightarrow> screen" where
  "spec_putbyte color ch (r, c, cs) =
     (if ch = CONS_CHAR_BKSPC then if c = 0 then (r, c, cs) else (r, c - 1, cs[80 * r + (c - 1) := blank])
      else if ch = CONS_CHAR_CR then (r, 0, cs)
      else if ch = CONS_CHAR_LF then spec_newline r cs
      else let cs = cs[80 * r + c := (ch, color)] in if c < 79 then (r, c + 1, cs) else spec_newline r cs)"

lemma FB_LOC_CHAR_cell: "FB_LOC_CHAR (of_nat r) (of_nat c) = cell_addr (80 * r + c)"
  by (simp add: FB_LOC_CHAR_def cell_addr_def CONSOLE_WIDTH_def algebra_simps)

lemma FB_LOC_CHAR_cursor: "FB_LOC_CHAR (ucast row) (ucast col) = cell_addr (80 * unat (row :: u8) + unat (col :: u8))"
  using FB_LOC_CHAR_cell[of "unat row" "unat col"] by simp

lemma scroll_args: "FB_LOC_CHAR 0 0 = CONSOLE_MEM_BASE" "FB_LOC_CHAR 1 0 = CONSOLE_MEM_BASE + 160"
  "2 * (CONSOLE_HEIGHT - 1) * CONSOLE_WIDTH = 3840"
  by (simp_all add: FB_LOC_CHAR_def CONSOLE_WIDTH_def CONSOLE_HEIGHT_def)

lemma cells_memcpy:
  "cells (memcpy_b CONSOLE_MEM_BASE (CONSOLE_MEM_BASE + 160) 3840 m) = drop 80 (cells m) @ drop 1920 (cells m)"
    (is "cells ?m = _")
  "\<not> in_video x \<Longrightarrow> memcpy_b CONSOLE_MEM_BASE (CONSOLE_MEM_BASE + 160) 3840 m x = m x"
proof -
  have lt: "x - CONSOLE_MEM_BASE < 3840 \<longleftrightarrow> k < 3840" if "unat x = 0xB8000 + k" for x k
  proof -
    have "CONSOLE_MEM_BASE \<le> x" using that by (simp add: CONSOLE_MEM_BASE_def word_le_nat_alt)
    then have "unat (x - CONSOLE_MEM_BASE) = k" using that by (simp add: unat_sub_le CONSOLE_MEM_BASE_def)
    then show ?thesis by (simp add: word_less_nat_alt)
  qed
  have next_row: "CONSOLE_MEM_BASE + 160 + (cell_addr i - CONSOLE_MEM_BASE) = cell_addr (80 + i)" for i
    by (simp add: cell_addr_def)
  have c: "?m (cell_addr i) = (if i < 1920 then m (cell_addr (80 + i)) else m (cell_addr i))" if "i < 2000" for i
    using lt[OF unat_cell[OF that]] next_row[of i] by (simp add: memcpy_b_def)
  have a: "?m (cell_addr i + 1) = (if i < 1920 then m (cell_addr (80 + i) + 1) else m (cell_addr i + 1))" if "i < 2000" for i
  proof -
    have "unat (cell_addr i + 1) = 0xB8000 + (2 * i + 1)" using unat_attr[OF that] by simp
    note less = lt[OF this]
    have "161 + cell_addr i = cell_addr (80 + i) + 1" by (simp add: cell_addr_def)
    then have "m (161 + cell_addr i) = m (cell_addr (80 + i) + 1)" by (rule arg_cong)
    moreover have "2 * i + 1 < 3840 \<longleftrightarrow> i < 1920" by presburger
    ultimately show ?thesis using less by (simp add: memcpy_b_def)
  qed
  show "cells ?m = drop 80 (cells m) @ drop 1920 (cells m)"
    by (rule nth_equalityI) (auto simp: cells_nth c a nth_append)
  show "?m x = m x" if "\<not> in_video x"
  proof -
    have "\<not> x - CONSOLE_MEM_BASE < 3840"
    proof
      assume "x - CONSOLE_MEM_BASE < 3840"
      then have k: "unat (x - CONSOLE_MEM_BASE) < 3840" by (simp add: word_less_nat_alt)
      have b: "unat CONSOLE_MEM_BASE = 0xB8000" by (simp add: CONSOLE_MEM_BASE_def)
      have "unat (CONSOLE_MEM_BASE + (x - CONSOLE_MEM_BASE)) = unat CONSOLE_MEM_BASE + unat (x - CONSOLE_MEM_BASE)"
        using k by (intro unat_add_no_wrap) (simp add: b)
      then have "unat x = 0xB8000 + unat (x - CONSOLE_MEM_BASE)" by (simp add: b)
      with k that show False by (simp add: in_video_def)
    qed
    then show ?thesis by (simp add: memcpy_b_def)
  qed
qed

lemma cons_scroll_cells:
  assumes "unat (cons_curr_row v) = 24"
  shows "cells (fb (cons_scroll v)) = drop 80 (cells (fb v)) @ replicate 80 blank"
    "\<not> in_video x \<Longrightarrow> fb (cons_scroll v) x = fb v x"
proof -
  have loc: "FB_LOC_CHAR (ucast (cons_curr_row v)) 0 = cell_addr 1920"
    using FB_LOC_CHAR_cursor[of "cons_curr_row v" 0] assms by simp
  have w: "unat CONSOLE_WIDTH = 80" by (simp add: CONSOLE_WIDTH_def)
  show "cells (fb (cons_scroll v)) = drop 80 (cells (fb v)) @ replicate 80 blank"
    unfolding cons_scroll_def loc w scroll_args by (simp add: cells_blank(1) cells_memcpy(1))
  show "fb (cons_scroll v) x = fb v x" if "\<not> in_video x"
    unfolding cons_scroll_def loc w scroll_args using that by (simp add: cells_blank(2) cells_memcpy(2))
qed

lemma cursor_cell: "cursor_ok v \<Longrightarrow> 80 * unat (cons_curr_row v) + unat (cons_curr_col v) < 2000"
  by (simp add: cursor_ok_def)

lemma draw_at_cursor:
  assumes "cursor_ok v"
  defines "i \<equiv> 80 * unat (cons_curr_row v) + unat (cons_curr_col v)"
  shows "cells (fb (cons_draw_char (ucast (cons_curr_row v)) (ucast (cons_curr_col v)) ch color w)) =
      (cells (fb w))[i := (ch, color)]"
    "\<not> in_video x \<Longrightarrow> fb (cons_draw_char (ucast (cons_curr_row v)) (ucast (cons_curr_col v)) ch color w) x = fb w x"
  using cursor_cell[OF assms(1)] store_outside[of i x]
  by (simp_all add: cons_draw_char_def Let_def FB_LOC_CHAR_cursor cells_store i_def[symmetric])

lemma word8_suc: "unat (x :: u8) < 255 \<Longrightarrow> unat (x + 1) = unat x + 1"
  by (simp add: unat_word_ariths)

lemma word8_pred: "0 < (x :: u8) \<Longrightarrow> unat (x - 1) = unat x - 1"
  by (rule unat_minus_one) auto

lemma unat_widen [simp]: "unat (ucast (x :: u8) :: u32) = unat x"
proof -
  have "unat x < 2 ^ 32" using unsigned_less[of x, where 'a = nat] by simp
  then show ?thesis by (simp add: unsigned_ucast_eq take_bit_nat_eq_self)
qed

lemma cursor_less: "(ucast (x :: u8) :: u32) < CONSOLE_WIDTH - 1 \<longleftrightarrow> unat x < 79"
  "(ucast (x :: u8) :: u32) < CONSOLE_HEIGHT - 1 \<longleftrightarrow> unat x < 24"
  unfolding word_less_nat_alt unat_widen by (simp_all add: CONSOLE_WIDTH_def CONSOLE_HEIGHT_def)

lemma cons_scroll_fields [simp]: "cons_curr_row (cons_scroll v) = cons_curr_row v"
  "cons_curr_col (cons_scroll v) = cons_curr_col v" "cons_curr_color (cons_scroll v) = cons_curr_color v"
  by (simp_all add: cons_scroll_def)

lemma cons_draw_fields [simp]: "cons_curr_row (cons_draw_char r c ch color v) = cons_curr_row v"
  "cons_curr_col (cons_draw_char r c ch color v) = cons_curr_col v"
  "cons_curr_color (cons_draw_char r c ch color v) = cons_curr_color v"
  by (simp_all add: cons_draw_char_def Let_def)

definition next_line :: "vga \<Rightarrow> vga" where
  "next_line v =
     (let v = v\<lparr>cons_curr_col := 0\<rparr>
      in if ucast (cons_curr_row v) < CONSOLE_HEIGHT - 1 then v\<lparr>cons_curr_row := cons_curr_row v + 1\<rparr>
         else cons_scroll v)"

lemma next_line_refines:
  assumes "cursor_ok v"
  shows "cursor_ok (next_line v)" "screen (next_line v) = spec_newline (unat (cons_curr_row v)) (cells (fb v))"
    "\<not> in_video x \<Longrightarrow> fb (next_line v) x = fb v x"
proof -
  have "unat (cons_curr_row v) \<noteq> 24 \<Longrightarrow> unat (cons_curr_row v) < 24" using assms by (auto simp: cursor_ok_def)
  then have r: "unat (cons_curr_row v) < 24 \<or> unat (cons_curr_row v) = 24" by blast
  show "cursor_ok (next_line v)" using r
    by (auto simp: next_line_def cursor_less cursor_ok_def word8_suc Let_def)
  show "screen (next_line v) = spec_newline (unat (cons_curr_row v)) (cells (fb v))" using r
    by (auto simp: next_line_def cursor_less screen_def spec_newline_def word8_suc cons_scroll_cells Let_def)
  show "fb (next_line v) x = fb v x" if "\<not> in_video x" using r that
    by (auto simp: next_line_def cursor_less cons_scroll_cells Let_def)
qed

lemma putbyte_cases:
  "cons_putbyte CONS_CHAR_CR v = v\<lparr>cons_curr_col := 0\<rparr>"
  "cons_putbyte CONS_CHAR_LF v = next_line v"
  "cons_putbyte CONS_CHAR_BKSPC v =
     (if cons_curr_col v > 0
      then let w = v\<lparr>cons_curr_col := cons_curr_col v - 1\<rparr>
           in cons_draw_char (ucast (cons_curr_row w)) (ucast (cons_curr_col w)) CONS_CHAR_SPC CONS_DEFAULT_COLOR w
      else v)"
  "ch \<notin> {CONS_CHAR_BKSPC, CONS_CHAR_CR, CONS_CHAR_LF} \<Longrightarrow>
   cons_putbyte ch v =
     (let w = cons_draw_char (ucast (cons_curr_row v)) (ucast (cons_curr_col v)) ch (cons_curr_color v) v
      in if ucast (cons_curr_col v) < CONSOLE_WIDTH - 1 then w\<lparr>cons_curr_col := cons_curr_col v + 1\<rparr>
         else next_line w)"
  by (simp_all add: cons_putbyte_def next_line_def Let_def CONS_CHAR_CR_def CONS_CHAR_LF_def CONS_CHAR_BKSPC_def)

lemma spec_putbyte_cases:
  "spec_putbyte color CONS_CHAR_CR (r, c, cs) = (r, 0, cs)"
  "spec_putbyte color CONS_CHAR_LF (r, c, cs) = spec_newline r cs"
  "spec_putbyte color CONS_CHAR_BKSPC (r, c, cs) = (if c = 0 then (r, c, cs) else (r, c - 1, cs[80 * r + (c - 1) := blank]))"
  "ch \<notin> {CONS_CHAR_BKSPC, CONS_CHAR_CR, CONS_CHAR_LF} \<Longrightarrow> spec_putbyte color ch (r, c, cs) =
     (if c < 79 then (r, c + 1, cs[80 * r + c := (ch, color)]) else spec_newline r (cs[80 * r + c := (ch, color)]))"
  by (simp_all add: CONS_CHAR_CR_def CONS_CHAR_LF_def CONS_CHAR_BKSPC_def)

lemma put_glyph:
  assumes "cursor_ok v" "ch \<notin> {CONS_CHAR_BKSPC, CONS_CHAR_CR, CONS_CHAR_LF}"
  shows "cursor_ok (cons_putbyte ch v) \<and> screen (cons_putbyte ch v) = spec_putbyte (cons_curr_color v) ch (screen v) \<and>
    (\<forall>x. \<not> in_video x \<longrightarrow> fb (cons_putbyte ch v) x = fb v x)"
proof -
  define w where "w = cons_draw_char (ucast (cons_curr_row v)) (ucast (cons_curr_col v)) ch (cons_curr_color v) v"
  have w: "cursor_ok w" "cells (fb w) = (cells (fb v))[80 * unat (cons_curr_row v) + unat (cons_curr_col v) := (ch, cons_curr_color v)]"
    "cons_curr_row w = cons_curr_row v" "cons_curr_col w = cons_curr_col v"
    "\<And>x. \<not> in_video x \<Longrightarrow> fb w x = fb v x"
    using assms(1) draw_at_cursor[OF assms(1)] by (simp_all add: w_def cursor_ok_def)
  have eq: "cons_putbyte ch v =
      (if unat (cons_curr_col v) < 79 then w\<lparr>cons_curr_col := cons_curr_col v + 1\<rparr> else next_line w)"
    unfolding putbyte_cases(4)[OF assms(2)] Let_def w_def[symmetric] cursor_less by (rule refl)
  show ?thesis
    unfolding eq screen_def[of v] spec_putbyte_cases(4)[OF assms(2)]
    using w next_line_refines[OF w(1)] assms(1) by (auto simp: screen_def cursor_ok_def word8_suc)
qed

lemma put_backspace:
  assumes "cursor_ok v"
  shows "cursor_ok (cons_putbyte CONS_CHAR_BKSPC v) \<and>
    screen (cons_putbyte CONS_CHAR_BKSPC v) = spec_putbyte (cons_curr_color v) CONS_CHAR_BKSPC (screen v) \<and>
    (\<forall>x. \<not> in_video x \<longrightarrow> fb (cons_putbyte CONS_CHAR_BKSPC v) x = fb v x)"
proof (cases "cons_curr_col v > 0")
  case True
  define w where "w = v\<lparr>cons_curr_col := cons_curr_col v - 1\<rparr>"
  have col: "unat (cons_curr_col w) = unat (cons_curr_col v) - 1" "unat (cons_curr_col v) \<noteq> 0"
    using True word8_pred[OF True] by (auto simp: w_def word_less_nat_alt)
  have ok: "cursor_ok w" using assms col by (auto simp: cursor_ok_def w_def)
  have eq: "cons_putbyte CONS_CHAR_BKSPC v =
      cons_draw_char (ucast (cons_curr_row w)) (ucast (cons_curr_col w)) CONS_CHAR_SPC CONS_DEFAULT_COLOR w"
    using True by (simp add: putbyte_cases w_def Let_def)
  show ?thesis
    unfolding eq screen_def spec_putbyte_cases using ok col draw_at_cursor[OF ok, where ch = CONS_CHAR_SPC and color = CONS_DEFAULT_COLOR and w = w]
    by (auto simp: cursor_ok_def blank_def) (simp_all add: w_def)
qed (use assms in \<open>simp add: putbyte_cases spec_putbyte_cases screen_def word_less_nat_alt\<close>)

text \<open>C19: Printing a character to the text console does what a terminal does: it puts the character with the
  current colour at the cursor and moves on, wraps at the end of a row, scrolls at the end of the screen,
  and treats backspace, carriage return and line feed specially.  The cursor stays on the screen and no
  byte outside video memory is written.\<close>

theorem cons_putbyte_refines:
  assumes "cursor_ok v"
  shows "cursor_ok (cons_putbyte ch v) \<and>
    screen (cons_putbyte ch v) = spec_putbyte (cons_curr_color v) ch (screen v) \<and>
    (\<forall>x. \<not> in_video x \<longrightarrow> fb (cons_putbyte ch v) x = fb v x)"
proof -
  consider "ch = CONS_CHAR_BKSPC" | "ch = CONS_CHAR_CR" | "ch = CONS_CHAR_LF"
    | "ch \<notin> {CONS_CHAR_BKSPC, CONS_CHAR_CR, CONS_CHAR_LF}" by blast
  then show ?thesis
  proof cases
    case 1
    then show ?thesis using put_backspace[OF assms] by simp
  next
    case 2
    then show ?thesis using assms by (simp only: putbyte_cases screen_def spec_putbyte_cases) (simp add: cursor_ok_def)
  next
    case 3
    then show ?thesis using next_line_refines[OF assms]
      by (simp only: putbyte_cases screen_def[of v] spec_putbyte_cases) blast
  next
    case 4
    then show ?thesis by (rule put_glyph[OF assms])
  qed
qed

text \<open>The static variables before start-up.\<close>

definition initial_vga :: vga where
  "initial_vga = \<lparr>fb = \<lambda>_. 0, cons_curr_row = 0, cons_curr_col = 0, cons_curr_color = CONS_DEFAULT_COLOR,
     cons_cursor_state = CONS_CURSOR_VISIBLE, ports = []\<rparr>"

text \<open>A console whose cursor is at the end of the last row.\<close>

definition full_console :: vga where
  "full_console = \<lparr>fb = \<lambda>_. 0, cons_curr_row = 24, cons_curr_col = 79, cons_curr_color = 7,
     cons_cursor_state = CONS_CURSOR_VISIBLE, ports = []\<rparr>"

theorem cons_putbyte_refines_witness:
  "screen (cons_putbyte 65 full_console) =
    (24, 0, drop 80 ((cells (\<lambda>_. 0))[1999 := (65, 7)]) @ replicate 80 blank)"
proof -
  have "cursor_ok full_console" by (simp add: cursor_ok_def full_console_def)
  from cons_putbyte_refines[OF this, of 65] show ?thesis
    by (simp add: screen_def full_console_def spec_newline_def CONS_CHAR_BKSPC_def CONS_CHAR_CR_def CONS_CHAR_LF_def)
qed

section \<open>Placing the cursor\<close>

lemma unat_narrow: "unat (x :: u32) < 256 \<Longrightarrow> unat (ucast x :: u8) = unat x"
  by (simp add: unsigned_ucast_eq take_bit_nat_eq_self)

lemma low_byte: "(ucast (x :: u8) :: u32) AND 0xff = ucast x"
proof -
  have "(0xff :: u32) = mask 8" by (simp add: mask_eq_decr_exp)
  show ?thesis unfolding \<open>0xff = mask 8\<close>
    by (rule bit_word_eqI) (auto simp: bit_and_iff bit_mask_iff bit_unsigned_iff dest: bit_imp_le_length)
qed

lemma on_screen_iff:
  "\<not> (sint (row :: u32) < 0 \<or> sint row \<ge> sint CONSOLE_HEIGHT \<or> sint (col :: u32) < 0 \<or> sint col \<ge> sint CONSOLE_WIDTH) \<longleftrightarrow>
   unat row < 25 \<and> unat col < 80"
proof -
  have "\<not> (sint x < 0 \<or> sint x \<ge> int n) \<longleftrightarrow> unat x < n" if "n < 100" for x :: u32 and n
    using that unat_lt32[of x] by (auto simp: sint32 simp del: of_nat_unat)
  from this[of 25 row] this[of 80 col] show ?thesis by (auto simp: CONSOLE_HEIGHT_def CONSOLE_WIDTH_def)
qed

lemma set_cursor_ok:
  assumes "unat row < 25" "unat col < 80"
  obtains v' where "set_cursor row col v = (0, v')" "get_cursor v' = (row, col)" "cursor_ok v'" "fb v' = fb v"
proof -
  have u: "unat (ucast row :: u8) = unat row" "unat (ucast col :: u8) = unat col"
    using assms by (simp_all add: unat_narrow)
  then have w: "(ucast (ucast row :: u8) :: u32) = row" "(ucast (ucast col :: u8) :: u32) = col"
    by (simp_all add: word_unat_eq_iff)
  show thesis
    by (rule that[of "cons_update_cursor (v\<lparr>cons_curr_row := ucast row, cons_curr_col := ucast col\<rparr>)"])
       (use assms u w on_screen_iff[of row col] in \<open>auto simp: set_cursor_def get_cursor_def cons_update_cursor_def
          cons_display_cursor_def outb_def Let_def low_byte cursor_ok_def\<close>)
qed

lemma set_cursor_bad: "\<not> (unat row < 25 \<and> unat col < 80) \<Longrightarrow> set_cursor row col v = (-1, v)"
  using on_screen_iff[of row col] by (auto simp: set_cursor_def)

end
