(* ===== verification/Kernel_State.thy ===== *)
theory Kernel_State
  imports Vmm_Page Loader Xen_Console Text_Console
begin

text \<open>
  The objects of the kernel and the state its operations share: \<^verbatim>\<open>kern/inc/vm_area.h\<close>,
  \<^verbatim>\<open>kern/inc/task.h\<close>, \<^verbatim>\<open>kern/inc/thread.h\<close>, \<^verbatim>\<open>kern/inc/file.h\<close>, the globals of \<^verbatim>\<open>kern/sched.c\<close>,
  \<^verbatim>\<open>kern/task.c\<close> and \<^verbatim>\<open>kern/thread.c\<close>, and the operations of \<^verbatim>\<open>kern/file.c\<close>.

  Objects live in heaps, one per C type: maps from addresses to records, where an address that
  is not allocated (never, or freed) has no object.  Using such an address is an error of
  the C program, and the operation's result is then \<open>None\<close>.  The link fields of an object are kept
  apart, one map per link field, since the queue macros work on them alone.  Addresses come from
  \<open>heap\<close>, the addresses \<open>malloc\<close> will hand out; when it is empty \<open>malloc\<close> returns \<open>NULL\<close>.
\<close>

section \<open>Object types\<close>

datatype vma_type =
    VMA_TYPE_KERNEL_STACK | VMA_TYPE_DIRECT | VMA_TYPE_ALLOC | VMA_TYPE_ZEROPAGE
  | VMA_TYPE_COW | VMA_TYPE_COPY | VMA_TYPE_FILE

text \<open>The function pointers a region can hold.\<close>

datatype nopage_fn = Nopage_default | Nopage_alloc | Nopage_zeropage | Nopage_file | Nopage_copy
datatype pagewrite_fn = Pagewrite_write | Pagewrite_default | Pagewrite_cow

definition VMA_FLAG_STACK :: u32 where "VMA_FLAG_STACK = 0x2"

text \<open>The union \<open>vm_area_src_t\<close> is two words: \<open>paddr\<close>, \<open>vma\<close> and \<open>file_src.file\<close> are the first,
  \<open>file_src.start_offset\<close> is the second.\<close>

record vm_area_src =
  src_ptr :: addr
  src_offset :: u32

record vm_area_t =
  start_address :: addr
  vsize :: u32
  flags :: u32
  vtype :: vma_type
  vcount :: int
  vma_flags :: u32
  vtask :: addr
  vsrc :: vm_area_src
  nopage :: nopage_fn
  pagewrite :: pagewrite_fn

record file_t =
  fname :: "u8 list"
  foffset :: u32
  fcount :: int

record task_t =
  task_id :: u32
  tcount :: int
  page_dir :: addr
  tentry_point :: addr
  tfile :: addr
  vm_area_list :: qhead
  task_cs :: u32
  task_ds :: u32
  tparent :: addr
  tthread :: addr
  tchild_list :: qhead

datatype thread_state =
    THREAD_STATE_SUSPENDED | THREAD_STATE_WAITING | THREAD_STATE_ZOMBIE
  | THREAD_STATE_DONE | THREAD_STATE_RUNNABLE

record thread_t =
  thread_id :: u32
  count :: int
  state :: thread_state
  deadline :: u32
  status :: u32
  user_stack_size :: u32
  kernel_stack_size :: u32
  vma_kernel_stack :: addr
  vma_user_stack :: addr
  kernel_esp :: u32
  kernel_esp0 :: u32
  esp :: u32
  eip :: u32
  ss :: u32
  ebp :: u32
  eflags :: u32
  parent_task :: addr
  parent :: addr
  wait_list :: qhead
  self_wait_list :: qhead
  child_list :: qhead
  zombie_list :: qhead

section \<open>The state\<close>

text \<open>\<open>task_link\<close>, \<open>taskmap_link\<close>, \<open>tchild_link\<close> are links of regions and tasks, the others of
  threads.  \<open>task_hash\<close> and \<open>thread_hash\<close> are the bucket arrays of the two hash tables.  \<open>umem\<close> is
  the current address space as loads and stores of the kernel see it at user addresses.\<close>

record kstate = pg_state +
  vmas :: "addr \<Rightarrow> vm_area_t option"
  files :: "addr \<Rightarrow> file_t option"
  tasks :: "addr \<Rightarrow> task_t option"
  threads :: "addr \<Rightarrow> thread_t option"
  task_link :: links
  taskmap_link :: links
  tchild_link :: links
  child_link :: links
  runnable_link :: links
  wait_link :: links
  threadmap_link :: links
  task_hash :: "u32 \<Rightarrow> qhead"
  thread_hash :: "u32 \<Rightarrow> qhead"
  sched_runnable_queue :: qhead
  sched_sleep_queue :: qhead
  sched_done_queue :: qhead
  current_thread :: addr
  kernel_booting :: bool
  sched_idle_thread :: addr
  sched_init_thread :: addr
  current_task_id :: u32
  current_thread_id :: u32
  kernel_lock :: bool
  numTicks :: u32
  numSeconds :: u32
  umem :: bytes
  kbd :: keyb_state
  xcons :: xencons
  vga_cons :: vga
  heap :: "addr list"

text \<open>The fields of the ELF header the kernel uses.\<close>

record simple_elf =
  e_entry :: u32
  e_txtoff :: u32
  e_txtlen :: u32
  e_txtstart :: u32
  e_datoff :: u32
  e_datlen :: u32
  e_datstart :: u32
  e_rodatoff :: u32
  e_rodatlen :: u32
  e_rodatstart :: u32
  e_bsslen :: u32

text \<open>What the kernel runs on: the hypervisor, the programs linked in, the assembly routine that
  switches kernel stacks (\<open>do_context_switch old new s\<close> is the state in which \<open>old\<close> next continues,
  \<open>None\<close> if it never does), and the addresses of symbols defined in assembly.\<close>

record kern_env =
  xen :: xen_env
  exec2obj_userapp_TOC :: "toc_entry list"
  do_context_switch :: "addr \<Rightarrow> addr \<Rightarrow> kstate \<Rightarrow> kstate option"
  exit_kernel :: addr
  HYPERVISOR_stack_switch :: "u32 \<Rightarrow> int"

definition kmalloc :: "kstate \<Rightarrow> addr \<times> kstate" where
  "kmalloc s = (case heap s of [] \<Rightarrow> (NULL, s) | p # ps \<Rightarrow> (p, s\<lparr>heap := ps\<rparr>))"

text \<open>Field updates of allocated objects; \<open>None\<close> for an address without an object.\<close>

definition upd_vma :: "addr \<Rightarrow> (vm_area_t \<Rightarrow> vm_area_t) \<Rightarrow> kstate \<Rightarrow> kstate option" where
  "upd_vma p f s = do { v \<leftarrow> vmas s p; Some (s\<lparr>vmas := (vmas s)(p \<mapsto> f v)\<rparr>) }"

definition upd_file :: "addr \<Rightarrow> (file_t \<Rightarrow> file_t) \<Rightarrow> kstate \<Rightarrow> kstate option" where
  "upd_file p f s = do { v \<leftarrow> files s p; Some (s\<lparr>files := (files s)(p \<mapsto> f v)\<rparr>) }"

definition upd_task :: "addr \<Rightarrow> (task_t \<Rightarrow> task_t) \<Rightarrow> kstate \<Rightarrow> kstate option" where
  "upd_task p f s = do { v \<leftarrow> tasks s p; Some (s\<lparr>tasks := (tasks s)(p \<mapsto> f v)\<rparr>) }"

definition upd_thread :: "addr \<Rightarrow> (thread_t \<Rightarrow> thread_t) \<Rightarrow> kstate \<Rightarrow> kstate option" where
  "upd_thread p f s = do { v \<leftarrow> threads s p; Some (s\<lparr>threads := (threads s)(p \<mapsto> f v)\<rparr>) }"

text \<open>A queue macro applied to the list of regions, children, ... of an object.\<close>

definition vma_list_op :: "addr \<Rightarrow> (qhead \<times> links \<Rightarrow> qhead \<times> links) \<Rightarrow> kstate \<Rightarrow> kstate option" where
  "vma_list_op t f s =
     do { T \<leftarrow> tasks s t;
          let (h, l) = f (vm_area_list T, task_link s);
          upd_task t (\<lambda>T. T\<lparr>vm_area_list := h\<rparr>) (s\<lparr>task_link := l\<rparr>) }"

definition tchild_list_op :: "addr \<Rightarrow> (qhead \<times> links \<Rightarrow> qhead \<times> links) \<Rightarrow> kstate \<Rightarrow> kstate option" where
  "tchild_list_op t f s =
     do { T \<leftarrow> tasks s t;
          let (h, l) = f (tchild_list T, tchild_link s);
          upd_task t (\<lambda>T. T\<lparr>tchild_list := h\<rparr>) (s\<lparr>tchild_link := l\<rparr>) }"

definition child_list_op :: "addr \<Rightarrow> (qhead \<times> links \<Rightarrow> qhead \<times> links) \<Rightarrow> kstate \<Rightarrow> kstate option" where
  "child_list_op t f s =
     do { T \<leftarrow> threads s t;
          let (h, l) = f (child_list T, child_link s);
          upd_thread t (\<lambda>T. T\<lparr>child_list := h\<rparr>) (s\<lparr>child_link := l\<rparr>) }"

definition zombie_list_op :: "addr \<Rightarrow> (qhead \<times> links \<Rightarrow> qhead \<times> links) \<Rightarrow> kstate \<Rightarrow> kstate option" where
  "zombie_list_op t f s =
     do { T \<leftarrow> threads s t;
          let (h, l) = f (zombie_list T, child_link s);
          upd_thread t (\<lambda>T. T\<lparr>zombie_list := h\<rparr>) (s\<lparr>child_link := l\<rparr>) }"

definition runnable_op :: "(qhead \<times> links \<Rightarrow> qhead \<times> links) \<Rightarrow> kstate \<Rightarrow> kstate" where
  "runnable_op f s =
     (let (h, l) = f (sched_runnable_queue s, runnable_link s)
      in s\<lparr>sched_runnable_queue := h, runnable_link := l\<rparr>)"

definition done_op :: "(qhead \<times> links \<Rightarrow> qhead \<times> links) \<Rightarrow> kstate \<Rightarrow> kstate" where
  "done_op f s =
     (let (h, l) = f (sched_done_queue s, runnable_link s)
      in s\<lparr>sched_done_queue := h, runnable_link := l\<rparr>)"

section \<open>The state before the kernel starts\<close>

text \<open>All zero, as the C start-up leaves static data, with no memory to allocate.\<close>

definition zero_queue :: qhead where "zero_queue = \<lparr>q_first = NULL, q_last = NULL\<rparr>"
definition zero_links :: links where "zero_links = (\<lambda>_. \<lparr>q_next = NULL, q_prev = NULL\<rparr>)"

definition zero_state :: kstate where
  "zero_state =
     \<lparr>pmem = \<lambda>_. 0, xen_queue = [], mmuext_log = [], lomem_zone = zero_zone, himem_zone = zero_zone,
      kernel_page_dir = NULL, boot_pages = [], xen_shared_info = NULL, xen_store = NULL, num_phys_mem_ppf = 0,
      vmas = \<lambda>_. None, files = \<lambda>_. None, tasks = \<lambda>_. None, threads = \<lambda>_. None,
      task_link = zero_links, taskmap_link = zero_links, tchild_link = zero_links, child_link = zero_links,
      runnable_link = zero_links, wait_link = zero_links, threadmap_link = zero_links,
      task_hash = \<lambda>_. zero_queue, thread_hash = \<lambda>_. zero_queue, sched_runnable_queue = zero_queue,
      sched_sleep_queue = zero_queue, sched_done_queue = zero_queue, current_thread = NULL,
      kernel_booting = False, sched_idle_thread = NULL, sched_init_thread = NULL, current_task_id = 0,
      current_thread_id = 0, kernel_lock = True, numTicks = 0, numSeconds = 0, umem = \<lambda>_. 0,
      kbd = keyb_initial, xcons = empty_xencons, vga_cons = initial_vga, heap = []\<rparr>"

definition zero_task :: task_t where
  "zero_task =
     \<lparr>task_id = 0, tcount = 0, page_dir = NULL, tentry_point = 0, tfile = NULL, vm_area_list = zero_queue,
      task_cs = 0, task_ds = 0, tparent = NULL, tthread = NULL, tchild_list = zero_queue\<rparr>"

definition zero_thread :: thread_t where
  "zero_thread =
     \<lparr>thread_id = 0, count = 0, state = THREAD_STATE_SUSPENDED, deadline = 0, status = 0, user_stack_size = 0,
      kernel_stack_size = 0, vma_kernel_stack = NULL, vma_user_stack = NULL, kernel_esp = 0, kernel_esp0 = 0,
      esp = 0, eip = 0, ss = 0, ebp = 0, eflags = 0, parent_task = NULL, parent = NULL,
      wait_list = zero_queue, self_wait_list = zero_queue, child_list = zero_queue, zombie_list = zero_queue\<rparr>"

definition zero_vma :: vm_area_t where
  "zero_vma =
     \<lparr>start_address = 0, vsize = 0, flags = 0, vtype = VMA_TYPE_ALLOC, vcount = 0, vma_flags = 0, vtask = NULL,
      vsrc = \<lparr>src_ptr = NULL, src_offset = 0\<rparr>, nopage = Nopage_default, pagewrite = Pagewrite_default\<rparr>"

section \<open>Files\<close>

definition MAX_FILENAME_LEN :: nat where "MAX_FILENAME_LEN = 1024"

definition static_getbytes ::
  "kern_env \<Rightarrow> addr \<Rightarrow> u32 \<Rightarrow> u32 \<Rightarrow> addr \<Rightarrow> kstate \<Rightarrow> (int \<times> kstate) option" where
  "static_getbytes E f offset len buf s =
     do { F \<leftarrow> files s f;
          (rc, m) \<leftarrow> getbytes (exec2obj_userapp_TOC E) (fname F) (sint offset) (sint len) (VMM_V2P buf) (pmem s);
          Some (rc, s\<lparr>pmem := m\<rparr>) }"

definition file_alloc :: "kstate \<Rightarrow> (addr \<times> kstate) option" where
  "file_alloc s =
     (let (f, s) = kmalloc s
      in if f = NULL then None
         else Some (f, s\<lparr>files := (files s)(f \<mapsto>
           \<lparr>fname = replicate MAX_FILENAME_LEN 0, foffset = 0, fcount = 0\<rparr>)\<rparr>))"

definition file_get :: "addr \<Rightarrow> kstate \<Rightarrow> kstate option" where
  "file_get f s = upd_file f (\<lambda>F. F\<lparr>fcount := fcount F + 1\<rparr>) s"

definition file_put :: "addr \<Rightarrow> kstate \<Rightarrow> kstate option" where
  "file_put f s =
     do { s \<leftarrow> upd_file f (\<lambda>F. F\<lparr>fcount := fcount F - 1\<rparr>) s;
          F \<leftarrow> files s f;
          if fcount F = 0 then Some (s\<lparr>files := (files s)(f := None)\<rparr>) else Some s }"

definition file_open :: "addr \<Rightarrow> u8 list \<Rightarrow> kstate \<Rightarrow> (int \<times> kstate) option" where
  "file_open f filename s =
     do { s \<leftarrow> upd_file f (\<lambda>F. F\<lparr>foffset := 0, fname := strncpy_b (cstr filename) MAX_FILENAME_LEN\<rparr>) s;
          Some (0, s) }"

section \<open>Reference counts of tasks\<close>

definition task_get :: "addr \<Rightarrow> kstate \<Rightarrow> kstate option" where
  "task_get t s = upd_task t (\<lambda>T. T\<lparr>tcount := tcount T + 1\<rparr>) s"

text \<open>\<open>task_put\<close> and \<open>task_free\<close> call each other: freeing a task drops its reference to the parent
  task.  The body of \<open>task_free\<close> is written out in \<open>task_put\<close>; \<open>task_put_rec\<close> states the recursion
  of the source.\<close>

partial_function (option) task_put :: "kern_env \<Rightarrow> addr \<Rightarrow> kstate \<Rightarrow> kstate option" where
  "task_put E t s =
     Option.bind (upd_task t (\<lambda>T. T\<lparr>tcount := tcount T - 1\<rparr>) s) (\<lambda>s.
     Option.bind (tasks s t) (\<lambda>T.
       if tcount T < 0 then None
       else if tcount T = 0 then
         Option.bind (if tfile T \<noteq> NULL then file_put (tfile T) s else Some s) (\<lambda>s.
         Option.bind (if page_dir T \<noteq> NULL then vmm_free_pgdir (xen E) (page_dir T) s else Some s) (\<lambda>s.
         Option.bind (if tparent T \<noteq> NULL then task_put E (tparent T) s else Some s) (\<lambda>s.
           Some (s\<lparr>tasks := (tasks s)(t := None)\<rparr>))))
       else Some s))"

definition task_free :: "kern_env \<Rightarrow> addr \<Rightarrow> kstate \<Rightarrow> kstate option" where
  "task_free E t s =
     do { T \<leftarrow> tasks s t;
          s \<leftarrow> (if tfile T \<noteq> NULL then file_put (tfile T) s else Some s);
          s \<leftarrow> (if page_dir T \<noteq> NULL then vmm_free_pgdir (xen E) (page_dir T) s else Some s);
          s \<leftarrow> (if tparent T \<noteq> NULL then task_put E (tparent T) s else Some s);
          Some (s\<lparr>tasks := (tasks s)(t := None)\<rparr>) }"

lemma task_put_rec:
  "task_put E t s =
     do { s \<leftarrow> upd_task t (\<lambda>T. T\<lparr>tcount := tcount T - 1\<rparr>) s;
          T \<leftarrow> tasks s t;
          if tcount T < 0 then None else if tcount T = 0 then task_free E t s else Some s }"
  by (subst task_put.simps)
     (auto simp: task_free_def upd_task_def intro!: arg_cong2[where f = Option.bind]
       split: Option.bind_splits)

end
