(* ===== verification/Vm_Area.thy ===== *)
theory Vm_Area
  imports Kernel_State
begin

text \<open>
  Regions of a task's address space, \<^verbatim>\<open>kern/vm_area.c\<close>: their page mappings, the handlers a page
  fault runs on them, their creation and destruction with the reference counts, and the
  list of regions of a task, which is kept sorted by address.
\<close>

section \<open>Mapping the pages of a region\<close>

text \<open>The number of pages from the page of \<open>start\<close> to the page of the last byte.\<close>

definition num_pages :: "addr \<Rightarrow> u32 \<Rightarrow> nat" where
  "num_pages start len =
     unat (drop_bit 12 (((start + len - 1) AND PAGE_MASK) - (start AND PAGE_MASK))) + 1"

definition vm_area_create_identity :: "kern_env \<Rightarrow> addr \<Rightarrow> kstate \<Rightarrow> (int \<times> kstate) option" where
  "vm_area_create_identity E vma s =
     do { v \<leftarrow> vmas s vma;
          T \<leftarrow> tasks s (vtask v);
          let start_vpf = start_address v AND PAGE_MASK;
          let start_ppf = src_ptr (vsrc v) AND PAGE_MASK;
          (rc, s) \<leftarrow> c_for [0..<num_pages (start_address v) (vsize v)]
            (\<lambda>i. vmm_map_page (xen E) (page_dir T) (page_at start_vpf i) (page_at start_ppf i) (flags v)) s;
          if rc < 0 then Some (-1, s)
          else do { s \<leftarrow> vmm_flush_mmu_update_queue (xen E) s; Some (0, s) } }"

text \<open>The loop of \<open>vm_area_copy_pagemap\<close>; \<open>dst_flags\<close> accumulates over the pages.\<close>

definition copy_pagemap_page ::
  "kern_env \<Rightarrow> addr \<Rightarrow> addr \<Rightarrow> addr \<Rightarrow> u32 \<Rightarrow> nat \<Rightarrow> u32 \<times> kstate \<Rightarrow> (int \<times> u32 \<times> kstate) option" where
  "copy_pagemap_page E dst_pd src_pd start_vpf src_mask i st =
     (let (dst_flags, s) = st;
          vpf = page_at start_vpf i;
          mapping = vmm_get_mapping (xen E) src_pd vpf s;
          ppf = mapping AND PAGE_MASK;
          dst_flags = dst_flags OR (mapping AND PG_FLAG_PRESENT)
      in do {
        (rc, s) \<leftarrow> vmm_map_page (xen E) dst_pd vpf ppf dst_flags s;
        if rc < 0 then Some (-1, dst_flags, s)
        else do {
          let orig_flags = mapping AND NOT PAGE_MASK;
          (rc, s) \<leftarrow> vmm_map_page (xen E) src_pd vpf ppf (orig_flags AND src_mask) s;
          if rc < 0 then Some (0, dst_flags, s) else None
        }
      })"

definition vm_area_copy_pagemap ::
  "kern_env \<Rightarrow> addr \<Rightarrow> u32 \<Rightarrow> u32 \<Rightarrow> kstate \<Rightarrow> (int \<times> kstate) option" where
  "vm_area_copy_pagemap E dst_vma dst_flags src_mask s =
     do { d \<leftarrow> vmas s dst_vma;
          v \<leftarrow> vmas s (src_ptr (vsrc d));
          dst_task \<leftarrow> tasks s (vtask d);
          src_task \<leftarrow> tasks s (vtask v);
          let start_vpf = start_address v AND PAGE_MASK;
          (rc, dst_flags, s) \<leftarrow> c_for [0..<num_pages (start_address v) (vsize v)]
            (copy_pagemap_page E (page_dir dst_task) (page_dir src_task) start_vpf src_mask) (dst_flags, s);
          if rc < 0 then Some (-1, s)
          else do { s \<leftarrow> vmm_flush_mmu_update_queue (xen E) s; Some (0, s) } }"

definition vm_area_copy_pagemap_single ::
  "kern_env \<Rightarrow> addr \<Rightarrow> addr \<Rightarrow> u32 \<Rightarrow> u32 \<Rightarrow> kstate \<Rightarrow> kstate option" where
  "vm_area_copy_pagemap_single E vma_dst vaddr dst_flags src_mask s =
     do { d \<leftarrow> vmas s vma_dst;
          v \<leftarrow> vmas s (src_ptr (vsrc d));
          dst_task \<leftarrow> tasks s (vtask d);
          src_task \<leftarrow> tasks s (vtask v);
          let vpf = vaddr AND PAGE_MASK;
          let mapping = vmm_get_mapping (xen E) (page_dir src_task) vpf s;
          let ppf = mapping AND PAGE_MASK;
          (rc, s) \<leftarrow> vmm_map_page (xen E) (page_dir dst_task) vpf ppf dst_flags s;
          let orig_flags = mapping AND NOT PAGE_MASK;
          (rc, s) \<leftarrow> vmm_map_page (xen E) (page_dir src_task) vpf ppf (orig_flags AND src_mask) s;
          vmm_flush_mmu_update_queue (xen E) s }"

text \<open>One page of \<open>vm_area_copy\<close>.  The frame is not checked: when \<open>vmm_ppf_alloc\<close> fails, the
  copy goes to \<open>NULL\<close>, which is \<open>None\<close>.\<close>

definition vm_area_copy_page ::
  "kern_env \<Rightarrow> addr \<Rightarrow> addr \<Rightarrow> addr \<Rightarrow> nat \<Rightarrow> kstate \<Rightarrow> (int \<times> kstate) option" where
  "vm_area_copy_page E dst_pd src_pd start_vpf i s =
     (let dst_vpf = page_at start_vpf i;
          mapping = vmm_get_mapping (xen E) src_pd dst_vpf s
      in if mapping AND PAGE_MASK = 0 then
           do { (rc, s) \<leftarrow> vmm_map_page (xen E) dst_pd dst_vpf NULL (mapping AND NOT PAGE_MASK) s;
                if rc < 0 then Some (-1, s) else Some (0, s) }
         else
           let (dst_ppf, s) = vmm_ppf_alloc s;
               src_ppf = VMM_P2V (mapping AND PAGE_MASK)
           in do {
             (rc, s) \<leftarrow> vmm_map_page (xen E) dst_pd dst_vpf dst_ppf (mapping AND NOT PAGE_MASK) s;
             if rc < 0 then Some (-1, s)
             else if dst_ppf = NULL then None
             else Some (0, kmemcpy dst_ppf src_ppf PAGE_SIZE s)
           })"

definition vm_area_copy :: "kern_env \<Rightarrow> addr \<Rightarrow> addr \<Rightarrow> u32 \<Rightarrow> kstate \<Rightarrow> (int \<times> kstate) option" where
  "vm_area_copy E dst_vma dst_start sz s =
     do { d \<leftarrow> vmas s dst_vma;
          v \<leftarrow> vmas s (src_ptr (vsrc d));
          dst_task \<leftarrow> tasks s (vtask d);
          src_task \<leftarrow> tasks s (vtask v);
          (rc, s) \<leftarrow> c_for [0..<num_pages dst_start sz]
            (vm_area_copy_page E (page_dir dst_task) (page_dir src_task) (dst_start AND PAGE_MASK)) s;
          if rc < 0 then Some (-1, s)
          else do { s \<leftarrow> vmm_flush_mmu_update_queue (xen E) s; Some (0, s) } }"

definition vm_area_unmap_page ::
  "kern_env \<Rightarrow> vm_area_t \<Rightarrow> addr \<Rightarrow> addr \<Rightarrow> nat \<Rightarrow> kstate \<Rightarrow> kstate option" where
  "vm_area_unmap_page E v pd start_vpf i s =
     (let vpf = page_at start_vpf i;
          mapping = vmm_get_mapping (xen E) pd vpf s;
          page = mapping AND PAGE_MASK
      in if page \<noteq> NULL \<and> vtype v \<noteq> VMA_TYPE_KERNEL_STACK then
           do { (rc, s) \<leftarrow> vmm_map_page (xen E) pd vpf NULL 0 s;
                if rc \<noteq> 0 then None
                else do {
                  s \<leftarrow> vmm_flush_mmu_update_queue (xen E) s;
                  vmm_ppf_free (VMM_P2V page) s } }
         else Some s)"

definition vm_area_unmap :: "kern_env \<Rightarrow> addr \<Rightarrow> kstate \<Rightarrow> kstate option" where
  "vm_area_unmap E vma s =
     do { v \<leftarrow> vmas s vma;
          T \<leftarrow> tasks s (vtask v);
          c_each [0..<num_pages (start_address v) (vsize v)]
            (vm_area_unmap_page E v (page_dir T) (start_address v AND PAGE_MASK)) s }"

definition vm_area_create_null :: "kern_env \<Rightarrow> addr \<Rightarrow> kstate \<Rightarrow> (int \<times> kstate) option" where
  "vm_area_create_null E vma s =
     do { v \<leftarrow> vmas s vma;
          T \<leftarrow> tasks s (vtask v);
          let start_vpf = start_address v AND PAGE_MASK;
          (rc, s) \<leftarrow> c_for [0..<num_pages (start_address v) (vsize v)]
            (\<lambda>i. vmm_map_page (xen E) (page_dir T) (page_at start_vpf i) NULL PG_FLAG_USR) s;
          if rc < 0 then Some (-1, s)
          else do { s \<leftarrow> vmm_flush_mmu_update_queue (xen E) s; Some (0, s) } }"

definition vm_area_setflags :: "kern_env \<Rightarrow> addr \<Rightarrow> addr \<Rightarrow> u32 \<Rightarrow> kstate \<Rightarrow> (int \<times> kstate) option" where
  "vm_area_setflags E vma start sz s =
     do { v \<leftarrow> vmas s vma;
          T \<leftarrow> tasks s (vtask v);
          let start_vpf = start AND PAGE_MASK;
          (rc, s) \<leftarrow> c_for [0..<num_pages start sz]
            (\<lambda>i s. let vpf = page_at start_vpf i;
                       ppf = vmm_get_mapping (xen E) (page_dir T) vpf s AND PAGE_MASK
                   in vmm_map_page (xen E) (page_dir T) vpf ppf (flags v) s) s;
          if rc < 0 then Some (-1, s)
          else do { s \<leftarrow> vmm_flush_mmu_update_queue (xen E) s; Some (0, s) } }"

definition vm_area_create_page ::
  "kern_env \<Rightarrow> vm_area_t \<Rightarrow> addr \<Rightarrow> addr \<Rightarrow> nat \<Rightarrow> kstate \<Rightarrow> (int \<times> kstate) option" where
  "vm_area_create_page E v pd start_vpf i s =
     (let vpf = page_at start_vpf i;
          mapping = vmm_get_mapping (xen E) pd vpf s
      in if mapping AND PAGE_MASK = 0 then
           let (ppf, s) = vmm_ppf_alloc s
           in if ppf = NULL then Some (-1, s)
              else do { (rc, s) \<leftarrow> vmm_map_page (xen E) pd vpf ppf (flags v) s; Some (0, s) }
         else do { (rc, s) \<leftarrow> vmm_map_page (xen E) pd vpf (mapping AND PAGE_MASK) (flags v) s; Some (0, s) })"

definition vm_area_create :: "kern_env \<Rightarrow> addr \<Rightarrow> addr \<Rightarrow> u32 \<Rightarrow> kstate \<Rightarrow> (int \<times> kstate) option" where
  "vm_area_create E vma start sz s =
     do { v \<leftarrow> vmas s vma;
          T \<leftarrow> tasks s (vtask v);
          (rc, s) \<leftarrow> c_for [0..<num_pages start sz]
            (vm_area_create_page E v (page_dir T) (start AND PAGE_MASK)) s;
          if rc < 0 then Some (-1, s)
          else do { s \<leftarrow> vmm_flush_mmu_update_queue (xen E) s; Some (0, s) } }"

text \<open>\<open>vm_area_zero\<close> never adds to \<open>total_bytes_zeroed\<close>, so every page but the first asks for the
  whole length again.\<close>

definition vm_area_zero_page ::
  "kern_env \<Rightarrow> addr \<Rightarrow> addr \<Rightarrow> u32 \<Rightarrow> nat \<Rightarrow> u32 \<times> kstate \<Rightarrow> (int \<times> u32 \<times> kstate) option" where
  "vm_area_zero_page E pd start_vpf len i st =
     (let (pg_offset, s) = st;
          total_bytes_zeroed = 0;
          bytes_to_zero = len - total_bytes_zeroed;
          vpf = page_at start_vpf i;
          ppf = vmm_get_mapping (xen E) pd vpf s AND PAGE_MASK
      in if ppf \<noteq> NULL then
           let ppf = VMM_P2V ppf;
               bytes_to_zero = (if pg_offset + bytes_to_zero > PAGE_SIZE then PAGE_SIZE - pg_offset else bytes_to_zero)
           in Some (0, 0, kmemset (ppf + pg_offset) 0 bytes_to_zero s)
         else Some (0, 0, s))"

definition vm_area_zero :: "kern_env \<Rightarrow> addr \<Rightarrow> addr \<Rightarrow> u32 \<Rightarrow> kstate \<Rightarrow> (int \<times> kstate) option" where
  "vm_area_zero E vma a len s =
     do { v \<leftarrow> vmas s vma;
          if start_address v > a \<or> start_address v + vsize v < a + len then Some (-1, s)
          else do {
            T \<leftarrow> tasks s (vtask v);
            (rc, off, s) \<leftarrow> c_for [0..<num_pages a len]
              (vm_area_zero_page E (page_dir T) (a AND PAGE_MASK) len) (a AND PAGE_DIV, s);
            s \<leftarrow> vmm_flush_mmu_update_queue (xen E) s;
            Some (0, s) } }"

text \<open>The loop state of \<open>vm_area_load\<close> is \<open>load_offset\<close>, \<open>total_bytes_read\<close> and the state; a
  short read ends it with -1, an error of the file with its code.\<close>

definition vm_area_load_page ::
  "kern_env \<Rightarrow> vm_area_t \<Rightarrow> addr \<Rightarrow> addr \<Rightarrow> u32 \<Rightarrow> u32 \<Rightarrow> nat \<Rightarrow> u32 \<times> u32 \<times> kstate
     \<Rightarrow> (int \<times> u32 \<times> u32 \<times> kstate) option" where
  "vm_area_load_page E v pd start_vpf foff len i st =
     (let (load_offset, total_bytes_read, s) = st;
          bytes_to_read = len - total_bytes_read;
          vpf = page_at start_vpf i;
          ppf = VMM_P2V (vmm_get_mapping (xen E) pd vpf s AND PAGE_MASK);
          bytes_to_read = (if load_offset + bytes_to_read > PAGE_SIZE then PAGE_SIZE - load_offset else bytes_to_read);
          s = kmemset (ppf + load_offset) 0 bytes_to_read s
      in do {
        (bytes_read, s) \<leftarrow> static_getbytes E (src_ptr (vsrc v)) (foff + total_bytes_read) bytes_to_read
          (ppf + load_offset) s;
        if bytes_read < 0 then Some (bytes_read, load_offset, total_bytes_read, s)
        else if bytes_read = 0 \<or> bytes_read \<noteq> sint bytes_to_read
        then Some (-1, load_offset, total_bytes_read, s)
        else do {
          (rc, s) \<leftarrow> vmm_map_page (xen E) pd vpf ppf (flags v OR PG_FLAG_PRESENT) s;
          Some (0, 0, total_bytes_read + of_int bytes_read, s) }
      })"

definition vm_area_load :: "kern_env \<Rightarrow> addr \<Rightarrow> addr \<Rightarrow> u32 \<Rightarrow> kstate \<Rightarrow> (int \<times> kstate) option" where
  "vm_area_load E vma load_addr len s =
     do { v \<leftarrow> vmas s vma;
          if start_address v > load_addr \<or> start_address v + vsize v < load_addr + len \<or>
             vtype v \<noteq> VMA_TYPE_FILE \<or> src_ptr (vsrc v) = NULL
          then Some (-1, s)
          else do {
            let foff = src_offset (vsrc v) + (load_addr - start_address v);
            T \<leftarrow> tasks s (vtask v);
            (rc, off, total, s) \<leftarrow> c_for [0..<num_pages load_addr len]
              (vm_area_load_page E v (page_dir T) (load_addr AND PAGE_MASK) foff len)
              (load_addr AND PAGE_DIV, 0, s);
            if rc < 0 then Some (rc, s)
            else do { s \<leftarrow> vmm_flush_mmu_update_queue (xen E) s; Some (sint total, s) } } }"

section \<open>Page fault handlers\<close>

definition vma_nopage_alloc :: "kern_env \<Rightarrow> addr \<Rightarrow> addr \<Rightarrow> kstate \<Rightarrow> (int \<times> kstate) option" where
  "vma_nopage_alloc E vma vaddr s =
     do { (rc, s) \<leftarrow> vm_area_create E vma (vaddr AND PAGE_MASK) PAGE_SIZE s; Some (0, s) }"

text \<open>The part of the page of \<open>vaddr\<close> that lies in the region: where it starts and its length.\<close>

definition page_window :: "vm_area_t \<Rightarrow> addr \<Rightarrow> addr \<times> u32" where
  "page_window v vaddr =
     (let vpf = vaddr AND PAGE_MASK;
          vaddr = (if start_address v \<ge> vpf then start_address v else vpf);
          page_offset = vaddr - vpf;
          len = PAGE_SIZE - page_offset;
          vma_end_address = start_address v + vsize v - 1;
          page_end_address = vpf OR NOT PAGE_MASK;
          len = (if vma_end_address < page_end_address
                 then len - (page_end_address - vma_end_address) else len)
      in (vaddr, len))"

definition vma_nopage_zeropage :: "kern_env \<Rightarrow> addr \<Rightarrow> addr \<Rightarrow> kstate \<Rightarrow> (int \<times> kstate) option" where
  "vma_nopage_zeropage E vma vaddr s =
     do { v \<leftarrow> vmas s vma;
          let vpf = vaddr AND PAGE_MASK;
          let (vaddr, len) = page_window v vaddr;
          (rc, s) \<leftarrow> vm_area_create E vma vpf PAGE_SIZE s;
          if rc < 0 then Some (-1, s)
          else do { (rc, s) \<leftarrow> vm_area_zero E vma vaddr len s; Some (0, s) } }"

definition vma_nopage_file :: "kern_env \<Rightarrow> addr \<Rightarrow> addr \<Rightarrow> kstate \<Rightarrow> (int \<times> kstate) option" where
  "vma_nopage_file E vma vaddr s =
     do { v \<leftarrow> vmas s vma;
          let vpf = vaddr AND PAGE_MASK;
          let (vaddr, len) = page_window v vaddr;
          (rc, s) \<leftarrow> vm_area_create E vma vpf PAGE_SIZE s;
          if rc < 0 then Some (rc, s)
          else do {
            (rc, s) \<leftarrow> vm_area_load E vma vaddr len s;
            s \<leftarrow> vmm_flush_mmu_update_queue (xen E) s;
            Some (rc, s) } }"

text \<open>The call through \<open>vma->nopage\<close>.  The handler of a copied region calls the handler of its
  source region, on the copy; a cycle of such regions would not return.\<close>

partial_function (option) call_nopage ::
  "kern_env \<Rightarrow> nopage_fn \<Rightarrow> addr \<Rightarrow> addr \<Rightarrow> kstate \<Rightarrow> (int \<times> kstate) option" where
  "call_nopage E fn vma vaddr s =
     (if fn = Nopage_alloc then vma_nopage_alloc E vma vaddr s
      else if fn = Nopage_zeropage then vma_nopage_zeropage E vma vaddr s
      else if fn = Nopage_file then vma_nopage_file E vma vaddr s
      else if fn = Nopage_copy then
        Option.bind (vmas s vma) (\<lambda>v. Option.bind (vmas s (src_ptr (vsrc v))) (\<lambda>src.
          call_nopage E (nopage src) vma vaddr s))
      else None)"

definition vma_nopage_copy :: "kern_env \<Rightarrow> addr \<Rightarrow> addr \<Rightarrow> kstate \<Rightarrow> (int \<times> kstate) option" where
  "vma_nopage_copy E vma vaddr s =
     do { v \<leftarrow> vmas s vma;
          src \<leftarrow> vmas s (src_ptr (vsrc v));
          call_nopage E (nopage src) vma vaddr s }"

definition vm_area_copy_on_write_page ::
  "kern_env \<Rightarrow> addr \<Rightarrow> vm_area_t \<Rightarrow> addr \<Rightarrow> addr \<Rightarrow> nat \<Rightarrow> kstate \<Rightarrow> (int \<times> kstate) option" where
  "vm_area_copy_on_write_page E vma v pd start_vpf i s =
     (let dst_vpf = page_at start_vpf i;
          mapping = vmm_get_mapping (xen E) pd dst_vpf s
      in if mapping AND PAGE_MASK = 0 then
           do { src \<leftarrow> vmas s (src_ptr (vsrc v));
                (rc, s) \<leftarrow> call_nopage E (nopage src) vma dst_vpf s;
                if rc < 0 then None
                else if vmm_get_mapping (xen E) pd dst_vpf s AND PAGE_MASK = 0 then None
                else Some (0, s) }
         else
           let (dst_ppf, s) = vmm_ppf_alloc s
           in if dst_ppf = NULL then Some (-1, s)
              else
                let src_ppf = VMM_P2V (mapping AND PAGE_MASK)
                in do {
                  (rc, s) \<leftarrow> vmm_map_page (xen E) pd dst_vpf dst_ppf (flags v) s;
                  if rc < 0 then do { s \<leftarrow> vmm_ppf_free dst_ppf s; Some (-1, s) }
                  else Some (0, kmemcpy dst_ppf src_ppf PAGE_SIZE s)
                })"

definition vm_area_copy_on_write ::
  "kern_env \<Rightarrow> addr \<Rightarrow> addr \<Rightarrow> u32 \<Rightarrow> kstate \<Rightarrow> (int \<times> kstate) option" where
  "vm_area_copy_on_write E vma dst_start sz s =
     do { v \<leftarrow> vmas s vma;
          T \<leftarrow> tasks s (vtask v);
          (rc, s) \<leftarrow> c_for [0..<num_pages dst_start sz]
            (vm_area_copy_on_write_page E vma v (page_dir T) (dst_start AND PAGE_MASK)) s;
          if rc < 0 then Some (-1, s)
          else do { s \<leftarrow> vmm_flush_mmu_update_queue (xen E) s; Some (0, s) } }"

definition vma_pagewrite_write :: "kern_env \<Rightarrow> addr \<Rightarrow> addr \<Rightarrow> kstate \<Rightarrow> (int \<times> kstate) option" where
  "vma_pagewrite_write E vma vaddr s =
     do { v \<leftarrow> vmas s vma;
          if flags v AND PG_FLAG_WR \<noteq> 0 then
            do { (rc, s) \<leftarrow> vm_area_setflags E vma vaddr 1 s;
                 if rc < 0 then Some (-1, s) else Some (0, s) }
          else Some (-1, s) }"

definition vma_pagewrite_default :: "addr \<Rightarrow> addr \<Rightarrow> kstate \<Rightarrow> (int \<times> kstate) option" where
  "vma_pagewrite_default vma vaddr s = Some (-1, s)"

definition vma_pagewrite_cow :: "kern_env \<Rightarrow> addr \<Rightarrow> addr \<Rightarrow> kstate \<Rightarrow> (int \<times> kstate) option" where
  "vma_pagewrite_cow E vma vaddr s =
     do { (rc, s) \<leftarrow> vm_area_copy_on_write E vma (vaddr AND PAGE_MASK) PAGE_SIZE s;
          if rc < 0 then Some (-1, s) else Some (0, s) }"

definition call_pagewrite ::
  "kern_env \<Rightarrow> pagewrite_fn \<Rightarrow> addr \<Rightarrow> addr \<Rightarrow> kstate \<Rightarrow> (int \<times> kstate) option" where
  "call_pagewrite E fn vma vaddr s =
     (case fn of
        Pagewrite_write \<Rightarrow> vma_pagewrite_write E vma vaddr s
      | Pagewrite_default \<Rightarrow> vma_pagewrite_default vma vaddr s
      | Pagewrite_cow \<Rightarrow> vma_pagewrite_cow E vma vaddr s)"

end
