(* ===== verification/Vma_Lifecycle.thy ===== *)
theory Vma_Lifecycle
  imports Vm_Area
begin

text \<open>
  The second half of \<^verbatim>\<open>kern/vm_area.c\<close>: creating regions of each type, their reference counts
  and destruction, and the sorted list of a task's regions with its searches.
\<close>

section \<open>The list of regions\<close>

definition vm_area_get :: "addr \<Rightarrow> kstate \<Rightarrow> kstate option" where
  "vm_area_get vma s = upd_vma vma (\<lambda>v. v\<lparr>vcount := vcount v + 1\<rparr>) s"

text \<open>A \<open>vma_list\<close> is named by the task whose \<open>vm_area_list\<close> it is.\<close>

definition vm_area_add :: "addr \<Rightarrow> addr \<Rightarrow> kstate \<Rightarrow> kstate option" where
  "vm_area_add vma_list vma s =
     do { s \<leftarrow> vm_area_get vma s;
          v \<leftarrow> vmas s vma;
          T \<leftarrow> tasks s vma_list;
          curpos \<leftarrow> Q_FIND (\<lambda>p. do { c \<leftarrow> vmas s p; Some (start_address c > start_address v) })
                     (vm_area_list T, task_link s);
          if curpos \<noteq> NULL then vma_list_op vma_list (Q_INSERT_BEFORE curpos vma) s
          else vma_list_op vma_list (Q_INSERT_TAIL vma) s }"

definition vm_area_replace :: "addr \<Rightarrow> addr \<Rightarrow> addr \<Rightarrow> kstate \<Rightarrow> kstate option" where
  "vm_area_replace vma_list inq_vma new_vma s =
     do { s \<leftarrow> vma_list_op vma_list (Q_INSERT_BEFORE inq_vma new_vma) s;
          vma_list_op vma_list (Q_REMOVE inq_vma) s }"

definition overlaps_at :: "addr \<Rightarrow> u32 \<Rightarrow> vm_area_t \<Rightarrow> bool" where
  "overlaps_at vaddr sz v =
     (let start_addr = start_address v;
          end_addr = start_address v + vsize v - 1
      in vaddr = start_addr \<or> vaddr = end_addr \<or>
         (vaddr < start_addr \<and> vaddr + sz - 1 \<ge> start_addr) \<or>
         (vaddr > start_addr \<and> vaddr < end_addr))"

definition find_vm_area_overlap :: "addr \<Rightarrow> addr \<Rightarrow> u32 \<Rightarrow> kstate \<Rightarrow> addr option" where
  "find_vm_area_overlap vma_list vaddr sz s =
     do { T \<leftarrow> tasks s vma_list;
          Q_FIND (\<lambda>p. do { v \<leftarrow> vmas s p; Some (overlaps_at vaddr sz v) }) (vm_area_list T, task_link s) }"

definition covers_page :: "addr \<Rightarrow> vm_area_t \<Rightarrow> bool" where
  "covers_page vaddr v =
     (let start_vpf = start_address v AND PAGE_MASK;
          end_vpf = (start_address v + vsize v - 1) AND PAGE_MASK;
          vpf = vaddr AND PAGE_MASK
      in vpf \<ge> start_vpf \<and> vpf \<le> end_vpf)"

definition find_vm_area :: "addr \<Rightarrow> addr \<Rightarrow> kstate \<Rightarrow> addr option" where
  "find_vm_area vma_list vaddr s =
     do { T \<leftarrow> tasks s vma_list;
          Q_FIND (\<lambda>p. do { v \<leftarrow> vmas s p; Some (covers_page vaddr v) }) (vm_area_list T, task_link s) }"

section \<open>Destruction\<close>

definition vm_area_free_resources :: "kern_env \<Rightarrow> addr \<Rightarrow> kstate \<Rightarrow> kstate option" where
  "vm_area_free_resources E vma s =
     do { v \<leftarrow> vmas s vma;
          s \<leftarrow> (if vtype v = VMA_TYPE_FILE then
                  do { s \<leftarrow> file_put (src_ptr (vsrc v)) s;
                       upd_vma vma (\<lambda>v. v\<lparr>vsrc := \<lparr>src_ptr = NULL, src_offset = 0\<rparr>\<rparr>) s }
                else Some s);
          s \<leftarrow> vm_area_unmap E vma s;
          if vtype v = VMA_TYPE_KERNEL_STACK then
            vmm_ppfs_free (start_address v) (drop_bit 12 (vsize v - 1) + 1) s
          else Some s }"

definition vm_area_free :: "kern_env \<Rightarrow> addr \<Rightarrow> kstate \<Rightarrow> kstate option" where
  "vm_area_free E vma s =
     do { v \<leftarrow> vmas s vma;
          s \<leftarrow> (if vtype v \<noteq> VMA_TYPE_DIRECT then vm_area_free_resources E vma s else Some s);
          s \<leftarrow> task_put E (vtask v) s;
          Some (s\<lparr>vmas := (vmas s)(vma := None)\<rparr>) }"

definition vm_area_put :: "kern_env \<Rightarrow> addr \<Rightarrow> kstate \<Rightarrow> kstate option" where
  "vm_area_put E vma s =
     do { s \<leftarrow> upd_vma vma (\<lambda>v. v\<lparr>vcount := vcount v - 1\<rparr>) s;
          v \<leftarrow> vmas s vma;
          if vcount v < 0 then None
          else if vcount v = 0 then vm_area_free E vma s else Some s }"

definition vm_area_remove :: "kern_env \<Rightarrow> addr \<Rightarrow> addr \<Rightarrow> kstate \<Rightarrow> kstate option" where
  "vm_area_remove E vma_list vma s =
     do { s \<leftarrow> vma_list_op vma_list (Q_REMOVE vma) s;
          vm_area_put E vma s }"

text \<open>The loops over a list that remove elements on the way: the successor is read first.\<close>

partial_function (option) remove_vmas ::
  "kern_env \<Rightarrow> (vm_area_t \<Rightarrow> bool) \<Rightarrow> addr \<Rightarrow> addr \<Rightarrow> kstate \<Rightarrow> kstate option" where
  "remove_vmas E P vma_list curpos s =
     (if curpos = NULL then Some s
      else let nextpos = Q_GET_NEXT curpos (task_link s)
           in Option.bind (vmas s curpos) (\<lambda>v.
                if P v then Option.bind (vm_area_remove E vma_list curpos s) (\<lambda>s. remove_vmas E P vma_list nextpos s)
                else remove_vmas E P vma_list nextpos s))"

definition vm_area_remove_taskvm :: "kern_env \<Rightarrow> addr \<Rightarrow> kstate \<Rightarrow> kstate option" where
  "vm_area_remove_taskvm E vma_list s =
     do { T \<leftarrow> tasks s vma_list;
          remove_vmas E (\<lambda>v. vtype v \<noteq> VMA_TYPE_KERNEL_STACK \<and> vtype v \<noteq> VMA_TYPE_DIRECT \<and>
              vma_flags v AND VMA_FLAG_STACK = 0) vma_list (q_first (vm_area_list T)) s }"

definition vm_area_remove_all :: "kern_env \<Rightarrow> addr \<Rightarrow> kstate \<Rightarrow> kstate option" where
  "vm_area_remove_all E vma_list s =
     do { T \<leftarrow> tasks s vma_list;
          remove_vmas E (\<lambda>v. True) vma_list (q_first (vm_area_list T)) s }"

section \<open>Creation\<close>

definition vm_area_init ::
  "addr \<Rightarrow> addr \<Rightarrow> addr \<Rightarrow> u32 \<Rightarrow> u32 \<Rightarrow> vma_type \<Rightarrow> u32 \<Rightarrow> kstate \<Rightarrow> kstate option" where
  "vm_area_init vma task start sz fl ty vfl s =
     do { s \<leftarrow> task_get task s;
          Some (s\<lparr>task_link := Q_INIT_ELEM vma (task_link s), vmas := (vmas s)(vma \<mapsto>
            \<lparr>start_address = start, vsize = sz, flags = fl, vtype = ty, vcount = 0, vma_flags = vfl,
             vtask = task, vsrc = \<lparr>src_ptr = NULL, src_offset = 0\<rparr>, nopage = Nopage_default,
             pagewrite = (if fl AND PG_FLAG_WR \<noteq> 0 \<and> fl AND PG_FLAG_USR \<noteq> 0
                          then Pagewrite_write else Pagewrite_default)\<rparr>)\<rparr>) }"

definition vm_area_init_kernel_stack :: "kern_env \<Rightarrow> addr \<Rightarrow> kstate \<Rightarrow> (int \<times> kstate) option" where
  "vm_area_init_kernel_stack E vma s =
     do { v \<leftarrow> vmas s vma;
          let npages = drop_bit 12 (vsize v - 1) + 1;
          s \<leftarrow> upd_vma vma (\<lambda>v. v\<lparr>nopage := Nopage_default\<rparr>) s;
          let (kernel_stack, s) = vmm_ppfs_highmem_alloc npages s;
          if kernel_stack = NULL then Some (-1, s)
          else do {
            s \<leftarrow> upd_vma vma (\<lambda>v. v\<lparr>start_address := kernel_stack,
                   vsrc := (vsrc v)\<lparr>src_ptr := kernel_stack\<rparr>\<rparr>) s;
            (rc, s) \<leftarrow> vm_area_create_identity E vma s;
            if rc < 0 then
              do { s \<leftarrow> vm_area_unmap E vma s;
                   s \<leftarrow> vmm_ppfs_highmem_free kernel_stack npages s;
                   Some (-1, s) }
            else Some (0, s) } }"

definition vm_area_init_direct :: "kern_env \<Rightarrow> addr \<Rightarrow> vm_area_src \<Rightarrow> kstate \<Rightarrow> (int \<times> kstate) option" where
  "vm_area_init_direct E vma src s =
     do { s \<leftarrow> upd_vma vma (\<lambda>v. v\<lparr>vsrc := (vsrc v)\<lparr>src_ptr := src_ptr src\<rparr>, nopage := Nopage_default\<rparr>) s;
          vm_area_create_identity E vma s }"

definition vm_area_init_alloc :: "kern_env \<Rightarrow> addr \<Rightarrow> kstate \<Rightarrow> (int \<times> kstate) option" where
  "vm_area_init_alloc E vma s =
     do { s \<leftarrow> upd_vma vma (\<lambda>v. v\<lparr>nopage := Nopage_alloc\<rparr>) s;
          (rc, s) \<leftarrow> vm_area_create_null E vma s;
          if rc < 0 then do { s \<leftarrow> vm_area_unmap E vma s; Some (-1, s) } else Some (0, s) }"

definition vm_area_init_zeropage :: "kern_env \<Rightarrow> addr \<Rightarrow> kstate \<Rightarrow> (int \<times> kstate) option" where
  "vm_area_init_zeropage E vma s =
     do { s \<leftarrow> upd_vma vma (\<lambda>v. v\<lparr>nopage := Nopage_zeropage\<rparr>) s;
          (rc, s) \<leftarrow> vm_area_create_null E vma s;
          if rc < 0 then do { s \<leftarrow> vm_area_unmap E vma s; Some (-1, s) } else Some (0, s) }"

text \<open>The source a copy refers to: never itself a copy, so that page faults do not follow chains.\<close>

definition copy_source :: "addr \<Rightarrow> vm_area_t \<Rightarrow> addr" where
  "copy_source p v =
     (if vtype v = VMA_TYPE_COPY \<or> vtype v = VMA_TYPE_COW then src_ptr (vsrc v) else p)"

definition vm_area_init_copy :: "kern_env \<Rightarrow> addr \<Rightarrow> vm_area_src \<Rightarrow> kstate \<Rightarrow> (int \<times> kstate) option" where
  "vm_area_init_copy E vma src s =
     do { w \<leftarrow> vmas s (src_ptr src);
          s \<leftarrow> upd_vma vma (\<lambda>v. v\<lparr>start_address := start_address w, vsize := vsize w, flags := flags w,
                 vtype := vtype w, nopage := nopage w, pagewrite := pagewrite w,
                 vsrc := (vsrc v)\<lparr>src_ptr := copy_source (src_ptr src) w\<rparr>\<rparr>) s;
          v \<leftarrow> vmas s vma;
          (rc, s) \<leftarrow> vm_area_copy E vma (start_address v) (vsize v) s;
          if rc < 0 then do { s \<leftarrow> vm_area_unmap E vma s; Some (-1, s) }
          else do {
            s \<leftarrow> (if vtype v = VMA_TYPE_FILE then
                    do { s \<leftarrow> upd_vma vma (\<lambda>v. v\<lparr>vsrc := (vsrc v)\<lparr>src_ptr := src_ptr (vsrc w)\<rparr>\<rparr>) s;
                         file_get (src_ptr (vsrc w)) s }
                  else Some s);
            Some (0, s) } }"

definition vm_area_init_cow :: "kern_env \<Rightarrow> addr \<Rightarrow> vm_area_src \<Rightarrow> kstate \<Rightarrow> (int \<times> kstate) option" where
  "vm_area_init_cow E vma src s =
     do { w \<leftarrow> vmas s (src_ptr src);
          s \<leftarrow> upd_vma vma (\<lambda>v. v\<lparr>start_address := start_address w, nopage := Nopage_copy,
                 pagewrite := Pagewrite_cow,
                 vsrc := (vsrc v)\<lparr>src_ptr := copy_source (src_ptr src) w\<rparr>\<rparr>) s;
          (rc, s) \<leftarrow> vm_area_copy_pagemap E vma PG_FLAG_USR (NOT PG_FLAG_WR) s;
          if rc < 0 then do { s \<leftarrow> vm_area_unmap E vma s; Some (-1, s) }
          else do { s \<leftarrow> vm_area_get (src_ptr src) s; Some (0, s) } }"

definition vm_area_init_file :: "kern_env \<Rightarrow> addr \<Rightarrow> vm_area_src \<Rightarrow> kstate \<Rightarrow> (int \<times> kstate) option" where
  "vm_area_init_file E vma src s =
     do { s \<leftarrow> upd_vma vma (\<lambda>v. v\<lparr>vsrc := src, nopage := Nopage_file\<rparr>) s;
          (rc, s) \<leftarrow> vm_area_create_null E vma s;
          if rc < 0 then do { s \<leftarrow> vm_area_unmap E vma s; Some (-1, s) }
          else do { s \<leftarrow> file_get (src_ptr src) s; Some (0, s) } }"

text \<open>The dispatch on the type; \<open>src\<close> is \<open>None\<close> for the types created without one.\<close>

definition vm_area_init_type ::
  "kern_env \<Rightarrow> addr \<Rightarrow> vma_type \<Rightarrow> vm_area_src option \<Rightarrow> kstate \<Rightarrow> (int \<times> kstate) option" where
  "vm_area_init_type E vma ty src s =
     (case ty of
        VMA_TYPE_COPY \<Rightarrow> do { src \<leftarrow> src; vm_area_init_copy E vma src s }
      | VMA_TYPE_COW \<Rightarrow> do { src \<leftarrow> src; vm_area_init_cow E vma src s }
      | VMA_TYPE_FILE \<Rightarrow> do { src \<leftarrow> src; vm_area_init_file E vma src s }
      | VMA_TYPE_ZEROPAGE \<Rightarrow> vm_area_init_zeropage E vma s
      | VMA_TYPE_ALLOC \<Rightarrow> vm_area_init_alloc E vma s
      | VMA_TYPE_DIRECT \<Rightarrow> do { src \<leftarrow> src; vm_area_init_direct E vma src s }
      | VMA_TYPE_KERNEL_STACK \<Rightarrow> vm_area_init_kernel_stack E vma s)"

definition vm_area_alloc ::
  "kern_env \<Rightarrow> addr \<Rightarrow> addr \<Rightarrow> addr \<Rightarrow> u32 \<Rightarrow> u32 \<Rightarrow> vma_type \<Rightarrow> u32 \<Rightarrow> vm_area_src option \<Rightarrow>
   kstate \<Rightarrow> (addr \<times> kstate) option" where
  "vm_area_alloc E vma_list task start sz fl ty vfl src s =
     (let (vma, s) = kmalloc s
      in if vma = NULL then Some (NULL, s)
         else do {
           s \<leftarrow> vm_area_init vma task start sz fl ty vfl s;
           (rc, s) \<leftarrow> vm_area_init_type E vma ty src s;
           v \<leftarrow> vmas s vma;
           w \<leftarrow> (if ty = VMA_TYPE_COW \<and> rc = 0 then do { src \<leftarrow> src; w \<leftarrow> vmas s (src_ptr src); Some (Some (src_ptr src, w)) }
                 else Some None);
           case w of
             Some (p, w) \<Rightarrow>
               if vtask v = vtask w then do {
                 s \<leftarrow> upd_vma p (\<lambda>v. v\<lparr>flags := PGTAB_ATTRIB_USR_RO\<rparr>) s;
                 s \<leftarrow> vm_area_replace (vtask v) p vma s;
                 Some (vma, s) }
               else do { s \<leftarrow> vm_area_add vma_list vma s; Some (vma, s) }
           | None \<Rightarrow>
               if rc < 0 then Some (NULL, s\<lparr>vmas := (vmas s)(vma := None)\<rparr>)
               else do { s \<leftarrow> vm_area_add vma_list vma s; Some (vma, s) }
         })"

end
