(* ===== verification/Regions.thy ===== *)
theory Regions
  imports Vma_Lifecycle Page_Map
begin

text \<open>
  What the region list of a task promises: it stays sorted by address when a region is added,
  the search by address finds the first region with a byte on the page, the overlap test is
  exactly the intersection of byte ranges, and the window a page fault fills is exactly the part
  of the page that belongs to the region.
\<close>

section \<open>The list of regions of a task\<close>

definition regions :: "kstate \<Rightarrow> addr \<Rightarrow> addr list \<Rightarrow> bool" where
  "regions s t xs \<longleftrightarrow>
     (\<exists>T. tasks s t = Some T \<and> q_rep (vm_area_list T, task_link s) xs) \<and> (\<forall>p\<in>set xs. vmas s p \<noteq> None)"

definition region_start :: "kstate \<Rightarrow> addr \<Rightarrow> addr" where
  "region_start s p = start_address (the (vmas s p))"

lemma regionsE:
  assumes "regions s t xs"
  obtains T where "tasks s t = Some T" "q_rep (vm_area_list T, task_link s) xs"
    "\<And>p. p \<in> set xs \<Longrightarrow> vmas s p \<noteq> None"
  using assms by (auto simp: regions_def)

lemma Q_FIND_regions:
  assumes "regions s t xs" "tasks s t = Some T"
  shows "Q_FIND (\<lambda>p. do { v \<leftarrow> vmas s p; Some (P v) }) (vm_area_list T, task_link s) =
    Some (case List.find (\<lambda>p. P (the (vmas s p))) xs of None \<Rightarrow> NULL | Some p \<Rightarrow> p)"
proof -
  have rep: "q_rep (vm_area_list T, task_link s) xs" and live: "\<And>p. p \<in> set xs \<Longrightarrow> vmas s p \<noteq> None"
    using assms by (auto simp: regions_def)
  show ?thesis
    unfolding Q_FIND_rep[OF rep] by (rule list_find_total) (use live in fastforce)
qed

lemma vma_list_op_run:
  assumes "tasks s t = Some T" "f (vm_area_list T, task_link s) = (h, l)"
  shows "vma_list_op t f s = Some (s\<lparr>tasks := (tasks s)(t \<mapsto> T\<lparr>vm_area_list := h\<rparr>), task_link := l\<rparr>)"
  using assms by (simp add: vma_list_op_def upd_task_def)

lemma vm_area_add_run:
  assumes "vmas s v = Some V" "tasks s t = Some T"
    and "s1 = s\<lparr>vmas := (vmas s)(v \<mapsto> V\<lparr>vcount := vcount V + 1\<rparr>)\<rparr>"
    and "Q_FIND (\<lambda>p. do { c \<leftarrow> vmas s1 p; Some (start_address c > start_address V) })
           (vm_area_list T, task_link s1) = Some cur"
    and "(if cur \<noteq> NULL then Q_INSERT_BEFORE cur v else Q_INSERT_TAIL v) (vm_area_list T, task_link s) = (h, l)"
  shows "vm_area_add t v s = Some (s1\<lparr>tasks := (tasks s)(t \<mapsto> T\<lparr>vm_area_list := h\<rparr>), task_link := l\<rparr>)"
proof -
  have get: "vm_area_get v s = Some s1" using assms by (simp add: vm_area_get_def upd_vma_def)
  have s1: "vmas s1 v = Some (V\<lparr>vcount := vcount V + 1\<rparr>)" "tasks s1 t = Some T"
    "task_link s1 = task_link s" "tasks s1 = tasks s"
    using assms by auto
  have find: "Q_FIND (\<lambda>p. do { c \<leftarrow> vmas s1 p; Some (start_address c > start_address (V\<lparr>vcount := vcount V + 1\<rparr>)) })
           (vm_area_list T, task_link s1) = Some cur"
    using assms(4) by simp
  show ?thesis
    using vma_list_op_run[OF s1(2), of _ h l] assms(5) s1 find
    by (cases "cur = NULL") (simp_all add: vm_area_add_def get)
qed

lemma sorted_insert:
  assumes "sorted (map f xs)" "\<forall>x\<in>set xs. f x \<le> k"  "\<forall>y\<in>set ys. k < f y" "sorted (map f ys)"
  shows "sorted (map f xs @ (k::'b::linorder) # map f ys)"
  using assms by (auto simp: sorted_append) force+

text \<open>Inserting before the first element above \<open>k\<close>, or at the end when there is none.\<close>

definition insert_at :: "addr \<Rightarrow> addr \<Rightarrow> qhead \<times> links \<Rightarrow> qhead \<times> links" where
  "insert_at cur v = (if cur \<noteq> NULL then Q_INSERT_BEFORE cur v else Q_INSERT_TAIL v)"

lemma insert_at_sorted:
  fixes f :: "addr \<Rightarrow> 'k :: linorder"
  assumes rep: "q_rep (h, l) xs" and srt: "sorted (map f xs)" and v: "v \<noteq> NULL" "v \<notin> set xs"
    and cur: "cur = (case List.find (\<lambda>p. f p > k) xs of None \<Rightarrow> NULL | Some p \<Rightarrow> p)"
  obtains ys zs where "xs = ys @ zs" "q_rep (insert_at cur v (h, l)) (ys @ v # zs)"
    "sorted (map f ys @ k # map f zs)"
proof -
  define ys where "ys = takeWhile (\<lambda>p. \<not> k < f p) xs"
  define zs where "zs = dropWhile (\<lambda>p. \<not> k < f p) xs"
  have xs: "xs = ys @ zs" by (simp add: ys_def zs_def)
  have ys_le: "\<forall>p\<in>set ys. f p \<le> k" by (auto simp: ys_def dest!: set_takeWhileD)
  have zs_gt: "\<forall>p\<in>set zs. k < f p"
  proof (cases zs)
    case (Cons z zs')
    then have "k < f z" using hd_dropWhile[of "\<lambda>p. \<not> k < f p" xs] by (auto simp: zs_def)
    then show ?thesis using srt unfolding xs Cons by (auto simp: sorted_append)
  qed simp
  have "q_rep (insert_at cur v (h, l)) (ys @ v # zs)"
  proof (cases zs)
    case Nil
    then have "List.find (\<lambda>p. f p > k) xs = None" using xs ys_le by (auto simp: find_None_iff)
    then show ?thesis using Q_INSERT_TAIL_rep[OF rep v] Nil xs cur by (simp add: insert_at_def)
  next
    case (Cons z zs')
    then have "List.find (\<lambda>p. f p > k) xs = Some z" using xs ys_le zs_gt
      by (auto simp: find_Some_iff nth_append intro!: exI[of _ "length ys"])
         (metis leD nth_mem)
    moreover have "z \<noteq> NULL" using q_rep_null[OF rep] xs Cons by auto
    ultimately show ?thesis
      using Q_INSERT_BEFORE_rep[of h l ys z zs' v] rep v xs Cons cur by (simp add: insert_at_def)
  qed
  moreover have "sorted (map f ys @ k # map f zs)"
    by (rule sorted_insert[OF _ ys_le zs_gt]) (use srt xs in \<open>auto simp: sorted_append\<close>)
  ultimately show ?thesis using that xs by blast
qed

text \<open>C18: Adding a region to a task's list keeps the list sorted by start address and
  well linked, adds exactly this region (behind all regions that start at the same address or
  below), takes one reference to it and changes no other region.\<close>

theorem vm_area_add_sorted:
  assumes rs: "regions s t xs" and srt: "sorted (map (region_start s) xs)"
    and v: "vmas s v = Some V" "v \<noteq> NULL" "v \<notin> set xs"
  shows "\<exists>s' ys zs. vm_area_add t v s = Some s' \<and> xs = ys @ zs \<and> regions s' t (ys @ v # zs) \<and>
    sorted (map (region_start s') (ys @ v # zs)) \<and>
    vmas s' = (vmas s)(v \<mapsto> V\<lparr>vcount := vcount V + 1\<rparr>)"
proof -
  obtain T where T: "tasks s t = Some T" "q_rep (vm_area_list T, task_link s) xs"
    and live: "\<And>p. p \<in> set xs \<Longrightarrow> vmas s p \<noteq> None" using regionsE[OF rs] by metis
  define s1 where "s1 = s\<lparr>vmas := (vmas s)(v \<mapsto> V\<lparr>vcount := vcount V + 1\<rparr>)\<rparr>"
  let ?k = "start_address V"
  define cur where "cur = (case List.find (\<lambda>p. region_start s p > ?k) xs of None \<Rightarrow> NULL | Some p \<Rightarrow> p)"
  have rs1: "regions s1 t xs" using rs by (auto simp: regions_def s1_def)
  have start1: "region_start s1 = region_start s"
    using v(1) by (simp add: region_start_def s1_def fun_eq_iff)
  have find: "Q_FIND (\<lambda>p. do { c \<leftarrow> vmas s1 p; Some (start_address c > ?k) }) (vm_area_list T, task_link s1) = Some cur"
  proof -
    have "tasks s1 t = Some T" using T(1) by (simp add: s1_def)
    then show ?thesis
      using Q_FIND_regions[OF rs1, of T "\<lambda>c. start_address c > ?k"]
      unfolding cur_def start1[symmetric] region_start_def by blast
  qed
  obtain ys zs where xs: "xs = ys @ zs"
    and rep: "q_rep (insert_at cur v (vm_area_list T, task_link s)) (ys @ v # zs)"
    and sorted: "sorted (map (region_start s) ys @ ?k # map (region_start s) zs)"
    by (rule insert_at_sorted[OF T(2) srt v(2,3) cur_def])
  obtain h l where hl: "insert_at cur v (vm_area_list T, task_link s) = (h, l)" by fastforce
  note add = vm_area_add_run[OF v(1) T(1) s1_def find hl[unfolded insert_at_def]]
  let ?s' = "s1\<lparr>tasks := (tasks s)(t \<mapsto> T\<lparr>vm_area_list := h\<rparr>), task_link := l\<rparr>"
  have "region_start ?s' = region_start s"
    using start1 by (simp add: region_start_def fun_eq_iff)
  moreover have "region_start s v = ?k" using v(1) by (simp add: region_start_def)
  ultimately have "sorted (map (region_start ?s') (ys @ v # zs))" using sorted by simp
  moreover have "regions ?s' t (ys @ v # zs)"
    using rep live xs hl by (auto simp: regions_def s1_def)
  ultimately show ?thesis using add xs by (auto simp: s1_def)
qed


text \<open>A task with one region of two pages from \<^verbatim>\<open>0x2000\<close>, and another region to add.\<close>

definition one_region :: kstate where
  "one_region = zero_state
     \<lparr>vmas := [0x100 \<mapsto> zero_vma\<lparr>start_address := 0x2000, vsize := 0x2000\<rparr>,
               0x200 \<mapsto> zero_vma\<lparr>start_address := 0x1800, vsize := 0x100\<rparr>],
      tasks := [0x10 \<mapsto> zero_task\<lparr>vm_area_list := \<lparr>q_first = 0x100, q_last = 0x100\<rparr>\<rparr>]\<rparr>"

lemma one_region_regions: "regions one_region 0x10 [0x100]"
  by (simp add: regions_def one_region_def q_rep_def zero_state_def zero_links_def)

theorem vm_area_add_sorted_witness:
  "\<exists>s'. vm_area_add 0x10 0x200 one_region = Some s' \<and> sorted (map (region_start s') [0x200, 0x100])"
proof -
  obtain s' ys zs where s': "vm_area_add 0x10 0x200 one_region = Some s'"
    and yz: "[0x100] = ys @ zs" "sorted (map (region_start s') (ys @ 0x200 # zs))"
    and vm: "vmas s' = (vmas one_region)(0x200 \<mapsto>
       zero_vma\<lparr>start_address := 0x1800, vsize := 0x100, vcount := vcount (zero_vma\<lparr>start_address := 0x1800, vsize := 0x100\<rparr>) + 1\<rparr>)"
    using vm_area_add_sorted[OF one_region_regions, of "0x200" "zero_vma\<lparr>start_address := 0x1800, vsize := 0x100\<rparr>"]
    by (auto simp: one_region_def)
  have "region_start s' 0x100 = 0x2000" "region_start s' 0x200 = 0x1800"
    unfolding region_start_def vm by (simp_all add: one_region_def)
  with s' show ?thesis by simp
qed


section \<open>The bytes of a region\<close>

definition region_bytes :: "vm_area_t \<Rightarrow> nat set" where
  "region_bytes v = {unat (start_address v) ..< unat (start_address v) + unat (vsize v)}"

definition page_bytes :: "addr \<Rightarrow> nat set" where
  "page_bytes a = {x. x div 4096 = unat a div 4096}"

text \<open>A region is not empty and ends at or below the top of the address space.\<close>

definition region_ok :: "vm_area_t \<Rightarrow> bool" where
  "region_ok v \<longleftrightarrow> vsize v \<noteq> 0 \<and> unat (start_address v) + unat (vsize v) \<le> 2 ^ 32"

lemma last_byte:
  fixes a sz :: u32
  assumes "sz \<noteq> 0" "unat a + unat sz \<le> 2 ^ 32"
  shows "unat (a + sz - 1) = unat a + unat sz - 1"
proof -
  have z: "1 \<le> unat sz" using assms(1) by (simp add: Suc_le_eq unat_gt_0)
  then have "unat (sz - 1) = unat sz - 1" using unat_sub_le[of 1 sz] by (simp add: word_le_nat_alt)
  then have "unat (a + (sz - 1)) = unat a + (unat sz - 1)"
    using assms(2) z by (subst unat_add_no_wrap) auto
  then show ?thesis using z by (simp add: algebra_simps)
qed

lemma overlaps_at_iff:
  assumes "region_ok v" "sz \<noteq> 0" "unat a + unat sz \<le> 2 ^ 32"
  shows "overlaps_at a sz v \<longleftrightarrow> region_bytes v \<inter> {unat a ..< unat a + unat sz} \<noteq> {}"
proof -
  have z: "1 \<le> unat sz" "1 \<le> unat (vsize v)"
    using assms by (auto simp: Suc_le_eq unat_gt_0 region_ok_def)
  have "region_bytes v \<inter> {unat a ..< unat a + unat sz} \<noteq> {} \<longleftrightarrow>
      unat (start_address v) < unat a + unat sz \<and> unat a < unat (start_address v) + unat (vsize v)"
  proof
    assume "unat (start_address v) < unat a + unat sz \<and> unat a < unat (start_address v) + unat (vsize v)"
    then have "max (unat (start_address v)) (unat a) \<in> region_bytes v \<inter> {unat a ..< unat a + unat sz}"
      using z by (auto simp: region_bytes_def max_def)
    then show "region_bytes v \<inter> {unat a ..< unat a + unat sz} \<noteq> {}" by blast
  qed (auto simp: region_bytes_def)
  moreover have "unat (start_address v + vsize v - 1) = unat (start_address v) + unat (vsize v) - 1"
    using assms(1) by (intro last_byte) (auto simp: region_ok_def)
  moreover note last_byte[OF assms(2,3)]
  ultimately show ?thesis
    using z unfolding overlaps_at_def Let_def word_unat_eq_iff word_less_nat_alt word_le_nat_alt
    by linarith
qed

lemma covers_page_iff:
  assumes "region_ok v"
  shows "covers_page a v \<longleftrightarrow> region_bytes v \<inter> page_bytes a \<noteq> {}"
proof -
  let ?s = "unat (start_address v)" and ?n = "unat (vsize v)" and ?p = "unat a div 4096"
  have z: "1 \<le> ?n" using assms by (simp add: Suc_le_eq unat_gt_0 region_ok_def)
  have last: "unat (start_address v + vsize v - 1) = ?s + ?n - 1"
    using assms by (intro last_byte) (auto simp: region_ok_def)
  have "region_bytes v \<inter> page_bytes a \<noteq> {} \<longleftrightarrow> ?s div 4096 \<le> ?p \<and> ?p \<le> (?s + ?n - 1) div 4096"
  proof
    assume "region_bytes v \<inter> page_bytes a \<noteq> {}"
    then obtain x where r: "x \<in> region_bytes v" and x: "x div 4096 = ?p"
      by (auto simp: page_bytes_def)
    have "?s \<le> x" "x \<le> ?s + ?n - 1" using r by (auto simp: region_bytes_def)
    note x = this x
    then show "?s div 4096 \<le> ?p \<and> ?p \<le> (?s + ?n - 1) div 4096"
      using div_le_mono[OF x(1), of 4096] div_le_mono[OF x(2), of 4096] by simp
  next
    assume h: "?s div 4096 \<le> ?p \<and> ?p \<le> (?s + ?n - 1) div 4096"
    define x where "x = max ?s (?p * 4096)"
    have "x div 4096 = ?p" unfolding x_def max_def using h by auto
    moreover have "x \<le> ?s + ?n - 1"
      using h z unfolding x_def by (auto simp: less_eq_div_iff_mult_less_eq)
    ultimately have "x \<in> region_bytes v \<inter> page_bytes a"
      using z by (auto simp: region_bytes_def page_bytes_def x_def)
    then show "region_bytes v \<inter> page_bytes a \<noteq> {}" by blast
  qed
  then show ?thesis
    unfolding covers_page_def Let_def word_le_nat_alt unat_page last by simp
qed

lemma find_cong_set: "(\<And>x. x \<in> set xs \<Longrightarrow> P x = Q x) \<Longrightarrow> List.find P xs = List.find Q xs"
  by (induction xs) auto

text \<open>Looking up a region by address returns the first region of the list that owns a byte of
  the page of the address, and NULL exactly if no region does.\<close>

theorem find_vm_area_correct:
  assumes "regions s t xs" "\<forall>p\<in>set xs. region_ok (the (vmas s p))"
  shows "find_vm_area t a s = Some (case List.find (\<lambda>p. region_bytes (the (vmas s p)) \<inter> page_bytes a \<noteq> {}) xs of
           None \<Rightarrow> NULL | Some p \<Rightarrow> p)"
proof -
  obtain T where T: "tasks s t = Some T" using regionsE[OF assms(1)] by metis
  have "List.find (\<lambda>p. covers_page a (the (vmas s p))) xs =
      List.find (\<lambda>p. region_bytes (the (vmas s p)) \<inter> page_bytes a \<noteq> {}) xs"
    by (rule find_cong_set) (use assms(2) covers_page_iff in blast)
  then show ?thesis
    using Q_FIND_regions[OF assms(1) T, of "covers_page a"] T by (simp add: find_vm_area_def)
qed

lemma one_region_ok: "\<forall>p\<in>set [0x100]. region_ok (the (vmas one_region p))"
  by (simp add: one_region_def region_ok_def zero_vma_def)

theorem find_vm_area_correct_witness:
  "find_vm_area 0x10 0x3abc one_region = Some 0x100"
proof -
  have "0x3000 \<in> region_bytes (the (vmas one_region 0x100)) \<inter> page_bytes 0x3abc"
    by (simp add: region_bytes_def page_bytes_def one_region_def zero_vma_def)
  then show ?thesis
    unfolding find_vm_area_correct[OF one_region_regions one_region_ok] by auto
qed

lemma find_overlap:
  assumes "regions s t xs" "\<forall>p\<in>set xs. region_ok (the (vmas s p))"
    and "sz \<noteq> 0" "unat a + unat sz \<le> 2 ^ 32"
  shows "find_vm_area_overlap t a sz s =
    Some (case List.find (\<lambda>p. region_bytes (the (vmas s p)) \<inter> {unat a ..< unat a + unat sz} \<noteq> {}) xs of
           None \<Rightarrow> NULL | Some p \<Rightarrow> p)"
proof -
  obtain T where T: "tasks s t = Some T" using regionsE[OF assms(1)] by metis
  have "List.find (\<lambda>p. overlaps_at a sz (the (vmas s p))) xs =
      List.find (\<lambda>p. region_bytes (the (vmas s p)) \<inter> {unat a ..< unat a + unat sz} \<noteq> {}) xs"
    by (rule find_cong_set) (use assms(2) overlaps_at_iff[OF _ assms(3,4)] in blast)
  then show ?thesis
    using Q_FIND_regions[OF assms(1) T, of "overlaps_at a sz"] T by (simp add: find_vm_area_overlap_def)
qed

text \<open>The overlap search returns the first region of the list that shares a byte with the
  requested range, and NULL exactly if the range is free.\<close>

theorem find_vm_area_overlap_correct:
  assumes "regions s t xs" "\<forall>p\<in>set xs. region_ok (the (vmas s p))"
    and "sz \<noteq> 0" "unat a + unat sz \<le> 2 ^ 32"
  shows "find_vm_area_overlap t a sz s =
    Some (case List.find (\<lambda>p. region_bytes (the (vmas s p)) \<inter> {unat a ..< unat a + unat sz} \<noteq> {}) xs of
           None \<Rightarrow> NULL | Some p \<Rightarrow> p)"
  using assms by (rule find_overlap)

theorem find_vm_area_overlap_correct_witness:
  "find_vm_area_overlap 0x10 0x4000 0x1000 one_region = Some NULL"
proof -
  have "region_bytes (the (vmas one_region 0x100)) \<inter> {0x4000 ..< 0x5000} = {}"
    by (auto simp: region_bytes_def one_region_def zero_vma_def)
  then show ?thesis
    using find_vm_area_overlap_correct[OF one_region_regions one_region_ok, of "0x1000" "0x4000"] by simp
qed


lemma page_bytes_interval: "page_bytes a = {unat (a AND PAGE_MASK) ..< unat (a AND PAGE_MASK) + 4096}"
  unfolding page_bytes_def unat_page by auto

lemma page_last_byte: "unat ((a AND PAGE_MASK) OR NOT PAGE_MASK) = unat (a AND PAGE_MASK) + 4095"
proof -
  have m: "NOT PAGE_MASK = (mask 12 :: u32)" by (simp add: PAGE_MASK_mask)
  have "(a AND PAGE_MASK) OR NOT PAGE_MASK = (a AND PAGE_MASK) + mask 12"
    unfolding m unfolding PAGE_MASK_mask
    by (rule disjunctive_add[symmetric]) (auto simp: bit_simps)
  moreover have "unat (mask 12 :: u32) = 4095" by (simp add: mask_eq_decr_exp)
  moreover have "unat (a AND PAGE_MASK) + 4096 \<le> 4294967296"
    by (rule page_end_no_wrap) (simp add: unat_page)
  ultimately show ?thesis by (simp add: unat_add_no_wrap)
qed

text \<open>The window a page fault fills is the part of the faulting page that belongs to the region:
  the first page of a region that starts in the middle, the last page of one that ends in the
  middle, both at once, or a whole page.\<close>

theorem page_window_correct:
  assumes "region_ok v" "region_bytes v \<inter> page_bytes a \<noteq> {}" "page_window v a = (w, len)"
  shows "{unat w ..< unat w + unat len} = region_bytes v \<inter> page_bytes a"
proof -
  let ?s = "unat (start_address v)" and ?n = "unat (vsize v)" and ?P = "unat (a AND PAGE_MASK)"
  define e where "e = start_address v + vsize v - 1"
  define q where "q = (a AND PAGE_MASK) OR NOT PAGE_MASK"
  have z: "1 \<le> ?n" using assms(1) by (simp add: Suc_le_eq unat_gt_0 region_ok_def)
  have e: "unat e = ?s + ?n - 1"
    unfolding e_def using assms(1) by (intro last_byte) (auto simp: region_ok_def)
  have q: "unat q = ?P + 4095" unfolding q_def by (rule page_last_byte)
  have touch: "?s < ?P + 4096" "?P < ?s + ?n"
    using assms(2) by (auto simp: region_bytes_def page_bytes_interval)
  have w: "w = (if start_address v \<ge> a AND PAGE_MASK then start_address v else a AND PAGE_MASK)"
    and len: "len = (if e < q then PAGE_SIZE - (w - (a AND PAGE_MASK)) - (q - e) else PAGE_SIZE - (w - (a AND PAGE_MASK)))"
    using assms(3) by (auto simp: page_window_def Let_def e_def q_def)
  have uw: "unat w = max ?s ?P" by (auto simp: w max_def word_le_nat_alt)
  then have off: "unat (w - (a AND PAGE_MASK)) = unat w - ?P"
    by (intro unat_sub_le) (simp add: word_le_nat_alt)
  have l1: "unat (PAGE_SIZE - (w - (a AND PAGE_MASK))) = 4096 - (unat w - ?P)"
    using uw touch by (subst unat_sub_le) (auto simp: word_le_nat_alt off)
  have "unat len = min (?s + ?n) (?P + 4096) - max ?s ?P"
  proof (cases "e < q")
    case True
    then have qe: "unat (q - e) = ?P + 4095 - (?s + ?n - 1)"
      using unat_sub_le[of e q] by (simp add: e q)
    have lt: "?s + ?n - 1 < ?P + 4095" using True by (simp add: word_less_nat_alt e q)
    have "q - e \<le> PAGE_SIZE - (w - (a AND PAGE_MASK))"
      unfolding word_le_nat_alt qe l1 uw using touch z lt by (auto simp: max_def)
    then have "unat len = 4096 - (unat w - ?P) - (?P + 4095 - (?s + ?n - 1))"
      using True by (simp only: len if_True unat_sub_le l1 qe)
    then show ?thesis unfolding uw using lt touch z by (auto simp: max_def min_def)
  next
    case False
    then have "?P + 4095 \<le> ?s + ?n - 1" by (simp add: word_less_nat_alt e q)
    moreover have "unat len = 4096 - (max ?s ?P - ?P)" using False by (simp only: len if_False l1 uw)
    ultimately show ?thesis using touch z by (auto simp: max_def min_def)
  qed
  then show ?thesis unfolding uw using touch z
    by (auto simp: region_bytes_def page_bytes_interval)
qed

theorem page_window_correct_witness:
  "snd (page_window (zero_vma\<lparr>start_address := 0x1800, vsize := 0x100\<rparr>) 0x1004) = 0x100"
proof -
  let ?v = "zero_vma\<lparr>start_address := 0x1800, vsize := 0x100\<rparr>"
  obtain w len where wl: "page_window ?v 0x1004 = (w, len)" by fastforce
  have "0x1800 \<in> region_bytes ?v \<inter> page_bytes 0x1004"
    by (simp add: region_bytes_def page_bytes_def zero_vma_def)
  moreover have "region_bytes ?v \<inter> page_bytes 0x1004 = {0x1800 ..< 0x1900}"
    by (auto simp: region_bytes_def page_bytes_interval zero_vma_def PAGE_MASK_eq)
  moreover have "region_ok ?v" by (simp add: region_ok_def zero_vma_def)
  ultimately have "{unat w ..< unat w + unat len} = {0x1800 ..< 0x1900}"
    using page_window_correct[OF _ _ wl] by auto
  then have "card {unat w ..< unat w + unat len} = card {0x1800 ..< 0x1900 :: nat}" by simp
  then have "unat len = 0x100" by simp
  then show ?thesis using wl by (simp add: word_unat_eq_iff)
qed

end
