(* ===== verification/Vmm.thy ===== *)
theory Vmm
  imports Vma_Lifecycle Usercopy
begin

text \<open>
  The address space of a task and the stacks of a thread, \<^verbatim>\<open>kern/vmm.c\<close>: which regions a task
  gets from its executable, what a forked task copies, and the frames the kernel and the
  program find on a new thread's stacks.
\<close>

definition SEGSEL_USER_CS :: u32 where "SEGSEL_USER_CS = 0xe02b"
definition SEGSEL_USER_DS :: u32 where "SEGSEL_USER_DS = 0xe033"
definition SEGSEL_KERNEL_DS :: u32 where "SEGSEL_KERNEL_DS = 0xe021"
definition THREAD_STACK_ALIGN :: u32 where "THREAD_STACK_ALIGN = 0xffffffe0"
definition VMM_KERNEL_THREAD_STACK_SIZE :: u32 where "VMM_KERNEL_THREAD_STACK_SIZE = 0x1000"
definition THREAD_DEFAULT_STACK_SIZE :: u32 where "THREAD_DEFAULT_STACK_SIZE = 0x400000"

text \<open>The page directory of the current task, as \<open>vmm_create_pgdir\<close> reads it.\<close>

definition current_pgdir :: "kstate \<Rightarrow> addr option option" where
  "current_pgdir s =
     (if current_thread s = NULL then Some None
      else do { th \<leftarrow> threads s (current_thread s); T \<leftarrow> tasks s (parent_task th); Some (Some (page_dir T)) })"

definition vmm_kernel_init :: "kern_env \<Rightarrow> kstate \<Rightarrow> kstate option" where
  "vmm_kernel_init E s = vmm_page_init (xen E) s"

section \<open>Tasks\<close>

definition vmm_task_load_kernel :: "kern_env \<Rightarrow> addr \<Rightarrow> kstate \<Rightarrow> (int \<times> kstate) option" where
  "vmm_task_load_kernel E task s =
     (let src = \<lparr>src_ptr = 0, src_offset = 0\<rparr>;
          num_phys_mem_ppf = machine_phys_frames (xen E);
          num_kernel_text_ppf = drop_bit 12 USER_MEM_START
      in do {
        (vma_lm_kern, s) \<leftarrow> vm_area_alloc E task task 0 (push_bit 12 num_kernel_text_ppf) PGTAB_ATTRIB_SU_RW
          VMA_TYPE_DIRECT 0 (Some src) s;
        if vma_lm_kern = NULL then Some (-1, s)
        else do {
          (vma_phys_mem, s) \<leftarrow> vm_area_alloc E task task VMM_KERNEL_BASE (push_bit 12 num_phys_mem_ppf)
            PGTAB_ATTRIB_SU_RW VMA_TYPE_DIRECT 0 (Some src) s;
          if vma_phys_mem = NULL then do { s \<leftarrow> vm_area_remove E task vma_lm_kern s; Some (-1, s) }
          else Some (0, s)
        }
      })"

definition vmm_task_create :: "kern_env \<Rightarrow> addr \<Rightarrow> kstate \<Rightarrow> (int \<times> kstate) option" where
  "vmm_task_create E task s =
     do { s \<leftarrow> upd_task task (\<lambda>T. T\<lparr>task_cs := SEGSEL_USER_CS, task_ds := SEGSEL_USER_DS\<rparr>) s;
          cur \<leftarrow> current_pgdir s;
          (upbdr, s) \<leftarrow> vmm_create_pgdir (xen E) cur s;
          if upbdr = NULL then Some (-1, s)
          else do {
            s \<leftarrow> upd_task task (\<lambda>T. T\<lparr>page_dir := upbdr, vm_area_list := Q_INIT_HEAD\<rparr>) s;
            s \<leftarrow> vmm_set_user_pgdir (xen E) upbdr s;
            Some (0, s) } }"

text \<open>The loop of \<open>vmm_task_copy\<close> over the regions of the source task.\<close>

partial_function (option) vmm_copy_vmas :: "kern_env \<Rightarrow> addr \<Rightarrow> addr \<Rightarrow> kstate \<Rightarrow> (int \<times> kstate) option" where
  "vmm_copy_vmas E dst_task curpos s =
     (if curpos = NULL then Some (0, s)
      else Option.bind (vmas s curpos) (\<lambda>c.
        if vtype c = VMA_TYPE_DIRECT \<or> vtype c = VMA_TYPE_KERNEL_STACK
        then vmm_copy_vmas E dst_task (Q_GET_NEXT curpos (task_link s)) s
        else Option.bind (vm_area_alloc E dst_task dst_task (start_address c) (vsize c) (flags c)
               VMA_TYPE_COPY (vma_flags c) (Some \<lparr>src_ptr = curpos, src_offset = 0\<rparr>) s) (\<lambda>r.
             if fst r = NULL then Some (-1, snd r)
             else vmm_copy_vmas E dst_task (Q_GET_NEXT curpos (task_link (snd r))) (snd r))))"

definition vmm_task_copy :: "kern_env \<Rightarrow> addr \<Rightarrow> addr \<Rightarrow> kstate \<Rightarrow> (int \<times> kstate) option" where
  "vmm_task_copy E dst_task src_task s =
     do { S \<leftarrow> tasks s src_task; vmm_copy_vmas E dst_task (q_first (vm_area_list S)) s }"

section \<open>Kernel stacks\<close>

text \<open>\<^verbatim>\<open>*(--kstack) = v\<close>: kernel stacks are in the direct map.\<close>

definition push_kstack :: "u32 \<Rightarrow> addr \<times> kstate \<Rightarrow> addr \<times> kstate" where
  "push_kstack v st = (let (sp, s) = st in (sp - 4, kst32 (sp - 4) v s))"

definition vmm_setup_kernel_stack :: "kern_env \<Rightarrow> addr \<Rightarrow> kstate \<Rightarrow> kstate option" where
  "vmm_setup_kernel_stack E dst_thread s =
     do { th \<leftarrow> threads s dst_thread;
          let kstack = kernel_esp0 th;
          let s = kst32 kstack SEGSEL_USER_DS s;
          let (kstack, s) = fold push_kstack [esp th, eflags th, SEGSEL_USER_CS, eip th, ebp th] (kstack, s);
          let current_kebp = kstack;
          let (kstack, s) = fold push_kstack [exit_kernel E, current_kebp] (kstack, s);
          let (kstack, s) = fold push_kstack (replicate 6 0) (kstack, s);
          upd_thread dst_thread (\<lambda>th. th\<lparr>kernel_esp := kstack\<rparr>) s }"

definition vmm_kernel_stack_init :: "kern_env \<Rightarrow> addr \<Rightarrow> kstate \<Rightarrow> (int \<times> kstate) option" where
  "vmm_kernel_stack_init E thread s =
     do { th \<leftarrow> threads s thread;
          (kstack_vma, s) \<leftarrow> vm_area_alloc E (parent_task th) (parent_task th) NULL (kernel_stack_size th)
            PGTAB_ATTRIB_SU_RW VMA_TYPE_KERNEL_STACK VMA_FLAG_STACK None s;
          if kstack_vma = NULL then Some (-1, s)
          else do {
            s \<leftarrow> vm_area_get kstack_vma s;
            v \<leftarrow> vmas s kstack_vma;
            let esp0 = (start_address v + vsize v - 1) AND THREAD_STACK_ALIGN;
            s \<leftarrow> upd_thread thread (\<lambda>th. th\<lparr>vma_kernel_stack := kstack_vma, kernel_esp0 := esp0, kernel_esp := esp0\<rparr>) s;
            s \<leftarrow> vmm_setup_kernel_stack E thread s;
            Some (0, s) } }"

section \<open>User stacks\<close>

definition vmm_copy_argvec :: "addr \<Rightarrow> addr \<Rightarrow> kstate \<Rightarrow> kstate option" where
  "vmm_copy_argvec thread argvec s =
     do { th \<leftarrow> threads s thread;
          (argc, argvec_array_size, argvec_str_size) \<leftarrow> get_string_array_dim (umem s) argvec;
          let stack_argvec = esp th - argvec_str_size - argvec_array_size;
          let stack_argvec_str = esp th - argvec_str_size;
          (str, m) \<leftarrow> copy_strings [0..<unat argc] stack_argvec stack_argvec_str argvec (umem s);
          let m = st32 (stack_argvec + 4 * argc) NULL m;
          let m = st32 (stack_argvec - 4) stack_argvec m;
          let m = st32 (stack_argvec - 8) argc m;
          let m = st32 (stack_argvec - 12) 0 m;
          upd_thread thread (\<lambda>th. th\<lparr>esp := stack_argvec - 12\<rparr>) (s\<lparr>umem := m\<rparr>) }"

definition vmm_setup_user_stack :: "addr \<Rightarrow> addr \<Rightarrow> kstate \<Rightarrow> kstate option" where
  "vmm_setup_user_stack thread argvec s =
     do { th \<leftarrow> threads s thread;
          let stack_size = user_stack_size th;
          let start = VMM_KERNEL_BASE - stack_size - PAGE_SIZE;
          s \<leftarrow> upd_thread thread (\<lambda>th. th\<lparr>esp := (start + stack_size - 1) AND THREAD_STACK_ALIGN\<rparr>) s;
          if argvec \<noteq> NULL then vmm_copy_argvec thread argvec s else Some s }"

definition vmm_user_stack_init :: "kern_env \<Rightarrow> addr \<Rightarrow> kstate \<Rightarrow> (int \<times> kstate) option" where
  "vmm_user_stack_init E thread s =
     do { th \<leftarrow> threads s thread;
          let stack_size = user_stack_size th;
          let start = VMM_KERNEL_BASE - stack_size - PAGE_SIZE;
          (vma, s) \<leftarrow> vm_area_alloc E (parent_task th) (parent_task th) start stack_size
            PGTAB_ATTRIB_USR_RW VMA_TYPE_ZEROPAGE VMA_FLAG_STACK None s;
          if vma = NULL then Some (-1, s)
          else do {
            s \<leftarrow> upd_thread thread (\<lambda>th. th\<lparr>vma_user_stack := vma\<rparr>) s;
            s \<leftarrow> vm_area_get vma s;
            s \<leftarrow> vmm_setup_user_stack thread NULL s;
            Some (0, s) } }"

section \<open>Threads\<close>

definition vmm_thread_copy :: "kern_env \<Rightarrow> addr \<Rightarrow> addr \<Rightarrow> kstate \<Rightarrow> (int \<times> kstate) option" where
  "vmm_thread_copy E dst_thread src_thread s =
     do { src \<leftarrow> threads s src_thread;
          s \<leftarrow> upd_thread dst_thread (\<lambda>th. th\<lparr>esp := esp src, ebp := ebp src, eip := eip src, eflags := eflags src,
                 user_stack_size := user_stack_size src, kernel_stack_size := kernel_stack_size src\<rparr>) s;
          dst \<leftarrow> threads s dst_thread;
          ustack \<leftarrow> vmas s (vma_user_stack src);
          uvma \<leftarrow> find_vm_area (parent_task dst) (start_address ustack) s;
          if uvma = NULL then None
          else do {
            s \<leftarrow> upd_thread dst_thread (\<lambda>th. th\<lparr>vma_user_stack := uvma\<rparr>) s;
            s \<leftarrow> vm_area_get uvma s;
            (rc, s) \<leftarrow> vmm_kernel_stack_init E dst_thread s;
            if rc < 0 then Some (-1, s) else Some (0, s) } }"

definition vmm_thread_create :: "kern_env \<Rightarrow> addr \<Rightarrow> u32 \<Rightarrow> u32 \<Rightarrow> kstate \<Rightarrow> (int \<times> kstate) option" where
  "vmm_thread_create E thread ustack_size kstack_size s =
     do { th \<leftarrow> threads s thread;
          T \<leftarrow> tasks s (parent_task th);
          s \<leftarrow> upd_thread thread (\<lambda>th. th\<lparr>esp := 0, ebp := 0, eip := tentry_point T, eflags := 0x202,
                 user_stack_size := ustack_size, kernel_stack_size := kstack_size\<rparr>) s;
          (rc, s) \<leftarrow> vmm_user_stack_init E thread s;
          if rc < 0 then Some (-1, s)
          else do {
            (rc, s) \<leftarrow> vmm_kernel_stack_init E thread s;
            if rc < 0 then Some (-1, s) else Some (0, s) } }"

section \<open>Loading an executable\<close>

definition vmm_load_text :: "kern_env \<Rightarrow> addr \<Rightarrow> simple_elf \<Rightarrow> addr \<Rightarrow> kstate \<Rightarrow> (int \<times> kstate) option" where
  "vmm_load_text E task se_hdr file s =
     (let src = \<lparr>src_ptr = file, src_offset = e_txtoff se_hdr\<rparr>
      in if e_txtlen se_hdr = 0 then Some (-1, s)
         else do {
           (vma, s) \<leftarrow> vm_area_alloc E task task (e_txtstart se_hdr) (e_txtlen se_hdr) PGTAB_ATTRIB_USR_RO
             VMA_TYPE_FILE 0 (Some src) s;
           if vma = NULL then Some (-1, s) else Some (0, s) })"

definition vmm_load_rodata :: "kern_env \<Rightarrow> addr \<Rightarrow> simple_elf \<Rightarrow> addr \<Rightarrow> kstate \<Rightarrow> (int \<times> kstate) option" where
  "vmm_load_rodata E task se_hdr file s =
     (if e_rodatlen se_hdr = 0 then Some (0, s)
      else do {
        (vma, s) \<leftarrow> vm_area_alloc E task task (e_rodatstart se_hdr) (e_rodatlen se_hdr) PGTAB_ATTRIB_USR_RO
          VMA_TYPE_FILE 0 (Some \<lparr>src_ptr = file, src_offset = e_rodatoff se_hdr\<rparr>) s;
        if vma = NULL then Some (-1, s) else Some (0, s) })"

definition vmm_load_data :: "kern_env \<Rightarrow> addr \<Rightarrow> simple_elf \<Rightarrow> addr \<Rightarrow> kstate \<Rightarrow> (int \<times> kstate) option" where
  "vmm_load_data E task se_hdr file s =
     (if e_datlen se_hdr = 0 then Some (0, s)
      else do {
        (vma, s) \<leftarrow> vm_area_alloc E task task (e_datstart se_hdr) (e_datlen se_hdr) PGTAB_ATTRIB_USR_RW
          VMA_TYPE_FILE 0 (Some \<lparr>src_ptr = file, src_offset = e_datoff se_hdr\<rparr>) s;
        if vma = NULL then Some (-1, s) else Some (0, s) })"

definition vmm_load_bss :: "kern_env \<Rightarrow> addr \<Rightarrow> simple_elf \<Rightarrow> addr \<Rightarrow> kstate \<Rightarrow> (int \<times> kstate) option" where
  "vmm_load_bss E task se_hdr file s =
     (if e_bsslen se_hdr = 0 then Some (0, s)
      else do {
        (vma, s) \<leftarrow> vm_area_alloc E task task (e_datstart se_hdr + e_datlen se_hdr) (e_bsslen se_hdr)
          PGTAB_ATTRIB_USR_RW VMA_TYPE_ZEROPAGE 0 None s;
        if vma = NULL then Some (-1, s) else Some (0, s) })"

end
