(* ===== verification/Variable_Hash.thy ===== *)
theory Variable_Hash
  imports Variable_Queue
begin

text \<open>
  The generic hash table of \<^verbatim>\<open>kern/inc/variable_hash.h\<close> (an array of queues) and the hash of
  \<^verbatim>\<open>kern/sched.c\<close>.  A table is its bucket array with the links of its elements; \<open>hash_rep\<close> relates
  it to the set of elements it holds, and the locale \<open>lookup_table\<close> is the contract the kernel's
  two tables rest on.
\<close>

section \<open>The hash function\<close>

definition jenkins_step :: "u8 \<Rightarrow> u32 \<Rightarrow> u32" where
  "jenkins_step k hash =
     (let hash = hash + ucast k;
          hash = hash + push_bit 10 hash
      in hash XOR drop_bit 6 hash)"

definition jenkins_hash :: "u32 \<Rightarrow> u32" where
  "jenkins_hash ident =
     (let hash = fold (\<lambda>i. jenkins_step (ucast (drop_bit (8 * i) ident))) [0..<4] 0;
          hash = hash + push_bit 3 hash;
          hash = hash XOR drop_bit 11 hash
      in hash + push_bit 15 hash)"

definition sched_hashcmp :: "u32 \<Rightarrow> u32 \<Rightarrow> int" where
  "sched_hashcmp id1 id2 = (if id1 = id2 then 0 else if sint id1 > sint id2 then 1 else -1)"

definition TASK_MAP_SIZE :: u32 where "TASK_MAP_SIZE = 8192"
definition THREAD_MAP_SIZE :: u32 where "THREAD_MAP_SIZE = 8192"

definition sched_task_hashfn :: "u32 \<Rightarrow> u32" where
  "sched_task_hashfn taskid = jenkins_hash taskid AND (TASK_MAP_SIZE - 1)"

definition sched_thread_hashfn :: "u32 \<Rightarrow> u32" where
  "sched_thread_hashfn threadid = jenkins_hash threadid AND (THREAD_MAP_SIZE - 1)"

section \<open>The table macros\<close>

type_synonym hash_table = "(u32 \<Rightarrow> qhead) \<times> links"

text \<open>\<open>HASH_INIT\<close> zeroes the buckets, which empties every queue.\<close>

definition HASH_INIT :: "links \<Rightarrow> hash_table" where
  "HASH_INIT l = ((\<lambda>_. \<lparr>q_first = NULL, q_last = NULL\<rparr>), l)"

definition HASH_INSERT :: "(u32 \<Rightarrow> u32) \<Rightarrow> u32 \<Rightarrow> addr \<Rightarrow> hash_table \<Rightarrow> hash_table" where
  "HASH_INSERT hashfn key val Hl =
     (let (H, l) = Hl; index = hashfn key; (h, l) = Q_INSERT_TAIL val (H index, l)
      in (H(index := h), l))"

definition HASH_REMOVE :: "(u32 \<Rightarrow> u32) \<Rightarrow> u32 \<Rightarrow> addr \<Rightarrow> hash_table \<Rightarrow> hash_table" where
  "HASH_REMOVE hashfn key val Hl =
     (let (H, l) = Hl; index = hashfn key; (h, l) = Q_REMOVE val (H index, l)
      in (H(index := h), l))"

text \<open>\<open>hashkey\<close> reads the key from the element; it fails on an element that was freed.\<close>

definition HASH_LOOKUP :: "(u32 \<Rightarrow> u32) \<Rightarrow> (addr \<Rightarrow> u32 option) \<Rightarrow> u32 \<Rightarrow> hash_table \<Rightarrow> addr option" where
  "HASH_LOOKUP hashfn hashkey key Hl =
     (let (H, l) = Hl
      in Q_FIND (\<lambda>p. Option.bind (hashkey p) (\<lambda>k. Some (sched_hashcmp key k = 0))) (H (hashfn key), l))"

section \<open>The set a table represents\<close>

definition hash_rep :: "(u32 \<Rightarrow> u32) \<Rightarrow> (addr \<Rightarrow> u32) \<Rightarrow> hash_table \<Rightarrow> addr set \<Rightarrow> bool" where
  "hash_rep hashfn key Hl S \<longleftrightarrow>
     (\<exists>B. \<forall>i. q_rep (fst Hl i, snd Hl) (B i) \<and> set (B i) = {p \<in> S. hashfn (key p) = i})"

lemma hash_rep_null: "hash_rep hashfn key Hl S \<Longrightarrow> NULL \<notin> S"
  unfolding hash_rep_def using q_rep_null by fastforce

lemma HASH_INIT_rep: "hash_rep hashfn key (HASH_INIT l) {}"
  unfolding hash_rep_def by (rule exI[of _ "\<lambda>_. []"]) (simp add: HASH_INIT_def q_rep_def)

lemma HASH_INSERT_rep:
  assumes rep: "hash_rep hashfn key Hl S" and p: "p \<noteq> NULL" "p \<notin> S"
  shows "hash_rep hashfn key (HASH_INSERT hashfn (key p) p Hl) (insert p S)"
proof -
  obtain H l where Hl: "Hl = (H, l)" by fastforce
  obtain B where B: "\<And>i. q_rep (H i, l) (B i)" "\<And>i. set (B i) = {q \<in> S. hashfn (key q) = i}"
    using rep unfolding hash_rep_def Hl by auto
  let ?i = "hashfn (key p)"
  obtain h' l' where ins: "Q_INSERT_TAIL p (H ?i, l) = (h', l')" by fastforce
  have pB: "p \<notin> set (B j)" for j using B(2)[of j] p(2) by auto
  have own: "q_rep (h', l') (B ?i @ [p])"
    using Q_INSERT_TAIL_rep[OF B(1) p(1) pB, of ?i] ins by simp
  have other: "q_rep (H j, l') (B j)" if "j \<noteq> ?i" for j
  proof -
    have "set (B ?i) \<inter> set (B j) = {}" using B(2) that by auto
    then show ?thesis using vq.other_ins_tail[OF B(1) B(1) _ pB, of ?i j] ins by simp
  qed
  show ?thesis
    unfolding hash_rep_def
    by (rule exI[of _ "B(?i := B ?i @ [p])"])
       (auto simp: HASH_INSERT_def Hl ins own other B(2) p(2))
qed

lemma HASH_REMOVE_rep:
  assumes rep: "hash_rep hashfn key Hl S" and p: "p \<in> S"
  shows "hash_rep hashfn key (HASH_REMOVE hashfn (key p) p Hl) (S - {p})"
proof -
  obtain H l where Hl: "Hl = (H, l)" by fastforce
  obtain B where B: "\<And>i. q_rep (H i, l) (B i)" "\<And>i. set (B i) = {q \<in> S. hashfn (key q) = i}"
    using rep unfolding hash_rep_def Hl by auto
  let ?i = "hashfn (key p)"
  obtain h' l' where del: "Q_REMOVE p (H ?i, l) = (h', l')" by fastforce
  have pB: "p \<in> set (B ?i)" using B(2) p by auto
  have own: "q_rep (h', l') (remove1 p (B ?i))"
    using vq.rep_del[OF B(1) pB] del by simp
  have other: "q_rep (H j, l') (B j)" if "j \<noteq> ?i" for j
  proof -
    have "set (B ?i) \<inter> set (B j) = {}" using B(2) that by auto
    then show ?thesis using vq.other_del[OF B(1) B(1) _ pB, of j] del by simp
  qed
  have "set (remove1 p (B ?i)) = set (B ?i) - {p}"
    using q_rep_distinct[OF B(1)] by simp
  then show ?thesis
    unfolding hash_rep_def
    by (intro exI[of _ "B(?i := remove1 p (B ?i))"])
       (auto simp: HASH_REMOVE_def Hl del own other B(2))
qed

lemma sched_hashcmp_eq: "sched_hashcmp k k' = 0 \<longleftrightarrow> k = k'"
  by (simp add: sched_hashcmp_def)

lemma HASH_LOOKUP_rep:
  assumes rep: "hash_rep hashfn key Hl S" and live: "\<And>p. p \<in> S \<Longrightarrow> hashkey p = Some (key p)"
  shows "\<exists>p. HASH_LOOKUP hashfn hashkey k Hl = Some p \<and>
    (if p = NULL then \<forall>q\<in>S. key q \<noteq> k else p \<in> S \<and> key p = k)"
proof -
  obtain H l where Hl: "Hl = (H, l)" by fastforce
  obtain B where B: "\<And>i. q_rep (H i, l) (B i)" "\<And>i. set (B i) = {q \<in> S. hashfn (key q) = i}"
    using rep unfolding hash_rep_def Hl by auto
  let ?xs = "B (hashfn k)"
  have "HASH_LOOKUP hashfn hashkey k Hl =
      list_find (\<lambda>p. Option.bind (hashkey p) (\<lambda>k'. Some (sched_hashcmp k k' = 0))) ?xs"
    by (simp add: HASH_LOOKUP_def Hl Q_FIND_rep[OF B(1)])
  also have "\<dots> = Some (case List.find (\<lambda>p. key p = k) ?xs of None \<Rightarrow> NULL | Some x \<Rightarrow> x)"
    by (rule list_find_total) (use B(2) live in \<open>auto simp: sched_hashcmp_eq\<close>)
  finally have eq: "HASH_LOOKUP hashfn hashkey k Hl = \<dots>" .
  have nn: "NULL \<notin> S" by (rule hash_rep_null[OF rep])
  show ?thesis
  proof (cases "List.find (\<lambda>p. key p = k) ?xs")
    case None
    then have "\<forall>q\<in>S. key q \<noteq> k" using B(2) by (auto simp: find_None_iff)
    with None eq show ?thesis by simp
  next
    case (Some q)
    then have "q \<in> set ?xs" "key q = k" by (auto simp: find_Some_iff)
    then have "q \<in> S" "key q = k" using B(2) by auto
    with Some eq nn show ?thesis by auto
  qed
qed

section \<open>The contract of a lookup table\<close>

text \<open>What the kernel needs of a table of objects with identifiers.  The client lemmas are those
  of a finite map from identifiers to objects as long as no two objects share an identifier.\<close>

locale lookup_table =
  fixes rep :: "'t \<Rightarrow> 'e set \<Rightarrow> bool"
    and key :: "'e \<Rightarrow> 'k"
    and ins :: "'e \<Rightarrow> 't \<Rightarrow> 't"
    and del :: "'e \<Rightarrow> 't \<Rightarrow> 't"
    and lookup :: "'k \<Rightarrow> 't \<Rightarrow> 'e option"
    and null :: 'e
  assumes rep_null: "rep t S \<Longrightarrow> null \<notin> S"
    and rep_ins: "rep t S \<Longrightarrow> p \<noteq> null \<Longrightarrow> p \<notin> S \<Longrightarrow> rep (ins p t) (insert p S)"
    and rep_del: "rep t S \<Longrightarrow> p \<in> S \<Longrightarrow> rep (del p t) (S - {p})"
    and rep_lookup: "rep t S \<Longrightarrow>
      \<exists>p. lookup k t = Some p \<and> (if p = null then \<forall>q\<in>S. key q \<noteq> k else p \<in> S \<and> key p = k)"
begin

lemma lookup_hit:
  assumes "rep t S" "inj_on key S" "p \<in> S"
  shows "lookup (key p) t = Some p"
proof -
  obtain q where q: "lookup (key p) t = Some q" "if q = null then \<forall>r\<in>S. key r \<noteq> key p else q \<in> S \<and> key q = key p"
    using rep_lookup[OF assms(1)] by blast
  then have "q \<noteq> null" using assms(3) by (auto split: if_splits)
  then show ?thesis using q assms(2,3) by (auto simp: inj_on_def)
qed

lemma lookup_miss:
  assumes "rep t S" "\<And>q. q \<in> S \<Longrightarrow> key q \<noteq> k"
  shows "lookup k t = Some null"
proof -
  obtain q where q: "lookup k t = Some q" "if q = null then \<forall>r\<in>S. key r \<noteq> k else q \<in> S \<and> key q = k"
    using rep_lookup[OF assms(1)] by blast
  then show ?thesis using assms(2) by (auto split: if_splits)
qed

lemma lookup_ins:
  assumes "rep t S" "inj_on key S" "p \<noteq> null" "p \<notin> S" "\<And>q. q \<in> S \<Longrightarrow> key q \<noteq> key p"
  shows "lookup k (ins p t) = (if k = key p then Some p else lookup k t)"
proof -
  have r: "rep (ins p t) (insert p S)" by (rule rep_ins[OF assms(1,3,4)])
  have u: "inj_on key (insert p S)" using assms(2,5) unfolding inj_on_def by (metis insertE)
  show ?thesis
  proof (cases "\<exists>q\<in>insert p S. key q = k")
    case True
    then obtain q where "q \<in> insert p S" "key q = k" by blast
    then show ?thesis
      using lookup_hit[OF r u, of q] lookup_hit[OF assms(1,2), of q] assms(5) by auto
  next
    case False
    then show ?thesis
      using lookup_miss[OF r, of k] lookup_miss[OF assms(1), of k] by auto
  qed
qed

lemma lookup_del:
  assumes "rep t S" "inj_on key S" "p \<in> S"
  shows "lookup k (del p t) = (if k = key p then Some null else lookup k t)"
proof -
  have r: "rep (del p t) (S - {p})" by (rule rep_del[OF assms(1,3)])
  have u: "inj_on key (S - {p})" using assms(2) by (auto simp: inj_on_def)
  show ?thesis
  proof (cases "\<exists>q\<in>S - {p}. key q = k")
    case True
    then obtain q where q: "q \<in> S - {p}" "key q = k" by blast
    then have "k \<noteq> key p" using assms(2,3) by (auto simp: inj_on_def)
    then show ?thesis
      using lookup_hit[OF r u q(1)] lookup_hit[OF assms(1,2), of q] q by auto
  next
    case False
    then have d: "lookup k (del p t) = Some null" using lookup_miss[OF r, of k] by blast
    show ?thesis
    proof (cases "k = key p")
      case False
      then have "key q \<noteq> k" if "q \<in> S" for q using that \<open>\<not> (\<exists>q\<in>S - {p}. key q = k)\<close> by blast
      then show ?thesis using lookup_miss[OF assms(1), of k] d False by simp
    qed (use d in simp)
  qed
qed

end

lemma HASH_LOOKUP_cong:
  assumes "hash_rep hashfn key Hl S" "\<And>p. p \<in> S \<Longrightarrow> hashkey p = Some (key p)"
  shows "HASH_LOOKUP hashfn hashkey k Hl = HASH_LOOKUP hashfn (\<lambda>p. Some (key p)) k Hl"
proof -
  obtain H l where Hl: "Hl = (H, l)" by fastforce
  obtain B where B: "\<And>i. q_rep (H i, l) (B i)" "\<And>i. set (B i) = {q \<in> S. hashfn (key q) = i}"
    using assms(1) unfolding hash_rep_def Hl by auto
  have "list_find (\<lambda>p. Option.bind (hashkey p) (\<lambda>k'. Some (sched_hashcmp k k' = 0))) (B (hashfn k)) =
      Some (case List.find (\<lambda>p. key p = k) (B (hashfn k)) of None \<Rightarrow> NULL | Some x \<Rightarrow> x)"
    by (rule list_find_total) (use B(2) assms(2) in \<open>auto simp: sched_hashcmp_eq\<close>)
  moreover have "list_find (\<lambda>p. Option.bind (Some (key p)) (\<lambda>k'. Some (sched_hashcmp k k' = 0))) (B (hashfn k)) =
      Some (case List.find (\<lambda>p. key p = k) (B (hashfn k)) of None \<Rightarrow> NULL | Some x \<Rightarrow> x)"
    by (rule list_find_total) (auto simp: sched_hashcmp_eq)
  ultimately show ?thesis by (simp add: HASH_LOOKUP_def Hl Q_FIND_rep[OF B(1)])
qed

text \<open>The two tables of the scheduler, for any assignment of identifiers to objects.\<close>

interpretation task_map: lookup_table "hash_rep sched_task_hashfn key" key
  "\<lambda>p. HASH_INSERT sched_task_hashfn (key p) p" "\<lambda>p. HASH_REMOVE sched_task_hashfn (key p) p"
  "HASH_LOOKUP sched_task_hashfn (\<lambda>p. Some (key p))" NULL for key
  by unfold_locales
     (rule hash_rep_null HASH_INSERT_rep HASH_REMOVE_rep HASH_LOOKUP_rep; simp)+

interpretation thread_map: lookup_table "hash_rep sched_thread_hashfn key" key
  "\<lambda>p. HASH_INSERT sched_thread_hashfn (key p) p" "\<lambda>p. HASH_REMOVE sched_thread_hashfn (key p) p"
  "HASH_LOOKUP sched_thread_hashfn (\<lambda>p. Some (key p))" NULL for key
  by unfold_locales
     (rule hash_rep_null HASH_INSERT_rep HASH_REMOVE_rep HASH_LOOKUP_rep; simp)+

lemma task_hashfn_bound: "unat (sched_task_hashfn ident) < 8192"
proof -
  have "sched_task_hashfn ident = take_bit 13 (jenkins_hash ident)"
    by (simp only: sched_task_hashfn_def TASK_MAP_SIZE_def take_bit_eq_mask) (simp add: mask_eq_decr_exp)
  then have "unat (sched_task_hashfn ident) = take_bit 13 (unat (jenkins_hash ident))"
    by (simp only: unsigned_take_bit_eq)
  then show ?thesis by (simp add: take_bit_eq_mod)
qed

end
