(* ===== verification/Sched.thy ===== *)
theory Sched
  imports Vmm Variable_Hash
begin

text \<open>
  Reference counts of threads (\<^verbatim>\<open>kern/thread.c\<close>) and the scheduler (\<^verbatim>\<open>kern/sched.c\<close>): the tables of
  tasks and threads, the run, sleep and done queues, choosing the next thread, waiting and
  waking up.

  A context switch leaves the model through \<open>do_context_switch\<close> of the environment and comes
  back in the state the environment returns; what other threads do meanwhile is the environment's.
\<close>

section \<open>Reference counts of threads\<close>

definition thread_get :: "addr \<Rightarrow> kstate \<Rightarrow> kstate option" where
  "thread_get t s = upd_thread t (\<lambda>th. th\<lparr>count := count th + 1\<rparr>) s"

text \<open>\<open>thread_put\<close> and \<open>thread_free\<close> are mutually recursive through the parent thread;
  \<open>thread_put_rec\<close> states the recursion of the source.\<close>

partial_function (option) thread_put :: "kern_env \<Rightarrow> addr \<Rightarrow> kstate \<Rightarrow> kstate option" where
  "thread_put E t s =
     Option.bind (upd_thread t (\<lambda>th. th\<lparr>count := count th - 1\<rparr>) s) (\<lambda>s.
     Option.bind (threads s t) (\<lambda>th.
       if count th < 0 then None
       else if count th = 0 then
         Option.bind (if vma_kernel_stack th \<noteq> NULL then vm_area_put E (vma_kernel_stack th) s else Some s) (\<lambda>s.
         Option.bind (if vma_user_stack th \<noteq> NULL
                      then Option.bind (vm_area_put E (vma_user_stack th) s)
                             (upd_thread t (\<lambda>th. th\<lparr>vma_user_stack := NULL\<rparr>))
                      else Some s) (\<lambda>s.
         Option.bind (if parent th \<noteq> NULL then thread_put E (parent th) s else Some s) (\<lambda>s.
         Option.bind (if parent_task th \<noteq> NULL then task_put E (parent_task th) s else Some s) (\<lambda>s.
           Some (s\<lparr>threads := (threads s)(t := None)\<rparr>)))))
       else Some s))"

definition thread_free :: "kern_env \<Rightarrow> addr \<Rightarrow> kstate \<Rightarrow> kstate option" where
  "thread_free E t s =
     do { th \<leftarrow> threads s t;
          s \<leftarrow> (if vma_kernel_stack th \<noteq> NULL then vm_area_put E (vma_kernel_stack th) s else Some s);
          s \<leftarrow> (if vma_user_stack th \<noteq> NULL
                 then do { s \<leftarrow> vm_area_put E (vma_user_stack th) s;
                           upd_thread t (\<lambda>th. th\<lparr>vma_user_stack := NULL\<rparr>) s }
                 else Some s);
          s \<leftarrow> (if parent th \<noteq> NULL then thread_put E (parent th) s else Some s);
          s \<leftarrow> (if parent_task th \<noteq> NULL then task_put E (parent_task th) s else Some s);
          Some (s\<lparr>threads := (threads s)(t := None)\<rparr>) }"

lemma thread_put_rec:
  "thread_put E t s =
     do { s \<leftarrow> upd_thread t (\<lambda>th. th\<lparr>count := count th - 1\<rparr>) s;
          th \<leftarrow> threads s t;
          if count th < 0 then None else if count th = 0 then thread_free E t s else Some s }"
  by (subst thread_put.simps)
     (auto simp: thread_free_def upd_thread_def intro!: arg_cong2[where f = Option.bind]
       split: Option.bind_splits)

section \<open>The tables of tasks and threads\<close>

definition task_hashkey :: "kstate \<Rightarrow> addr \<Rightarrow> u32 option" where
  "task_hashkey s p = map_option task_id (tasks s p)"

definition thread_hashkey :: "kstate \<Rightarrow> addr \<Rightarrow> u32 option" where
  "thread_hashkey s p = map_option thread_id (threads s p)"

definition sched_add_task :: "addr \<Rightarrow> kstate \<Rightarrow> kstate option" where
  "sched_add_task t s =
     do { s \<leftarrow> task_get t s;
          T \<leftarrow> tasks s t;
          let (H, l) = HASH_INSERT sched_task_hashfn (task_id T) t (task_hash s, taskmap_link s);
          Some (s\<lparr>task_hash := H, taskmap_link := l\<rparr>) }"

definition sched_find_task :: "u32 \<Rightarrow> kstate \<Rightarrow> addr option" where
  "sched_find_task taskid s =
     HASH_LOOKUP sched_task_hashfn (task_hashkey s) taskid (task_hash s, taskmap_link s)"

definition sched_remove_task :: "kern_env \<Rightarrow> addr \<Rightarrow> kstate \<Rightarrow> kstate option" where
  "sched_remove_task E t s =
     do { T \<leftarrow> tasks s t;
          let (H, l) = HASH_REMOVE sched_task_hashfn (task_id T) t (task_hash s, taskmap_link s);
          task_put E t (s\<lparr>task_hash := H, taskmap_link := l\<rparr>) }"

definition sched_add_thread :: "addr \<Rightarrow> kstate \<Rightarrow> kstate option" where
  "sched_add_thread t s =
     do { s \<leftarrow> thread_get t s;
          th \<leftarrow> threads s t;
          let (H, l) = HASH_INSERT sched_thread_hashfn (thread_id th) t (thread_hash s, threadmap_link s);
          Some (s\<lparr>thread_hash := H, threadmap_link := l\<rparr>) }"

definition sched_find_thread :: "u32 \<Rightarrow> kstate \<Rightarrow> addr option" where
  "sched_find_thread tid s =
     HASH_LOOKUP sched_thread_hashfn (thread_hashkey s) tid (thread_hash s, threadmap_link s)"

definition sched_remove_thread :: "kern_env \<Rightarrow> addr \<Rightarrow> kstate \<Rightarrow> kstate option" where
  "sched_remove_thread E t s =
     do { th \<leftarrow> threads s t;
          let (H, l) = HASH_REMOVE sched_thread_hashfn (thread_id th) t (thread_hash s, threadmap_link s);
          thread_put E t (s\<lparr>thread_hash := H, threadmap_link := l\<rparr>) }"

section \<open>The queues\<close>

definition sched_remove_runnable_thread :: "kern_env \<Rightarrow> addr \<Rightarrow> kstate \<Rightarrow> kstate option" where
  "sched_remove_runnable_thread E t s = thread_put E t (runnable_op (Q_REMOVE t) s)"

definition sched_add_runnable_thread :: "addr \<Rightarrow> kstate \<Rightarrow> kstate option" where
  "sched_add_runnable_thread t s =
     do { s \<leftarrow> thread_get t s;
          s \<leftarrow> upd_thread t (\<lambda>th. th\<lparr>state := THREAD_STATE_RUNNABLE\<rparr>) s;
          Some (runnable_op (Q_INSERT_TAIL t) s) }"

text \<open>The sleep queue is linked through \<open>wait_link\<close> where threads go to sleep
  (\<open>sched_wait_on\<close>), but these two functions use \<open>runnable_link\<close> on it.\<close>

definition sched_remove_waiting_thread :: "kern_env \<Rightarrow> addr \<Rightarrow> kstate \<Rightarrow> kstate option" where
  "sched_remove_waiting_thread E t s =
     (let (h, l) = Q_REMOVE t (sched_sleep_queue s, runnable_link s)
      in thread_put E t (s\<lparr>sched_sleep_queue := h, runnable_link := l\<rparr>))"

definition sched_add_waiting_thread :: "addr \<Rightarrow> kstate \<Rightarrow> kstate option" where
  "sched_add_waiting_thread t s =
     do { s \<leftarrow> thread_get t s;
          s \<leftarrow> upd_thread t (\<lambda>th. th\<lparr>state := THREAD_STATE_RUNNABLE\<rparr>) s;
          let (h, l) = Q_INSERT_TAIL t (sched_sleep_queue s, runnable_link s);
          Some (s\<lparr>sched_sleep_queue := h, runnable_link := l\<rparr>) }"

definition sched_remove_done_thread :: "kern_env \<Rightarrow> addr \<Rightarrow> kstate \<Rightarrow> kstate option" where
  "sched_remove_done_thread E t s = thread_put E t (done_op (Q_REMOVE t) s)"

definition sched_add_done_thread :: "addr \<Rightarrow> kstate \<Rightarrow> kstate option" where
  "sched_add_done_thread t s =
     do { s \<leftarrow> thread_get t s;
          s \<leftarrow> upd_thread t (\<lambda>th. th\<lparr>state := THREAD_STATE_DONE\<rparr>) s;
          Some (done_op (Q_INSERT_TAIL t) s) }"

section \<open>Waking up\<close>

text \<open>The wait lists a thread can be on: the sleep queue and the two lists of a thread.\<close>

datatype wait_queue = Sleep_queue | Wait_list addr | Self_wait_list addr

definition get_wait_head :: "wait_queue \<Rightarrow> kstate \<Rightarrow> qhead option" where
  "get_wait_head q s =
     (case q of
        Sleep_queue \<Rightarrow> Some (sched_sleep_queue s)
      | Wait_list t \<Rightarrow> map_option wait_list (threads s t)
      | Self_wait_list t \<Rightarrow> map_option self_wait_list (threads s t))"

definition set_wait_head :: "wait_queue \<Rightarrow> qhead \<Rightarrow> kstate \<Rightarrow> kstate option" where
  "set_wait_head q h s =
     (case q of
        Sleep_queue \<Rightarrow> Some (s\<lparr>sched_sleep_queue := h\<rparr>)
      | Wait_list t \<Rightarrow> upd_thread t (\<lambda>th. th\<lparr>wait_list := h\<rparr>) s
      | Self_wait_list t \<Rightarrow> upd_thread t (\<lambda>th. th\<lparr>self_wait_list := h\<rparr>) s)"

definition wait_list_op :: "wait_queue \<Rightarrow> (qhead \<times> links \<Rightarrow> qhead \<times> links) \<Rightarrow> kstate \<Rightarrow> kstate option" where
  "wait_list_op q f s =
     do { h \<leftarrow> get_wait_head q s;
          let (h, l) = f (h, wait_link s);
          set_wait_head q h (s\<lparr>wait_link := l\<rparr>) }"

definition kernel_getticks :: "kstate \<Rightarrow> u32" where
  "kernel_getticks s = numTicks s"

text \<open>One thread of the list: woken if its deadline is not in the future.\<close>

definition wakeup_thread :: "wait_queue \<Rightarrow> u32 \<Rightarrow> addr \<Rightarrow> kstate \<Rightarrow> kstate option" where
  "wakeup_thread q ticks curpos s =
     do { c \<leftarrow> threads s curpos;
          if sint (deadline c) \<le> sint ticks then
            do { s \<leftarrow> wait_list_op q (Q_REMOVE curpos) s;
                 if state c = THREAD_STATE_WAITING then
                   do { s \<leftarrow> upd_thread curpos (\<lambda>th. th\<lparr>state := THREAD_STATE_RUNNABLE\<rparr>) s;
                        Some (runnable_op (Q_INSERT_FRONT curpos) s) }
                 else Some (done_op (Q_INSERT_TAIL curpos) s) }
          else Some s }"

partial_function (option) wakeup_loop :: "wait_queue \<Rightarrow> u32 \<Rightarrow> addr \<Rightarrow> kstate \<Rightarrow> kstate option" where
  "wakeup_loop q ticks curpos s =
     (if curpos = NULL then Some s
      else let nextpos = Q_GET_NEXT curpos (wait_link s)
           in Option.bind (wakeup_thread q ticks curpos s) (wakeup_loop q ticks nextpos))"

definition sched_wakeup_threads :: "wait_queue \<Rightarrow> kstate \<Rightarrow> kstate option" where
  "sched_wakeup_threads q s =
     do { h \<leftarrow> get_wait_head q s;
          wakeup_loop q (kernel_getticks s) (Q_GET_FRONT h) s }"

definition sched_scan_sleep_queue :: "kstate \<Rightarrow> kstate option" where
  "sched_scan_sleep_queue s = sched_wakeup_threads Sleep_queue s"

section \<open>Choosing the next thread\<close>

text \<open>Step 1 of \<open>sched_yield\<close>: the current thread goes to the back of its queue.\<close>

definition sched_requeue_current :: "kstate \<Rightarrow> kstate option" where
  "sched_requeue_current s =
     (let old_thread = current_thread s
      in if old_thread = NULL then Some (s\<lparr>kernel_booting := True\<rparr>)
         else if old_thread \<noteq> sched_idle_thread s then
           do { th \<leftarrow> threads s old_thread;
                if state th = THREAD_STATE_RUNNABLE then
                  Some (runnable_op (\<lambda>hl. Q_INSERT_TAIL old_thread (Q_REMOVE old_thread hl)) s)
                else if state th = THREAD_STATE_DONE then
                  Some (done_op (Q_INSERT_TAIL old_thread) (runnable_op (Q_REMOVE old_thread) s))
                else Some s }
         else Some s)"

text \<open>Step 2: threads that are not runnable are moved from the front of the run queue to the done
  queue until a runnable one is found; the idle thread runs when there is none.\<close>

partial_function (option) sched_pick :: "kstate \<Rightarrow> (addr \<times> kstate) option" where
  "sched_pick s =
     (let new_thread = Q_GET_FRONT (sched_runnable_queue s)
      in if new_thread = NULL then Some (sched_idle_thread s, s)
         else Option.bind (threads s new_thread) (\<lambda>th.
           if state th \<noteq> THREAD_STATE_RUNNABLE
           then sched_pick (done_op (Q_INSERT_TAIL new_thread) (runnable_op (Q_REMOVE new_thread) s))
           else Some (new_thread, s)))"

text \<open>Step 3 of \<open>sched_yield\<close>, \<open>sched_thread_yield\<close>.\<close>

definition sched_thread_yield :: "kern_env \<Rightarrow> addr \<Rightarrow> addr \<Rightarrow> kstate \<Rightarrow> kstate option" where
  "sched_thread_yield E new_thread old_thread s =
     (let s = s\<lparr>current_thread := new_thread\<rparr>
      in if new_thread \<noteq> old_thread then
           do { th \<leftarrow> threads s new_thread;
                T \<leftarrow> tasks s (parent_task th);
                do_context_switch E old_thread new_thread s }
         else Some s)"

text \<open>Step 4: the done queue is emptied, then sleeping threads are woken.\<close>

partial_function (option) sched_reap_done :: "kern_env \<Rightarrow> addr \<Rightarrow> kstate \<Rightarrow> kstate option" where
  "sched_reap_done E old_thread s =
     (if old_thread = NULL then Some s
      else let next_thread = Q_GET_NEXT old_thread (runnable_link s)
           in Option.bind (sched_remove_done_thread E old_thread s) (sched_reap_done E next_thread))"

definition sched_yield :: "kern_env \<Rightarrow> kstate \<Rightarrow> kstate option" where
  "sched_yield E s =
     (let old_thread = current_thread s
      in do {
        s \<leftarrow> sched_requeue_current s;
        (new_thread, s) \<leftarrow> sched_pick s;
        s \<leftarrow> sched_thread_yield E new_thread old_thread s;
        s \<leftarrow> sched_reap_done E (Q_GET_FRONT (sched_done_queue s)) s;
        sched_scan_sleep_queue s
      })"

section \<open>Waiting\<close>

text \<open>\<open>sched_block\<close> is what happens to a thread that waits before the scheduler runs.\<close>

definition sched_block :: "wait_queue \<Rightarrow> u32 \<Rightarrow> addr \<Rightarrow> kstate \<Rightarrow> kstate option" where
  "sched_block q ticks t s =
     do { s \<leftarrow> upd_thread t (\<lambda>th. th\<lparr>deadline := kernel_getticks s + ticks, state := THREAD_STATE_WAITING\<rparr>) s;
          let s = runnable_op (Q_REMOVE t) s;
          wait_list_op q (Q_INSERT_TAIL t) s }"

definition sched_wait_on :: "kern_env \<Rightarrow> wait_queue \<Rightarrow> u32 \<Rightarrow> addr \<Rightarrow> kstate \<Rightarrow> kstate option" where
  "sched_wait_on E q ticks t s =
     do { th \<leftarrow> threads s t;
          if state th \<noteq> THREAD_STATE_RUNNABLE then Some s
          else do { s \<leftarrow> sched_block q ticks t s; sched_yield E s } }"

definition sched_sleep :: "kern_env \<Rightarrow> addr \<Rightarrow> u32 \<Rightarrow> kstate \<Rightarrow> kstate option" where
  "sched_sleep E t ticks s = sched_wait_on E Sleep_queue ticks t s"

section \<open>Thread state, locks and the timer\<close>

definition sched_save_thread_user_state :: "u32 \<Rightarrow> u32 \<Rightarrow> u32 \<Rightarrow> u32 \<Rightarrow> kstate \<Rightarrow> kstate option" where
  "sched_save_thread_user_state ip sp bp fl s =
     upd_thread (current_thread s) (\<lambda>th. th\<lparr>eip := ip, esp := sp, ebp := bp, eflags := fl\<rparr>) s"

definition sched_save_thread_kernel_state :: "addr \<Rightarrow> u32 \<Rightarrow> kstate \<Rightarrow> kstate option" where
  "sched_save_thread_kernel_state old_thread kesp s =
     do { s \<leftarrow> (if \<not> kernel_booting s \<and> old_thread \<noteq> NULL
                 then upd_thread old_thread (\<lambda>th. th\<lparr>kernel_esp := kesp\<rparr>) s else Some s);
          Some (s\<lparr>kernel_booting := False\<rparr>) }"

definition sched_save_kernel_esp0 :: "kern_env \<Rightarrow> kstate \<Rightarrow> kstate option" where
  "sched_save_kernel_esp0 E s =
     do { th \<leftarrow> threads s (current_thread s);
          if HYPERVISOR_stack_switch E (kernel_esp0 th) = 0 then Some s else None }"

definition sched_set_user_pgdir :: "kern_env \<Rightarrow> kstate \<Rightarrow> kstate option" where
  "sched_set_user_pgdir E s =
     do { th \<leftarrow> threads s (current_thread s);
          T \<leftarrow> tasks s (parent_task th);
          vmm_set_user_pgdir (xen E) (page_dir T) s }"

text \<open>\<open>kernel_lock\<close> is true while the lock is held.  Spinning on a held lock does not end as long
  as nobody else runs.\<close>

definition trylock_kernel :: "kstate \<Rightarrow> bool \<times> kstate" where
  "trylock_kernel s = (if kernel_lock s then (False, s) else (True, s\<lparr>kernel_lock := True\<rparr>))"

definition lock_kernel :: "kstate \<Rightarrow> kstate option" where
  "lock_kernel s = (if kernel_lock s then None else Some (s\<lparr>kernel_lock := True\<rparr>))"

definition unlock_kernel :: "kstate \<Rightarrow> kstate" where
  "unlock_kernel s = s\<lparr>kernel_lock := False\<rparr>"

definition sched_bottom_half :: "kern_env \<Rightarrow> kstate \<Rightarrow> kstate option" where
  "sched_bottom_half E s =
     (let (rc, s) = trylock_kernel s
      in if \<not> rc then Some s
         else if current_thread s = NULL then Some s
         else do {
           s \<leftarrow> sched_yield E s;
           s \<leftarrow> sched_save_kernel_esp0 E s;
           Some (unlock_kernel s) })"

definition TIMER_INTERRUPT_HZ :: u32 where "TIMER_INTERRUPT_HZ = 100"

definition kernel_tick :: "u32 \<Rightarrow> kstate \<Rightarrow> kstate" where
  "kernel_tick numTick s =
     (let s = (if numTicks s mod TIMER_INTERRUPT_HZ = 0 then s\<lparr>numSeconds := numSeconds s + 1\<rparr> else s)
      in s\<lparr>numTicks := numTick\<rparr>)"

definition kernel_getseconds :: "kstate \<Rightarrow> u32" where
  "kernel_getseconds s = numSeconds s"

end
