(* ===== verification/Scheduling.thy ===== *)
theory Scheduling
  imports Sched Page_Map
begin

text \<open>
  What the scheduler promises, stated over lists of threads: which thread is chosen and what
  happens to the run queue and the done queue (\<open>sched_yield\<close> up to the switch), that every
  runnable thread gets its turn, which sleeping threads wake up, and that the tables find a
  thread by its identifier.
\<close>

section \<open>A quiet machine\<close>

text \<open>One program, \<^verbatim>\<open>i\<close>, and a context switch after which the old thread continues at once.\<close>

definition quiet_env :: kern_env where
  "quiet_env =
     \<lparr>xen = linear_xen, exec2obj_userapp_TOC = [\<lparr>execname = [105], execbytes = [10, 11, 12, 13]\<rparr>],
      do_context_switch = (\<lambda>old new s. Some s), exit_kernel = 0x100000, HYPERVISOR_stack_switch = (\<lambda>esp0. 0)\<rparr>"

section \<open>The queues as lists\<close>

definition tstate :: "kstate \<Rightarrow> addr \<Rightarrow> thread_state" where
  "tstate s t = state (the (threads s t))"

definition queues :: "kstate \<Rightarrow> addr list \<Rightarrow> addr list \<Rightarrow> bool" where
  "queues s xs ys \<longleftrightarrow>
     q_rep (sched_runnable_queue s, runnable_link s) xs \<and> q_rep (sched_done_queue s, runnable_link s) ys \<and>
     set xs \<inter> set ys = {} \<and> (\<forall>t \<in> set xs \<union> set ys. threads s t \<noteq> None)"

text \<open>The parts of the state the queue operations leave alone.\<close>

definition same_but_queues :: "kstate \<Rightarrow> kstate \<Rightarrow> bool" where
  "same_but_queues s s' \<longleftrightarrow>
     (\<exists>r d l b. s' = s\<lparr>sched_runnable_queue := r, sched_done_queue := d, runnable_link := l, kernel_booting := b\<rparr>)"

lemma same_but_queues_refl: "same_but_queues s s"
  unfolding same_but_queues_def
  by (rule exI[of _ "sched_runnable_queue s"], rule exI[of _ "sched_done_queue s"],
      rule exI[of _ "runnable_link s"], rule exI[of _ "kernel_booting s"]) simp

lemma same_but_queues_trans:
  "same_but_queues s1 s2 \<Longrightarrow> same_but_queues s2 s3 \<Longrightarrow> same_but_queues s1 s3"
  unfolding same_but_queues_def by fastforce

lemma same_but_queues_fields:
  assumes "same_but_queues s s'"
  shows "threads s' = threads s" "tstate s' = tstate s" "tasks s' = tasks s"
    "sched_idle_thread s' = sched_idle_thread s" "current_thread s' = current_thread s"
    "sched_sleep_queue s' = sched_sleep_queue s" "wait_link s' = wait_link s"
  using assms by (auto simp: same_but_queues_def tstate_def fun_eq_iff)

lemma queuesE:
  assumes "queues s xs ys"
  obtains "q_rep (sched_runnable_queue s, runnable_link s) xs"
    "q_rep (sched_done_queue s, runnable_link s) ys" "set xs \<inter> set ys = {}"
    "\<And>t. t \<in> set xs \<Longrightarrow> threads s t \<noteq> None" "\<And>t. t \<in> set ys \<Longrightarrow> threads s t \<noteq> None"
  using assms by (auto simp: queues_def)

lemma queues_distinct: "queues s xs ys \<Longrightarrow> distinct xs"
  unfolding queues_def by (auto intro: q_rep_distinct)

text \<open>Moving a thread of the run queue to its end, and to the done queue.\<close>

lemma run_requeue:
  assumes "queues s xs ys" "t \<in> set xs"
  defines "s' \<equiv> runnable_op (\<lambda>hl. Q_INSERT_TAIL t (Q_REMOVE t hl)) s"
  shows "queues s' (remove1 t xs @ [t]) ys" "same_but_queues s s'"
proof -
  obtain h1 l1 where r: "Q_REMOVE t (sched_runnable_queue s, runnable_link s) = (h1, l1)" by fastforce
  obtain h2 l2 where i: "Q_INSERT_TAIL t (h1, l1) = (h2, l2)" by fastforce
  have s': "s' = s\<lparr>sched_runnable_queue := h2, runnable_link := l2\<rparr>"
    by (simp add: s'_def runnable_op_def r i)
  have q: "q_rep (sched_runnable_queue s, runnable_link s) xs" "q_rep (sched_done_queue s, runnable_link s) ys"
    "set xs \<inter> set ys = {}"
    using assms(1) by (auto simp: queues_def)
  have t: "t \<notin> set ys" using q(3) assms(2) by auto
  have q1: "q_rep (h1, l1) (remove1 t xs)" using vq.rep_del[OF q(1) assms(2)] r by simp
  have d1: "q_rep (sched_done_queue s, l1) ys" using vq.other_del[OF q assms(2)] r by simp
  have sub: "set (remove1 t xs) \<inter> set ys = {}" using q(3) set_remove1_subset[of t xs] by blast
  have "q_rep (sched_done_queue s, l2) ys" using vq.other_ins_tail[OF q1 d1 sub t] i by simp
  moreover have "q_rep (h2, l2) (remove1 t xs @ [t])" using vq.requeue[OF q(1) assms(2)] r i by simp
  ultimately show "queues s' (remove1 t xs @ [t]) ys"
    using assms(1,2) sub t set_remove1_subset[of t xs] by (auto simp: queues_def s')
  show "same_but_queues s s'"
    unfolding same_but_queues_def s'
    by (rule exI[of _ h2], rule exI[of _ "sched_done_queue s"], rule exI[of _ l2],
        rule exI[of _ "kernel_booting s"]) simp
qed

lemma run_retire:
  assumes "queues s xs ys" "t \<in> set xs"
  defines "s' \<equiv> done_op (Q_INSERT_TAIL t) (runnable_op (Q_REMOVE t) s)"
  shows "queues s' (remove1 t xs) (ys @ [t])" "same_but_queues s s'"
proof -
  obtain h1 l1 where r: "Q_REMOVE t (sched_runnable_queue s, runnable_link s) = (h1, l1)" by fastforce
  obtain h2 l2 where i: "Q_INSERT_TAIL t (sched_done_queue s, l1) = (h2, l2)" by fastforce
  have s': "s' = s\<lparr>sched_runnable_queue := h1, sched_done_queue := h2, runnable_link := l2\<rparr>"
    by (simp add: s'_def runnable_op_def done_op_def r i)
  have q: "q_rep (sched_runnable_queue s, runnable_link s) xs" "q_rep (sched_done_queue s, runnable_link s) ys"
    "set xs \<inter> set ys = {}"
    using assms(1) by (auto simp: queues_def)
  have "q_rep (h1, l2) (remove1 t xs) \<and> q_rep (h2, l2) (ys @ [t])"
    by (rule vq.move_to_tail[OF q assms(2) r i])
  moreover have "t \<notin> set (remove1 t xs)" using queues_distinct[OF assms(1)] by simp
  ultimately show "queues s' (remove1 t xs) (ys @ [t])"
    using assms(1,2) q(3) set_remove1_subset[of t xs] by (auto simp: queues_def s')
  show "same_but_queues s s'"
    unfolding same_but_queues_def s'
    by (rule exI[of _ h1], rule exI[of _ h2], rule exI[of _ l2], rule exI[of _ "kernel_booting s"]) simp
qed

section \<open>Choosing a thread\<close>

text \<open>The specification: the current thread goes to the end of the queue if it can run, to the
  done queue if it has ended; then threads that cannot run are retired from the front of
  the queue until one is found that can.\<close>

definition spec_requeue :: "(addr \<Rightarrow> thread_state) \<Rightarrow> addr \<Rightarrow> addr \<Rightarrow> addr list \<times> addr list \<Rightarrow> addr list \<times> addr list" where
  "spec_requeue st cur idle = (\<lambda>(xs, ys).
     if cur = NULL \<or> cur = idle then (xs, ys)
     else case st cur of
       THREAD_STATE_RUNNABLE \<Rightarrow> (remove1 cur xs @ [cur], ys)
     | THREAD_STATE_DONE \<Rightarrow> (remove1 cur xs, ys @ [cur])
     | _ \<Rightarrow> (xs, ys))"

definition spec_pick :: "(addr \<Rightarrow> thread_state) \<Rightarrow> addr \<Rightarrow> addr list \<times> addr list \<Rightarrow> addr \<times> addr list \<times> addr list" where
  "spec_pick st idle = (\<lambda>(xs, ys).
     let dead = takeWhile (\<lambda>t. st t \<noteq> THREAD_STATE_RUNNABLE) xs;
         rest = dropWhile (\<lambda>t. st t \<noteq> THREAD_STATE_RUNNABLE) xs
     in (case rest of [] \<Rightarrow> idle | t # _ \<Rightarrow> t, rest, ys @ dead))"

lemma sched_pick_refines:
  assumes "queues s xs ys" "spec_pick (tstate s) (sched_idle_thread s) (xs, ys) = (t, xs', ys')"
  shows "\<exists>s'. sched_pick s = Some (t, s') \<and> queues s' xs' ys' \<and> same_but_queues s s'"
  using assms
proof (induction xs arbitrary: s ys)
  case Nil
  then have "Q_GET_FRONT (sched_runnable_queue s) = NULL"
    using vq.rep_front by (auto simp: queues_def)
  then show ?case using Nil same_but_queues_refl
    by (subst sched_pick.simps) (auto simp: spec_pick_def)
next
  case (Cons x xs)
  have front: "Q_GET_FRONT (sched_runnable_queue s) = x"
    using vq.rep_front[of "sched_runnable_queue s" "runnable_link s" "x # xs"] Cons.prems(1)
    by (simp add: queues_def)
  have x: "x \<noteq> NULL" using Cons.prems(1) vq.rep_null by (fastforce simp: queues_def)
  obtain th where th: "threads s x = Some th" using Cons.prems(1) by (auto simp: queues_def)
  then have st: "tstate s x = state th" by (simp add: tstate_def)
  show ?case
  proof (cases "state th = THREAD_STATE_RUNNABLE")
    case True
    then show ?thesis using Cons.prems st th x front same_but_queues_refl
      by (subst sched_pick.simps) (auto simp: spec_pick_def Let_def)
  next
    case False
    define s1 where "s1 = done_op (Q_INSERT_TAIL x) (runnable_op (Q_REMOVE x) s)"
    have q1: "queues s1 xs (ys @ [x])" and f: "same_but_queues s s1"
      using run_retire[OF Cons.prems(1), of x] unfolding s1_def by simp_all
    have "spec_pick (tstate s1) (sched_idle_thread s1) (xs, ys @ [x]) = (t, xs', ys')"
      using Cons.prems(2) False st same_but_queues_fields[OF f] by (auto simp: spec_pick_def Let_def)
    then obtain s' where s': "sched_pick s1 = Some (t, s')" "queues s' xs' ys'" "same_but_queues s1 s'"
      using Cons.IH[OF q1] by blast
    have "sched_pick s = sched_pick s1"
      using False th x front by (subst sched_pick.simps) (simp add: s1_def Let_def)
    then show ?thesis using s' same_but_queues_trans[OF f] by auto
  qed
qed

lemma sched_requeue_refines:
  assumes "queues s xs ys" "spec_requeue (tstate s) (current_thread s) (sched_idle_thread s) (xs, ys) = (xs', ys')"
    and "current_thread s \<noteq> NULL \<Longrightarrow> threads s (current_thread s) \<noteq> None"
    and "tstate s (current_thread s) \<in> {THREAD_STATE_RUNNABLE, THREAD_STATE_DONE} \<Longrightarrow> current_thread s \<noteq> NULL \<Longrightarrow>
      current_thread s \<noteq> sched_idle_thread s \<Longrightarrow> current_thread s \<in> set xs"
  shows "\<exists>s'. sched_requeue_current s = Some s' \<and> queues s' xs' ys' \<and> same_but_queues s s'"
proof (cases "current_thread s = NULL \<or> current_thread s = sched_idle_thread s")
  case True
  have "same_but_queues s (s\<lparr>kernel_booting := True\<rparr>)"
    unfolding same_but_queues_def
    by (rule exI[of _ "sched_runnable_queue s"], rule exI[of _ "sched_done_queue s"],
        rule exI[of _ "runnable_link s"], rule exI[of _ True]) simp
  moreover have "queues (s\<lparr>kernel_booting := True\<rparr>) xs ys" using assms(1) by (simp add: queues_def)
  moreover have "xs' = xs" "ys' = ys" using assms(2) True by (auto simp: spec_requeue_def)
  moreover have "sched_requeue_current s = Some (if current_thread s = NULL then s\<lparr>kernel_booting := True\<rparr> else s)"
    using True by (auto simp: sched_requeue_current_def Let_def)
  ultimately show ?thesis using assms(1) same_but_queues_refl by simp
next
  case False
  let ?t = "current_thread s"
  obtain th where th: "threads s ?t = Some th" using assms(3) False by auto
  have st: "tstate s ?t = state th" by (simp add: tstate_def th)
  show ?thesis
  proof (cases "state th")
    case THREAD_STATE_RUNNABLE
    then show ?thesis
      using run_requeue[OF assms(1), of ?t] assms(2,4) False th st
      by (auto simp: sched_requeue_current_def spec_requeue_def Let_def)
  next
    case THREAD_STATE_DONE
    then show ?thesis
      using run_retire[OF assms(1), of ?t] assms(2,4) False th st
      by (auto simp: sched_requeue_current_def spec_requeue_def Let_def)
  qed (use assms(1,2) False th st same_but_queues_refl in
        \<open>auto simp: sched_requeue_current_def spec_requeue_def Let_def\<close>)
qed


definition spec_choose :: "(addr \<Rightarrow> thread_state) \<Rightarrow> addr \<Rightarrow> addr \<Rightarrow> addr list \<times> addr list \<Rightarrow> addr \<times> addr list \<times> addr list" where
  "spec_choose st cur idle q = spec_pick st idle (spec_requeue st cur idle q)"

text \<open>The current thread, if there is one, exists, and is queued when it can run or has ended.\<close>

definition current_ok :: "kstate \<Rightarrow> addr list \<Rightarrow> bool" where
  "current_ok s xs \<longleftrightarrow> current_thread s = NULL \<or>
     threads s (current_thread s) \<noteq> None \<and>
     (current_thread s = sched_idle_thread s \<or> current_thread s \<in> set xs \<or>
      tstate s (current_thread s) \<notin> {THREAD_STATE_RUNNABLE, THREAD_STATE_DONE})"

lemma sched_choose_refines:
  assumes "queues s xs ys" "current_ok s xs"
    and "spec_choose (tstate s) (current_thread s) (sched_idle_thread s) (xs, ys) = (t, xs', ys')"
  shows "\<exists>s1 s2. sched_requeue_current s = Some s1 \<and> sched_pick s1 = Some (t, s2) \<and>
    queues s2 xs' ys' \<and> same_but_queues s s2"
proof -
  obtain xs1 ys1 where r: "spec_requeue (tstate s) (current_thread s) (sched_idle_thread s) (xs, ys) = (xs1, ys1)"
    by fastforce
  obtain s1 where s1: "sched_requeue_current s = Some s1" "queues s1 xs1 ys1" "same_but_queues s s1"
    using sched_requeue_refines[OF assms(1) r] assms(2) by (auto simp: current_ok_def)
  have "spec_pick (tstate s1) (sched_idle_thread s1) (xs1, ys1) = (t, xs', ys')"
    using assms(3) by (simp add: spec_choose_def r same_but_queues_fields[OF s1(3)])
  then obtain s2 where "sched_pick s1 = Some (t, s2)" "queues s2 xs' ys'" "same_but_queues s1 s2"
    using sched_pick_refines[OF s1(2)] by blast
  then show ?thesis using s1 same_but_queues_trans[OF s1(3)] by blast
qed

text \<open>C6: What \<open>sched_yield\<close> does before it switches is the specified choice: the current thread goes
  behind the other runnable threads (or to the done queue if it has ended), threads at the
  front that cannot run are retired in order, and the first one that can run is switched to,
  or the idle thread.  The choice always ends, and apart from the queues the switch sees the
  state as it was.\<close>

theorem sched_yield_chooses:
  assumes "queues s xs ys" "current_ok s xs"
    and "spec_choose (tstate s) (current_thread s) (sched_idle_thread s) (xs, ys) = (t, xs', ys')"
  shows "\<exists>s2. queues s2 xs' ys' \<and> same_but_queues s s2 \<and>
    sched_yield E s =
      do { s3 \<leftarrow> sched_thread_yield E t (current_thread s) s2;
           s4 \<leftarrow> sched_reap_done E (Q_GET_FRONT (sched_done_queue s3)) s3;
           sched_scan_sleep_queue s4 }"
proof -
  obtain s1 s2 where "sched_requeue_current s = Some s1" "sched_pick s1 = Some (t, s2)"
    "queues s2 xs' ys'" "same_but_queues s s2"
    using sched_choose_refines[OF assms] by blast
  then show ?thesis by (intro exI[of _ s2]) (simp add: sched_yield_def Let_def)
qed

text \<open>Two runnable threads, the first of which is running, and an ended one between them.\<close>

definition three_threads :: kstate where
  "three_threads = zero_state
     \<lparr>threads := [0x10 \<mapsto> zero_thread\<lparr>state := THREAD_STATE_RUNNABLE\<rparr>,
                  0x20 \<mapsto> zero_thread\<lparr>state := THREAD_STATE_ZOMBIE\<rparr>,
                  0x30 \<mapsto> zero_thread\<lparr>state := THREAD_STATE_RUNNABLE\<rparr>],
      current_thread := 0x10, sched_idle_thread := 0x40,
      sched_runnable_queue := \<lparr>q_first = 0x10, q_last = 0x30\<rparr>,
      runnable_link := zero_links(0x10 := \<lparr>q_next = 0x20, q_prev = NULL\<rparr>,
        0x20 := \<lparr>q_next = 0x30, q_prev = 0x10\<rparr>, 0x30 := \<lparr>q_next = NULL, q_prev = 0x20\<rparr>)\<rparr>"

lemma three_threads_queues:
  "queues three_threads [0x10, 0x20, 0x30] []" "current_ok three_threads [0x10, 0x20, 0x30]"
  by (simp_all add: queues_def current_ok_def three_threads_def q_rep_def zero_state_def zero_queue_def)

theorem sched_yield_chooses_witness:
  "\<exists>s2. queues s2 [0x30, 0x10] [0x20] \<and>
    sched_yield quiet_env three_threads =
      do { s3 \<leftarrow> sched_thread_yield quiet_env 0x30 0x10 s2;
           s4 \<leftarrow> sched_reap_done quiet_env (Q_GET_FRONT (sched_done_queue s3)) s3;
           sched_scan_sleep_queue s4 }"
proof -
  have "spec_choose (tstate three_threads) (current_thread three_threads) (sched_idle_thread three_threads)
      ([0x10, 0x20, 0x30], []) = (0x30, [0x30, 0x10], [0x20])"
    by (simp add: spec_choose_def spec_pick_def spec_requeue_def tstate_def three_threads_def)
  from sched_yield_chooses[OF three_threads_queues this, of quiet_env]
  show ?thesis by (auto simp: three_threads_def)
qed

section \<open>Waking up\<close>

definition tdeadline :: "kstate \<Rightarrow> addr \<Rightarrow> u32" where
  "tdeadline s t = deadline (the (threads s t))"

definition wait_rep :: "kstate \<Rightarrow> wait_queue \<Rightarrow> addr list \<Rightarrow> bool" where
  "wait_rep s q ws \<longleftrightarrow> (\<exists>h. get_wait_head q s = Some h \<and> q_rep (h, wait_link s) ws)"

text \<open>The same threads with the same states and deadlines.\<close>

definition same_threads :: "kstate \<Rightarrow> kstate \<Rightarrow> bool" where
  "same_threads s s' \<longleftrightarrow> (\<forall>t. threads s' t = None \<longleftrightarrow> threads s t = None) \<and>
     tstate s' = tstate s \<and> tdeadline s' = tdeadline s"

lemma wait_list_op_remove:
  assumes "wait_rep s q (as @ c # bs)"
  shows "\<exists>s'. wait_list_op q (Q_REMOVE c) s = Some s' \<and> wait_rep s' q (as @ bs) \<and> same_threads s s' \<and>
    (\<forall>xs ys. queues s xs ys \<longrightarrow> queues s' xs ys)"
proof -
  obtain h where h: "get_wait_head q s = Some h" "q_rep (h, wait_link s) (as @ c # bs)"
    using assms by (auto simp: wait_rep_def)
  obtain h1 l1 where r: "Q_REMOVE c (h, wait_link s) = (h1, l1)" by fastforce
  have "q_rep (h1, l1) (as @ bs)" using Q_REMOVE_rep[OF h(2)] r by simp
  then show ?thesis using h(1) r
    by (cases q) (auto simp: wait_list_op_def wait_rep_def get_wait_head_def set_wait_head_def upd_thread_def
        same_threads_def tstate_def tdeadline_def queues_def fun_eq_iff)
qed

lemma run_insert_front:
  assumes "queues s xs ys" "t \<noteq> NULL" "t \<notin> set xs" "t \<notin> set ys" "threads s t \<noteq> None"
  shows "queues (runnable_op (Q_INSERT_FRONT t) s) (t # xs) ys"
proof -
  obtain h l where i: "Q_INSERT_FRONT t (sched_runnable_queue s, runnable_link s) = (h, l)" by fastforce
  have q: "q_rep (sched_runnable_queue s, runnable_link s) xs" "q_rep (sched_done_queue s, runnable_link s) ys"
    "set xs \<inter> set ys = {}"
    using assms(1) by (auto simp: queues_def)
  have "q_rep (h, l) (t # xs)" using vq.rep_ins_front[OF q(1) assms(2,3)] i by simp
  moreover have "q_rep (sched_done_queue s, l) ys" using vq.other_ins_front[OF q assms(4)] i by simp
  ultimately show ?thesis using assms q(3) by (auto simp: queues_def runnable_op_def i)
qed

lemma run_insert_tail:
  assumes "queues s xs ys" "t \<noteq> NULL" "t \<notin> set xs" "t \<notin> set ys" "threads s t \<noteq> None"
  shows "queues (runnable_op (Q_INSERT_TAIL t) s) (xs @ [t]) ys"
proof -
  obtain h l where i: "Q_INSERT_TAIL t (sched_runnable_queue s, runnable_link s) = (h, l)" by fastforce
  have q: "q_rep (sched_runnable_queue s, runnable_link s) xs" "q_rep (sched_done_queue s, runnable_link s) ys"
    "set xs \<inter> set ys = {}"
    using assms(1) by (auto simp: queues_def)
  have "q_rep (h, l) (xs @ [t])" using vq.rep_ins_tail[OF q(1) assms(2,3)] i by simp
  moreover have "q_rep (sched_done_queue s, l) ys" using vq.other_ins_tail[OF q assms(4)] i by simp
  ultimately show ?thesis using assms q(3) by (auto simp: queues_def runnable_op_def i)
qed

lemma done_insert_tail:
  assumes "queues s xs ys" "t \<noteq> NULL" "t \<notin> set xs" "t \<notin> set ys" "threads s t \<noteq> None"
  shows "queues (done_op (Q_INSERT_TAIL t) s) xs (ys @ [t])"
proof -
  obtain h l where i: "Q_INSERT_TAIL t (sched_done_queue s, runnable_link s) = (h, l)" by fastforce
  have q: "q_rep (sched_runnable_queue s, runnable_link s) xs" "q_rep (sched_done_queue s, runnable_link s) ys"
    "set ys \<inter> set xs = {}"
    using assms(1) by (auto simp: queues_def)
  have "q_rep (h, l) (ys @ [t])" using vq.rep_ins_tail[OF q(2) assms(2,4)] i by simp
  moreover have "q_rep (sched_runnable_queue s, l) xs" using vq.other_ins_tail[OF q(2,1,3) assms(3)] i by simp
  ultimately show ?thesis using assms q(3) by (auto simp: queues_def done_op_def i)
qed

text \<open>Which waiting threads are due, and whether they wait or have ended meanwhile.\<close>

definition due :: "kstate \<Rightarrow> u32 \<Rightarrow> addr \<Rightarrow> bool" where
  "due s ticks t \<longleftrightarrow> sint (tdeadline s t) \<le> sint ticks"

abbreviation waits :: "kstate \<Rightarrow> addr \<Rightarrow> bool" where
  "waits s t \<equiv> tstate s t = THREAD_STATE_WAITING"

lemma wakeup_thread_step:
  assumes w: "wait_rep s q (as @ c # bs)" and q: "queues s xs ys" and c: "c \<notin> set xs" "c \<notin> set ys" "threads s c \<noteq> None"
  shows "\<exists>s'. wakeup_thread q ticks c s = Some s' \<and>
    wait_rep s' q (if due s ticks c then as @ bs else as @ c # bs) \<and>
    queues s' (if due s ticks c \<and> waits s c then c # xs else xs) (if due s ticks c \<and> \<not> waits s c then ys @ [c] else ys) \<and>
    (\<forall>t. threads s' t = None \<longleftrightarrow> threads s t = None) \<and> tdeadline s' = tdeadline s \<and>
    tstate s' = (if due s ticks c \<and> waits s c then (tstate s)(c := THREAD_STATE_RUNNABLE) else tstate s)"
proof -
  obtain th where th: "threads s c = Some th" using c(3) by auto
  have d: "due s ticks c \<longleftrightarrow> sint (deadline th) \<le> sint ticks"
    and st: "tstate s c = state th" by (simp_all add: due_def tdeadline_def tstate_def th)
  show ?thesis
  proof (cases "due s ticks c")
    case True
    obtain s1 where s1: "wait_list_op q (Q_REMOVE c) s = Some s1" "wait_rep s1 q (as @ bs)"
      "same_threads s s1" "queues s1 xs ys"
      using wait_list_op_remove[OF w] q by blast
    have c1: "threads s1 c \<noteq> None" using c(3) s1(3) by (simp add: same_threads_def)
    then obtain th1 where th1: "threads s1 c = Some th1" by auto
    have dl: "deadline th1 = deadline th"
      using s1(3) th th1 by (auto simp: same_threads_def tdeadline_def fun_eq_iff dest!: spec[of _ c])
    have nn: "c \<noteq> NULL" using w q_rep_null by (fastforce simp: wait_rep_def)
    show ?thesis
    proof (cases "waits s c")
      case waits: True
      define s2 where "s2 = s1\<lparr>threads := (threads s1)(c \<mapsto> th1\<lparr>state := THREAD_STATE_RUNNABLE\<rparr>)\<rparr>"
      have "queues s2 xs ys" using s1(4) by (auto simp: queues_def s2_def)
      then have "queues (runnable_op (Q_INSERT_FRONT c) s2) (c # xs) ys"
        by (rule run_insert_front[OF _ nn c(1,2)]) (simp add: s2_def)
      moreover have "wait_rep s2 q (as @ bs)" using s1(2) th1
        by (cases q) (auto simp: wait_rep_def s2_def get_wait_head_def)
      moreover have "wakeup_thread q ticks c s = Some (runnable_op (Q_INSERT_FRONT c) s2)"
        using True waits by (simp add: wakeup_thread_def th d s1(1) upd_thread_def th1 st s2_def)
      moreover have "tstate s2 = (tstate s)(c := THREAD_STATE_RUNNABLE)" "tdeadline s2 = tdeadline s"
        "\<forall>t. threads s2 t = None \<longleftrightarrow> threads s t = None"
        using s1(3) th1 th dl by (auto simp: same_threads_def s2_def tstate_def tdeadline_def fun_eq_iff)
      ultimately show ?thesis using True waits
        by (auto simp: runnable_op_def wait_rep_def tstate_def tdeadline_def fun_eq_iff get_wait_head_def
            split: prod.splits wait_queue.splits)
    next
      case waits: False
      have "queues (done_op (Q_INSERT_TAIL c) s1) xs (ys @ [c])"
        by (rule done_insert_tail[OF s1(4) nn c(1,2) c1])
      moreover have "wakeup_thread q ticks c s = Some (done_op (Q_INSERT_TAIL c) s1)"
        using True waits by (simp add: wakeup_thread_def th d s1(1) st)
      ultimately show ?thesis using True waits s1(2,3)
        by (auto simp: done_op_def wait_rep_def tstate_def tdeadline_def fun_eq_iff get_wait_head_def same_threads_def
            split: prod.splits wait_queue.splits)
    qed
  next
    case False
    then show ?thesis using w q d by (auto simp: wakeup_thread_def th)
  qed
qed


text \<open>The effect of a wake-up on the lists and the states: woken threads go to the front of the run
  queue one after the other, ended ones to the back of the done queue, the others stay.\<close>

definition woken :: "kstate \<Rightarrow> u32 \<Rightarrow> addr list \<Rightarrow> addr list" where
  "woken s ticks ws = filter (\<lambda>t. due s ticks t \<and> waits s t) ws"

definition ended :: "kstate \<Rightarrow> u32 \<Rightarrow> addr list \<Rightarrow> addr list" where
  "ended s ticks ws = filter (\<lambda>t. due s ticks t \<and> \<not> waits s t) ws"

definition still_waiting :: "kstate \<Rightarrow> u32 \<Rightarrow> addr list \<Rightarrow> addr list" where
  "still_waiting s ticks ws = filter (\<lambda>t. \<not> due s ticks t) ws"

lemmas wake_defs = woken_def ended_def still_waiting_def

lemma wake_cong:
  assumes "tdeadline s1 = tdeadline s" "\<And>t. t \<in> set ws \<Longrightarrow> tstate s1 t = tstate s t"
  shows "woken s1 ticks ws = woken s ticks ws" "ended s1 ticks ws = ended s ticks ws"
    "still_waiting s1 ticks ws = still_waiting s ticks ws"
  using assms by (auto simp: wake_defs due_def intro!: filter_cong)

lemma wakeup_loop_lists:
  assumes "wait_rep s q (as @ rs)" "queues s xs ys" "set rs \<inter> (set xs \<union> set ys) = {}"
    and "\<forall>t\<in>set rs. threads s t \<noteq> None"
  shows "\<exists>s'. wakeup_loop q ticks (case rs of [] \<Rightarrow> NULL | c # _ \<Rightarrow> c) s = Some s' \<and>
    wait_rep s' q (as @ still_waiting s ticks rs) \<and>
    queues s' (rev (woken s ticks rs) @ xs) (ys @ ended s ticks rs) \<and>
    (\<forall>t. tstate s' t = (if t \<in> set (woken s ticks rs) then THREAD_STATE_RUNNABLE else tstate s t))"
  using assms
proof (induction rs arbitrary: s as xs ys)
  case Nil
  then show ?case by (subst wakeup_loop.simps) (simp add: wake_defs)
next
  case (Cons c rs)
  obtain h where h: "q_rep (h, wait_link s) (as @ c # rs)" using Cons.prems(1) by (auto simp: wait_rep_def)
  have c: "c \<noteq> NULL" "c \<notin> set rs" using q_rep_null[OF h] q_rep_distinct[OF h] by auto
  have next1: "Q_GET_NEXT c (wait_link s) = (case rs of [] \<Rightarrow> NULL | c # _ \<Rightarrow> c)" by (rule q_rep_next[OF h])
  let ?d = "due s ticks c" and ?w = "waits s c"
  let ?as = "if ?d then as else as @ [c]" and ?xs = "if ?d \<and> ?w then c # xs else xs"
    and ?ys = "if ?d \<and> \<not> ?w then ys @ [c] else ys"
  obtain s1 where s1: "wakeup_thread q ticks c s = Some s1" "wait_rep s1 q (?as @ rs)" "queues s1 ?xs ?ys"
    "\<forall>t. threads s1 t = None \<longleftrightarrow> threads s t = None" "tdeadline s1 = tdeadline s"
    "tstate s1 = (if ?d \<and> ?w then (tstate s)(c := THREAD_STATE_RUNNABLE) else tstate s)"
    using wakeup_thread_step[OF Cons.prems(1,2), of ticks] Cons.prems(3,4) by (auto split: if_splits)
  have same: "tstate s1 t = tstate s t" if "t \<in> set rs" for t using s1(6) c(2) that by auto
  have cong: "woken s1 ticks rs = woken s ticks rs" "ended s1 ticks rs = ended s ticks rs"
    "still_waiting s1 ticks rs = still_waiting s ticks rs"
    by (rule wake_cong[OF s1(5)], erule same)+
  have dis: "set rs \<inter> (set ?xs \<union> set ?ys) = {}" using Cons.prems(3) c(2) by auto
  have live: "\<forall>t\<in>set rs. threads s1 t \<noteq> None" using Cons.prems(4) s1(4) by auto
  obtain s' where s': "wakeup_loop q ticks (case rs of [] \<Rightarrow> NULL | c # _ \<Rightarrow> c) s1 = Some s'"
    "wait_rep s' q (?as @ still_waiting s ticks rs)"
    "queues s' (rev (woken s ticks rs) @ ?xs) (?ys @ ended s ticks rs)"
    "\<forall>t. tstate s' t = (if t \<in> set (woken s ticks rs) then THREAD_STATE_RUNNABLE else tstate s1 t)"
    using Cons.IH[OF s1(2,3) dis live] unfolding cong by blast
  have "wakeup_loop q ticks c s = Some s'"
    using s'(1) c(1) s1(1) by (subst wakeup_loop.simps) (simp add: Let_def next1)
  moreover have "wait_rep s' q (as @ still_waiting s ticks (c # rs))"
    "queues s' (rev (woken s ticks (c # rs)) @ xs) (ys @ ended s ticks (c # rs))"
    using s'(2,3) by (auto simp: wake_defs split: if_splits)
  moreover have "tstate s' t = (if t \<in> set (woken s ticks (c # rs)) then THREAD_STATE_RUNNABLE else tstate s t)" for t
    using s'(4) s1(6) by (auto simp: wake_defs)
  ultimately show ?case by auto
qed

lemma wakeup_correct_lists:
  assumes "wait_rep s q ws" "queues s xs ys" "set ws \<inter> (set xs \<union> set ys) = {}"
    and "\<forall>t\<in>set ws. threads s t \<noteq> None"
  shows "\<exists>s'. sched_wakeup_threads q s = Some s' \<and> wait_rep s' q (still_waiting s (numTicks s) ws) \<and>
    queues s' (rev (woken s (numTicks s) ws) @ xs) (ys @ ended s (numTicks s) ws) \<and>
    (\<forall>t. tstate s' t = (if t \<in> set (woken s (numTicks s) ws) then THREAD_STATE_RUNNABLE else tstate s t))"
proof -
  obtain h where h: "get_wait_head q s = Some h" "q_rep (h, wait_link s) ws"
    using assms(1) by (auto simp: wait_rep_def)
  have "Q_GET_FRONT h = (case ws of [] \<Rightarrow> NULL | c # _ \<Rightarrow> c)"
    using vq.rep_front[OF h(2)] by (cases ws) auto
  then show ?thesis
    using wakeup_loop_lists[of s q "[]" ws xs ys "numTicks s"] assms h(1)
    by (simp add: sched_wakeup_threads_def kernel_getticks_def)
qed

text \<open>C29: Waking the threads of a wait list returns; exactly the threads whose deadline is not in the
  future leave the list: those still waiting become runnable and go to the front of the run
  queue (the last of the list first), those that ended meanwhile go to the done queue; all
  others stay in order with their state.\<close>

theorem wakeup_correct:
  assumes "wait_rep s q ws" "queues s xs ys" "set ws \<inter> (set xs \<union> set ys) = {}"
    and "\<forall>t\<in>set ws. threads s t \<noteq> None"
  shows "\<exists>s'. sched_wakeup_threads q s = Some s' \<and> wait_rep s' q (still_waiting s (numTicks s) ws) \<and>
    queues s' (rev (woken s (numTicks s) ws) @ xs) (ys @ ended s (numTicks s) ws) \<and>
    (\<forall>t. tstate s' t = (if t \<in> set (woken s (numTicks s) ws) then THREAD_STATE_RUNNABLE else tstate s t))"
  using assms by (rule wakeup_correct_lists)

text \<open>At tick 5, one thread sleeps until tick 3 and one until tick 9.\<close>

definition two_sleepers :: kstate where
  "two_sleepers = zero_state
     \<lparr>threads := [0x10 \<mapsto> zero_thread\<lparr>state := THREAD_STATE_WAITING, deadline := 3\<rparr>,
                  0x20 \<mapsto> zero_thread\<lparr>state := THREAD_STATE_WAITING, deadline := 9\<rparr>],
      numTicks := 5, sched_sleep_queue := \<lparr>q_first = 0x10, q_last = 0x20\<rparr>,
      wait_link := zero_links(0x10 := \<lparr>q_next = 0x20, q_prev = NULL\<rparr>, 0x20 := \<lparr>q_next = NULL, q_prev = 0x10\<rparr>)\<rparr>"

theorem wakeup_correct_witness:
  "\<exists>s'. sched_wakeup_threads Sleep_queue two_sleepers = Some s' \<and> queues s' [0x10] [] \<and>
    wait_rep s' Sleep_queue [0x20]"
proof -
  have "wait_rep two_sleepers Sleep_queue [0x10, 0x20]" "queues two_sleepers [] []"
    by (simp_all add: wait_rep_def get_wait_head_def queues_def two_sleepers_def q_rep_def zero_state_def zero_queue_def)
  moreover have "\<forall>t\<in>set [0x10, 0x20]. threads two_sleepers t \<noteq> None" by (simp add: two_sleepers_def)
  moreover have "woken two_sleepers 5 [0x10, 0x20] = [0x10]" "still_waiting two_sleepers 5 [0x10, 0x20] = [0x20]"
    "ended two_sleepers 5 [0x10, 0x20] = []" "numTicks two_sleepers = 5"
    by (simp_all add: wake_defs due_def tdeadline_def tstate_def two_sleepers_def)
  ultimately show ?thesis
    using wakeup_correct[of two_sleepers Sleep_queue "[0x10, 0x20]" "[]" "[]"] by auto
qed


section \<open>A whole call of the scheduler\<close>

text \<open>What a context switch may change, seen over all threads: the saved kernel stack pointers (and page tables and
  registers, which are not mentioned), but nothing the scheduler looks at.  The relation also lets the run queue
  and the current thread differ; \<open>plain_switch\<close> fixes those too.\<close>

definition switched :: "kstate \<Rightarrow> kstate \<Rightarrow> bool" where
  "switched s s' \<longleftrightarrow> sched_idle_thread s' = sched_idle_thread s \<and> sched_sleep_queue s' = sched_sleep_queue s \<and>
     wait_link s' = wait_link s \<and> numTicks s' = numTicks s \<and> tasks s' = tasks s \<and>
     (\<forall>t. \<exists>k. threads s' t = map_option (\<lambda>th. th\<lparr>kernel_esp := k\<rparr>) (threads s t))"

definition plain_switch :: "kern_env \<Rightarrow> bool" where
  "plain_switch E \<longleftrightarrow> (\<forall>old new s. \<exists>s'. do_context_switch E old new s = Some s' \<and> switched s s' \<and>
     current_thread s' = current_thread s \<and> runnable_link s' = runnable_link s \<and>
     sched_runnable_queue s' = sched_runnable_queue s \<and> sched_done_queue s' = sched_done_queue s)"

lemma same_kesp [simp]: "\<exists>k. x = map_option (\<lambda>th. th\<lparr>kernel_esp := k\<rparr>) x"
  by (rule exI[of _ "kernel_esp (the x)"]) (cases x; simp)

lemma switched_refl [simp]: "switched s s"
  by (simp add: switched_def)

lemma switched_trans:
  assumes "switched s1 s2" "switched s2 s3"
  shows "switched s1 s3"
proof -
  have "\<exists>k. threads s3 t = map_option (\<lambda>th. th\<lparr>kernel_esp := k\<rparr>) (threads s1 t)" for t
  proof -
    obtain j where "threads s2 t = map_option (\<lambda>th. th\<lparr>kernel_esp := j\<rparr>) (threads s1 t)"
      using assms(1) by (auto simp: switched_def)
    moreover obtain k where "threads s3 t = map_option (\<lambda>th. th\<lparr>kernel_esp := k\<rparr>) (threads s2 t)"
      using assms(2) by (auto simp: switched_def)
    ultimately show ?thesis by (cases "threads s1 t") auto
  qed
  then show ?thesis using assms by (simp add: switched_def)
qed

lemma switched_thread:
  assumes "switched s s'"
  obtains k where "threads s' t = map_option (\<lambda>th. th\<lparr>kernel_esp := k\<rparr>) (threads s t)"
  using assms by (auto simp: switched_def)

lemma switched_fields:
  assumes "switched s s'"
  shows "threads s' t = None \<longleftrightarrow> threads s t = None" "dom (threads s') = dom (threads s)"
    "threads s t \<noteq> None \<Longrightarrow> tstate s' t = tstate s t" "threads s t \<noteq> None \<Longrightarrow> tdeadline s' t = tdeadline s t"
    "sched_idle_thread s' = sched_idle_thread s" "numTicks s' = numTicks s" "tasks s' = tasks s"
    "get_wait_head q s' = get_wait_head q s" "wait_rep s' q ws = wait_rep s q ws"
    "map_option parent_task (threads s' t) = map_option parent_task (threads s t)"
proof -
  have n: "threads s' u = None \<longleftrightarrow> threads s u = None" for u by (rule switched_thread[OF assms, of u]) auto
  show "threads s' t = None \<longleftrightarrow> threads s t = None" by (rule n)
  show "dom (threads s') = dom (threads s)" using n by (auto simp: dom_def)
  show "tstate s' t = tstate s t" "tdeadline s' t = tdeadline s t" if "threads s t \<noteq> None"
    using that by (rule_tac [!] switched_thread[OF assms, of t]) (auto simp: tstate_def tdeadline_def)
  show "map_option parent_task (threads s' t) = map_option parent_task (threads s t)"
    by (rule switched_thread[OF assms, of t]) (auto simp: option.map_comp comp_def)
  show f: "sched_idle_thread s' = sched_idle_thread s" "numTicks s' = numTicks s" "tasks s' = tasks s"
    using assms by (simp_all add: switched_def)
  show h: "get_wait_head q s' = get_wait_head q s" for q
  proof (cases q)
    case Sleep_queue
    then show ?thesis using assms by (simp add: get_wait_head_def switched_def)
  next
    case (Wait_list u)
    show ?thesis by (rule switched_thread[OF assms, of u]) (simp add: Wait_list get_wait_head_def option.map_comp comp_def)
  next
    case (Self_wait_list u)
    show ?thesis by (rule switched_thread[OF assms, of u]) (simp add: Self_wait_list get_wait_head_def option.map_comp comp_def)
  qed
  have "wait_link s' = wait_link s" using assms by (simp add: switched_def)
  then show "wait_rep s' q ws = wait_rep s q ws" by (simp add: wait_rep_def h)
qed

lemma same_but_queues_switched: "same_but_queues s s' \<Longrightarrow> switched s s'"
  by (auto simp: same_but_queues_def switched_def)

lemma quiet_plain_switch: "plain_switch quiet_env"
  by (simp add: plain_switch_def quiet_env_def)

text \<open>A call of the scheduler, with nothing on the done queue: the choice is made, the chosen thread is current, and
  what is left is the scan of the sleep queue.\<close>

lemma sched_yield_scan:
  assumes "plain_switch E" "queues s xs []" "current_ok s xs"
    and "spec_choose (tstate s) (current_thread s) (sched_idle_thread s) (xs, []) = (t, xs', [])"
    and "threads s t = Some th" "tasks s (parent_task th) \<noteq> None"
  obtains s4 where "sched_yield E s = sched_scan_sleep_queue s4" "current_thread s4 = t" "queues s4 xs' []" "switched s s4"
proof -
  obtain s1 s2 where s2: "sched_requeue_current s = Some s1" "sched_pick s1 = Some (t, s2)"
    "queues s2 xs' []" "same_but_queues s s2"
    using sched_choose_refines[OF assms(2-4)] by blast
  note F = same_but_queues_fields[OF s2(4)]
  let ?s = "s2\<lparr>current_thread := t\<rparr>"
  have sw: "switched s ?s" using same_but_queues_switched[OF s2(4)] by (simp add: switched_def)
  obtain s3 where s3: "sched_thread_yield E t (current_thread s) s2 = Some s3" "switched ?s s3"
    "current_thread s3 = t" "queues s3 xs' []"
  proof (cases "t = current_thread s")
    case True
    show ?thesis using that[of ?s] True s2(3) by (simp add: sched_thread_yield_def queues_def)
  next
    case False
    obtain s3 where s3: "do_context_switch E (current_thread s) t ?s = Some s3" "switched ?s s3"
      "current_thread s3 = t" "runnable_link s3 = runnable_link ?s"
      "sched_runnable_queue s3 = sched_runnable_queue ?s" "sched_done_queue s3 = sched_done_queue ?s"
      using assms(1)[unfolded plain_switch_def, rule_format, of "current_thread s" t ?s] by auto
    have "queues s3 xs' []" using s2(3) s3(4-6) switched_fields(1)[OF s3(2)] by (simp add: queues_def)
    moreover have "sched_thread_yield E t (current_thread s) s2 = Some s3"
      using False s3(1) assms(5,6) F(1,3) by (auto simp: sched_thread_yield_def)
    ultimately show ?thesis using that s3(2,3) by blast
  qed
  have "Q_GET_FRONT (sched_done_queue s3) = NULL" using s3(4) vq.rep_front by (fastforce simp: queues_def)
  then have "sched_reap_done E (Q_GET_FRONT (sched_done_queue s3)) s3 = Some s3"
    by (subst sched_reap_done.simps) simp
  then have "sched_yield E s = sched_scan_sleep_queue s3" using s2(1,2) s3(1) by (simp add: sched_yield_def Let_def)
  then show ?thesis using that s3(3,4) switched_trans[OF sw s3(2)] by blast
qed

lemma nobody_due:
  assumes "wait_rep s q ws" "\<forall>t\<in>set ws. threads s t \<noteq> None \<and> \<not> due s (numTicks s) t"
  shows "sched_wakeup_threads q s = Some s"
proof -
  obtain h where h: "get_wait_head q s = Some h" "q_rep (h, wait_link s) ws"
    using assms(1) by (auto simp: wait_rep_def)
  have loop: "wakeup_loop q (numTicks s) (case bs of [] \<Rightarrow> NULL | c # _ \<Rightarrow> c) s = Some s" if "ws = as @ bs" for as bs
    using that
  proof (induction bs arbitrary: as)
    case Nil
    then show ?case by (subst wakeup_loop.simps) simp
  next
    case (Cons c bs)
    have r: "q_rep (h, wait_link s) (as @ c # bs)" using h(2) Cons.prems by simp
    have nx: "Q_GET_NEXT c (wait_link s) = (case bs of [] \<Rightarrow> NULL | c # _ \<Rightarrow> c)" by (rule q_rep_next[OF r])
    have c: "c \<noteq> NULL" using q_rep_null[OF r] by auto
    have "wakeup_thread q (numTicks s) c s = Some s"
      using assms(2) Cons.prems by (auto simp: wakeup_thread_def due_def tdeadline_def)
    then show ?case using Cons.IH[of "as @ [c]"] Cons.prems c
      by (subst wakeup_loop.simps) (simp add: Let_def nx)
  qed
  have "Q_GET_FRONT h = (case ws of [] \<Rightarrow> NULL | c # _ \<Rightarrow> c)" using vq.rep_front[OF h(2)] by (cases ws) auto
  then show ?thesis using loop[of "[]" ws] h(1) by (simp add: sched_wakeup_threads_def kernel_getticks_def)
qed

section \<open>Everyone gets a turn\<close>

text \<open>\<open>n\<close> calls of \<open>sched_yield\<close> one after the other, each by the thread that is then running.\<close>

fun turns :: "kern_env \<Rightarrow> nat \<Rightarrow> kstate \<Rightarrow> kstate option" where
  "turns E 0 s = Some s"
| "turns E (Suc n) s = Option.bind (sched_yield E s) (turns E n)"

lemma yield_rotates:
  assumes "plain_switch E" "queues s (c # r) []" "current_thread s = c" "sched_idle_thread s \<notin> set (c # r)"
    and "\<forall>t\<in>set (c # r). tstate s t = THREAD_STATE_RUNNABLE \<and> tasks s (parent_task (the (threads s t))) \<noteq> None"
    and "wait_rep s Sleep_queue ws" "\<forall>t\<in>set ws. threads s t \<noteq> None \<and> \<not> due s (numTicks s) t"
  obtains s' where "sched_yield E s = Some s'" "current_thread s' = hd (r @ [c])" "queues s' (r @ [c]) []" "switched s s'"
proof -
  have c: "c \<noteq> NULL" using assms(2) vq.rep_null by (fastforce simp: queues_def)
  have ok: "current_ok s (c # r)" using assms(2,3) by (auto simp: current_ok_def queues_def)
  have ch: "spec_choose (tstate s) (current_thread s) (sched_idle_thread s) (c # r, []) = (hd (r @ [c]), r @ [c], [])"
    using assms(3-5) c by (cases r) (auto simp: spec_choose_def spec_pick_def spec_requeue_def Let_def)
  have h: "hd (r @ [c]) \<in> set (c # r)" by (cases r) auto
  then obtain th where th: "threads s (hd (r @ [c])) = Some th" using assms(2) by (auto simp: queues_def)
  then have "tasks s (parent_task th) \<noteq> None" using assms(5) h by fastforce
  from sched_yield_scan[OF assms(1,2) ok ch th this] obtain s4 where
    s4: "sched_yield E s = sched_scan_sleep_queue s4" "current_thread s4 = hd (r @ [c])" "queues s4 (r @ [c]) []" "switched s s4" .
  note F = switched_fields[OF s4(4)]
  have "\<forall>t\<in>set ws. threads s4 t \<noteq> None \<and> \<not> due s4 (numTicks s4) t"
    using assms(7) F(1,4,6) by (auto simp: due_def)
  then have "sched_scan_sleep_queue s4 = Some s4"
    using nobody_due[of s4 Sleep_queue ws] assms(6) F(9) by (simp add: sched_scan_sleep_queue_def)
  then show ?thesis using that s4 by simp
qed

lemma turns_rotate:
  assumes "plain_switch E" "queues s xs []" "xs \<noteq> []" "current_thread s = hd xs" "sched_idle_thread s \<notin> set xs"
    and "\<forall>t\<in>set xs. tstate s t = THREAD_STATE_RUNNABLE \<and> tasks s (parent_task (the (threads s t))) \<noteq> None"
    and "wait_rep s Sleep_queue ws" "\<forall>t\<in>set ws. threads s t \<noteq> None \<and> \<not> due s (numTicks s) t"
  shows "\<exists>s'. turns E n s = Some s' \<and> current_thread s' = hd (rotate n xs) \<and> queues s' (rotate n xs) []"
  using assms
proof (induction n arbitrary: s xs)
  case (Suc n)
  obtain c r where xs: "xs = c # r" using Suc.prems(3) by (cases xs) auto
  obtain s1 where s1: "sched_yield E s = Some s1" "current_thread s1 = hd (r @ [c])" "queues s1 (r @ [c]) []" "switched s s1"
    using yield_rotates[OF Suc.prems(1) Suc.prems(2)[unfolded xs] _ Suc.prems(5)[unfolded xs] Suc.prems(6)[unfolded xs]
      Suc.prems(7,8)] Suc.prems(4) xs by auto
  note F = switched_fields[OF s1(4)]
  have live: "threads s t \<noteq> None" if "t \<in> set xs" for t using Suc.prems(2) that by (auto simp: queues_def)
  have pt: "parent_task (the (threads s1 t)) = parent_task (the (threads s t))" if "t \<in> set xs" for t
    using F(10)[of t] live[OF that] F(1)[of t] by auto
  have "\<exists>s'. turns E n s1 = Some s' \<and> current_thread s' = hd (rotate n (r @ [c])) \<and> queues s' (rotate n (r @ [c])) []"
  proof (rule Suc.IH[OF Suc.prems(1) s1(3) _ s1(2)])
    show "sched_idle_thread s1 \<notin> set (r @ [c])" using Suc.prems(5) F(5) xs by auto
    show "\<forall>t\<in>set (r @ [c]). tstate s1 t = THREAD_STATE_RUNNABLE \<and> tasks s1 (parent_task (the (threads s1 t))) \<noteq> None"
      using Suc.prems(6) F(3,7) pt live xs by auto
    show "wait_rep s1 Sleep_queue ws" using Suc.prems(7) F(9) by simp
    show "\<forall>t\<in>set ws. threads s1 t \<noteq> None \<and> \<not> due s1 (numTicks s1) t"
      using Suc.prems(8) F(1,4,6) by (auto simp: due_def)
  qed simp
  moreover have "rotate n (r @ [c]) = rotate (Suc n) xs"
    by (simp add: xs rotate1_rotate_swap rotate_def funpow_swap1)
  ultimately show ?case using s1(1) by simp
qed simp

text \<open>C28: Round robin, as long as no sleeper wakes up: when the current thread is at the front of a queue of runnable
  threads, the done queue is empty and no thread of the sleep queue is due, then after \<open>n\<close> calls of \<open>sched_yield\<close>,
  each whole (choice, switch, reaping, scan of the sleep queue) and made by the thread that is then running, the
  running thread is the one at position \<open>n\<close> modulo the length of the queue, so each thread runs once in every
  round.  The switch is assumed to come back in a state that differs only in what the scheduler does not look at
  (\<open>plain_switch\<close>), and the threads' tasks to exist.  Without the assumption on sleepers this is false: a thread that
  wakes up goes to the front of the queue, so threads that sleep and wake often can keep the others waiting.\<close>

theorem round_robin:
  assumes "plain_switch E" "queues s xs []" "xs \<noteq> []" "current_thread s = hd xs" "sched_idle_thread s \<notin> set xs"
    and "\<forall>t\<in>set xs. tstate s t = THREAD_STATE_RUNNABLE \<and> tasks s (parent_task (the (threads s t))) \<noteq> None"
    and "wait_rep s Sleep_queue ws" "\<forall>t\<in>set ws. threads s t \<noteq> None \<and> \<not> due s (numTicks s) t"
  shows "\<exists>s'. turns E n s = Some s' \<and> current_thread s' = xs ! (n mod length xs)"
proof -
  have "hd (rotate n xs) = xs ! (n mod length xs)" using assms(3) by (rule hd_rotate_conv_nth)
  then show ?thesis using turns_rotate[OF assms, of n] by auto
qed

definition two_threads :: kstate where
  "two_threads = zero_state
     \<lparr>threads := [0x10 \<mapsto> zero_thread\<lparr>state := THREAD_STATE_RUNNABLE\<rparr>,
                  0x30 \<mapsto> zero_thread\<lparr>state := THREAD_STATE_RUNNABLE\<rparr>],
      current_thread := 0x10, sched_idle_thread := 0x40,
      sched_runnable_queue := \<lparr>q_first = 0x10, q_last = 0x30\<rparr>,
      runnable_link := zero_links(0x10 := \<lparr>q_next = 0x30, q_prev = NULL\<rparr>, 0x30 := \<lparr>q_next = NULL, q_prev = 0x10\<rparr>)\<rparr>"

text \<open>The two threads with a task of their own, and a third one asleep until tick 9.\<close>

definition two_and_sleeper :: kstate where
  "two_and_sleeper = two_threads
     \<lparr>threads := (threads two_threads)(0x20 \<mapsto> zero_thread\<lparr>state := THREAD_STATE_WAITING, deadline := 9\<rparr>),
      tasks := [NULL \<mapsto> zero_task], numTicks := 5, sched_sleep_queue := \<lparr>q_first = 0x20, q_last = 0x20\<rparr>\<rparr>"

theorem round_robin_witness:
  "\<exists>s'. turns quiet_env 7 two_and_sleeper = Some s' \<and> current_thread s' = 0x30"
proof -
  let ?s = two_and_sleeper
  have "queues ?s [0x10, 0x30] []" "wait_rep ?s Sleep_queue [0x20]"
    by (simp_all add: queues_def wait_rep_def get_wait_head_def two_and_sleeper_def two_threads_def q_rep_def
        zero_state_def zero_queue_def zero_links_def)
  moreover have "\<forall>t\<in>set [0x10, 0x30]. tstate ?s t = THREAD_STATE_RUNNABLE \<and>
      tasks ?s (parent_task (the (threads ?s t))) \<noteq> None"
    "\<forall>t\<in>set [0x20]. threads ?s t \<noteq> None \<and> \<not> due ?s (numTicks ?s) t"
    "current_thread ?s = 0x10" "sched_idle_thread ?s = 0x40"
    by (simp_all add: two_and_sleeper_def two_threads_def tstate_def zero_thread_def due_def tdeadline_def)
  moreover have "[0x10, 0x30 :: addr] ! (7 mod length [0x10, 0x30 :: addr]) = 0x30" by code_simp
  ultimately show ?thesis using round_robin[OF quiet_plain_switch, of ?s "[0x10, 0x30]" "[0x20]" 7] by auto
qed

section \<open>The tables of tasks and threads\<close>

definition task_key :: "kstate \<Rightarrow> addr \<Rightarrow> u32" where
  "task_key s p = task_id (the (tasks s p))"

definition thread_key :: "kstate \<Rightarrow> addr \<Rightarrow> u32" where
  "thread_key s p = thread_id (the (threads s p))"

definition task_table :: "kstate \<Rightarrow> addr set \<Rightarrow> bool" where
  "task_table s S \<longleftrightarrow> hash_rep sched_task_hashfn (task_key s) (task_hash s, taskmap_link s) S \<and>
     (\<forall>p\<in>S. tasks s p \<noteq> None) \<and> inj_on (task_key s) S"

definition thread_table :: "kstate \<Rightarrow> addr set \<Rightarrow> bool" where
  "thread_table s S \<longleftrightarrow> hash_rep sched_thread_hashfn (thread_key s) (thread_hash s, threadmap_link s) S \<and>
     (\<forall>p\<in>S. threads s p \<noteq> None) \<and> inj_on (thread_key s) S"

lemma sched_find_task_alt:
  assumes "task_table s S"
  shows "sched_find_task k s =
    HASH_LOOKUP sched_task_hashfn (\<lambda>p. Some (task_key s p)) k (task_hash s, taskmap_link s)"
  unfolding sched_find_task_def
  by (rule HASH_LOOKUP_cong[of _ "task_key s" _ S])
     (use assms in \<open>auto simp: task_table_def task_hashkey_def task_key_def\<close>)

lemma sched_find_thread_alt:
  assumes "thread_table s S"
  shows "sched_find_thread k s =
    HASH_LOOKUP sched_thread_hashfn (\<lambda>p. Some (thread_key s p)) k (thread_hash s, threadmap_link s)"
  unfolding sched_find_thread_def
  by (rule HASH_LOOKUP_cong[of _ "thread_key s" _ S])
     (use assms in \<open>auto simp: thread_table_def thread_hashkey_def thread_key_def\<close>)

text \<open>After a task is registered, looking up its identifier finds it, every other lookup gives
  what it gave before, and the table holds exactly one task more, even where hash values
  collide.\<close>

theorem task_table_add:
  assumes "task_table s S" "tasks s t = Some T" "t \<noteq> NULL" "t \<notin> S" "\<forall>q\<in>S. task_key s q \<noteq> task_id T"
  shows "\<exists>s'. sched_add_task t s = Some s' \<and> task_table s' (insert t S) \<and>
    (\<forall>k. sched_find_task k s' = (if k = task_id T then Some t else sched_find_task k s))"
proof -
  have key: "task_key s t = task_id T" by (simp add: task_key_def assms(2))
  obtain H l where ins: "HASH_INSERT sched_task_hashfn (task_id T) t (task_hash s, taskmap_link s) = (H, l)"
    by fastforce
  define s' where "s' = s\<lparr>tasks := (tasks s)(t \<mapsto> T\<lparr>tcount := tcount T + 1\<rparr>), task_hash := H, taskmap_link := l\<rparr>"
  have add: "sched_add_task t s = Some s'"
    by (simp add: sched_add_task_def task_get_def upd_task_def assms(2) ins s'_def)
  have key': "task_key s' = task_key s" by (simp add: task_key_def s'_def fun_eq_iff assms(2))
  have rep: "hash_rep sched_task_hashfn (task_key s) (task_hash s, taskmap_link s) S" "inj_on (task_key s) S"
    using assms(1) by (auto simp: task_table_def)
  have "inj_on (task_key s) (insert t S)" using rep(2) assms(5) key unfolding inj_on_def by (metis insertE)
  then have tab: "task_table s' (insert t S)"
    using HASH_INSERT_rep[OF rep(1) assms(3,4)] ins assms(1) key' by (auto simp: task_table_def key s'_def)
  have "sched_find_task k s' = (if k = task_id T then Some t else sched_find_task k s)" for k
    using task_map.lookup_ins[OF rep assms(3,4), of k] assms(5) ins
    unfolding sched_find_task_alt[OF tab] sched_find_task_alt[OF assms(1)] key'
    by (simp add: key s'_def)
  then show ?thesis using add tab by blast
qed

lemma empty_table: "task_table (s\<lparr>task_hash := \<lambda>_. zero_queue\<rparr>) {}" "thread_table (s\<lparr>thread_hash := \<lambda>_. zero_queue\<rparr>) {}"
  by (auto simp: task_table_def thread_table_def hash_rep_def q_rep_def zero_queue_def intro!: exI[of _ "\<lambda>_. []"])

theorem task_table_add_witness:
  "\<exists>s'. sched_add_task 0x10 (zero_state\<lparr>tasks := [0x10 \<mapsto> zero_task\<lparr>task_id := 7\<rparr>], task_hash := \<lambda>_. zero_queue\<rparr>) = Some s' \<and>
     sched_find_task 7 s' = Some 0x10"
  using task_table_add[OF empty_table(1), of "zero_state\<lparr>tasks := [0x10 \<mapsto> zero_task\<lparr>task_id := 7\<rparr>]\<rparr>" "0x10" "zero_task\<lparr>task_id := 7\<rparr>"]
  by auto

text \<open>Registering a thread puts it into the thread table and nowhere else: looking up its identifier finds it
  afterwards, every other identifier is found as before, and the table holds exactly one thread more.\<close>

theorem thread_table_add:
  assumes "thread_table s S" "threads s t = Some T" "t \<noteq> NULL" "t \<notin> S" "\<forall>q\<in>S. thread_key s q \<noteq> thread_id T"
  shows "\<exists>s'. sched_add_thread t s = Some s' \<and> thread_table s' (insert t S) \<and>
    (\<forall>k. sched_find_thread k s' = (if k = thread_id T then Some t else sched_find_thread k s))"
proof -
  have key: "thread_key s t = thread_id T" by (simp add: thread_key_def assms(2))
  obtain H l where ins: "HASH_INSERT sched_thread_hashfn (thread_id T) t (thread_hash s, threadmap_link s) = (H, l)"
    by fastforce
  define s' where "s' = s\<lparr>threads := (threads s)(t \<mapsto> T\<lparr>count := count T + 1\<rparr>), thread_hash := H, threadmap_link := l\<rparr>"
  have add: "sched_add_thread t s = Some s'"
    by (simp add: sched_add_thread_def thread_get_def upd_thread_def assms(2) ins s'_def)
  have key': "thread_key s' = thread_key s" by (simp add: thread_key_def s'_def fun_eq_iff assms(2))
  have rep: "hash_rep sched_thread_hashfn (thread_key s) (thread_hash s, threadmap_link s) S" "inj_on (thread_key s) S"
    using assms(1) by (auto simp: thread_table_def)
  have "inj_on (thread_key s) (insert t S)" using rep(2) assms(5) key unfolding inj_on_def by (metis insertE)
  then have tab: "thread_table s' (insert t S)"
    using HASH_INSERT_rep[OF rep(1) assms(3,4)] ins assms(1) key' by (auto simp: thread_table_def key s'_def)
  have "sched_find_thread k s' = (if k = thread_id T then Some t else sched_find_thread k s)" for k
    using thread_map.lookup_ins[OF rep assms(3,4), of k] assms(5) ins
    unfolding sched_find_thread_alt[OF tab] sched_find_thread_alt[OF assms(1)] key'
    by (simp add: key s'_def)
  then show ?thesis using add tab by blast
qed

theorem thread_table_add_witness:
  "\<exists>s'. sched_add_thread 0x10 (zero_state\<lparr>threads := [0x10 \<mapsto> zero_thread\<lparr>thread_id := 7\<rparr>], thread_hash := \<lambda>_. zero_queue\<rparr>) = Some s' \<and>
     sched_find_thread 7 s' = Some 0x10"
  using thread_table_add[OF empty_table(2), of "zero_state\<lparr>threads := [0x10 \<mapsto> zero_thread\<lparr>thread_id := 7\<rparr>]\<rparr>" "0x10" "zero_thread\<lparr>thread_id := 7\<rparr>"]
  by auto

end
