(* ===== verification/Elf_Loader.thy ===== *)
theory Elf_Loader
  imports Kernel_State "HOL-Library.Char_ord"
begin

text \<open>
  Reading the headers of an executable, \<^verbatim>\<open>410kern/elf/load_helper.c\<close>: the ELF header, the table of section headers
  and the table of their names, out of which the kernel takes the places of the text, data, read-only data and
  bss sections.
\<close>

section \<open>Headers\<close>

record Elf32_Ehdr =
  e_ident :: "u8 list"
  e_type :: u16
  e_machine :: u16
  e_version :: u32
  eh_entry :: u32
  e_phoff :: u32
  e_shoff :: u32
  e_flags :: u32
  e_ehsize :: u16
  e_phentsize :: u16
  e_phnum :: u16
  e_shentsize :: u16
  e_shnum :: u16
  e_shstrndx :: u16

record Elf32_Shdr =
  sh_name :: u32
  sh_type :: u32
  sh_flags :: u32
  sh_addr :: u32
  sh_offset :: u32
  sh_size :: u32
  sh_link :: u32
  sh_info :: u32
  sh_addralign :: u32
  sh_entsize :: u32

definition ld16 :: "bytes \<Rightarrow> addr \<Rightarrow> u16" where
  "ld16 m a = ucast (m a) OR push_bit 8 (ucast (m (a + 1)))"

text \<open>The structures in memory, without padding on a 32-bit machine: 52 and 40 bytes.\<close>

definition ehdr_at :: "bytes \<Rightarrow> addr \<Rightarrow> Elf32_Ehdr" where
  "ehdr_at m a =
     \<lparr>e_ident = map (\<lambda>i. m (a + of_nat i)) [0..<16], e_type = ld16 m (a + 16), e_machine = ld16 m (a + 18),
      e_version = ld32 m (a + 20), eh_entry = ld32 m (a + 24), e_phoff = ld32 m (a + 28), e_shoff = ld32 m (a + 32),
      e_flags = ld32 m (a + 36), e_ehsize = ld16 m (a + 40), e_phentsize = ld16 m (a + 42), e_phnum = ld16 m (a + 44),
      e_shentsize = ld16 m (a + 46), e_shnum = ld16 m (a + 48), e_shstrndx = ld16 m (a + 50)\<rparr>"

definition shdr_at :: "bytes \<Rightarrow> addr \<Rightarrow> Elf32_Shdr" where
  "shdr_at m a =
     \<lparr>sh_name = ld32 m a, sh_type = ld32 m (a + 4), sh_flags = ld32 m (a + 8), sh_addr = ld32 m (a + 12),
      sh_offset = ld32 m (a + 16), sh_size = ld32 m (a + 20), sh_link = ld32 m (a + 24), sh_info = ld32 m (a + 28),
      sh_addralign = ld32 m (a + 32), sh_entsize = ld32 m (a + 36)\<rparr>"

definition ELF_NOTELF :: int where "ELF_NOTELF = -1"
definition ELF_SUCCESS :: int where "ELF_SUCCESS = 0"
definition SHN_UNDEF :: u32 where "SHN_UNDEF = 0"

section \<open>Strings\<close>

text \<open>A string literal with its terminator.\<close>

definition lit :: "string \<Rightarrow> u8 list" where
  "lit s = map of_char s @ [0]"

text \<open>Comparing two strings in buffers; a comparison that runs past the end of a buffer is \<open>None\<close>.\<close>

fun strcmp :: "u8 list \<Rightarrow> u8 list \<Rightarrow> int option" where
  "strcmp (a # as) (b # bs) =
     (if a \<noteq> 0 \<and> b \<noteq> 0 then if a \<noteq> b then Some (uint a - uint b) else strcmp as bs
      else Some (uint a - uint b))"
| "strcmp _ _ = None"

fun strncmp :: "u8 list \<Rightarrow> u8 list \<Rightarrow> nat \<Rightarrow> int option" where
  "strncmp s1 s2 0 = Some 0"
| "strncmp (a # as) (b # bs) (Suc n) =
     (if a \<noteq> b then Some (sint a - sint b) else if a = 0 then Some 0 else strncmp as bs n)"
| "strncmp _ _ (Suc n) = None"

section \<open>The loader\<close>

definition zero_elf :: simple_elf where
  "zero_elf = \<lparr>e_entry = 0, e_txtoff = 0, e_txtlen = 0, e_txtstart = 0, e_datoff = 0, e_datlen = 0, e_datstart = 0,
     e_rodatoff = 0, e_rodatlen = 0, e_rodatstart = 0, e_bsslen = 0\<rparr>"

text \<open>The names that are ignored silently; any other is reported, which changes nothing.\<close>

fun known_section :: "u8 list list \<Rightarrow> u8 list \<Rightarrow> bool option" where
  "known_section [] str = do { c \<leftarrow> strncmp (lit ''.debug'') str 6; Some (c = 0) }"
| "known_section (n # ns) str = do { c \<leftarrow> strcmp n str; if c = 0 then Some True else known_section ns str }"

definition elf_section :: "u8 list \<Rightarrow> Elf32_Shdr \<Rightarrow> simple_elf \<Rightarrow> simple_elf option" where
  "elf_section shstrtab sh se =
     (if sh_name sh = SHN_UNDEF then Some se
      else
        let str = drop (unat (sh_name sh)) shstrtab
        in do {
          c \<leftarrow> strcmp (lit ''.text'') str;
          if c = 0 then Some (se\<lparr>e_txtoff := sh_offset sh, e_txtlen := sh_size sh, e_txtstart := sh_addr sh\<rparr>)
          else do {
            c \<leftarrow> strcmp (lit ''.rodata'') str;
            if c = 0 then Some (se\<lparr>e_rodatoff := sh_offset sh, e_rodatlen := sh_size sh, e_rodatstart := sh_addr sh\<rparr>)
            else do {
              c \<leftarrow> strcmp (lit ''.data'') str;
              if c = 0 then Some (se\<lparr>e_datoff := sh_offset sh, e_datlen := sh_size sh, e_datstart := sh_addr sh\<rparr>)
              else do {
                c \<leftarrow> strcmp (lit ''.bss'') str;
                if c = 0 then Some (se\<lparr>e_bsslen := sh_size sh\<rparr>)
                else do {
                  known \<leftarrow> known_section (map lit [''.symtab'', ''.strtab'', ''.shstrtab'', ''.stab'', ''.stabstr'',
                    ''.comment'', ''.note'']) str;
                  Some se } } } } })"

text \<open>The headers are read into buffers of their own; what \<open>getbytes\<close> returns is compared with the size it was
  asked for.  Both buffers are freed in the end.\<close>

definition read_file :: "toc_entry list \<Rightarrow> u8 list \<Rightarrow> u32 \<Rightarrow> u32 \<Rightarrow> (bool \<times> bytes) option" where
  "read_file toc path offset sz =
     do { (ret, m) \<leftarrow> getbytes toc path (sint offset) (sint sz) 0 (\<lambda>_. 0); Some (of_int ret = sz, m) }"

definition elf_load_helper :: "toc_entry list \<Rightarrow> u8 list \<Rightarrow> kstate \<Rightarrow> (int \<times> simple_elf \<times> kstate) option" where
  "elf_load_helper toc path s =
     do { (ok, m) \<leftarrow> read_file toc path 0 52;
          if \<not> ok then Some (ELF_NOTELF, zero_elf, s)
          else do {
            let elf_hdr = ehdr_at m 0;
            let se = zero_elf\<lparr>e_entry := eh_entry elf_hdr\<rparr>;
            let sz = (ucast (e_shnum elf_hdr) * 40 :: u32);
            let (sec_hdrs, s) = kmalloc s;
            if sec_hdrs = NULL then Some (ELF_NOTELF, se, s)
            else do {
              (ok, m) \<leftarrow> read_file toc path (e_shoff elf_hdr) sz;
              if \<not> ok then Some (ELF_NOTELF, se, s)
              else do {
                let elf_sec_hdrs = map (\<lambda>i. shdr_at m (of_nat (40 * i))) [0..<unat (e_shnum elf_hdr)];
                if unat (e_shstrndx elf_hdr) \<ge> length elf_sec_hdrs then None
                else do {
                  let strsec = elf_sec_hdrs ! unat (e_shstrndx elf_hdr);
                  let (strtab, s) = kmalloc s;
                  if strtab = NULL then Some (ELF_NOTELF, se, s)
                  else do {
                    (ok, m) \<leftarrow> read_file toc path (sh_offset strsec) (sh_size strsec);
                    if \<not> ok then Some (ELF_NOTELF, se, s)
                    else do {
                      let shstrtab = map (\<lambda>i. m (of_nat i)) [0..<unat (sh_size strsec)];
                      se \<leftarrow> c_each elf_sec_hdrs (elf_section shstrtab) se;
                      Some (ELF_SUCCESS, se, s) } } } } } } }"

definition elf_check_header :: "toc_entry list \<Rightarrow> u8 list \<Rightarrow> int option" where
  "elf_check_header toc path =
     do { (ok, m) \<leftarrow> read_file toc path 0 52;
          if \<not> ok then Some ELF_NOTELF
          else
            let elf_hdr = ehdr_at m 0
            in Some (if take 4 (e_ident elf_hdr) \<noteq> [0x7f, of_char (CHR ''E''), of_char (CHR ''L''), of_char (CHR ''F'')]
                     then ELF_NOTELF
                     else if e_type elf_hdr \<noteq> 2 then ELF_NOTELF
                     else if e_machine elf_hdr \<noteq> 3 then ELF_NOTELF
                     else if e_version elf_hdr \<noteq> 1 then ELF_NOTELF
                     else ELF_SUCCESS) }"

section \<open>Executables as byte strings\<close>

definition le16 :: "u16 \<Rightarrow> u8 list" where
  "le16 v = [ucast v, ucast (drop_bit 8 v)]"

definition le32 :: "u32 \<Rightarrow> u8 list" where
  "le32 v = [ucast v, ucast (drop_bit 8 v), ucast (drop_bit 16 v), ucast (drop_bit 24 v)]"

definition encode_ehdr :: "Elf32_Ehdr \<Rightarrow> u8 list" where
  "encode_ehdr h = e_ident h @ le16 (e_type h) @ le16 (e_machine h) @ le32 (e_version h) @ le32 (eh_entry h) @
     le32 (e_phoff h) @ le32 (e_shoff h) @ le32 (e_flags h) @ le16 (e_ehsize h) @ le16 (e_phentsize h) @
     le16 (e_phnum h) @ le16 (e_shentsize h) @ le16 (e_shnum h) @ le16 (e_shstrndx h)"

definition encode_shdr :: "Elf32_Shdr \<Rightarrow> u8 list" where
  "encode_shdr sh = le32 (sh_name sh) @ le32 (sh_type sh) @ le32 (sh_flags sh) @ le32 (sh_addr sh) @
     le32 (sh_offset sh) @ le32 (sh_size sh) @ le32 (sh_link sh) @ le32 (sh_info sh) @
     le32 (sh_addralign sh) @ le32 (sh_entsize sh)"

text \<open>The bytes at an address.\<close>

definition mem_at :: "bytes \<Rightarrow> addr \<Rightarrow> u8 list \<Rightarrow> bool" where
  "mem_at m a bs \<longleftrightarrow> (\<forall>j<length bs. m (a + of_nat j) = bs ! j)"

lemma length_le [simp]: "length (le16 v) = 2" "length (le32 w) = 4"
  by (simp_all add: le16_def le32_def)

lemma length_shdr [simp]: "length (encode_shdr sh) = 40"
  by (simp add: encode_shdr_def)

lemma mem_at_Nil [simp]: "mem_at m a []"
  by (simp add: mem_at_def)

lemma mem_at_Cons: "mem_at m a (b # bs) \<longleftrightarrow> m a = b \<and> mem_at m (a + 1) bs"
proof -
  have "(\<forall>j<Suc n. P j) \<longleftrightarrow> P 0 \<and> (\<forall>j<n. P (Suc j))" for n P
    using All_less_Suc2 by blast
  then show ?thesis by (simp add: mem_at_def add.assoc)
qed

lemma mem_at_append: "mem_at m a (xs @ ys) \<longleftrightarrow> mem_at m a xs \<and> mem_at m (a + of_nat (length xs)) ys"
  by (induction xs arbitrary: a) (simp_all add: mem_at_Cons add.assoc)

lemma mem_at_le32: "mem_at m a (le32 v) \<Longrightarrow> ld32 m a = v"
  by (rule ld32_bytes) (simp_all add: mem_at_Cons le32_def add.assoc)

lemma mem_at_le16: "mem_at m a (le16 v) \<Longrightarrow> ld16 m a = v"
proof -
  assume "mem_at m a (le16 v)"
  then have b: "m a = ucast v" "m (a + 1) = ucast (drop_bit 8 v)"
    by (simp_all add: mem_at_Cons le16_def)
  show ?thesis
  proof (rule bit_word_eqI)
    fix n assume "n < LENGTH(16)"
    then consider "n < 8" | "8 \<le> n" "n < 16" by fastforce
    then show "bit (ld16 m a) n = bit v n"
      unfolding ld16_def b by cases (auto simp: bit_or_iff bit_push_bit_iff bit_unsigned_iff bit_drop_bit_eq)
  qed
qed

lemma shdr_at_encode: "mem_at m a (encode_shdr sh) \<Longrightarrow> shdr_at m a = sh"
  by (auto simp: encode_shdr_def mem_at_append shdr_at_def add.assoc dest!: mem_at_le32)

lemma ehdr_at_encode:
  assumes "mem_at m a (encode_ehdr h)" "length (e_ident h) = 16"
  shows "ehdr_at m a = h"
proof -
  have "map (\<lambda>i. m (a + of_nat i)) [0..<16] = e_ident h"
    using assms by (intro nth_equalityI) (auto simp: encode_ehdr_def nth_append mem_at_def)
  then show ?thesis
    using assms by (auto simp: encode_ehdr_def mem_at_append ehdr_at_def add.assoc dest!: mem_at_le32 mem_at_le16)
qed

lemma shdrs_at_encode:
  "mem_at m a (concat (map encode_shdr secs)) \<Longrightarrow> map (\<lambda>i. shdr_at m (a + of_nat (40 * i))) [0..<length secs] = secs"
proof (induction secs arbitrary: a)
  case (Cons sh secs)
  then have sh: "shdr_at m a = sh" and "mem_at m (a + 40) (concat (map encode_shdr secs))"
    by (auto simp: mem_at_append intro: shdr_at_encode)
  from Cons.IH[OF this(2)] have "map (\<lambda>i. shdr_at m (a + 40 + of_nat (40 * i))) [0..<length secs] = secs" .
  moreover have "map (\<lambda>i. shdr_at m (a + of_nat (40 * i))) [Suc 0..<Suc (length secs)] =
      map (\<lambda>i. shdr_at m (a + 40 + of_nat (40 * i))) [0..<length secs]"
    by (simp add: map_Suc_upt[symmetric] o_def add.assoc del: upt_Suc)
  ultimately show ?case by (simp add: sh upt_conv_Cons del: upt_Suc)
qed simp

lemma mem_at_map: "mem_at m 0 bs \<Longrightarrow> map (\<lambda>i. m (of_nat i)) [0..<length bs] = bs"
  by (intro nth_equalityI) (auto simp: mem_at_def)

lemma read_file_ok:
  assumes "toc_find toc path = Some e" "length (execbytes e) < 2 ^ 31"
    and "take (unat sz) (drop (unat off) (execbytes e)) = bs" "length bs = unat sz" "bs \<noteq> []"
  obtains m where "read_file toc path off sz = Some (True, m)" "mem_at m 0 bs"
proof -
  have n: "unat off + unat sz \<le> length (execbytes e)" "0 < unat sz" using assms(3,4,5) by (auto simp: min_def split: if_splits)
  then have s: "sint off = int (unat off)" "sint sz = int (unat sz)" using assms(2) by (simp_all add: sint32)
  have "unat off < length (execbytes e)" using n by linarith
  then have lt: "int (unat off) < execlen e" "execlen e \<le> 2 ^ 31"
    using assms(2) by (simp_all only: execlen_def of_nat_less_iff) simp
  obtain k m where m: "getbytes toc path (int (unat off)) (int (unat sz)) 0 (\<lambda>_. 0) = Some (int k, m)"
    "k = min (nat (int (unat sz))) (length (execbytes e) - nat (int (unat off)))"
    "\<forall>i<k. m (0 + of_nat i) = execbytes e ! (nat (int (unat off)) + i)"
    using getbytes_run[OF assms(1) of_nat_0_le_iff lt(1) of_nat_0_le_iff lt(2), of "unat sz" 0 "\<lambda>_. 0"] by metis
  have k: "k = unat sz" using m(2) n by simp
  show thesis
  proof (rule that)
    show "read_file toc path off sz = Some (True, m)" using m(1) by (simp add: read_file_def s k)
    show "mem_at m 0 bs" using m(3) n assms(3)[symmetric] by (auto simp: mem_at_def k)
  qed
qed

section \<open>Section names\<close>

lemma strcmp_found:
  assumes "0 \<notin> set n" "0 \<in> set str"
  obtains c where "strcmp (n @ [0]) str = Some c" "c = 0 \<longleftrightarrow> takeWhile (\<lambda>x. x \<noteq> 0) str = n"
proof -
  have "\<exists>c. strcmp (n @ [0]) str = Some c \<and> (c = 0 \<longleftrightarrow> takeWhile (\<lambda>x. x \<noteq> 0) str = n)"
    using assms
  proof (induction n arbitrary: str)
    case Nil
    then show ?case by (cases str) (auto simp: unsigned_eq_0_iff)
  next
    case (Cons a n)
    then obtain b str' where str: "str = b # str'" by (cases str) auto
    show ?case
    proof (cases "b = 0 \<or> a \<noteq> b")
      case True
      then show ?thesis using Cons.prems str by (auto simp: unsigned_eq_0_iff unsigned_word_eqI)
    next
      case False
      then have "0 \<in> set str'" using Cons.prems(2) str by auto
      then show ?thesis using Cons.IH[of str'] Cons.prems(1) str False by auto
    qed
  qed
  then show thesis using that by blast
qed

lemma strncmp_returns: "0 \<in> set t \<Longrightarrow> 0 \<in> set str \<Longrightarrow> \<exists>c. strncmp t str n = Some c"
proof (induction t str n rule: strncmp.induct)
  case (2 a as b bs n)
  then show ?case by auto
qed auto

definition sec_name :: "u8 list \<Rightarrow> Elf32_Shdr \<Rightarrow> u8 list" where
  "sec_name tab sh = takeWhile (\<lambda>c. c \<noteq> 0) (drop (unat (sh_name sh)) tab)"

definition chars :: "string \<Rightarrow> u8 list" where
  "chars s = map of_char s"

text \<open>What a section contributes to the summary, by its name.\<close>

definition spec_section :: "u8 list \<Rightarrow> Elf32_Shdr \<Rightarrow> simple_elf \<Rightarrow> simple_elf" where
  "spec_section tab sh se =
     (if sh_name sh = 0 then se
      else if sec_name tab sh = chars ''.text''
      then se\<lparr>e_txtoff := sh_offset sh, e_txtlen := sh_size sh, e_txtstart := sh_addr sh\<rparr>
      else if sec_name tab sh = chars ''.rodata''
      then se\<lparr>e_rodatoff := sh_offset sh, e_rodatlen := sh_size sh, e_rodatstart := sh_addr sh\<rparr>
      else if sec_name tab sh = chars ''.data''
      then se\<lparr>e_datoff := sh_offset sh, e_datlen := sh_size sh, e_datstart := sh_addr sh\<rparr>
      else if sec_name tab sh = chars ''.bss'' then se\<lparr>e_bsslen := sh_size sh\<rparr>
      else se)"

definition name_ok :: "u8 list \<Rightarrow> Elf32_Shdr \<Rightarrow> bool" where
  "name_ok tab sh \<longleftrightarrow> sh_name sh = 0 \<or> 0 \<in> set (drop (unat (sh_name sh)) tab)"

lemma strcmp_lit:
  assumes "0 \<notin> set (chars n)" "0 \<in> set str"
  obtains c where "strcmp (lit n) str = Some c" "c = 0 \<longleftrightarrow> takeWhile (\<lambda>x. x \<noteq> 0) str = chars n"
  using strcmp_found[OF assms] unfolding lit_def chars_def by metis

lemma known_section_returns:
  assumes "0 \<in> set str" "\<forall>n\<in>set ns. 0 \<notin> set (chars n)"
  shows "\<exists>b. known_section (map lit ns) str = Some b"
  using assms(2)
proof (induction ns)
  case Nil
  have "0 \<in> set (lit ''.debug'')" by (simp add: lit_def)
  then obtain c where "strncmp (lit ''.debug'') str 6 = Some c" using strncmp_returns[OF _ assms(1)] by metis
  then show ?case by simp
next
  case (Cons n ns)
  have "0 \<notin> set (chars n)" using Cons.prems by simp
  then obtain c where "strcmp (lit n) str = Some c" by (rule strcmp_lit[OF _ assms(1)])
  then show ?case using Cons by (cases "c = 0") auto
qed

lemma names_no_zero: "0 \<notin> set (chars ''.text'')" "0 \<notin> set (chars ''.rodata'')" "0 \<notin> set (chars ''.data'')" "0 \<notin> set (chars ''.bss'')"
  "\<forall>n\<in>set [''.symtab'', ''.strtab'', ''.shstrtab'', ''.stab'', ''.stabstr'', ''.comment'', ''.note'']. 0 \<notin> set (chars n)"
  by (simp_all add: chars_def)

lemma elf_section_spec: "name_ok tab sh \<Longrightarrow> elf_section tab sh se = Some (spec_section tab sh se)"
proof (cases "sh_name sh = 0")
  case False
  assume "name_ok tab sh"
  then have z: "0 \<in> set (drop (unat (sh_name sh)) tab)" using False by (simp add: name_ok_def)
  let ?str = "drop (unat (sh_name sh)) tab"
  obtain c1 where c1: "strcmp (lit ''.text'') ?str = Some c1" "c1 = 0 \<longleftrightarrow> sec_name tab sh = chars ''.text''"
    unfolding sec_name_def by (rule strcmp_lit[OF names_no_zero(1) z])
  obtain c2 where c2: "strcmp (lit ''.rodata'') ?str = Some c2" "c2 = 0 \<longleftrightarrow> sec_name tab sh = chars ''.rodata''"
    unfolding sec_name_def by (rule strcmp_lit[OF names_no_zero(2) z])
  obtain c3 where c3: "strcmp (lit ''.data'') ?str = Some c3" "c3 = 0 \<longleftrightarrow> sec_name tab sh = chars ''.data''"
    unfolding sec_name_def by (rule strcmp_lit[OF names_no_zero(3) z])
  obtain c4 where c4: "strcmp (lit ''.bss'') ?str = Some c4" "c4 = 0 \<longleftrightarrow> sec_name tab sh = chars ''.bss''"
    unfolding sec_name_def by (rule strcmp_lit[OF names_no_zero(4) z])
  obtain b where "known_section (map lit [''.symtab'', ''.strtab'', ''.shstrtab'', ''.stab'', ''.stabstr'',
      ''.comment'', ''.note'']) ?str = Some b"
    using known_section_returns[OF z names_no_zero(5)] by blast
  then show ?thesis
    using False c1 c2 c3 c4 by (simp add: elf_section_def spec_section_def SHN_UNDEF_def Let_def)
qed (simp add: elf_section_def spec_section_def SHN_UNDEF_def)

lemma elf_sections_spec:
  "\<forall>sh\<in>set secs. name_ok tab sh \<Longrightarrow> c_each secs (elf_section tab) se = Some (fold (spec_section tab) secs se)"
  by (induction secs arbitrary: se) (auto simp: elf_section_spec)

section \<open>Loading an executable\<close>

text \<open>An image with the ELF header \<open>h\<close>, the section headers \<open>secs\<close> and the table of section names \<open>tab\<close>, each where
  the headers say it is.\<close>

definition elf_image :: "u8 list \<Rightarrow> Elf32_Ehdr \<Rightarrow> Elf32_Shdr list \<Rightarrow> u8 list \<Rightarrow> bool" where
  "elf_image img h secs tab \<longleftrightarrow>
     length (e_ident h) = 16 \<and> take 52 img = encode_ehdr h \<and>
     unat (e_shnum h) = length secs \<and> unat (e_shstrndx h) < length secs \<and>
     take (40 * length secs) (drop (unat (e_shoff h)) img) = concat (map encode_shdr secs) \<and>
     tab \<noteq> [] \<and> length tab = unat (sh_size (secs ! unat (e_shstrndx h))) \<and>
     take (length tab) (drop (unat (sh_offset (secs ! unat (e_shstrndx h)))) img) = tab"

text \<open>C7: From an image that holds an ELF header, a table of section headers and their names, the loader returns
  exactly the entry point and the places of the sections named .text, .rodata, .data and .bss, the last one of
  each name; the magic number and the other fields of the header play no role.\<close>

theorem elf_load_correct:
  assumes "toc_find toc path = Some e" "length (execbytes e) < 2 ^ 31"
    and "elf_image (execbytes e) h secs tab" "\<forall>sh\<in>set secs. name_ok tab sh"
    and "heap s = p # q # hs" "p \<noteq> NULL" "q \<noteq> NULL"
  shows "elf_load_helper toc path s =
    Some (ELF_SUCCESS, fold (spec_section tab) secs (zero_elf\<lparr>e_entry := eh_entry h\<rparr>), s\<lparr>heap := hs\<rparr>)"
proof -
  let ?img = "execbytes e" and ?strsec = "secs ! unat (e_shstrndx h)"
  note img = assms(3)[unfolded elf_image_def]
  have len_h: "length (encode_ehdr h) = 52" using img by (simp add: encode_ehdr_def)
  obtain m1 where m1: "read_file toc path 0 52 = Some (True, m1)" "mem_at m1 0 (encode_ehdr h)"
    by (rule read_file_ok[OF assms(1,2), of 52 0 "encode_ehdr h"]) (use img len_h in auto)
  have h: "ehdr_at m1 0 = h" using ehdr_at_encode[OF m1(2)] img by simp
  have len_s: "length (concat (map encode_shdr xs)) = 40 * length xs" for xs by (induction xs) auto
  have sz: "unat (ucast (e_shnum h) * 40 :: u32) = 40 * length secs"
  proof -
    have "unat (e_shnum h) < 2 ^ 16" using unsigned_less[of "e_shnum h", where 'a = nat] by simp
    moreover from this have "unat (ucast (e_shnum h) :: u32) = unat (e_shnum h)"
      by (simp add: unsigned_ucast_eq take_bit_nat_eq_self)
    ultimately show ?thesis using img by (simp add: unat_word_ariths)
  qed
  have ne: "secs \<noteq> []" using img by auto
  have "0 < length (concat (map encode_shdr secs))" unfolding len_s using ne by simp
  then have "concat (map encode_shdr secs) \<noteq> []" by (simp only: length_greater_0_conv not_False_eq_True)
  then obtain m2 where m2: "read_file toc path (e_shoff h) (ucast (e_shnum h) * 40) = Some (True, m2)"
    "mem_at m2 0 (concat (map encode_shdr secs))"
    by (rule read_file_ok[OF assms(1,2), of "ucast (e_shnum h) * 40" "e_shoff h" "concat (map encode_shdr secs)", rotated 2])
      (use img len_s sz in auto)
  have secs: "map (\<lambda>i. shdr_at m2 (of_nat (40 * i))) [0..<length secs] = secs"
    using shdrs_at_encode[OF m2(2)] by simp
  obtain m3 where m3: "read_file toc path (sh_offset ?strsec) (sh_size ?strsec) = Some (True, m3)" "mem_at m3 0 tab"
    by (rule read_file_ok[OF assms(1,2), of "sh_size ?strsec" "sh_offset ?strsec" tab]) (use img in auto)
  have tab: "map (\<lambda>i. m3 (of_nat i)) [0..<unat (sh_size ?strsec)] = tab"
    using mem_at_map[OF m3(2)] img by simp
  have k: "kmalloc s = (p, s\<lparr>heap := q # hs\<rparr>)" "kmalloc (s\<lparr>heap := q # hs\<rparr>) = (q, s\<lparr>heap := hs\<rparr>)"
    using assms(5) by (simp_all add: kmalloc_def)
  have n: "unat (e_shnum h) = length secs" and ix: "(length secs \<le> unat (e_shstrndx h)) = False"
    and pq: "(p = NULL) = False" "(q = NULL) = False" using img assms(6,7) by auto
  show ?thesis
    by (simp only: elf_load_helper_def m1(1) m2(1) m3(1) h k n secs tab ix pq elf_sections_spec[OF assms(4)]
        bind.bind_lunit prod.case Let_def if_False not_True_eq_False)
qed

text \<open>A program with three sections: none, the names, and text at \<^verbatim>\<open>0x1000000\<close>.\<close>

definition tiny_ehdr :: Elf32_Ehdr where
  "tiny_ehdr = \<lparr>e_ident = replicate 16 0, e_type = 0, e_machine = 0, e_version = 0, eh_entry = 0x1000010, e_phoff = 0,
     e_shoff = 52, e_flags = 0, e_ehsize = 52, e_phentsize = 0, e_phnum = 0, e_shentsize = 40, e_shnum = 2,
     e_shstrndx = 0\<rparr>"

definition tiny_secs :: "Elf32_Shdr list" where
  "tiny_secs =
     [\<lparr>sh_name = 0, sh_type = 3, sh_flags = 0, sh_addr = 0, sh_offset = 132, sh_size = 7, sh_link = 0, sh_info = 0,
       sh_addralign = 1, sh_entsize = 0\<rparr>,
      \<lparr>sh_name = 1, sh_type = 1, sh_flags = 6, sh_addr = 0x1000000, sh_offset = 0x200, sh_size = 0x30, sh_link = 0,
       sh_info = 0, sh_addralign = 4, sh_entsize = 0\<rparr>]"

definition tiny_names :: "u8 list" where
  "tiny_names = 0 # lit ''.text''"

definition tiny_program :: toc_entry where
  "tiny_program = \<lparr>execname = [105], execbytes = encode_ehdr tiny_ehdr @ concat (map encode_shdr tiny_secs) @ tiny_names\<rparr>"

theorem elf_load_correct_witness:
  "\<exists>se. elf_load_helper [tiny_program] [105, 0] (zero_state\<lparr>heap := [0x10, 0x20]\<rparr>) = Some (0, se, zero_state) \<and>
     e_entry se = 0x1000010 \<and> e_txtoff se = 0x200 \<and> e_txtlen se = 0x30 \<and> e_txtstart se = 0x1000000"
proof -
  have found: "toc_find [tiny_program] [105, 0] = Some tiny_program" by (simp add: tiny_program_def cstr_def)
  have len: "length (encode_ehdr tiny_ehdr) = 52" by (simp add: encode_ehdr_def tiny_ehdr_def)
  have fields: "length (e_ident tiny_ehdr) = 16" "e_shnum tiny_ehdr = 2" "e_shstrndx tiny_ehdr = 0" "e_shoff tiny_ehdr = 52"
    by (simp_all add: tiny_ehdr_def)
  have size: "length (execbytes tiny_program) < 2 ^ 31"
    by (simp add: tiny_program_def len tiny_secs_def tiny_names_def lit_def)
  have image: "elf_image (execbytes tiny_program) tiny_ehdr tiny_secs tiny_names"
    unfolding elf_image_def tiny_program_def
    by (simp add: len fields tiny_secs_def tiny_names_def lit_def)
  have names: "\<forall>sh\<in>set tiny_secs. name_ok tiny_names sh"
    by (simp add: tiny_secs_def name_ok_def tiny_names_def lit_def)
  have dot_text: "sec_name tiny_names (tiny_secs ! 1) = chars ''.text''"
    by (simp add: sec_name_def tiny_secs_def tiny_names_def lit_def chars_def)
  show ?thesis
    using elf_load_correct[OF found size image names, of "zero_state\<lparr>heap := [0x10, 0x20]\<rparr>" "0x10" "0x20" "[]"] dot_text
    by (simp add: tiny_secs_def spec_section_def ELF_SUCCESS_def tiny_ehdr_def) (simp add: zero_state_def)
qed

end
