(* ===== verification/Task_Thread.thy ===== *)
theory Task_Thread
  imports Sched Elf_Loader
begin

text \<open>
  The life of tasks (\<^verbatim>\<open>kern/task.c\<close>) and threads (\<^verbatim>\<open>kern/thread.c\<close>): creation, copying for a fork,
  loading a program, vanishing and being reaped, waiting for children.
\<close>

section \<open>Loading a program\<close>

text \<open>The file is opened before the regions are created, and stays with the task on failure.\<close>

definition load_segments :: "kern_env \<Rightarrow> addr \<Rightarrow> simple_elf \<Rightarrow> addr \<Rightarrow> kstate \<Rightarrow> (int \<times> kstate) option" where
  "load_segments E t se_hdr f s =
     do { (rc, s) \<leftarrow> vmm_load_text E t se_hdr f s;
          if rc < 0 then Some (-1, s)
          else do {
            (rc, s) \<leftarrow> vmm_load_rodata E t se_hdr f s;
            if rc < 0 then Some (-1, s)
            else do {
              (rc, s) \<leftarrow> vmm_load_data E t se_hdr f s;
              if rc < 0 then Some (-1, s)
              else do {
                (rc, s) \<leftarrow> vmm_load_bss E t se_hdr f s;
                if rc < 0 then Some (-1, s) else Some (0, s) } } } }"

definition task_load :: "kern_env \<Rightarrow> addr \<Rightarrow> u8 list \<Rightarrow> kstate \<Rightarrow> (int \<times> kstate) option" where
  "task_load E t task_path s =
     (let (hdr, s) = kmalloc s
      in if hdr = NULL then Some (-1, s)
         else do {
           (rc, se_hdr, s) \<leftarrow> elf_load_helper (exec2obj_userapp_TOC E) task_path s;
           if rc < 0 then Some (-1, s)
              else do {
                (f, s) \<leftarrow> file_alloc s;
                (rc, s) \<leftarrow> file_open f task_path s;
                s \<leftarrow> file_get f s;
                s \<leftarrow> upd_task t (\<lambda>T. T\<lparr>tfile := f\<rparr>) s;
                (rc, s) \<leftarrow> load_segments E t se_hdr f s;
                if rc < 0 then Some (-1, s)
                else do {
                  s \<leftarrow> upd_task t (\<lambda>T. T\<lparr>tentry_point := e_entry se_hdr\<rparr>) s;
                  Some (0, s) } } })"

section \<open>Creating tasks\<close>

definition fresh_task :: "u32 \<Rightarrow> task_t" where
  "fresh_task i =
     \<lparr>task_id = i, tcount = 0, page_dir = NULL, tentry_point = 0, tfile = NULL, vm_area_list = Q_INIT_HEAD,
      task_cs = 0, task_ds = 0, tparent = NULL, tthread = NULL, tchild_list = Q_INIT_HEAD\<rparr>"

definition task_init :: "addr \<Rightarrow> addr \<Rightarrow> kstate \<Rightarrow> (int \<times> kstate) option" where
  "task_init t par s =
     (let s = s\<lparr>tasks := (tasks s)(t \<mapsto> fresh_task 0), taskmap_link := Q_INIT_ELEM t (taskmap_link s),
                tchild_link := Q_INIT_ELEM t (tchild_link s)\<rparr>
      in do {
        existing \<leftarrow> sched_find_task (current_task_id s + 1) s;
        if existing \<noteq> NULL then Some (-1, s)
        else do {
          let s = s\<lparr>current_task_id := current_task_id s + 1\<rparr>;
          s \<leftarrow> upd_task t (\<lambda>T. T\<lparr>task_id := current_task_id s\<rparr>) s;
          s \<leftarrow> (if par \<noteq> NULL then do {
                  s \<leftarrow> task_get par s;
                  P \<leftarrow> tasks s par;
                  s \<leftarrow> upd_task t (\<lambda>T. T\<lparr>tparent := par, tentry_point := tentry_point P, tfile := tfile P\<rparr>) s;
                  s \<leftarrow> tchild_list_op par (Q_INSERT_TAIL t) s;
                  task_get t s }
                else Some s);
          T \<leftarrow> tasks s t;
          s \<leftarrow> (if tfile T \<noteq> NULL then file_get (tfile T) s else Some s);
          s \<leftarrow> sched_add_task t s;
          Some (0, s)
        }
      })"

text \<open>The loop of \<open>task_reap\<close> over the children.\<close>

partial_function (option) release_children :: "kern_env \<Rightarrow> addr \<Rightarrow> addr \<Rightarrow> kstate \<Rightarrow> kstate option" where
  "release_children E t child s =
     (if child = NULL then Some s
      else let next_task = Q_GET_NEXT child (tchild_link s)
           in Option.bind (tchild_list_op t (Q_REMOVE child) s) (\<lambda>s.
              Option.bind (task_put E child s) (release_children E t next_task)))"

definition task_delete_vm :: "kern_env \<Rightarrow> addr \<Rightarrow> kstate \<Rightarrow> kstate option" where
  "task_delete_vm E t s = vm_area_remove_all E t s"

definition task_reap :: "kern_env \<Rightarrow> addr \<Rightarrow> kstate \<Rightarrow> kstate option" where
  "task_reap E t s =
     do { s \<leftarrow> sched_remove_task E t s;
          T \<leftarrow> tasks s t;
          s \<leftarrow> (if tparent T \<noteq> NULL then do {
                  s \<leftarrow> tchild_list_op (tparent T) (Q_REMOVE t) s;
                  s \<leftarrow> task_put E t s;
                  T \<leftarrow> tasks s t;
                  s \<leftarrow> task_put E (tparent T) s;
                  upd_task t (\<lambda>T. T\<lparr>tparent := NULL\<rparr>) s }
                else Some s);
          T \<leftarrow> tasks s t;
          s \<leftarrow> release_children E t (Q_GET_FRONT (tchild_list T)) s;
          task_delete_vm E t s }"

definition task_create :: "kern_env \<Rightarrow> addr \<Rightarrow> kstate \<Rightarrow> (addr \<times> kstate) option" where
  "task_create E par s =
     (let (t, s) = kmalloc s
      in if t = NULL then None
         else do {
           (rc, s) \<leftarrow> task_init t par s;
           if rc < 0 then Some (NULL, s\<lparr>tasks := (tasks s)(t := None)\<rparr>)
           else do {
             (rc, s) \<leftarrow> vmm_task_create E t s;
             if rc < 0 then do {
               s \<leftarrow> task_reap E t s;
               s \<leftarrow> task_free E t s;
               Some (NULL, s) }
             else Some (t, s) } })"

definition task_copy :: "kern_env \<Rightarrow> addr \<Rightarrow> kstate \<Rightarrow> (addr \<times> kstate) option" where
  "task_copy E par s =
     do { (t, s) \<leftarrow> task_create E par s;
          if t = NULL then Some (NULL, s)
          else do {
            (rc, s) \<leftarrow> vmm_task_copy E t par s;
            if rc < 0 then do {
              s \<leftarrow> task_reap E t s;
              s \<leftarrow> task_free E t s;
              Some (NULL, s) }
            else Some (t, s) } }"

section \<open>Creating threads\<close>

definition fresh_thread :: "u32 \<Rightarrow> thread_t" where
  "fresh_thread i =
     \<lparr>thread_id = i, count = 0, state = THREAD_STATE_RUNNABLE, deadline = 0, status = 0,
      user_stack_size = 0, kernel_stack_size = 0, vma_kernel_stack = NULL, vma_user_stack = NULL,
      kernel_esp = 0, kernel_esp0 = 0, esp = 0, eip = 0, ss = 0, ebp = 0, eflags = 0,
      parent_task = NULL, parent = NULL, wait_list = Q_INIT_HEAD, self_wait_list = Q_INIT_HEAD,
      child_list = Q_INIT_HEAD, zombie_list = Q_INIT_HEAD\<rparr>"

definition thread_init :: "addr \<Rightarrow> addr \<Rightarrow> addr \<Rightarrow> kstate \<Rightarrow> (int \<times> kstate) option" where
  "thread_init t task par s =
     (let s = s\<lparr>threads := (threads s)(t \<mapsto> fresh_thread 0), child_link := Q_INIT_ELEM t (child_link s),
                runnable_link := Q_INIT_ELEM t (runnable_link s), wait_link := Q_INIT_ELEM t (wait_link s),
                threadmap_link := Q_INIT_ELEM t (threadmap_link s)\<rparr>
      in do {
        existing \<leftarrow> sched_find_thread (current_thread_id s + 1) s;
        if existing \<noteq> NULL then Some (-1, s)
        else do {
          let s = s\<lparr>current_thread_id := current_thread_id s + 1\<rparr>;
          s \<leftarrow> upd_thread t (\<lambda>th. th\<lparr>thread_id := current_thread_id s, parent := par\<rparr>) s;
          s \<leftarrow> thread_get t s;
          s \<leftarrow> (if par \<noteq> NULL then do {
                  s \<leftarrow> thread_get par s;
                  child_list_op par (Q_INSERT_TAIL t) s }
                else Some s);
          s \<leftarrow> upd_thread t (\<lambda>th. th\<lparr>parent_task := task\<rparr>) s;
          s \<leftarrow> task_get task s;
          Some (0, s)
        }
      })"

text \<open>What both creation functions do when the stacks cannot be set up.\<close>

definition thread_abort :: "kern_env \<Rightarrow> addr \<Rightarrow> kstate \<Rightarrow> (addr \<times> kstate) option" where
  "thread_abort E t s =
     do { th \<leftarrow> threads s t;
          s \<leftarrow> (if parent th \<noteq> NULL then child_list_op (parent th) (Q_REMOVE t) s else Some s);
          s \<leftarrow> thread_put E t s;
          Some (NULL, s) }"

definition thread_copy :: "kern_env \<Rightarrow> addr \<Rightarrow> addr \<Rightarrow> kstate \<Rightarrow> (addr \<times> kstate) option" where
  "thread_copy E dst_task src_thread s =
     (let (dst_thread, s) = kmalloc s
      in if dst_thread = NULL then None
         else do {
           (rc, s) \<leftarrow> thread_init dst_thread dst_task src_thread s;
           if rc < 0 then Some (NULL, s\<lparr>threads := (threads s)(dst_thread := None)\<rparr>)
           else do {
             (rc, s) \<leftarrow> vmm_thread_copy E dst_thread src_thread s;
             if rc < 0 then thread_abort E dst_thread s
             else do {
               s \<leftarrow> sched_add_thread dst_thread s;
               Some (dst_thread, s) } } })"

definition thread_create ::
  "kern_env \<Rightarrow> addr \<Rightarrow> addr \<Rightarrow> u32 \<Rightarrow> u32 \<Rightarrow> kstate \<Rightarrow> (addr \<times> kstate) option" where
  "thread_create E task par ustack_size kstack_size s =
     (let (t, s) = kmalloc s
      in if t = NULL then None
         else do {
           (rc, s) \<leftarrow> thread_init t task par s;
           if rc < 0 then Some (NULL, s\<lparr>threads := (threads s)(t := None)\<rparr>)
           else do {
             (rc, s) \<leftarrow> vmm_thread_create E t ustack_size kstack_size s;
             if rc < 0 then thread_abort E t s
             else do {
               s \<leftarrow> sched_add_thread t s;
               Some (t, s) } } })"

definition thread_reset :: "addr \<Rightarrow> kstate \<Rightarrow> kstate option" where
  "thread_reset t s =
     do { th \<leftarrow> threads s t;
          T \<leftarrow> tasks s (parent_task th);
          let fl = (0x1 OR 0x0 OR 0x200) AND NOT 0x40000;
          upd_thread t (\<lambda>th. th\<lparr>eip := tentry_point T, ss := SEGSEL_USER_DS, eflags := fl\<rparr>) s }"

section \<open>Vanishing\<close>

partial_function (option) reap_zombies :: "kern_env \<Rightarrow> addr \<Rightarrow> addr \<Rightarrow> kstate \<Rightarrow> kstate option" where
  "reap_zombies E t zombie s =
     (if zombie = NULL then Some s
      else let next_zombie = Q_GET_NEXT zombie (child_link s)
           in Option.bind (upd_thread zombie (\<lambda>th. th\<lparr>state := THREAD_STATE_DONE\<rparr>) s) (\<lambda>s.
              Option.bind (zombie_list_op t (Q_REMOVE zombie) s) (\<lambda>s.
              Option.bind (thread_put E zombie s) (reap_zombies E t next_zombie))))"

text \<open>The part that tells the parent: from its list of children to its list of zombies, and waking
  it if it waits.\<close>

definition vanish_to_parent :: "addr \<Rightarrow> kstate \<Rightarrow> kstate option" where
  "vanish_to_parent t s =
     do { th \<leftarrow> threads s t;
          if parent th \<noteq> NULL then do {
            s \<leftarrow> child_list_op (parent th) (Q_REMOVE t) s;
            s \<leftarrow> upd_thread t (\<lambda>th. th\<lparr>state := THREAD_STATE_ZOMBIE\<rparr>) s;
            s \<leftarrow> zombie_list_op (parent th) (Q_INSERT_TAIL t) s;
            sched_wakeup_threads (Self_wait_list (parent th)) s }
          else Some s }"

definition thread_vanish_noyield :: "kern_env \<Rightarrow> addr \<Rightarrow> kstate \<Rightarrow> kstate option" where
  "thread_vanish_noyield E t s =
     do { s \<leftarrow> sched_remove_thread E t s;
          th \<leftarrow> threads s t;
          s \<leftarrow> (if state th = THREAD_STATE_RUNNABLE then sched_remove_runnable_thread E t s
                else if state th = THREAD_STATE_WAITING then sched_remove_waiting_thread E t s
                else Some s);
          th \<leftarrow> threads s t;
          s \<leftarrow> (if vma_user_stack th \<noteq> NULL then do {
                  s \<leftarrow> vm_area_put E (vma_user_stack th) s;
                  upd_thread t (\<lambda>th. th\<lparr>vma_user_stack := NULL\<rparr>) s }
                else Some s);
          s \<leftarrow> vanish_to_parent t s;
          th \<leftarrow> threads s t;
          s \<leftarrow> reap_zombies E t (Q_GET_FRONT (zombie_list th)) s;
          s \<leftarrow> sched_wakeup_threads (Wait_list t) s;
          s \<leftarrow> thread_put E t s;
          th \<leftarrow> threads s t;
          s \<leftarrow> upd_task (parent_task th) (\<lambda>T. T\<lparr>tthread := NULL\<rparr>) s;
          task_reap E (parent_task th) s }"

definition thread_vanish :: "kern_env \<Rightarrow> addr \<Rightarrow> kstate \<Rightarrow> kstate option" where
  "thread_vanish E t s =
     do { s \<leftarrow> thread_vanish_noyield E t s; sched_yield E s }"

definition task_vanish_noyield :: "kern_env \<Rightarrow> addr \<Rightarrow> kstate \<Rightarrow> kstate option" where
  "task_vanish_noyield E t s =
     do { T \<leftarrow> tasks s t;
          if tthread T \<noteq> NULL then do {
            th \<leftarrow> threads s (tthread T);
            if state th \<noteq> THREAD_STATE_DONE then thread_vanish_noyield E (tthread T) s else Some s }
          else Some s }"

definition task_vanish :: "kern_env \<Rightarrow> addr \<Rightarrow> kstate \<Rightarrow> kstate option" where
  "task_vanish E t s =
     do { s \<leftarrow> task_vanish_noyield E t s; sched_yield E s }"

definition task_reload ::
  "kern_env \<Rightarrow> addr \<Rightarrow> addr \<Rightarrow> u8 list \<Rightarrow> addr \<Rightarrow> kstate \<Rightarrow> (int \<times> kstate) option" where
  "task_reload E t thr path argvec s =
     do { th \<leftarrow> threads s thr;
          let uvma = vma_user_stack th;
          if uvma = NULL then None
          else do {
            v \<leftarrow> vmas s uvma;
            (rc, s) \<leftarrow> vm_area_zero E uvma (start_address v) (vsize v) s;
            T \<leftarrow> tasks s t;
            s \<leftarrow> vmm_setup_user_stack (tthread T) argvec s;
            s \<leftarrow> vm_area_remove_taskvm E t s;
            T \<leftarrow> tasks s t;
            s \<leftarrow> (if tfile T \<noteq> NULL then do {
                    s \<leftarrow> file_put (tfile T) s;
                    upd_task t (\<lambda>T. T\<lparr>tfile := NULL\<rparr>) s }
                  else Some s);
            (rc, s) \<leftarrow> task_load E t path s;
            s \<leftarrow> (if rc < 0 then do {
                    T \<leftarrow> tasks s t;
                    s \<leftarrow> upd_thread (tthread T) (\<lambda>th. th\<lparr>status := -1\<rparr>) s;
                    task_vanish E t s }
                  else Some s);
            T \<leftarrow> tasks s t;
            s \<leftarrow> thread_reset (tthread T) s;
            Some (0, s) } }"

section \<open>Yielding and waiting\<close>

definition thread_yield :: "kern_env \<Rightarrow> addr \<Rightarrow> kstate \<Rightarrow> (int \<times> kstate) option" where
  "thread_yield E t s =
     do { th \<leftarrow> threads s t;
          if state th \<noteq> THREAD_STATE_RUNNABLE then Some (-1, s)
          else do { s \<leftarrow> sched_thread_yield E t (current_thread s) s; Some (0, s) } }"

text \<open>Taking the first zombie: its status and identifier.\<close>

definition reap_first_zombie :: "kern_env \<Rightarrow> addr \<Rightarrow> u32 \<Rightarrow> kstate \<Rightarrow> (u32 \<times> u32 \<times> kstate) option" where
  "reap_first_zombie E self st s =
     do { th \<leftarrow> threads s self;
          let zombie = Q_GET_FRONT (zombie_list th);
          if zombie \<noteq> NULL then do {
            s \<leftarrow> zombie_list_op self (Q_REMOVE zombie) s;
            z \<leftarrow> threads s zombie;
            s \<leftarrow> thread_put E zombie s;
            Some (status z, thread_id z, s) }
          else Some (st, -1, s) }"

definition thread_wait :: "kern_env \<Rightarrow> kstate \<Rightarrow> (u32 \<times> u32 \<times> kstate) option" where
  "thread_wait E s =
     (let self = current_thread s
      in if self = NULL then Some (0, -1, s)
         else do {
           th \<leftarrow> threads s self;
           if Q_GET_FRONT (child_list th) = NULL \<and> Q_GET_FRONT (zombie_list th) = NULL
           then Some (0, -1, s)
           else do {
             s \<leftarrow> thread_get self s;
             s \<leftarrow> (if Q_GET_FRONT (zombie_list th) = NULL
                   then sched_wait_on E (Self_wait_list self) 0 self s else Some s);
             (st, pid, s) \<leftarrow> reap_first_zombie E self 0 s;
             s \<leftarrow> thread_put E self s;
             Some (st, pid, s) } })"

end
