(* ===== verification/Process.thy ===== *)
theory Process
  imports Task_Thread
begin

text \<open>
  The system calls of processes and threads, \<^verbatim>\<open>kern/process.c\<close>: fork, exec, exit and wait, yield
  and the run flag, sleeping and the clock.
\<close>

section \<open>Fork\<close>

definition sys_fork :: "kern_env \<Rightarrow> kstate \<Rightarrow> (u32 \<times> kstate) option" where
  "sys_fork E s =
     do { th \<leftarrow> threads s (current_thread s);
          let current_task = parent_task th;
          T \<leftarrow> tasks s current_task;
          let parent_id = task_id T;
          (new_task, s) \<leftarrow> task_copy E current_task s;
          if new_task = NULL then Some (-1, s)
          else do {
            (new_thread, s) \<leftarrow> thread_copy E new_task (current_thread s) s;
            if new_thread = NULL then do {
              s \<leftarrow> task_vanish_noyield E new_task s;
              Some (-1, s) }
            else do {
              nt \<leftarrow> threads s new_thread;
              if vma_user_stack nt = NULL then None
              else do {
                s \<leftarrow> upd_task new_task (\<lambda>T. T\<lparr>tthread := new_thread\<rparr>) s;
                s \<leftarrow> thread_get new_thread s;
                let child_id = thread_id nt;
                s \<leftarrow> sched_add_runnable_thread new_thread s;
                s \<leftarrow> sched_yield E s;
                th \<leftarrow> threads s (current_thread s);
                T \<leftarrow> tasks s (parent_task th);
                if parent_id = task_id T then Some (child_id, s) else Some (0, s) } } } }"

section \<open>Exec\<close>

definition do_exec :: "kern_env \<Rightarrow> addr \<Rightarrow> addr \<Rightarrow> u8 list \<Rightarrow> addr \<Rightarrow> kstate \<Rightarrow> (int \<times> kstate) option" where
  "do_exec E task thread path argvec s =
     do { (rc, s) \<leftarrow> task_reload E task thread path argvec s;
          if rc < 0 then Some (rc, s) else Some (0, s) }"

text \<open>The characters of a C string in memory.\<close>

partial_function (option) read_cstr :: "bytes \<Rightarrow> addr \<Rightarrow> u8 list option" where
  "read_cstr m a = (if m a = 0 then Some [] else Option.bind (read_cstr m (a + 1)) (\<lambda>cs. Some (m a # cs)))"

text \<open>\<open>sys_exec\<close> either enters the new program through \<open>exit_exec\<close>, with the thread's instruction
  pointer, flags, stack pointer and page directory, or returns.\<close>

datatype exec_result = Exit_exec u32 u32 u32 addr | Exec_return int

definition sys_exec_fail :: "kern_env \<Rightarrow> addr \<Rightarrow> kstate \<Rightarrow> (exec_result \<times> kstate) option" where
  "sys_exec_fail E thread s =
     do { s \<leftarrow> upd_thread thread (\<lambda>th. th\<lparr>status := -1\<rparr>) s;
          s \<leftarrow> thread_vanish E thread s;
          Some (Exec_return (-1), s) }"

definition sys_exec :: "kern_env \<Rightarrow> addr \<Rightarrow> kstate \<Rightarrow> (exec_result \<times> kstate) option" where
  "sys_exec E sysarg s =
     (let cur = current_thread s
      in do {
        th \<leftarrow> threads s cur;
        let current_task = parent_task th;
        let execpath_src = copy_user_int (umem s) sysarg 0;
        n \<leftarrow> strlen_m (umem s) execpath_src;
        let (execpath, s) = kmalloc s;
        if execpath = NULL then sys_exec_fail E cur s
        else do {
          m \<leftarrow> strcpy_m execpath execpath_src (umem s);
          let s = s\<lparr>umem := m\<rparr>;
          let execargv_src = copy_user_int (umem s) sysarg 1;
          (argc, argvec_array_size, argvec_str_size) \<leftarrow> get_string_array_dim (umem s) execargv_src;
          let (execargv, s) = kmalloc s;
          if execargv = NULL then sys_exec_fail E cur s
          else do {
            (rc, m) \<leftarrow> copy_string_array execargv execargv_src (unat argc) argvec_array_size (umem s);
            let s = s\<lparr>umem := m\<rparr>;
            path \<leftarrow> read_cstr (umem s) execpath;
            (rc, s) \<leftarrow> do_exec E current_task cur path execargv s;
            if rc < 0 then sys_exec_fail E cur s
            else do {
              th \<leftarrow> threads s cur;
              T \<leftarrow> tasks s (parent_task th);
              Some (Exit_exec (eip th) (eflags th) (esp th) (page_dir T), s) } } } })"

section \<open>Exit and wait\<close>

definition sys_set_status :: "u32 \<Rightarrow> kstate \<Rightarrow> (u32 \<times> kstate) option" where
  "sys_set_status st s =
     do { s \<leftarrow> upd_thread (current_thread s) (\<lambda>th. th\<lparr>status := st\<rparr>) s; Some (st, s) }"

definition sys_vanish :: "kern_env \<Rightarrow> kstate \<Rightarrow> kstate option" where
  "sys_vanish E s = thread_vanish E (current_thread s) s"

definition sys_wait :: "kern_env \<Rightarrow> addr \<Rightarrow> kstate \<Rightarrow> (u32 \<times> kstate) option" where
  "sys_wait E usr_status_ptr s =
     do { (st, tid, s) \<leftarrow> thread_wait E s;
          Some (tid, s\<lparr>umem := copy_to_user_dword st usr_status_ptr (umem s)\<rparr>) }"

definition sys_task_vanish :: "kern_env \<Rightarrow> u32 \<Rightarrow> kstate \<Rightarrow> kstate option" where
  "sys_task_vanish E tid s =
     do { thread \<leftarrow> sched_find_thread tid s;
          if thread = NULL then Some s
          else do {
            th \<leftarrow> threads s thread;
            if parent_task th = NULL then Some s else task_vanish E (parent_task th) s } }"

section \<open>Thread management\<close>

definition sys_gettid :: "kstate \<Rightarrow> u32 option" where
  "sys_gettid s = map_option thread_id (threads s (current_thread s))"

definition sys_yield :: "kern_env \<Rightarrow> u32 \<Rightarrow> kstate \<Rightarrow> (int \<times> kstate) option" where
  "sys_yield E tid s =
     (if tid = -1 then do { s \<leftarrow> sched_yield E s; Some (0, s) }
      else do {
        thread \<leftarrow> sched_find_thread tid s;
        if thread = NULL then Some (-1, s) else thread_yield E thread s })"

text \<open>The state \<open>cas2i_runflag\<close> wants for a thread; runnable if neither expected value matches.\<close>

definition runflag_target :: "u32 \<Rightarrow> u32 \<Rightarrow> u32 \<Rightarrow> u32 \<Rightarrow> thread_state \<Rightarrow> thread_state" where
  "runflag_target ev1 nv1 ev2 nv2 st =
     (if (ev1 = 0 \<and> st = THREAD_STATE_RUNNABLE) \<or> (sint ev1 < 0 \<and> st = THREAD_STATE_SUSPENDED)
      then (if sint nv1 < 0 then THREAD_STATE_SUSPENDED else THREAD_STATE_RUNNABLE)
      else if (ev2 = 0 \<and> st = THREAD_STATE_RUNNABLE) \<or> (sint ev2 < 0 \<and> st = THREAD_STATE_SUSPENDED)
      then (if sint nv2 < 0 then THREAD_STATE_SUSPENDED else THREAD_STATE_RUNNABLE)
      else THREAD_STATE_RUNNABLE)"

definition sys_cas2i_runflag :: "kern_env \<Rightarrow> addr \<Rightarrow> kstate \<Rightarrow> (int \<times> kstate) option" where
  "sys_cas2i_runflag E sysarg s =
     (let tid = copy_user_int (umem s) sysarg 0;
          oldp = copy_user_int (umem s) sysarg 1;
          ev1 = copy_user_int (umem s) sysarg 2;
          nv1 = copy_user_int (umem s) sysarg 3;
          ev2 = copy_user_int (umem s) sysarg 4;
          nv2 = copy_user_int (umem s) sysarg 5
      in do {
        thread \<leftarrow> sched_find_thread tid s;
        if thread = NULL then Some (-1, s)
        else do {
          th \<leftarrow> threads s thread;
          let thread_state = state th;
          if thread_state = THREAD_STATE_ZOMBIE \<or> thread_state = THREAD_STATE_DONE then Some (-1, s)
          else
            let new_state = runflag_target ev1 nv1 ev2 nv2 thread_state
            in if new_state = THREAD_STATE_SUSPENDED \<and>
                  (thread \<noteq> current_thread s \<or> thread_state \<noteq> THREAD_STATE_RUNNABLE)
               then Some (-1, s)
               else
                 let old = (if thread_state = THREAD_STATE_RUNNABLE then 0 else -1);
                     s = s\<lparr>umem := copy_to_user_dword old oldp (umem s)\<rparr>
                 in if new_state = thread_state then Some (0, s)
                    else if new_state = THREAD_STATE_SUSPENDED then do {
                      s \<leftarrow> sched_remove_runnable_thread E thread s;
                      s \<leftarrow> upd_thread thread (\<lambda>th. th\<lparr>state := THREAD_STATE_SUSPENDED\<rparr>) s;
                      s \<leftarrow> sched_yield E s;
                      Some (0, s) }
                    else if new_state = THREAD_STATE_RUNNABLE then do {
                      s \<leftarrow> sched_add_runnable_thread thread s;
                      Some (0, s) }
                    else Some (0, s)
        }
      })"

definition sys_get_ticks :: "kstate \<Rightarrow> u32" where
  "sys_get_ticks s = kernel_getticks s"

definition sys_sleep :: "kern_env \<Rightarrow> u32 \<Rightarrow> kstate \<Rightarrow> (int \<times> kstate) option" where
  "sys_sleep E ticks s =
     do { s \<leftarrow> sched_sleep E (current_thread s) ticks s; Some (0, s) }"

section \<open>Booting the scheduler\<close>

text \<open>The paths \<^verbatim>\<open>idle\<close> and \<^verbatim>\<open>init\<close>, the first two programs.\<close>

definition sched_idle_task_path :: "u8 list" where "sched_idle_task_path = [105, 100, 108, 101]"
definition init_task_path :: "u8 list" where "init_task_path = [105, 110, 105, 116]"

definition sched_start_idle :: "kern_env \<Rightarrow> kstate \<Rightarrow> kstate option" where
  "sched_start_idle E s =
     do { (idle_task, s) \<leftarrow> task_create E NULL s;
          (idle_thread, s) \<leftarrow> thread_create E idle_task NULL THREAD_DEFAULT_STACK_SIZE VMM_KERNEL_THREAD_STACK_SIZE s;
          s \<leftarrow> upd_task idle_task (\<lambda>T. T\<lparr>tthread := idle_thread\<rparr>) (s\<lparr>sched_idle_thread := idle_thread\<rparr>);
          s \<leftarrow> thread_get idle_thread s;
          (rc, s) \<leftarrow> task_reload E idle_task idle_thread sched_idle_task_path NULL s;
          vmm_setup_kernel_stack E idle_thread s }"

definition sched_start_init :: "kern_env \<Rightarrow> kstate \<Rightarrow> kstate option" where
  "sched_start_init E s =
     do { (init_task, s) \<leftarrow> task_create E NULL s;
          (init_thread, s) \<leftarrow> thread_create E init_task NULL THREAD_DEFAULT_STACK_SIZE VMM_KERNEL_THREAD_STACK_SIZE s;
          s \<leftarrow> upd_task init_task (\<lambda>T. T\<lparr>tthread := init_thread\<rparr>) s;
          s \<leftarrow> thread_get init_thread (s\<lparr>sched_init_thread := init_thread\<rparr>);
          (rc, s) \<leftarrow> do_exec E init_task init_thread init_task_path NULL s;
          T \<leftarrow> tasks s init_task;
          s \<leftarrow> sched_add_runnable_thread (tthread T) s;
          s \<leftarrow> vmm_setup_kernel_stack E (tthread T) s;
          sched_yield E s }"

text \<open>The hash tables are placed in page frames; their contents are the fields of the state.\<close>

definition sched_init :: "kern_env \<Rightarrow> u32 \<Rightarrow> u32 \<Rightarrow> kstate \<Rightarrow> kstate option" where
  "sched_init E task_map_bytes thread_map_bytes s =
     (let s = s\<lparr>current_thread := NULL, kernel_booting := True, sched_runnable_queue := Q_INIT_HEAD,
                sched_done_queue := Q_INIT_HEAD, sched_sleep_queue := Q_INIT_HEAD\<rparr>;
          (task_map, s) = vmm_ppfs_alloc (drop_bit 12 (task_map_bytes + PAGE_SIZE)) s;
          (thread_map, s) = vmm_ppfs_alloc (drop_bit 12 (thread_map_bytes + PAGE_SIZE)) s
      in if task_map = NULL \<or> thread_map = NULL then None
         else
           let (TH, tl) = HASH_INIT (taskmap_link s);
               (RH, rl) = HASH_INIT (threadmap_link s)
           in do {
             s \<leftarrow> sched_start_idle E (s\<lparr>task_hash := TH, taskmap_link := tl, thread_hash := RH, threadmap_link := rl\<rparr>);
             sched_start_init E s })"

end
