(* ===== verification/Waiting.thy ===== *)
theory Waiting
  imports Scheduling Process
begin

text \<open>
  What waiting promises: going to sleep and the deadline, waiting for children, and the run flag of
  a thread (\<open>sched_wait_on\<close>, \<open>thread_wait\<close>, \<open>sys_cas2i_runflag\<close>).
\<close>

section \<open>Going to sleep\<close>

lemma wait_list_op_append:
  assumes "wait_rep s q ws" "c \<noteq> NULL" "c \<notin> set ws"
  shows "\<exists>s'. wait_list_op q (Q_INSERT_TAIL c) s = Some s' \<and> wait_rep s' q (ws @ [c]) \<and> same_threads s s' \<and>
    (\<forall>xs ys. queues s xs ys \<longrightarrow> queues s' xs ys)"
proof -
  obtain h where h: "get_wait_head q s = Some h" "q_rep (h, wait_link s) ws"
    using assms(1) by (auto simp: wait_rep_def)
  obtain h1 l1 where r: "Q_INSERT_TAIL c (h, wait_link s) = (h1, l1)" by fastforce
  have "q_rep (h1, l1) (ws @ [c])" using Q_INSERT_TAIL_rep[OF h(2) assms(2,3)] r by simp
  then show ?thesis using h(1) r
    by (cases q) (auto simp: wait_list_op_def wait_rep_def get_wait_head_def set_wait_head_def upd_thread_def
        same_threads_def tstate_def tdeadline_def queues_def fun_eq_iff)
qed

lemma run_remove:
  assumes "queues s xs ys" "t \<in> set xs"
  shows "queues (runnable_op (Q_REMOVE t) s) (remove1 t xs) ys"
proof -
  obtain h l where r: "Q_REMOVE t (sched_runnable_queue s, runnable_link s) = (h, l)" by fastforce
  have q: "q_rep (sched_runnable_queue s, runnable_link s) xs" "q_rep (sched_done_queue s, runnable_link s) ys"
    "set xs \<inter> set ys = {}"
    using assms(1) by (auto simp: queues_def)
  have "q_rep (h, l) (remove1 t xs)" using vq.rep_del[OF q(1) assms(2)] r by simp
  moreover have "q_rep (sched_done_queue s, l) ys" using vq.other_del[OF q assms(2)] r by simp
  ultimately show ?thesis
    using assms q(3) set_remove1_subset[of t xs] by (auto simp: queues_def runnable_op_def r)
qed

lemma wait_rep_runnable_op [simp]: "wait_rep (runnable_op f s) q ws = wait_rep s q ws"
  by (cases q) (auto simp: wait_rep_def get_wait_head_def runnable_op_def split: prod.splits)

lemma threads_runnable_op [simp]: "threads (runnable_op f s) = threads s"
  by (auto simp: runnable_op_def split: prod.splits)

lemma sint_add32: "sint ((a :: u32) + b) = (sint a + sint b + 2 ^ 31) mod 2 ^ 32 - 2 ^ 31"
  unfolding sint_word_ariths by (simp add: signed_take_bit_eq_take_bit_shift take_bit_eq_mod)

lemma sint_add_small:
  assumes "0 \<le> sint (a :: u32)" "0 \<le> sint b" "sint a + sint b < 2 ^ 31"
  shows "sint (a + b) = sint a + sint b"
  unfolding sint_add32 using assms by (subst mod_pos_pos_trivial) auto

lemma sint_add_overflow:
  assumes "2 ^ 31 \<le> sint (a :: u32) + sint b"
  shows "sint (a + b) = sint a + sint b - 2 ^ 32"
proof -
  have "(sint a + sint b + 2 ^ 31) mod 2 ^ 32 = (sint a + sint b + 2 ^ 31 - 2 ^ 32) mod 2 ^ 32"
    by (rule minus_mod_self2[symmetric])
  also have "\<dots> = sint a + sint b + 2 ^ 31 - 2 ^ 32"
    using assms sint_bounds32(2)[of a] sint_bounds32(2)[of b] by (intro mod_pos_pos_trivial) auto
  finally show ?thesis unfolding sint_add32 by simp
qed

lemma sched_block_run:
  assumes "queues s xs ys" "wait_rep s q ws" "t \<in> set xs" "t \<notin> set ws"
  obtains s' where "sched_block q ticks t s = Some s'" "queues s' (remove1 t xs) ys" "wait_rep s' q (ws @ [t])"
    "tstate s' = (tstate s)(t := THREAD_STATE_WAITING)" "tdeadline s' t = numTicks s + ticks"
    "\<And>u. threads s' u = None \<longleftrightarrow> threads s u = None"
proof -
  obtain th where th: "threads s t = Some th" using assms(1,3) by (auto simp: queues_def)
  define s1 where "s1 = s\<lparr>threads := (threads s)(t \<mapsto> th\<lparr>deadline := numTicks s + ticks, state := THREAD_STATE_WAITING\<rparr>)\<rparr>"
  have nn: "t \<noteq> NULL" using assms(1,3) q_rep_null by (auto simp: queues_def)
  have q1: "queues s1 xs ys" using assms(1) by (auto simp: queues_def s1_def)
  have w1: "wait_rep s1 q ws" using assms(2) th
    by (cases q) (auto simp: wait_rep_def s1_def get_wait_head_def)
  define s2 where "s2 = runnable_op (Q_REMOVE t) s1"
  have q2: "queues s2 (remove1 t xs) ys" unfolding s2_def by (rule run_remove[OF q1 assms(3)])
  obtain s3 where s3: "wait_list_op q (Q_INSERT_TAIL t) s2 = Some s3" "wait_rep s3 q (ws @ [t])"
    "same_threads s2 s3" "queues s3 (remove1 t xs) ys"
    using wait_list_op_append[of s2 q ws t] w1 nn assms(4) q2 by (auto simp: s2_def)
  have "tstate s3 = (tstate s)(t := THREAD_STATE_WAITING)" "tdeadline s3 t = numTicks s + ticks"
    "\<And>u. threads s3 u = None \<longleftrightarrow> threads s u = None"
    using s3(3) th by (auto simp: same_threads_def s2_def s1_def tstate_def tdeadline_def fun_eq_iff)
  moreover have "sched_block q ticks t s = Some s3"
    using s3(1) by (simp add: sched_block_def th upd_thread_def kernel_getticks_def s2_def s1_def)
  ultimately show ?thesis using that s3(2,4) by blast
qed

lemma sched_wait_on_run:
  assumes "queues s xs ys" "wait_rep s q ws" "t \<in> set xs" "t \<notin> set ws"
    and "tstate s t = THREAD_STATE_RUNNABLE"
  obtains s' where "sched_wait_on E q ticks t s = sched_yield E s'" "queues s' (remove1 t xs) ys"
    "wait_rep s' q (ws @ [t])" "tstate s' t = THREAD_STATE_WAITING" "tdeadline s' t = numTicks s + ticks"
proof -
  obtain th where th: "threads s t = Some th" using assms(1,3) by (auto simp: queues_def)
  then have st: "state th = THREAD_STATE_RUNNABLE" using assms(5) by (simp add: tstate_def)
  obtain s' where "sched_block q ticks t s = Some s'" "queues s' (remove1 t xs) ys" "wait_rep s' q (ws @ [t])"
    "tstate s' = (tstate s)(t := THREAD_STATE_WAITING)" "tdeadline s' t = numTicks s + ticks"
    by (rule sched_block_run[OF assms(1-4)])
  then show ?thesis using that by (simp add: sched_wait_on_def th st)
qed

text \<open>A runnable thread that waits leaves the run queue and goes to the end of the wait list, in state
  waiting and with the deadline \<open>ticks\<close> from now, before the scheduler chooses another thread;
  as long as the sum of the clock and \<open>ticks\<close> is below \<^verbatim>\<open>2^31\<close>, a wake-up considers it due exactly
  from that tick on.\<close>

theorem sched_wait_on_correct:
  assumes "queues s xs ys" "wait_rep s q ws" "t \<in> set xs" "t \<notin> set ws"
    and "tstate s t = THREAD_STATE_RUNNABLE"
    and "0 \<le> sint (numTicks s)" "0 \<le> sint ticks" "sint (numTicks s) + sint ticks < 2 ^ 31"
  shows "\<exists>s'. sched_wait_on E q ticks t s = sched_yield E s' \<and> queues s' (remove1 t xs) ys \<and>
    wait_rep s' q (ws @ [t]) \<and> tstate s' t = THREAD_STATE_WAITING \<and>
    (\<forall>now. due s' now t \<longleftrightarrow> sint (numTicks s) + sint ticks \<le> sint now)"
  by (rule sched_wait_on_run[OF assms(1-5), of E ticks])
     (use sint_add_small[OF assms(6-8)] in \<open>auto simp: due_def\<close>)

theorem sched_wait_on_correct_witness:
  "\<exists>s'. sched_wait_on quiet_env Sleep_queue 5 0x30 two_threads = sched_yield quiet_env s' \<and> queues s' [0x10] [] \<and>
    wait_rep s' Sleep_queue [0x30] \<and> due s' 5 0x30 \<and> \<not> due s' 4 0x30"
proof -
  have "queues two_threads [0x10, 0x30] []" "wait_rep two_threads Sleep_queue []"
    by (simp_all add: queues_def wait_rep_def get_wait_head_def two_threads_def q_rep_def zero_state_def zero_queue_def)
  from sched_wait_on_correct[OF this, of "0x30" 5 quiet_env]
  show ?thesis by (auto simp: two_threads_def tstate_def zero_state_def)
qed

text \<open>The deadline is compared as a signed number: when the clock plus \<open>ticks\<close> reaches \<^verbatim>\<open>2^31\<close>,
  a thread that asked for a very long sleep is due already when it goes to sleep, so the next
  wake-up ends its sleep.\<close>

theorem sleep_overflow_wakes_at_once:
  assumes "queues s xs ys" "wait_rep s Sleep_queue ws" "t \<in> set xs" "t \<notin> set ws"
    and "tstate s t = THREAD_STATE_RUNNABLE"
    and "0 \<le> sint (numTicks s)" "2 ^ 31 \<le> sint (numTicks s) + sint ticks"
  shows "\<exists>s'. sched_sleep E t ticks s = sched_yield E s' \<and> wait_rep s' Sleep_queue (ws @ [t]) \<and>
    due s' (numTicks s) t"
proof -
  obtain s' where "sched_wait_on E Sleep_queue ticks t s = sched_yield E s'"
    "wait_rep s' Sleep_queue (ws @ [t])" "tdeadline s' t = numTicks s + ticks"
    by (rule sched_wait_on_run[OF assms(1-5), of E ticks])
  moreover have "sint (numTicks s + ticks) \<le> sint (numTicks s)"
    using sint_add_overflow[OF assms(7)] sint_bounds32(2)[of ticks] by simp
  ultimately show ?thesis by (auto simp: sched_sleep_def due_def)
qed

theorem sleep_overflow_wakes_at_once_witness:
  "\<exists>s'. sched_sleep quiet_env 0x30 0x7fffffff (two_threads\<lparr>numTicks := 1\<rparr>) = sched_yield quiet_env s' \<and> due s' 1 0x30"
proof -
  let ?s = "two_threads\<lparr>numTicks := 1\<rparr>"
  have "queues ?s [0x10, 0x30] []" "wait_rep ?s Sleep_queue []"
    by (simp_all add: queues_def wait_rep_def get_wait_head_def two_threads_def q_rep_def zero_state_def zero_queue_def)
  from sleep_overflow_wakes_at_once[OF this, of "0x30" "0x7fffffff" quiet_env]
  show ?thesis by (auto simp: two_threads_def tstate_def)
qed

section \<open>Waiting for children\<close>

text \<open>When a child has ended, \<open>wait\<close> does not sleep: it takes the first zombie off the list and
  returns that thread's status and identifier, releasing the reference the list held (and the
  one it took on the caller meanwhile).\<close>

theorem thread_wait_reaps_first:
  assumes "current_thread s = self" "self \<noteq> NULL" "threads s self = Some th"
    and "q_rep (zombie_list th, child_link s) (z # zs)" "threads s z = Some zt" "z \<noteq> self"
  shows "\<exists>s2 th2. threads s2 self = Some th2 \<and> q_rep (zombie_list th2, child_link s2) zs \<and>
    thread_wait E s =
      do { s3 \<leftarrow> thread_put E z s2; s4 \<leftarrow> thread_put E self s3; Some (status zt, thread_id zt, s4) }"
proof -
  have front: "Q_GET_FRONT (zombie_list th) = z" using vq.rep_front[OF assms(4)] by simp
  have z: "z \<noteq> NULL" using q_rep_null[OF assms(4)] by auto
  obtain h l where r: "Q_REMOVE z (zombie_list th, child_link s) = (h, l)" by fastforce
  have rep: "q_rep (h, l) zs" using vq.pop_front[OF assms(4)] r by simp
  define th2 where "th2 = th\<lparr>count := count th + 1, zombie_list := h\<rparr>"
  define s2 where "s2 = s\<lparr>child_link := l, threads := (threads s)(self \<mapsto> th2)\<rparr>"
  have "thread_wait E s =
      do { s3 \<leftarrow> thread_put E z s2; s4 \<leftarrow> thread_put E self s3; Some (status zt, thread_id zt, s4) }"
    using assms(2,5,6) z
    by (simp add: thread_wait_def assms(1,3) front thread_get_def upd_thread_def reap_first_zombie_def
        zombie_list_op_def r s2_def th2_def Option.bind_assoc)
  then show ?thesis using rep by (intro exI[of _ s2] exI[of _ th2]) (simp add: s2_def th2_def)
qed

definition one_zombie :: kstate where
  "one_zombie = zero_state
     \<lparr>threads := [0x10 \<mapsto> zero_thread\<lparr>count := 3, zombie_list := \<lparr>q_first = 0x20, q_last = 0x20\<rparr>\<rparr>,
                  0x20 \<mapsto> zero_thread\<lparr>count := 2, status := 42, thread_id := 7\<rparr>],
      current_thread := 0x10\<rparr>"

theorem thread_wait_reaps_first_witness:
  "\<exists>s2. thread_wait quiet_env one_zombie =
     do { s3 \<leftarrow> thread_put quiet_env 0x20 s2; s4 \<leftarrow> thread_put quiet_env 0x10 s3; Some (42, 7, s4) }"
proof -
  let ?th = "zero_thread\<lparr>count := 3, zombie_list := \<lparr>q_first = 0x20, q_last = 0x20\<rparr>\<rparr>"
  have "q_rep (zombie_list ?th, child_link one_zombie) [0x20]"
    by (simp add: one_zombie_def q_rep_def zero_state_def zero_links_def)
  from thread_wait_reaps_first[of one_zombie "0x10" ?th "0x20" "[]" "zero_thread\<lparr>count := 2, status := 42, thread_id := 7\<rparr>" quiet_env, OF _ _ _ this]
  show ?thesis by (auto simp: one_zombie_def)
qed

text \<open>\<open>wait\<close> of a thread without children, running or ended, returns \<^verbatim>\<open>-1\<close> at once and changes
  nothing.\<close>

theorem thread_wait_no_children:
  assumes "current_thread s = self" "threads s self = Some th"
    and "q_rep (child_list th, child_link s) []" "q_rep (zombie_list th, child_link s) []"
  shows "thread_wait E s = Some (0, -1, s)"
  using assms(1,2) vq.rep_front[OF assms(3)] vq.rep_front[OF assms(4)]
  by (simp add: thread_wait_def Let_def)

theorem thread_wait_no_children_witness:
  "thread_wait quiet_env two_threads = Some (0, -1, two_threads)"
  by (rule thread_wait_no_children[of two_threads "0x10" "zero_thread\<lparr>state := THREAD_STATE_RUNNABLE\<rparr>"])
     (simp_all add: two_threads_def zero_thread_def zero_queue_def q_rep_def)

section \<open>The run flag\<close>

definition arg :: "kstate \<Rightarrow> addr \<Rightarrow> nat \<Rightarrow> u32" where
  "arg s sysarg n = copy_user_int (umem s) sysarg n"

text \<open>No thread can suspend another: a request whose result would be to suspend a thread
  other than the caller is refused, and nothing changes.\<close>

theorem cas2i_no_foreign_suspend:
  assumes "sched_find_thread (arg s sysarg 0) s = Some t" "t \<noteq> NULL" "threads s t = Some th"
    and "t \<noteq> current_thread s"
    and "runflag_target (arg s sysarg 2) (arg s sysarg 3) (arg s sysarg 4) (arg s sysarg 5) (state th) =
      THREAD_STATE_SUSPENDED"
  shows "sys_cas2i_runflag E sysarg s = Some (-1, s)"
  using assms by (simp add: sys_cas2i_runflag_def arg_def Let_def)

text \<open>A thread that can be found under identifier 0, in the given state, and the arguments of the
  call at \<^verbatim>\<open>0x1000\<close>: all 0 up to the third, then \<^verbatim>\<open>-1\<close>.\<close>

definition found_thread :: "thread_state \<Rightarrow> kstate" where
  "found_thread st = zero_state
     \<lparr>threads := [0x20 \<mapsto> zero_thread\<lparr>state := st\<rparr>], umem := (\<lambda>a. if a < 0x100c then 0 else 255),
      thread_hash := (\<lambda>_. \<lparr>q_first = 0x20, q_last = 0x20\<rparr>),
      sched_sleep_queue := \<lparr>q_first = 0x20, q_last = 0x20\<rparr>\<rparr>"

lemma found_thread_args:
  "arg (found_thread st) 0x1000 0 = 0" "arg (found_thread st) 0x1000 2 = 0" "arg (found_thread st) 0x1000 3 = -1"
  by (simp_all add: arg_def found_thread_def copy_user_int_def ld32_def)

lemma found_thread_found: "sched_find_thread 0 (found_thread st) = Some 0x20"
proof -
  have "q_rep (\<lparr>q_first = 0x20, q_last = 0x20\<rparr>, zero_links) [0x20]" by (simp add: q_rep_def zero_links_def)
  then show ?thesis
    by (simp add: sched_find_thread_def HASH_LOOKUP_def found_thread_def zero_state_def Q_FIND_rep
        thread_hashkey_def sched_hashcmp_def zero_thread_def)
qed

theorem cas2i_no_foreign_suspend_witness:
  "sys_cas2i_runflag quiet_env 0x1000 (found_thread THREAD_STATE_RUNNABLE) = Some (-1, found_thread THREAD_STATE_RUNNABLE)"
  by (rule cas2i_no_foreign_suspend[of _ _ "0x20" "zero_thread\<lparr>state := THREAD_STATE_RUNNABLE\<rparr>"])
     (simp_all add: found_thread_args found_thread_found runflag_target_def,
      simp_all add: found_thread_def zero_state_def)

text \<open>C40: \<open>cas2i_runflag\<close> does not consider threads that wait: whatever the expected values, such a
  thread is made runnable and put on the run queue while it stays on the list it waits on.\<close>

theorem cas2i_wakes_waiting:
  assumes "sched_find_thread (arg s sysarg 0) s = Some t" "t \<noteq> NULL" "tstate s t = THREAD_STATE_WAITING"
    and "threads s t \<noteq> None" "wait_rep s q ws" "t \<in> set ws" "queues s xs ys" "t \<notin> set xs" "t \<notin> set ys"
  shows "\<exists>s'. sys_cas2i_runflag E sysarg s = Some (0, s') \<and> queues s' (xs @ [t]) ys \<and> wait_rep s' q ws \<and>
    tstate s' t = THREAD_STATE_RUNNABLE"
proof -
  obtain th where th: "threads s t = Some th" using assms(4) by auto
  then have st: "state th = THREAD_STATE_WAITING" using assms(3) by (simp add: tstate_def)
  define s1 where "s1 = s\<lparr>umem := copy_to_user_dword (-1) (arg s sysarg 1) (umem s),
    threads := (threads s)(t \<mapsto> th\<lparr>count := count th + 1, state := THREAD_STATE_RUNNABLE\<rparr>)\<rparr>"
  define s' where "s' = runnable_op (Q_INSERT_TAIL t) s1"
  have "queues s1 xs ys" using assms(7) by (auto simp: queues_def s1_def)
  then have "queues s' (xs @ [t]) ys"
    unfolding s'_def by (rule run_insert_tail) (use assms in \<open>simp_all add: s1_def\<close>)
  moreover have "wait_rep s1 q ws" using assms(5) th
    by (cases q) (auto simp: wait_rep_def s1_def get_wait_head_def)
  then have "wait_rep s' q ws" by (simp add: s'_def)
  moreover have "tstate s' t = THREAD_STATE_RUNNABLE" by (simp add: s'_def s1_def tstate_def)
  moreover have "sys_cas2i_runflag E sysarg s = Some (0, s')"
    using assms(1,2)
    by (simp add: sys_cas2i_runflag_def arg_def Let_def th st runflag_target_def sched_add_runnable_thread_def
        thread_get_def upd_thread_def s'_def s1_def)
  ultimately show ?thesis by blast
qed


theorem cas2i_wakes_waiting_witness:
  "\<exists>s'. sys_cas2i_runflag quiet_env 0x1000 (found_thread THREAD_STATE_WAITING) = Some (0, s') \<and>
     queues s' [0x20] [] \<and> wait_rep s' Sleep_queue [0x20]"
proof -
  let ?s = "found_thread THREAD_STATE_WAITING"
  have "wait_rep ?s Sleep_queue [0x20]" "queues ?s [] []" "tstate ?s 0x20 = THREAD_STATE_WAITING"
    "threads ?s 0x20 \<noteq> None"
    by (simp_all add: wait_rep_def get_wait_head_def queues_def found_thread_def zero_state_def zero_queue_def
        zero_links_def q_rep_def tstate_def)
  then show ?thesis
    using cas2i_wakes_waiting[of ?s "0x1000" "0x20" Sleep_queue "[0x20]" "[]" "[]" quiet_env]
    by (auto simp: found_thread_args found_thread_found)
qed

end
