(* ===== verification/Sched_Machine.thy ===== *)
theory Sched_Machine
  imports Waiting
begin

text \<open>
  The scheduler as a state machine.  Its steps are operations of the code on the queues, in any order:
  whole calls of \<open>sched_yield\<close>, \<open>sys_yield\<close>, \<open>sched_wait_on\<close> on any list, \<open>sched_wakeup_threads\<close> on any list, the timer
  tick and its bottom half, and \<open>sys_cas2i_runflag\<close>, and the scheduler's part of fork, exit and reaping.  The invariant says where
  every thread is; it gives that the scheduler always finds a thread to run.

  Not steps of the machine, because they break the invariant or need the memory of threads: making a
  waiting thread run by \<open>sys_cas2i_runflag\<close> (theorem \<open>cas2i_wakes_waiting\<close> shows what happens), ending a waiting
  thread, for which \<open>sched_remove_waiting_thread\<close> unlinks the wrong links, giving up the last reference of a queued
  thread, and making the idle thread wait, stop or end.
\<close>

section \<open>Steps\<close>



section \<open>The wait lists\<close>






text \<open>Changes that keep the heads and the links.\<close>

definition same_waits :: "kstate \<Rightarrow> kstate \<Rightarrow> bool" where
  "same_waits s s' \<longleftrightarrow> wait_link s' = wait_link s \<and> (\<forall>q. get_wait_head q s' = get_wait_head q s)"



lemma same_waits_refl [simp]: "same_waits s s"
  by (simp add: same_waits_def)

lemma same_waits_queue_ops [simp]:
  "same_waits s0 (runnable_op f s) = same_waits s0 s" "same_waits s0 (done_op f s) = same_waits s0 s"
  by (auto simp: same_waits_def runnable_op_def done_op_def get_wait_head_def split: prod.splits wait_queue.splits)









section \<open>The invariant\<close>







section \<open>Each step keeps it\<close>

text \<open>Queue operations do not change who is running, which threads and tasks there are and which thread
  belongs to which task.\<close>

definition sched_frame :: "kstate \<Rightarrow> kstate \<Rightarrow> bool" where
  "sched_frame s s' \<longleftrightarrow> current_thread s' = current_thread s \<and> sched_idle_thread s' = sched_idle_thread s \<and>
     tasks s' = tasks s \<and> (\<forall>t. map_option parent_task (threads s' t) = map_option parent_task (threads s t))"

lemma sched_frame_refl [simp]: "sched_frame s s"
  by (simp add: sched_frame_def)


lemma sched_frame_queue_ops [simp]:
  "sched_frame s0 (runnable_op f s) = sched_frame s0 s" "sched_frame (runnable_op f s) s0 = sched_frame s s0"
  "sched_frame s0 (done_op f s) = sched_frame s0 s"
  by (simp_all add: sched_frame_def runnable_op_def done_op_def split: prod.splits)





































section \<open>What holds in every reachable state\<close>








end
