(* ===== verification/Syscalls.thy ===== *)
theory Syscalls
  imports Process
begin

text \<open>
  The remaining system calls and the page fault handler: memory (\<^verbatim>\<open>kern/mm.c\<close>), console input
  and output (\<^verbatim>\<open>kern/consoleio.c\<close>), the list of programs (\<^verbatim>\<open>kern/sysmisc.c\<close>) and exceptions
  (\<^verbatim>\<open>kern/kernel_exceptions.c\<close>).
\<close>

section \<open>Memory\<close>

text \<open>The checks of \<open>sys_new_pages\<close> on its arguments alone.  \<open>size\<close> is a signed integer; it is
  converted to unsigned where it is compared with unsigned values.\<close>

definition new_pages_args_ok :: "u32 \<Rightarrow> u32 \<Rightarrow> u32 \<Rightarrow> bool" where
  "new_pages_args_ok num_ppf a sz =
     (\<not> (a < USER_MEM_START \<or> a \<ge> VMM_KERNEL_BASE) \<and>
      a AND PAGE_MASK = a \<and>
      \<not> (sint sz \<le> 0 \<or> sint sz mod 4096 \<noteq> 0) \<and>
      \<not> (drop_bit 12 sz \<ge> num_ppf - drop_bit 12 USER_MEM_START - VMM_KERNEL_STACK_PAGES) \<and>
      \<not> (sz > VMM_KERNEL_BASE - a))"

definition sys_new_pages :: "kern_env \<Rightarrow> addr \<Rightarrow> kstate \<Rightarrow> (int \<times> kstate) option" where
  "sys_new_pages E sysarg s =
     (let a = copy_user_int (umem s) sysarg 0;
          sz = copy_user_int (umem s) sysarg 1
      in if \<not> new_pages_args_ok (machine_phys_frames (xen E)) a sz then Some (-1, s)
         else do {
           th \<leftarrow> threads s (current_thread s);
           let current_task = parent_task th;
           vma \<leftarrow> find_vm_area_overlap current_task a sz s;
           if vma \<noteq> NULL then Some (-1, s)
           else do {
             (vma, s) \<leftarrow> vm_area_alloc E current_task current_task a sz PGTAB_ATTRIB_USR_RW VMA_TYPE_ZEROPAGE 0 None s;
             if vma = NULL then Some (-1, s)
             else do { s \<leftarrow> sched_set_user_pgdir E s; Some (0, s) } } })"

definition sys_remove_pages :: "kern_env \<Rightarrow> addr \<Rightarrow> kstate \<Rightarrow> (int \<times> kstate) option" where
  "sys_remove_pages E a s =
     do { th \<leftarrow> threads s (current_thread s);
          let current_task = parent_task th;
          vma \<leftarrow> find_vm_area current_task a s;
          if vma = NULL then Some (-1, s)
          else do {
            v \<leftarrow> vmas s vma;
            if a \<noteq> start_address v then Some (-1, s)
            else do {
              s \<leftarrow> vm_area_remove E current_task vma s;
              s \<leftarrow> sched_set_user_pgdir E s;
              Some (0, s) } } }"

section \<open>Console input and output\<close>

definition k_putbyte :: "u8 \<Rightarrow> kstate \<Rightarrow> kstate option" where
  "k_putbyte ch s = do { r \<leftarrow> putbyte ch (xcons s); Some (s\<lparr>xcons := r\<rparr>) }"

definition k_readchar :: "kstate \<Rightarrow> u8 \<times> kstate" where
  "k_readchar s = (let (c, k) = readchar (kbd s) in (of_int c, s\<lparr>kbd := k\<rparr>))"

definition sys_getchar :: "kstate \<Rightarrow> u8 \<times> kstate" where
  "sys_getchar s = k_readchar s"

text \<open>Waiting for a character: yield until there is one.  The character type is signed, so the
  scancode 255 is taken for -1.\<close>

partial_function (option) wait_char :: "kern_env \<Rightarrow> kstate \<Rightarrow> (u8 \<times> kstate) option" where
  "wait_char E s =
     (let r = k_readchar s
      in if fst r = 255 then Option.bind (sched_yield E (snd r)) (wait_char E) else Some r)"

definition readline_char :: "addr \<Rightarrow> int \<Rightarrow> int \<Rightarrow> u8 \<Rightarrow> kstate \<Rightarrow> (bool \<times> int \<times> kstate) option" where
  "readline_char sysarg sz i ch s =
     (if ch = 8 then
        if i > 0 then do { s \<leftarrow> k_putbyte ch s; Some (False, i - 1, s) } else Some (False, i, s)
      else do {
        s \<leftarrow> k_putbyte ch s;
        let s = s\<lparr>umem := copy_char_to_user_argpkt_buf ch i sz sysarg 1 (umem s)\<rparr>;
        if ch = 10 \<or> ch = 13
        then Some (True, i + 1, s\<lparr>umem := copy_char_to_user_argpkt_buf 0 (i + 1) sz sysarg 1 (umem s)\<rparr>)
        else Some (False, i + 1, s) })"

partial_function (option) readline_loop :: "kern_env \<Rightarrow> addr \<Rightarrow> int \<Rightarrow> int \<Rightarrow> kstate \<Rightarrow> (int \<times> kstate) option" where
  "readline_loop E sysarg sz i s =
     (if i < sz - 1 then
        Option.bind (wait_char E s) (\<lambda>c.
        Option.bind (readline_char sysarg sz i (fst c) (snd c)) (\<lambda>r.
          if fst r then Some (snd r) else readline_loop E sysarg sz (fst (snd r)) (snd (snd r))))
      else Some (i, s))"

definition sys_readline :: "kern_env \<Rightarrow> addr \<Rightarrow> kstate \<Rightarrow> (int \<times> kstate) option" where
  "sys_readline E sysarg s =
     (let sz = sint (copy_user_int (umem s) sysarg 0) in readline_loop E sysarg sz 0 s)"

definition sys_print :: "addr \<Rightarrow> kstate \<Rightarrow> (int \<times> kstate) option" where
  "sys_print sysarg s =
     (let sz = sint (copy_user_int (umem s) sysarg 0)
      in if sz \<ge> 4096 then Some (-1, s)
         else
           let buf = copy_user_int (umem s) sysarg 1
           in do { r \<leftarrow> putbytes (umem s) buf sz (xcons s); Some (0, s\<lparr>xcons := r\<rparr>) })"

text \<open>The cursor and the colour of the text console.\<close>

definition sys_set_term_color :: "u32 \<Rightarrow> kstate \<Rightarrow> int \<times> kstate" where
  "sys_set_term_color color s = (0, s\<lparr>vga_cons := snd (set_term_color color (vga_cons s))\<rparr>)"

definition sys_set_cursor_pos :: "addr \<Rightarrow> kstate \<Rightarrow> int \<times> kstate" where
  "sys_set_cursor_pos sysarg s =
     (let row = copy_user_int (umem s) sysarg 0;
          col = copy_user_int (umem s) sysarg 1;
          (rc, v) = set_cursor row col (vga_cons s)
      in (rc, s\<lparr>vga_cons := v\<rparr>))"

definition sys_get_cursor_pos :: "addr \<Rightarrow> kstate \<Rightarrow> int \<times> kstate" where
  "sys_get_cursor_pos sysarg s =
     (let (row, col) = get_cursor (vga_cons s);
          m = copy_to_user_argpkt_int row sysarg 0 (umem s);
          m = copy_to_user_argpkt_int col sysarg 1 m
      in (0, s\<lparr>umem := m\<rparr>))"

section \<open>The list of programs\<close>

text \<open>The names go one after the other to the user's buffer, each with its terminator.\<close>

fun ls_loop :: "toc_entry list \<Rightarrow> int \<Rightarrow> addr \<Rightarrow> int \<Rightarrow> int \<Rightarrow> bytes \<Rightarrow> int \<times> bytes" where
  "ls_loop [] sz sysarg offset num_entries m = (num_entries, m)"
| "ls_loop (e # es) sz sysarg offset num_entries m =
     (let len = int (length (execname e))
      in if offset + len + 1 > sz then (-1, m)
         else
           let m = copy_buf_to_user_argpkt_buf (execname e) offset sysarg 1 m;
               m = copy_char_to_user_argpkt_buf 0 (offset + len) sz sysarg 1 m
           in ls_loop es sz sysarg (offset + len + 1) (num_entries + 1) m)"

definition sys_ls :: "kern_env \<Rightarrow> addr \<Rightarrow> kstate \<Rightarrow> int \<times> kstate" where
  "sys_ls E sysarg s =
     (let (rc, m) = ls_loop (exec2obj_userapp_TOC E) (sint (copy_user_int (umem s) sysarg 0)) sysarg 0 0 (umem s)
      in (rc, s\<lparr>umem := m\<rparr>))"

section \<open>Exceptions\<close>

definition PGF_ERR_ACCESS :: u32 where "PGF_ERR_ACCESS = 0x1"
definition PGF_ERR_WR :: u32 where "PGF_ERR_WR = 0x2"
definition PGF_ERR_USR :: u32 where "PGF_ERR_USR = 0x4"

text \<open>\<open>emsg_segfault\<close> is printed with its terminator, \<open>sizeof\<close> counting it.\<close>

definition emsg_segfault :: "u8 list" where
  "emsg_segfault = [83, 101, 103, 109, 101, 110, 116, 97, 116, 105, 111, 110, 32, 70, 97, 117, 108, 116, 0]"

definition generic_exception_handler :: "kern_env \<Rightarrow> kstate \<Rightarrow> kstate option" where
  "generic_exception_handler E s =
     (if current_thread s \<noteq> NULL then do {
        th \<leftarrow> threads s (current_thread s);
        s \<leftarrow> upd_thread (current_thread s) (\<lambda>th. th\<lparr>status := -2\<rparr>) s;
        r \<leftarrow> putbytes (store_bytes 0 emsg_segfault (\<lambda>_. 0)) 0 (int (length emsg_segfault)) (xcons s);
        s \<leftarrow> k_putbyte 10 (s\<lparr>xcons := r\<rparr>);
        task_vanish E (parent_task th) s }
      else Some s)"

text \<open>The handlers of the other exceptions, with the same body, save that debug exceptions and double faults are ignored
  and that the handler of protection faults reads the thread's task before it tests for a thread.\<close>

definition div_exception_handler :: "kern_env \<Rightarrow> kstate \<Rightarrow> kstate option" where
  "div_exception_handler = generic_exception_handler"

definition ovf_exception_handler :: "kern_env \<Rightarrow> kstate \<Rightarrow> kstate option" where
  "ovf_exception_handler = generic_exception_handler"

definition inv_exception_handler :: "kern_env \<Rightarrow> kstate \<Rightarrow> kstate option" where
  "inv_exception_handler = generic_exception_handler"

definition seg_exception_handler :: "kern_env \<Rightarrow> kstate \<Rightarrow> kstate option" where
  "seg_exception_handler = generic_exception_handler"

definition stk_exception_handler :: "kern_env \<Rightarrow> kstate \<Rightarrow> kstate option" where
  "stk_exception_handler = generic_exception_handler"

definition dbg_exception_handler :: "kern_env \<Rightarrow> kstate \<Rightarrow> kstate option" where
  "dbg_exception_handler E s = Some s"

definition dbl_exception_handler :: "kern_env \<Rightarrow> kstate \<Rightarrow> kstate option" where
  "dbl_exception_handler E s = Some s"

definition gpf_exception_handler :: "kern_env \<Rightarrow> kstate \<Rightarrow> kstate option" where
  "gpf_exception_handler E s =
     do { th \<leftarrow> threads s (current_thread s); generic_exception_handler E s }"

text \<open>The loop of the page fault handler over the regions that hold the faulting page, starting at
  \<open>vma\<close>; the first component of the result is \<open>handled\<close>.\<close>

partial_function (option) pgf_loop ::
  "kern_env \<Rightarrow> u32 \<Rightarrow> addr \<Rightarrow> addr \<Rightarrow> bool \<Rightarrow> kstate \<Rightarrow> (bool \<times> kstate) option" where
  "pgf_loop E errflag cr2 vma handled s =
     (if vma = NULL then Some (handled, s)
      else Option.bind (vmas s vma) (\<lambda>v.
        if covers_page cr2 v then
          Option.bind (if errflag AND PGF_ERR_ACCESS = 0
                       then Option.bind (call_nopage E (nopage v) vma cr2 s) (\<lambda>r.
                              Some (True, fst r, snd r))
                       else Some (handled, 0, s)) (\<lambda>r1.
            if errflag AND PGF_ERR_ACCESS = 0 \<and> fst (snd r1) < 0 then Some (False, snd (snd r1))
            else if errflag AND PGF_ERR_ACCESS = 0 \<and> vtype v \<noteq> VMA_TYPE_COW
            then pgf_loop E errflag cr2 (Q_GET_NEXT vma (task_link (snd (snd r1)))) True (snd (snd r1))
            else if errflag AND PGF_ERR_WR \<noteq> 0 then
              Option.bind (call_pagewrite E (pagewrite v) vma cr2 (snd (snd r1))) (\<lambda>r2.
                if fst r2 < 0 then Some (False, snd r2)
                else pgf_loop E errflag cr2 (Q_GET_NEXT vma (task_link (snd r2))) True (snd r2))
            else pgf_loop E errflag cr2 (Q_GET_NEXT vma (task_link (snd (snd r1)))) (fst r1) (snd (snd r1)))
        else Some (handled, s)))"

text \<open>\<open>cr2\<close>, the faulting address, is what Xen left in the shared page.  A fault of the kernel itself is
  a panic.\<close>

definition pgf_exception_handler :: "kern_env \<Rightarrow> u32 \<Rightarrow> addr \<Rightarrow> kstate \<Rightarrow> kstate option" where
  "pgf_exception_handler E errflag cr2 s =
     do { th \<leftarrow> threads s (current_thread s);
          if errflag AND PGF_ERR_USR = 0 then None
          else do {
            vma \<leftarrow> find_vm_area (parent_task th) cr2 s;
            (handled, s) \<leftarrow> pgf_loop E errflag cr2 vma False s;
            if handled then do {
              T \<leftarrow> tasks s (parent_task th);
              vmm_set_user_pgdir (xen E) (page_dir T) s }
            else if current_thread s \<noteq> NULL then generic_exception_handler E s
            else None } }"

end
