(* ===== verification/Calls.thy ===== *)
theory Calls
  imports Syscalls Regions Scheduling
begin

text \<open>
  Properties of system calls: the list of programs (\<^verbatim>\<open>kern/sysmisc.c\<close>), requests for memory
  (\<^verbatim>\<open>kern/mm.c\<close>) and printing (\<^verbatim>\<open>kern/consoleio.c\<close>).
\<close>

section \<open>The list of programs\<close>

lemma store_bytes_append:
  "store_bytes a (xs @ ys) m = store_bytes (a + of_nat (length xs)) ys (store_bytes a xs m)"
  by (induction xs arbitrary: a m) (simp_all add: algebra_simps)

lemma copy_to_user_buf_store: "copy_to_user_buf bs a m = store_bytes a bs m"
proof (induction bs rule: rev_induct)
  case (snoc b bs)
  have "fold (\<lambda>i. copy_to_user_byte ((bs @ [b]) ! i) (a + of_nat i)) [0..<length bs] m =
      fold (\<lambda>i. copy_to_user_byte (bs ! i) (a + of_nat i)) [0..<length bs] m"
    by (rule fold_cong) (auto simp: nth_append)
  then show ?case using snoc
    by (simp add: copy_to_user_buf_def store_bytes_append copy_to_user_byte_def nth_append)
qed (simp add: copy_to_user_buf_def)

text \<open>The names one after the other, each with its terminator.\<close>

definition ls_text :: "toc_entry list \<Rightarrow> u8 list" where
  "ls_text es = concat (map (\<lambda>e. execname e @ [0]) es)"

text \<open>The buffer of \<open>sz\<close> bytes at \<open>base\<close> does not overlap the second word of the argument packet, where
  the pointer to it is kept.\<close>

definition apart :: "addr \<Rightarrow> int \<Rightarrow> addr \<Rightarrow> bool" where
  "apart base sz sysarg \<longleftrightarrow> (\<forall>i j. 0 \<le> i \<longrightarrow> i < sz \<longrightarrow> j < 4 \<longrightarrow> base + of_int i \<noteq> sysarg + 4 + of_nat j)"

definition outside :: "addr \<Rightarrow> int \<Rightarrow> addr \<Rightarrow> bool" where
  "outside base sz x \<longleftrightarrow> (\<forall>i. 0 \<le> i \<longrightarrow> i < sz \<longrightarrow> x \<noteq> base + of_int i)"

lemma apart_dword:
  assumes "apart base sz sysarg" "\<And>x. outside base sz x \<Longrightarrow> m' x = m x"
  shows "copy_user_dword m' (sysarg + 4) = copy_user_dword m (sysarg + 4)"
proof -
  have "m' (sysarg + 4 + of_nat j) = m (sysarg + 4 + of_nat j)" if "j < 4" for j
    using assms(1) that by (intro assms(2)) (auto simp: apart_def outside_def dest: sym)
  from this[of 0] this[of 1] this[of 2] this[of 3] show ?thesis
    unfolding copy_user_dword_ld32 by (intro ld32_cong) (simp_all add: add.assoc)
qed

lemma store_bytes_outside:
  assumes "0 \<le> offset" "offset + int (length bs) \<le> sz" "outside base sz x"
  shows "store_bytes (base + of_int offset) bs m x = m x"
proof (rule store_bytes_out)
  fix i assume "i < length bs"
  then have "x \<noteq> base + of_int (offset + int i)"
    using assms(1,2) by (intro assms(3)[unfolded outside_def, rule_format]) auto
  then show "x \<noteq> base + of_int offset + of_nat i" by (simp add: add.assoc)
qed

text \<open>One entry: the name and its terminator are stored at the offset.\<close>

lemma ls_loop_step:
  assumes "apart base sz sysarg" "copy_user_dword m (sysarg + 4) = base" "0 \<le> offset"
    and "offset + int (length (execname e)) + 1 \<le> sz"
  defines "m' \<equiv> store_bytes (base + of_int offset) (execname e @ [0]) m"
  shows "ls_loop (e # es) sz sysarg offset n m =
      ls_loop es sz sysarg (offset + int (length (execname e)) + 1) (n + 1) m'"
    and "copy_user_dword m' (sysarg + 4) = base" "\<And>x. outside base sz x \<Longrightarrow> m' x = m x"
proof -
  let ?m1 = "store_bytes (base + of_int offset) (execname e) m"
  have out1: "?m1 x = m x" if "outside base sz x" for x
    using store_bytes_outside[OF assms(3) _ that] assms(4) by simp
  show out: "m' x = m x" if "outside base sz x" for x
    unfolding m'_def using store_bytes_outside[OF assms(3) _ that, of "execname e @ [0]"] assms(4) by simp
  show "copy_user_dword m' (sysarg + 4) = base"
    using apart_dword[OF assms(1) out] assms(2) by simp
  have b1: "copy_user_dword ?m1 (sysarg + 4) = base"
    using apart_dword[OF assms(1) out1] assms(2) by simp
  show "ls_loop (e # es) sz sysarg offset n m =
      ls_loop es sz sysarg (offset + int (length (execname e)) + 1) (n + 1) m'"
    using assms(2,4) b1
    by (simp add: Let_def copy_buf_to_user_argpkt_buf_def copy_char_to_user_argpkt_buf_def copy_to_user_buf_store
        copy_to_user_byte_def m'_def store_bytes_append add.assoc)
qed

lemma ls_loop_spec:
  assumes "apart base sz sysarg" "copy_user_dword m (sysarg + 4) = base" "0 \<le> offset"
  shows "if es = [] \<or> offset + int (length (ls_text es)) \<le> sz
    then ls_loop es sz sysarg offset n m = (n + int (length es), store_bytes (base + of_int offset) (ls_text es) m)
    else \<exists>m'. ls_loop es sz sysarg offset n m = (-1, m') \<and> (\<forall>x. outside base sz x \<longrightarrow> m' x = m x)"
  using assms(2,3)
proof (induction es arbitrary: offset n m)
  case Nil
  then show ?case by (auto simp: ls_text_def)
next
  case (Cons e es)
  let ?o = "offset + int (length (execname e)) + 1"
  have names: "ls_text (e # es) = (execname e @ [0]) @ ls_text es" by (simp add: ls_text_def)
  show ?case
  proof (cases "?o \<le> sz")
    case True
    note step = ls_loop_step[OF assms(1) Cons.prems True]
    let ?m = "store_bytes (base + of_int offset) (execname e @ [0]) m"
    have sum: "offset + int (length (ls_text (e # es))) = ?o + int (length (ls_text es))" by (simp add: names)
    have glue: "store_bytes (base + of_int offset) (ls_text (e # es)) m = store_bytes (base + of_int ?o) (ls_text es) ?m"
      unfolding names store_bytes_append by (simp add: algebra_simps)
    note IH = Cons.IH[OF step(2), of ?o "n + 1"]
    show ?thesis
    proof (cases "es = [] \<or> ?o + int (length (ls_text es)) \<le> sz")
      case True
      then show ?thesis using IH Cons.prems(2) step(1)[of es n] sum glue \<open>?o \<le> sz\<close>
        by (auto simp: ls_text_def)
    next
      case False
      then obtain m' where m': "ls_loop es sz sysarg ?o (n + 1) ?m = (-1, m')" "\<forall>x. outside base sz x \<longrightarrow> m' x = ?m x"
        using IH Cons.prems(2) by auto
      have "ls_loop (e # es) sz sysarg offset n m = (-1, m')"
        unfolding step(1)[of es n] by (rule m'(1))
      moreover have "\<forall>x. outside base sz x \<longrightarrow> m' x = m x"
        using m'(2) step(3) by metis
      moreover have "\<not> (e # es = [] \<or> offset + int (length (ls_text (e # es))) \<le> sz)"
        using False sum by simp
      ultimately show ?thesis by (simp only: if_False) blast
    qed
  next
    case False
    then show ?thesis by (auto simp: names)
  qed
qed

text \<open>\<open>ls\<close> writes the names of all programs, each with its terminator, to the caller's buffer and
  returns their number exactly if they fit (or there is none); otherwise it returns \<^verbatim>\<open>-1\<close>.  In no case it writes
  outside the buffer.\<close>

theorem sys_ls_correct:
  assumes "sz = sint (copy_user_int (umem s) sysarg 0)" "base = copy_user_int (umem s) sysarg 1"
    and "apart base sz sysarg"
  shows "if exec2obj_userapp_TOC E = [] \<or> int (length (ls_text (exec2obj_userapp_TOC E))) \<le> sz
    then sys_ls E sysarg s = (int (length (exec2obj_userapp_TOC E)),
           s\<lparr>umem := store_bytes base (ls_text (exec2obj_userapp_TOC E)) (umem s)\<rparr>)
    else \<exists>m'. sys_ls E sysarg s = (-1, s\<lparr>umem := m'\<rparr>) \<and> (\<forall>x. outside base sz x \<longrightarrow> m' x = umem s x)"
proof -
  let ?toc = "exec2obj_userapp_TOC E"
  have b: "copy_user_dword (umem s) (sysarg + 4) = base"
    using assms(2) by (simp add: copy_user_dword_ld32 copy_user_int_def)
  have call: "sys_ls E sysarg s = (let (rc, m) = ls_loop ?toc sz sysarg 0 0 (umem s) in (rc, s\<lparr>umem := m\<rparr>))"
    using assms(1) by (simp add: sys_ls_def)
  show ?thesis
  proof (cases "?toc = [] \<or> int (length (ls_text ?toc)) \<le> sz")
    case True
    then show ?thesis using ls_loop_spec[OF assms(3) b, of 0 ?toc 0] call by simp
  next
    case False
    then obtain m' where "ls_loop ?toc sz sysarg 0 0 (umem s) = (-1, m')" "\<forall>x. outside base sz x \<longrightarrow> m' x = umem s x"
      using ls_loop_spec[OF assms(3) b, of 0 ?toc 0] by auto
    then show ?thesis using False call by (simp only: if_False Let_def prod.case) blast
  qed
qed

text \<open>A packet at \<^verbatim>\<open>0x1000\<close>: a buffer of \<^verbatim>\<open>0x20\<close> bytes at address \<^verbatim>\<open>0x2000\<close>.\<close>

definition ls_call :: kstate where
  "ls_call = zero_state\<lparr>umem := (\<lambda>_. 0)(0x1000 := 0x20, 0x1005 := 0x20)\<rparr>"

theorem sys_ls_correct_witness:
  "fst (sys_ls quiet_env 0x1000 ls_call) = 1"
proof -
  have a: "copy_user_int (umem ls_call) 0x1000 0 = 0x20" "copy_user_int (umem ls_call) 0x1000 1 = 0x2000"
    by (simp_all add: ls_call_def copy_user_int_def ld32_def)
  have "apart 0x2000 0x20 0x1000"
    unfolding apart_def
  proof (intro allI impI)
    fix i :: int and j :: nat assume "0 \<le> i" "i < 0x20" "j < 4"
    then have "unat (0x2000 + of_int i :: addr) = 0x2000 + nat i" "unat (0x1000 + 4 + of_nat j :: addr) = 0x1004 + j"
      by (simp_all add: unat_word_ariths unsigned_of_int unsigned_of_nat take_bit_eq_mod nat_mod_distrib)
    then have "unat (0x2000 + of_int i :: addr) \<noteq> unat (0x1000 + 4 + of_nat j :: addr)"
      using \<open>j < 4\<close> by linarith
    then show "0x2000 + of_int i \<noteq> (0x1000 + 4 + of_nat j :: addr)" by metis
  qed
  then have "apart (copy_user_int (umem ls_call) 0x1000 1) (sint (copy_user_int (umem ls_call) 0x1000 0)) 0x1000"
    unfolding a by simp
  from sys_ls_correct[OF refl refl this, of quiet_env] show ?thesis
    unfolding a by (simp add: quiet_env_def ls_text_def)
qed


section \<open>Requests for memory\<close>

text \<open>The test of the arguments, in arithmetic on the numbers: a range of whole pages in the part of the
  address space that belongs to the task, smaller than the memory left for tasks.\<close>

definition new_range_ok :: "nat \<Rightarrow> u32 \<Rightarrow> u32 \<Rightarrow> bool" where
  "new_range_ok num_ppf a sz \<longleftrightarrow> 0x1000000 \<le> unat a \<and> 4096 dvd unat a \<and> 4096 dvd unat sz \<and> 0 < unat sz \<and>
     unat sz < 2 ^ 31 \<and> unat a + unat sz \<le> 0xc0000000 \<and> unat sz div 4096 < num_ppf - 8192"

lemma new_pages_args_ok_iff:
  assumes "8192 \<le> unat n"
  shows "new_pages_args_ok n a sz \<longleftrightarrow> new_range_ok (unat n) a sz"
proof -
  have sz: "\<not> (sint sz \<le> 0 \<or> sint sz mod 4096 \<noteq> 0) \<longleftrightarrow> 0 < unat sz \<and> unat sz < 2 ^ 31 \<and> 4096 dvd unat sz"
  proof (cases "unat sz < 2 ^ 31")
    case True
    then have "sint sz = int (unat sz)" by (simp add: sint32)
    moreover have "\<not> (int n \<le> 0 \<or> int n mod 4096 \<noteq> 0) \<longleftrightarrow> 0 < n \<and> 4096 dvd n" for n
    unfolding zmod_int[of n 4096, simplified, symmetric] of_nat_eq_0_iff dvd_eq_mod_eq_0 by auto
    ultimately show ?thesis using True by (simp only: simp_thms)
  next
    case False
    then have "sint sz = int (unat sz) - 2 ^ 32" "int (unat sz) < 2 ^ 32"
      using uint_lt2p[of sz] by (auto simp: sint32)
    then show ?thesis using False by simp
  qed
  have lo: "\<not> a < USER_MEM_START \<longleftrightarrow> 0x1000000 \<le> unat a" by (simp add: word_less_nat_alt USER_MEM_START_def not_less)
  have hi: "a < VMM_KERNEL_BASE \<longleftrightarrow> unat a < 0xc0000000" by (simp add: word_less_nat_alt VMM_KERNEL_BASE_def)
  have lim: "a < VMM_KERNEL_BASE \<Longrightarrow> \<not> sz > VMM_KERNEL_BASE - a \<longleftrightarrow> unat a + unat sz \<le> 0xc0000000"
  proof -
    assume "a < VMM_KERNEL_BASE"
    then have "unat (VMM_KERNEL_BASE - a) = unat VMM_KERNEL_BASE - unat a" by (intro unat_sub) simp
    then show ?thesis using \<open>a < VMM_KERNEL_BASE\<close> by (auto simp: word_less_nat_alt VMM_KERNEL_BASE_def)
  qed
  have k: "drop_bit 12 USER_MEM_START = (4096 :: u32)" by (simp add: USER_MEM_START_def)
  have "unat (n - 8192) = unat n - 8192" using assms by (subst unat_sub) (simp_all add: word_le_nat_alt)
  moreover have "n - 4096 - VMM_KERNEL_STACK_PAGES = n - 8192" by (simp add: VMM_KERNEL_STACK_PAGES_def)
  moreover have "unat (drop_bit 12 sz) = unat sz div 4096" unfolding unat_drop_bit_eq by (simp add: drop_bit_eq_div)
  ultimately have mem: "\<not> drop_bit 12 sz \<ge> n - drop_bit 12 USER_MEM_START - VMM_KERNEL_STACK_PAGES
      \<longleftrightarrow> unat sz div 4096 < unat n - 8192"
    unfolding k by (simp only: word_le_nat_alt not_le)
  show ?thesis
    unfolding new_pages_args_ok_def new_range_ok_def page_aligned_iff de_Morgan_disj[of "a < USER_MEM_START"] lo not_le hi sz mem[unfolded not_le]
    using lim hi by auto
qed

text \<open>A request for memory whose range is not one of whole pages in the part of the address space that
  belongs to tasks, exceeds the memory left for tasks, or meets a region the task has already, is refused
  and changes nothing.\<close>

theorem sys_new_pages_rejects:
  assumes "threads s (current_thread s) = Some th" "regions s (parent_task th) xs"
    and "\<forall>p\<in>set xs. region_ok (the (vmas s p))" "8192 \<le> unat (machine_phys_frames (xen E))"
    and "a = copy_user_int (umem s) sysarg 0" "sz = copy_user_int (umem s) sysarg 1"
    and "\<not> new_range_ok (unat (machine_phys_frames (xen E))) a sz \<or>
      (\<exists>p\<in>set xs. region_bytes (the (vmas s p)) \<inter> {unat a ..< unat a + unat sz} \<noteq> {})"
  shows "sys_new_pages E sysarg s = Some (-1, s)"
proof (cases "new_range_ok (unat (machine_phys_frames (xen E))) a sz")
  case True
  then have sz: "sz \<noteq> 0" "unat a + unat sz \<le> 2 ^ 32" by (auto simp: new_range_ok_def)
  let ?hit = "\<lambda>p. region_bytes (the (vmas s p)) \<inter> {unat a ..< unat a + unat sz} \<noteq> {}"
  obtain p where p: "List.find ?hit xs = Some p" "p \<in> set xs"
    using True assms(7) by (cases "List.find ?hit xs") (auto simp: find_None_iff find_Some_iff)
  obtain T where "tasks s (parent_task th) = Some T" "q_rep (vm_area_list T, task_link s) xs"
    by (rule regionsE[OF assms(2)])
  then have "p \<noteq> NULL" using p(2) by (auto simp: q_rep_def)
  moreover have "find_vm_area_overlap (parent_task th) a sz s = Some p"
    using find_overlap[OF assms(2,3) sz] p(1) by simp
  ultimately show ?thesis
    using True assms(1,5,6) by (simp add: sys_new_pages_def new_pages_args_ok_iff[OF assms(4)])
qed (use assms(5,6) in \<open>simp add: sys_new_pages_def new_pages_args_ok_iff[OF assms(4)]\<close>)
text \<open>The caller owns \<^verbatim>\<open>0x1000000\<close> to \<^verbatim>\<open>0x1002000\<close> and asks for the first of these pages.\<close>

definition greedy_task :: kstate where
  "greedy_task = zero_state
     \<lparr>vmas := [0x100 \<mapsto> zero_vma\<lparr>start_address := 0x1000000, vsize := 0x2000\<rparr>],
      tasks := [0x10 \<mapsto> zero_task\<lparr>vm_area_list := \<lparr>q_first = 0x100, q_last = 0x100\<rparr>\<rparr>],
      threads := [0x20 \<mapsto> zero_thread\<lparr>parent_task := 0x10\<rparr>], current_thread := 0x20,
      umem := (\<lambda>_. 0)(0x1003 := 1, 0x1005 := 0x10)\<rparr>"

theorem sys_new_pages_rejects_witness: "sys_new_pages quiet_env 0x1000 greedy_task = Some (-1, greedy_task)"
proof -
  have a: "copy_user_int (umem greedy_task) 0x1000 0 = 0x1000000" "copy_user_int (umem greedy_task) 0x1000 1 = 0x1000"
    by (simp_all add: greedy_task_def copy_user_int_def ld32_def)
  have th: "threads greedy_task (current_thread greedy_task) = Some (zero_thread\<lparr>parent_task := 0x10\<rparr>)"
    by (simp add: greedy_task_def)
  have rg: "regions greedy_task 0x10 [0x100]"
    by (simp add: regions_def greedy_task_def q_rep_def zero_state_def zero_links_def)
  have ok: "\<forall>p\<in>set [0x100]. region_ok (the (vmas greedy_task p))"
    by (simp add: greedy_task_def region_ok_def zero_vma_def)
  have "0x1000000 \<in> region_bytes (the (vmas greedy_task 0x100)) \<inter> {0x1000000 ..< 0x1001000}"
    by (simp add: greedy_task_def region_bytes_def zero_vma_def)
  then have "\<exists>p\<in>set [0x100]. region_bytes (the (vmas greedy_task p)) \<inter>
      {unat (0x1000000 :: addr) ..< unat (0x1000000 :: addr) + unat (0x1000 :: addr)} \<noteq> {}"
    by auto
  then show ?thesis
    using sys_new_pages_rejects[OF th, of "[0x100]" quiet_env "0x1000000" "0x1000" "0x1000"] rg ok a
    by (simp add: quiet_env_def linear_xen_def)
qed

section \<open>Printing\<close>


text \<open>The size a program passes to \<open>print\<close> is only checked against an upper bound.  A negative size passes
  the check and reaches the console ring as a huge unsigned number: the ring is filled up with whatever follows
  the buffer, and the call reports success.\<close>

theorem sys_print_negative_size:
  assumes "out_inv (xcons s)" "sint (copy_user_int (umem s) sysarg 0) < 0"
  shows "\<exists>r. sys_print sysarg s = Some (0, s\<lparr>xcons := r\<rparr>) \<and>
    out_contents r = take 2048 (out_contents (xcons s) @ mem_slice (umem s) (copy_user_int (umem s) sysarg 1) 2048)"
proof -
  let ?sz = "sint (copy_user_int (umem s) sysarg 0)" and ?buf = "copy_user_int (umem s) sysarg 1"
  have "- (2 ^ 31) \<le> ?sz" by (rule sint_bounds32)
  from console_print_negative_len[OF assms(1) this assms(2), of "umem s" ?buf]
  obtain r where "xen_console_print (umem s) ?buf ?sz (xcons s) = Some r"
    "out_contents r = take 2048 (out_contents (xcons s) @ mem_slice (umem s) ?buf 2048)" by blast
  then show ?thesis using assms(2) by (intro exI[of _ r]) (simp add: sys_print_def putbytes_def)
qed

theorem sys_print_negative_size_witness:
  "\<exists>r. sys_print 0x1000 (zero_state\<lparr>umem := (\<lambda>_. 255), xcons := empty_xencons\<rparr>) =
     Some (0, zero_state\<lparr>umem := (\<lambda>_. 255), xcons := r\<rparr>) \<and> length (out_contents r) = 2048"
proof -
  have "sint (copy_user_int (\<lambda>_. 255) 0x1000 0) < 0" by (simp add: copy_user_int_def ld32_def)
  then show ?thesis
    using sys_print_negative_size[of "zero_state\<lparr>umem := (\<lambda>_. 255), xcons := empty_xencons\<rparr>" "0x1000"]
    by (auto simp: empty_xencons_inv mem_slice_def)
qed

section \<open>The cursor\<close>

lemma word_aligned_next: "word_aligned a \<Longrightarrow> word_aligned (a + 4)"
  by (simp add: word_aligned_def unat_word_ariths mod_mod_cancel)

text \<open>\<open>set_cursor_pos\<close> accepts exactly the positions on the screen and refuses all others, negative ones
  included, without a change; after an accepted one, \<open>get_cursor_pos\<close> delivers the position where the
  caller's two pointers lead.\<close>

theorem cursor_pos_roundtrip:
  assumes "row = copy_user_int (umem s) setpkt 0" "col = copy_user_int (umem s) setpkt 1"
    and "p = copy_user_int (umem s) getpkt 0" "q = copy_user_int (umem s) getpkt 1"
    and "word_aligned p" "word_aligned q" "word_aligned getpkt" "p \<noteq> q" "p \<noteq> getpkt + 4"
  shows "if unat row < 25 \<and> unat col < 80
    then \<exists>s1 s2. sys_set_cursor_pos setpkt s = (0, s1) \<and> sys_get_cursor_pos getpkt s1 = (0, s2) \<and>
           copy_user_dword (umem s2) p = row \<and> copy_user_dword (umem s2) q = col
    else sys_set_cursor_pos setpkt s = (-1, s)"
proof (cases "unat row < 25 \<and> unat col < 80")
  case True
  then obtain v' where v': "set_cursor row col (vga_cons s) = (0, v')" "get_cursor v' = (row, col)"
    using set_cursor_ok by metis
  define s1 where "s1 = s\<lparr>vga_cons := v'\<rparr>"
  define m where "m = st32 q col (st32 p row (umem s))"
  have set: "sys_set_cursor_pos setpkt s = (0, s1)"
    using v'(1) assms(1,2) by (simp add: sys_set_cursor_pos_def s1_def)
  have q: "ld32 (st32 p row (umem s)) (getpkt + 4) = q" "p = ld32 (umem s) getpkt"
    using ld32_st32_other[OF assms(5) word_aligned_next[OF assms(7)] assms(9)] assms(3,4)
    by (simp_all add: copy_user_int_def)
  have get: "sys_get_cursor_pos getpkt s1 = (0, s1\<lparr>umem := m\<rparr>)"
    using v'(2) q by (simp add: sys_get_cursor_pos_def s1_def copy_to_user_argpkt_int_def copy_user_dword_ld32
        copy_to_user_dword_st32 m_def)
  have "copy_user_dword m p = row" "copy_user_dword m q = col"
    using ld32_st32_other[OF assms(6,5), of col "st32 p row (umem s)"] assms(8)
    by (simp_all add: copy_user_dword_ld32 m_def)
  then show ?thesis using set get True by simp
next
  case False
  then show ?thesis
    using set_cursor_bad[of row col "vga_cons s"] assms(1,2) by (auto simp: sys_set_cursor_pos_def)
qed

text \<open>Row 3 and column 5 are set with the packet at \<^verbatim>\<open>0x1000\<close> and read with the one at \<^verbatim>\<open>0x2000\<close>.\<close>

definition cursor_call :: kstate where
  "cursor_call = zero_state\<lparr>umem := (\<lambda>_. 0)(0x1000 := 3, 0x1004 := 5, 0x2001 := 0x30, 0x2005 := 0x40)\<rparr>"

theorem cursor_pos_roundtrip_witness:
  "\<exists>s1 s2. sys_set_cursor_pos 0x1000 cursor_call = (0, s1) \<and> sys_get_cursor_pos 0x2000 s1 = (0, s2) \<and>
     copy_user_dword (umem s2) 0x3000 = 3 \<and> copy_user_dword (umem s2) 0x4000 = 5"
proof -
  have a: "copy_user_int (umem cursor_call) 0x1000 0 = 3" "copy_user_int (umem cursor_call) 0x1000 1 = 5"
    "copy_user_int (umem cursor_call) 0x2000 0 = 0x3000" "copy_user_int (umem cursor_call) 0x2000 1 = 0x4000"
    by (simp_all add: cursor_call_def copy_user_int_def ld32_def)
  from cursor_pos_roundtrip[OF a[symmetric]] show ?thesis by (simp add: word_aligned_def)
qed

end
