(* ===== verification/Traps.thy ===== *)
theory Traps
  imports Prelude
begin

text \<open>
  The tables of exception and system-call handlers the kernel registers with Xen: \<^verbatim>\<open>kern/handler_install.c\<close>,
  \<open>exceptions_init\<close> of \<^verbatim>\<open>kern/kernel_exceptions.c\<close> and \<^verbatim>\<open>kern/kernel_syscall.c\<close>.
\<close>

section \<open>The tables\<close>

record trap_info =
  vector :: u8
  ti_flags :: u8
  cs :: u16
  address :: u32

record traps =
  ex_trap_table :: "trap_info list"
  num_ex :: nat
  sys_trap_table :: "trap_info list"
  num_sys :: nat

definition zero_trap :: trap_info where
  "zero_trap = \<lparr>vector = 0, ti_flags = 0, cs = 0, address = 0\<rparr>"

definition initial_traps :: traps where
  "initial_traps = \<lparr>ex_trap_table = replicate 32 zero_trap, num_ex = 0, sys_trap_table = replicate 64 zero_trap, num_sys = 0\<rparr>"

definition SEGSEL_KERNEL_CS :: u16 where "SEGSEL_KERNEL_CS = 0xe019"

definition TI_SET_DPL :: "u8 \<Rightarrow> trap_info \<Rightarrow> trap_info" where
  "TI_SET_DPL dpl ti = ti\<lparr>ti_flags := ti_flags ti OR dpl\<rparr>"

definition TI_GET_DPL :: "trap_info \<Rightarrow> u8" where
  "TI_GET_DPL ti = ti_flags ti AND 3"

text \<open>An entry past the end of a table is \<open>None\<close>.\<close>

definition set_exception_entry :: "u32 \<Rightarrow> u32 \<Rightarrow> traps \<Rightarrow> traps option" where
  "set_exception_entry index handler t =
     (if num_ex t < length (ex_trap_table t)
      then Some (t\<lparr>ex_trap_table := (ex_trap_table t)[num_ex t :=
             \<lparr>vector = ucast index, ti_flags = 0, cs = SEGSEL_KERNEL_CS, address = handler\<rparr>],
             num_ex := num_ex t + 1\<rparr>)
      else None)"

definition set_syscall_entry :: "u32 \<Rightarrow> u32 \<Rightarrow> traps \<Rightarrow> traps option" where
  "set_syscall_entry index handler t =
     (if num_sys t < length (sys_trap_table t)
      then Some (t\<lparr>sys_trap_table := (sys_trap_table t)[num_sys t :=
             TI_SET_DPL 3 \<lparr>vector = ucast index, ti_flags = 0, cs = SEGSEL_KERNEL_CS, address = handler\<rparr>],
             num_sys := num_sys t + 1\<rparr>)
      else None)"

section \<open>The handlers\<close>

text \<open>The assembly entry points, whose addresses the linker decides.\<close>

datatype entry =
    Div_wrapper | Dbg_wrapper | Generic_wrapper | Ovf_wrapper | Inv_wrapper | Dbl_wrapper | Seg_wrapper
  | Stk_wrapper | Gpf_wrapper | Pgf_wrapper
  | Gettid | Fork | Exec | Set_status | Vanish | Wait | Task_vanish | Yield | Cas2i_runflag | Get_ticks | Sleep
  | New_pages | Remove_pages | Getchar | Readline | Print | Set_term_color | Set_cursor_pos | Get_cursor_pos
  | Halt | Ls | Misbehave

definition exception_wrappers :: "entry option list" where
  "exception_wrappers =
     [Some Div_wrapper, Some Dbg_wrapper, Some Generic_wrapper, Some Generic_wrapper, Some Ovf_wrapper,
      Some Generic_wrapper, Some Inv_wrapper, Some Generic_wrapper, Some Dbl_wrapper, Some Generic_wrapper,
      Some Generic_wrapper, Some Seg_wrapper, Some Stk_wrapper, Some Gpf_wrapper, Some Pgf_wrapper, None,
      Some Generic_wrapper, Some Generic_wrapper, Some Generic_wrapper, Some Generic_wrapper]"

definition wrapper_address :: "(entry \<Rightarrow> u32) \<Rightarrow> entry option \<Rightarrow> u32" where
  "wrapper_address adr w = (case w of None \<Rightarrow> NULL | Some e \<Rightarrow> adr e)"

definition exceptions_init :: "(entry \<Rightarrow> u32) \<Rightarrow> traps \<Rightarrow> traps option" where
  "exceptions_init adr t =
     c_each [0..<20] (\<lambda>i. set_exception_entry (of_nat i) (wrapper_address adr (exception_wrappers ! i))) t"

text \<open>The interrupt numbers are those of \<^verbatim>\<open>spec/syscall_int.h\<close>.\<close>

definition syscall_entries :: "(u32 \<times> entry) list" where
  "syscall_entries =
     [(0x48, Gettid), (0x41, Fork), (0x42, Exec), (0x59, Set_status), (0x60, Vanish), (0x44, Wait),
      (0x57, Task_vanish), (0x45, Yield), (0x61, Cas2i_runflag), (0x53, Get_ticks), (0x4B, Sleep),
      (0x49, New_pages), (0x4A, Remove_pages), (0x4C, Getchar), (0x4D, Readline), (0x4E, Print),
      (0x4F, Set_term_color), (0x50, Set_cursor_pos), (0x51, Get_cursor_pos), (0x55, Halt), (0x56, Ls),
      (0x54, Misbehave)]"

definition syscall_init :: "(entry \<Rightarrow> u32) \<Rightarrow> traps \<Rightarrow> traps option" where
  "syscall_init adr t = c_each syscall_entries (\<lambda>(n, e). set_syscall_entry n (adr e)) t"

text \<open>What Xen answers to the registration of the callbacks and of a table; a failure is a failed assertion.  The
  second component of the result lists the tables handed to Xen.\<close>

record install_env =
  entry_address :: "entry \<Rightarrow> u32"
  HYPERVISOR_set_callbacks :: int
  HYPERVISOR_set_trap_table :: "trap_info list \<Rightarrow> int"

definition hypervisor_init :: "install_env \<Rightarrow> int option" where
  "hypervisor_init E = (if HYPERVISOR_set_callbacks E = 0 then Some 0 else None)"

definition handler_install :: "install_env \<Rightarrow> traps \<Rightarrow> (int \<times> trap_info list list \<times> traps) option" where
  "handler_install E t =
     do { ret \<leftarrow> hypervisor_init E;
          t \<leftarrow> exceptions_init (entry_address E) (t\<lparr>num_ex := 0, num_sys := 0\<rparr>);
          if HYPERVISOR_set_trap_table E (ex_trap_table t) \<noteq> 0 then None
          else do {
            let ex = ex_trap_table t;
            t \<leftarrow> syscall_init (entry_address E) t;
            if HYPERVISOR_set_trap_table E (sys_trap_table t) \<noteq> 0 then None
            else Some (0, [ex, sys_trap_table t], t) } }"

section \<open>What Xen registers\<close>

text \<open>Xen reads a table up to the first entry whose address is 0.\<close>

definition xen_registers :: "trap_info list \<Rightarrow> trap_info list" where
  "xen_registers table = takeWhile (\<lambda>ti. address ti \<noteq> 0) table"

definition ex_entry :: "u8 \<Rightarrow> u32 \<Rightarrow> trap_info" where
  "ex_entry v a = \<lparr>vector = v, ti_flags = 0, cs = SEGSEL_KERNEL_CS, address = a\<rparr>"

definition sys_entry :: "u32 \<Rightarrow> u32 \<Rightarrow> trap_info" where
  "sys_entry v a = \<lparr>vector = ucast v, ti_flags = 3, cs = SEGSEL_KERNEL_CS, address = a\<rparr>"

lemma takeWhile_stop: "\<forall>x\<in>set xs. P x \<Longrightarrow> \<not> P y \<Longrightarrow> takeWhile P (xs @ y # ys) = xs"
  by (induction xs) auto

lemma fill_next:
  "n < length tb \<Longrightarrow> take (Suc n) (tb[n := x]) = take n tb @ [x]"
  "drop (Suc n + k) (tb[n := x]) = drop (Suc n + k) tb"
  by (simp_all add: take_Suc_conv_app_nth)

lemma exceptions_fill:
  "num_ex t + length ns \<le> length (ex_trap_table t) \<Longrightarrow>
   c_each ns (\<lambda>i. set_exception_entry (of_nat i) (f i)) t =
     Some (t\<lparr>ex_trap_table := take (num_ex t) (ex_trap_table t) @ map (\<lambda>i. ex_entry (ucast (of_nat i :: u32)) (f i)) ns @
                drop (num_ex t + length ns) (ex_trap_table t),
             num_ex := num_ex t + length ns\<rparr>)"
proof (induction ns arbitrary: t)
  case (Cons i ns)
  then show ?case
    using fill_next(2)[of "num_ex t" "length ns" "ex_trap_table t"]
    by (simp add: set_exception_entry_def fill_next(1) ex_entry_def)
qed simp

lemma syscalls_fill:
  "num_sys t + length es \<le> length (sys_trap_table t) \<Longrightarrow>
   c_each es (\<lambda>(n, e). set_syscall_entry n (adr e)) t =
     Some (t\<lparr>sys_trap_table := take (num_sys t) (sys_trap_table t) @ map (\<lambda>(n, e). sys_entry n (adr e)) es @
                drop (num_sys t + length es) (sys_trap_table t),
             num_sys := num_sys t + length es\<rparr>)"
proof (induction es arbitrary: t)
  case (Cons e es)
  then show ?case
    using fill_next(2)[of "num_sys t" "length es" "sys_trap_table t"]
    by (cases e) (simp add: set_syscall_entry_def fill_next(1) sys_entry_def TI_SET_DPL_def)
qed simp

text \<open>C34: If Xen accepts the registration of the callbacks and of the two tables, and no entry point is at address 0,
  installation succeeds; Xen then has a handler for exactly the exceptions 0 to 14, none of which a program can
  raise by a software interrupt, and for the 22 system calls at their interrupt numbers, which programs may
  raise.  The missing handler of exception 15 ends the table as Xen reads it, so the four entries after it
  are never registered.\<close>

theorem handler_install_correct:
  assumes "HYPERVISOR_set_callbacks E = 0" "\<forall>tb. HYPERVISOR_set_trap_table E tb = 0" "\<forall>e. entry_address E e \<noteq> NULL"
  shows "\<exists>ex sys t. handler_install E initial_traps = Some (0, [ex, sys], t) \<and>
    map vector (xen_registers ex) = map of_nat [0..<15] \<and> (\<forall>ti\<in>set (xen_registers ex). TI_GET_DPL ti = 0) \<and>
    map (\<lambda>ti. (vector ti, address ti)) (xen_registers sys) = map (\<lambda>(n, e). (ucast n, entry_address E e)) syscall_entries \<and>
    (\<forall>ti\<in>set (xen_registers sys). TI_GET_DPL ti = 3) \<and> length ex = 32 \<and> num_ex t = 20"
proof -
  let ?adr = "entry_address E"
  define ex where "ex = map (\<lambda>i. ex_entry (ucast (of_nat i :: u32)) (wrapper_address ?adr (exception_wrappers ! i))) [0..<20] @
    replicate 12 zero_trap"
  define sys where "sys = map (\<lambda>(n, e). sys_entry n (?adr e)) syscall_entries @ replicate 42 zero_trap"
  define t1 where "t1 = initial_traps\<lparr>ex_trap_table := ex, num_ex := 20\<rparr>"
  define t2 where "t2 = t1\<lparr>sys_trap_table := sys, num_sys := 22\<rparr>"
  have e: "exceptions_init ?adr initial_traps = Some t1"
    using exceptions_fill[of initial_traps "[0..<20]" "\<lambda>i. wrapper_address ?adr (exception_wrappers ! i)"]
    unfolding exceptions_init_def by (simp add: initial_traps_def t1_def ex_def del: upt_rec_numeral)
  have n: "length syscall_entries = 22" by (simp add: syscall_entries_def)
  have s: "syscall_init ?adr t1 = Some t2"
    using syscalls_fill[of t1 syscall_entries ?adr]
    unfolding syscall_init_def by (simp add: t1_def t2_def initial_traps_def sys_def n)
  have run: "handler_install E initial_traps = Some (0, [ex, sys], t2)"
  proof -
    have "initial_traps\<lparr>num_ex := 0, num_sys := 0\<rparr> = initial_traps" by (simp add: initial_traps_def)
    then show ?thesis using assms(1,2) e s by (simp add: handler_install_def hypervisor_init_def t2_def t1_def)
  qed
  have rex: "xen_registers ex = map (\<lambda>i. ex_entry (ucast (of_nat i :: u32)) (wrapper_address ?adr (exception_wrappers ! i))) [0..<15]"
  proof -
    let ?f = "\<lambda>i. ex_entry (ucast (of_nat i :: u32)) (wrapper_address ?adr (exception_wrappers ! i))"
    have "\<forall>i\<in>set [0..<15]. exception_wrappers ! i \<noteq> None" "exception_wrappers ! 15 = None" by code_simp+
    then have "\<forall>ti\<in>set (map ?f [0..<15]). address ti \<noteq> 0" "address (?f 15) = 0"
      using assms(3) by (auto simp: ex_entry_def wrapper_address_def)
    moreover have "ex = map ?f [0..<15] @ ?f 15 # map ?f [Suc 15..<20] @ replicate 12 zero_trap"
      unfolding ex_def by (subst split_upt[of 15]) simp_all
    ultimately show ?thesis unfolding xen_registers_def by (simp only: takeWhile_stop not_not)
  qed
  have rsys: "xen_registers sys = map (\<lambda>(n, e). sys_entry n (?adr e)) syscall_entries"
  proof -
    have "xen_registers (map (\<lambda>(n, e). sys_entry n (?adr e)) es @ replicate 42 zero_trap) = map (\<lambda>(n, e). sys_entry n (?adr e)) es" for es
      using assms(3) by (induction es) (auto simp: xen_registers_def sys_entry_def zero_trap_def numeral_eq_Suc)
    then show ?thesis by (simp add: sys_def)
  qed
  have "map vector (xen_registers ex) = map of_nat [0..<15]"
  proof -
    have "map vector (xen_registers ex) = map (\<lambda>i. ucast (of_nat i :: u32)) [0..<15]"
      unfolding rex by (simp add: ex_entry_def del: upt_rec_numeral)
    also have "\<dots> = map of_nat [0..<15]" by code_simp
    finally show ?thesis .
  qed
  moreover have "\<forall>ti\<in>set (xen_registers ex). TI_GET_DPL ti = 0" unfolding rex by (auto simp: ex_entry_def TI_GET_DPL_def)
  moreover have "map (\<lambda>ti. (vector ti, address ti)) (xen_registers sys) = map (\<lambda>(n, e). (ucast n, ?adr e)) syscall_entries"
    unfolding rsys by (auto simp: sys_entry_def)
  moreover have "\<forall>ti\<in>set (xen_registers sys). TI_GET_DPL ti = 3" unfolding rsys by (auto simp: sys_entry_def TI_GET_DPL_def)
  moreover have "length ex = 32" "num_ex t2 = 20" by (simp_all add: ex_def t2_def t1_def)
  ultimately show ?thesis using run by blast
qed

theorem handler_install_correct_witness:
  "\<exists>ex sys t. handler_install \<lparr>entry_address = \<lambda>_. 0x1000, HYPERVISOR_set_callbacks = 0, HYPERVISOR_set_trap_table = \<lambda>_. 0\<rparr>
     initial_traps = Some (0, [ex, sys], t) \<and> length (xen_registers ex) = 15"
proof -
  let ?E = "\<lparr>entry_address = \<lambda>_. 0x1000, HYPERVISOR_set_callbacks = 0, HYPERVISOR_set_trap_table = \<lambda>_. 0\<rparr> :: install_env"
  obtain ex sys t where "handler_install ?E initial_traps = Some (0, [ex, sys], t)"
    "map vector (xen_registers ex) = map of_nat [0..<15]"
    using handler_install_correct[of ?E] by auto
  moreover from this(2) have "length (xen_registers ex) = 15" by (metis length_map length_upt minus_nat.diff_0)
  ultimately show ?thesis by blast
qed

end
