(* ===== verification/Xen_Events.thy ===== *)
theory Xen_Events
  imports Prelude
begin

text \<open>
  Event channels, \<^verbatim>\<open>kern/xen_events.c\<close> with the bit operations of \<^verbatim>\<open>kern/inc/xen_bitops.h\<close>: the bitmaps of
  pending and masked ports that Xen shares with the kernel, the table of handlers, and the upcall that finds
  the pending ports and runs their handlers.
\<close>

section \<open>Bit operations\<close>

text \<open>Arrays of words, bit \<open>nr\<close> being bit \<open>nr mod 32\<close> of word \<open>nr div 32\<close>.  An access past the end of the
  array is \<open>None\<close>.\<close>

definition synch_test_bit :: "u32 \<Rightarrow> u32 list \<Rightarrow> bool option" where
  "synch_test_bit nr a =
     (if unat nr div 32 < length a then Some (bit (a ! (unat nr div 32)) (unat nr mod 32)) else None)"

definition synch_set_bit :: "u32 \<Rightarrow> u32 list \<Rightarrow> u32 list option" where
  "synch_set_bit nr a =
     (if unat nr div 32 < length a
      then Some (a[unat nr div 32 := a ! (unat nr div 32) OR push_bit (unat nr mod 32) 1]) else None)"

definition synch_clear_bit :: "u32 \<Rightarrow> u32 list \<Rightarrow> u32 list option" where
  "synch_clear_bit nr a =
     (if unat nr div 32 < length a
      then Some (a[unat nr div 32 := a ! (unat nr div 32) AND NOT (push_bit (unat nr mod 32) 1)]) else None)"

definition synch_test_and_set_bit :: "u32 \<Rightarrow> u32 list \<Rightarrow> (bool \<times> u32 list) option" where
  "synch_test_and_set_bit nr a = do { b \<leftarrow> synch_test_bit nr a; a \<leftarrow> synch_set_bit nr a; Some (b, a) }"

definition test_and_clear_bit :: "u32 \<Rightarrow> u32 list \<Rightarrow> (bool \<times> u32 list) option" where
  "test_and_clear_bit nr a = do { b \<leftarrow> synch_test_bit nr a; a \<leftarrow> synch_clear_bit nr a; Some (b, a) }"

text \<open>The lowest bit that is set; the result for 0 is not used.\<close>

definition ffs :: "u32 \<Rightarrow> nat" where
  "ffs w = length (takeWhile (\<lambda>i. \<not> bit w i) [0..<32])"

section \<open>State\<close>

text \<open>The shared page as far as events are concerned, the handlers, and the rest of the kernel, on which handlers
  act.  \<open>forced\<close> counts the calls that ask Xen for an upcall at once.\<close>

record 'h ev_action =
  handler :: 'h
  ev_data :: addr
  ev_count :: u32

record ('h, 'k) ev_state =
  evtchn_pending :: "u32 list"
  evtchn_mask :: "u32 list"
  evtchn_upcall_pending :: u8
  evtchn_upcall_mask :: u8
  evtchn_pending_sel :: u32
  arch_cr2 :: u32
  ev_actions :: "u32 \<Rightarrow> 'h ev_action"
  bound_ports :: "u32 list"
  forced :: nat
  rest :: 'k

text \<open>What runs a handler, the handler that only reports, and the operations of Xen on event channels: each yields
  a status and, where it creates one, a port.\<close>

record ('h, 'k) ev_env =
  run_handler :: "'h \<Rightarrow> u32 \<Rightarrow> addr \<Rightarrow> ('h, 'k) ev_state \<Rightarrow> ('h, 'k) ev_state option"
  default_handler :: 'h
  EVTCHNOP_bind_virq :: "u32 \<Rightarrow> int \<times> u32"
  EVTCHNOP_alloc_unbound :: "u32 \<Rightarrow> int \<times> u32"
  EVTCHNOP_bind_interdomain :: "u32 \<Rightarrow> u32 \<Rightarrow> int \<times> u32"
  EVTCHNOP_close :: "u32 \<Rightarrow> ('h, 'k) ev_state \<Rightarrow> ('h, 'k) ev_state"

definition NR_EVS :: u32 where "NR_EVS = 1024"

section \<open>Masking\<close>

definition force_evtchn_callback :: "('h, 'k) ev_state \<Rightarrow> ('h, 'k) ev_state" where
  "force_evtchn_callback s = s\<lparr>forced := forced s + 1\<rparr>"

definition xen_cli :: "('h, 'k) ev_state \<Rightarrow> ('h, 'k) ev_state" where
  "xen_cli s = s\<lparr>evtchn_upcall_mask := 1\<rparr>"

definition xen_sti :: "('h, 'k) ev_state \<Rightarrow> ('h, 'k) ev_state" where
  "xen_sti s =
     (let s = s\<lparr>evtchn_upcall_mask := 0\<rparr>
      in if evtchn_upcall_pending s \<noteq> 0 then force_evtchn_callback s else s)"

definition mask_evtchn :: "u32 \<Rightarrow> ('h, 'k) ev_state \<Rightarrow> ('h, 'k) ev_state option" where
  "mask_evtchn port s = do { m \<leftarrow> synch_set_bit port (evtchn_mask s); Some (s\<lparr>evtchn_mask := m\<rparr>) }"

definition clear_evtchn :: "u32 \<Rightarrow> ('h, 'k) ev_state \<Rightarrow> ('h, 'k) ev_state option" where
  "clear_evtchn port s = do { p \<leftarrow> synch_clear_bit port (evtchn_pending s); Some (s\<lparr>evtchn_pending := p\<rparr>) }"

text \<open>Unmasking a port that became pending while it was masked raises the upcall that was lost then.\<close>

definition unmask_evtchn :: "u32 \<Rightarrow> ('h, 'k) ev_state \<Rightarrow> ('h, 'k) ev_state option" where
  "unmask_evtchn port s =
     do { m \<leftarrow> synch_clear_bit port (evtchn_mask s);
          let s = s\<lparr>evtchn_mask := m\<rparr>;
          pending \<leftarrow> synch_test_bit port (evtchn_pending s);
          if pending then do {
            (old, sel) \<leftarrow> synch_test_and_set_bit (drop_bit 5 port) [evtchn_pending_sel s];
            let s = s\<lparr>evtchn_pending_sel := sel ! 0\<rparr>;
            if \<not> old then
              let s = s\<lparr>evtchn_upcall_pending := 1\<rparr>
              in Some (if evtchn_upcall_mask s = 0 then force_evtchn_callback s else s)
            else Some s }
          else Some s }"

section \<open>Delivery\<close>

definition do_event :: "('h, 'k) ev_env \<Rightarrow> u32 \<Rightarrow> ('h, 'k) ev_state \<Rightarrow> ('h, 'k) ev_state option" where
  "do_event E port s =
     (if port \<ge> NR_EVS then clear_evtchn port s
      else do {
        let action = ev_actions s port;
        let s = s\<lparr>ev_actions := (ev_actions s)(port := action\<lparr>ev_count := ev_count action + 1\<rparr>)\<rparr>;
        s \<leftarrow> run_handler E (handler action) port (ev_data action) s;
        clear_evtchn port s })"

definition active_evtchns :: "('h, 'k) ev_state \<Rightarrow> nat \<Rightarrow> u32" where
  "active_evtchns s idx = evtchn_pending s ! idx AND NOT (evtchn_mask s ! idx)"

partial_function (option) serve_word ::
  "('h, 'k) ev_env \<Rightarrow> nat \<Rightarrow> ('h, 'k) ev_state \<Rightarrow> ('h, 'k) ev_state option" where
  "serve_word E l1i s =
     (if active_evtchns s l1i \<noteq> 0
      then Option.bind (do_event E (of_nat (32 * l1i + ffs (active_evtchns s l1i))) s) (serve_word E l1i)
      else Some s)"

partial_function (option) serve_words ::
  "('h, 'k) ev_env \<Rightarrow> u32 \<Rightarrow> ('h, 'k) ev_state \<Rightarrow> ('h, 'k) ev_state option" where
  "serve_words E l1 s =
     (if l1 \<noteq> 0
      then Option.bind (serve_word E (ffs l1) s) (serve_words E (l1 AND NOT (push_bit (ffs l1) 1)))
      else Some s)"

definition do_hypervisor_callback :: "('h, 'k) ev_env \<Rightarrow> ('h, 'k) ev_state \<Rightarrow> ('h, 'k) ev_state option" where
  "do_hypervisor_callback E s =
     (let s = s\<lparr>evtchn_upcall_pending := 0\<rparr>;
          l1 = evtchn_pending_sel s;
          s = s\<lparr>evtchn_pending_sel := 0\<rparr>
      in serve_words E l1 s)"

text \<open>The faulting address of the last page fault, which \<^verbatim>\<open>kern/kernel_exceptions.c\<close> reads from the shared page.\<close>

definition xen_get_cr2 :: "('h, 'k) ev_state \<Rightarrow> u32 \<times> ('h, 'k) ev_state" where
  "xen_get_cr2 s =
     (let s = (if evtchn_upcall_pending s \<noteq> 0 then s\<lparr>evtchn_upcall_pending := 0\<rparr> else s)
      in (arch_cr2 s, s))"

section \<open>Binding\<close>

definition bind_evtchn :: "u32 \<Rightarrow> 'h \<Rightarrow> addr \<Rightarrow> ('h, 'k) ev_state \<Rightarrow> (u32 \<times> ('h, 'k) ev_state) option" where
  "bind_evtchn port h data s =
     (if port \<ge> NR_EVS then None
      else do {
        let s = s\<lparr>ev_actions := (ev_actions s)(port := (ev_actions s port)\<lparr>ev_data := data, handler := h\<rparr>)\<rparr>;
        s \<leftarrow> unmask_evtchn port s;
        Some (port, s) })"

definition unbind_evtchn :: "('h, 'k) ev_env \<Rightarrow> u32 \<Rightarrow> ('h, 'k) ev_state \<Rightarrow> ('h, 'k) ev_state option" where
  "unbind_evtchn E port s =
     (if port \<ge> NR_EVS then None
      else Some (s\<lparr>ev_actions := (ev_actions s)
        (port := (ev_actions s port)\<lparr>handler := default_handler E, ev_data := NULL\<rparr>)\<rparr>))"

definition bind_virq :: "('h, 'k) ev_env \<Rightarrow> u32 \<Rightarrow> 'h \<Rightarrow> addr \<Rightarrow> ('h, 'k) ev_state \<Rightarrow> (int \<times> ('h, 'k) ev_state) option" where
  "bind_virq E virq h data s =
     (let (rc, port) = EVTCHNOP_bind_virq E virq
      in if rc \<noteq> 0 then Some (1, s)
         else do {
           b \<leftarrow> synch_set_bit port (bound_ports s);
           (p, s) \<leftarrow> bind_evtchn port h data (s\<lparr>bound_ports := b\<rparr>);
           Some (0, s) })"

definition unbind_port :: "('h, 'k) ev_env \<Rightarrow> nat \<Rightarrow> ('h, 'k) ev_state \<Rightarrow> ('h, 'k) ev_state option" where
  "unbind_port E i s =
     do { (was, b) \<leftarrow> test_and_clear_bit (of_nat i) (bound_ports s);
          let s = s\<lparr>bound_ports := b\<rparr>;
          if was then do { s \<leftarrow> mask_evtchn (of_nat i) s; Some (EVTCHNOP_close E (of_nat i) s) } else Some s }"

definition unbind_all_ports :: "('h, 'k) ev_env \<Rightarrow> ('h, 'k) ev_state \<Rightarrow> ('h, 'k) ev_state option" where
  "unbind_all_ports E s = c_each [0..<unat NR_EVS] (unbind_port E) s"

definition xen_init_events :: "('h, 'k) ev_env \<Rightarrow> ('h, 'k) ev_state \<Rightarrow> ('h, 'k) ev_state option" where
  "xen_init_events E s =
     c_each [0..<unat NR_EVS] (\<lambda>i s.
       mask_evtchn (of_nat i) (s\<lparr>ev_actions := (ev_actions s)
         (of_nat i := (ev_actions s (of_nat i))\<lparr>handler := default_handler E\<rparr>)\<rparr>)) s"

definition evtchn_alloc_unbound ::
  "('h, 'k) ev_env \<Rightarrow> u32 \<Rightarrow> 'h \<Rightarrow> addr \<Rightarrow> ('h, 'k) ev_state \<Rightarrow> (int \<times> u32 option \<times> ('h, 'k) ev_state) option" where
  "evtchn_alloc_unbound E pal h data s =
     (let (err, p) = EVTCHNOP_alloc_unbound E pal
      in if err \<noteq> 0 then Some (err, None, s)
         else do { (port, s) \<leftarrow> bind_evtchn p h data s; Some (err, Some port, s) })"

definition evtchn_bind_interdomain ::
  "('h, 'k) ev_env \<Rightarrow> u32 \<Rightarrow> u32 \<Rightarrow> 'h \<Rightarrow> addr \<Rightarrow> ('h, 'k) ev_state \<Rightarrow>
    (int \<times> u32 option \<times> ('h, 'k) ev_state) option" where
  "evtchn_bind_interdomain E pal remote_port h data s =
     (let (err, p) = EVTCHNOP_bind_interdomain E pal remote_port
      in if err \<noteq> 0 then Some (err, None, s)
         else do {
           b \<leftarrow> synch_set_bit p (bound_ports s);
           s \<leftarrow> clear_evtchn p (s\<lparr>bound_ports := b\<rparr>);
           (local_port, s) \<leftarrow> bind_evtchn p h data s;
           Some (err, Some local_port, s) })"

section \<open>The bits of a word\<close>

definition bits_of :: "u32 \<Rightarrow> nat list" where
  "bits_of w = filter (bit w) [0..<32]"

lemma bits_of_0 [simp]: "bits_of 0 = []"
  by (simp add: bits_of_def)

lemma bits_of_Nil: "bits_of w = [] \<longleftrightarrow> w = 0"
proof
  assume "bits_of w = []"
  then have "\<not> bit w i" if "i < 32" for i using that by (simp add: bits_of_def filter_empty_conv)
  then show "w = 0" by (intro bit_word_eqI) simp
qed simp

lemma bits_of_ffs:
  assumes "w \<noteq> 0"
  shows "bits_of w = ffs w # filter (bit w) [Suc (ffs w)..<32]" "ffs w < 32" "bit w (ffs w)" "\<And>i. i < ffs w \<Longrightarrow> \<not> bit w i"
proof -
  let ?P = "\<lambda>i. \<not> bit w i"
  have ex: "\<exists>i\<in>set [0..<32]. \<not> ?P i"
    using assms bits_of_Nil[of w] by (auto simp: bits_of_def filter_empty_conv)
  then have "takeWhile ?P [0..<32] \<noteq> [0..<32]" by (metis takeWhile_eq_all_conv)
  then show lt: "ffs w < 32"
    unfolding ffs_def by (metis length_takeWhile_le length_upt minus_nat.diff_0 nat_less_le takeWhile_eq_take take_all)
  show hit: "bit w (ffs w)"
    using nth_length_takeWhile[of ?P "[0..<32]"] lt by (simp add: ffs_def)
  show miss: "\<not> bit w i" if "i < ffs w" for i
  proof -
    have "i \<in> set (takeWhile ?P [0..<32])"
      using that lt takeWhile_nth[of i ?P "[0..<32]"] by (metis add_0 ffs_def nth_mem nth_upt order_less_trans)
    then show ?thesis by (rule set_takeWhileD[THEN conjunct2])
  qed
  have "[0..<32] = [0..<ffs w] @ ffs w # [Suc (ffs w)..<32]"
    using lt by (rule split_upt)
  moreover have "filter (bit w) [0..<ffs w] = []" using miss by (simp add: filter_empty_conv)
  ultimately show "bits_of w = ffs w # filter (bit w) [Suc (ffs w)..<32]"
    using hit by (simp add: bits_of_def)
qed

lemma bit_clear: "bit (w AND NOT (2 ^ k)) i \<longleftrightarrow> bit w i \<and> i \<noteq> k" for w :: u32
  by (cases "i < 32") (auto simp: bit_and_iff bit_not_iff bit_push_bit_iff bit_1_iff bit_exp_iff dest: bit_imp_le_length)

lemma bits_of_clear: "w \<noteq> 0 \<Longrightarrow> bits_of (w AND NOT (push_bit (ffs w) 1)) = tl (bits_of w)"
proof -
  assume w: "w \<noteq> 0"
  let ?v = "w AND NOT (push_bit (ffs w) 1)"
  have "[0..<32] = [0..<ffs w] @ ffs w # [Suc (ffs w)..<32]"
    using bits_of_ffs(2)[OF w] by (rule split_upt)
  moreover have "filter (bit ?v) [0..<ffs w] = []" using bits_of_ffs(4)[OF w] by (simp add: filter_empty_conv bit_clear)
  moreover have "\<not> bit ?v (ffs w)" by (simp add: bit_clear)
  moreover have "filter (bit ?v) [Suc (ffs w)..<32] = filter (bit w) [Suc (ffs w)..<32]"
    by (rule filter_cong) (auto simp: bit_clear)
  ultimately have "bits_of ?v = filter (bit w) [Suc (ffs w)..<32]" by (simp add: bits_of_def)
  then show ?thesis using bits_of_ffs(1)[OF w] by simp
qed

section \<open>What an upcall does\<close>

definition ev_wf :: "('h, 'k) ev_state \<Rightarrow> bool" where
  "ev_wf s \<longleftrightarrow> length (evtchn_pending s) = 32 \<and> length (evtchn_mask s) = 32"

text \<open>Clearing the pending bit of a port.\<close>

definition clear_port :: "nat \<Rightarrow> u32 list \<Rightarrow> u32 list" where
  "clear_port p a = a[p div 32 := a ! (p div 32) AND NOT (push_bit (p mod 32) 1)]"

text \<open>The handlers in \<open>H\<close>, as long as the rest of the kernel satisfies \<open>I\<close>: they return, keep \<open>I\<close>, leave the masks and the
  table of handlers alone, and change no pending bit unless they acknowledge their own port.\<close>

definition handlers_ok :: "('h, 'k) ev_env \<Rightarrow> 'h set \<Rightarrow> ('k \<Rightarrow> bool) \<Rightarrow> bool" where
  "handlers_ok E H I \<longleftrightarrow> (\<forall>h\<in>H. \<forall>p d s. I (rest s) \<longrightarrow> (\<exists>s'. run_handler E h p d s = Some s' \<and> I (rest s') \<and>
     evtchn_mask s' = evtchn_mask s \<and> ev_actions s' = ev_actions s \<and>
     (evtchn_pending s' = evtchn_pending s \<or> evtchn_pending s' = clear_port (unat p) (evtchn_pending s))))"

text \<open>Only the handlers of the ports that are pending and not masked are asked to be in \<open>H\<close>; no others can be called.\<close>

definition open_port :: "('h, 'k) ev_state \<Rightarrow> nat \<Rightarrow> bool" where
  "open_port s p \<longleftrightarrow> p < 1024 \<and> bit (evtchn_pending s ! (p div 32)) (p mod 32) \<and> \<not> bit (evtchn_mask s ! (p div 32)) (p mod 32)"

definition ev_ok :: "'h set \<Rightarrow> ('k \<Rightarrow> bool) \<Rightarrow> ('h, 'k) ev_state \<Rightarrow> bool" where
  "ev_ok H I s \<longleftrightarrow> ev_wf s \<and> (\<forall>p. open_port s p \<longrightarrow> handler (ev_actions s (of_nat p)) \<in> H) \<and> I (rest s)"

definition counts :: "('h, 'k) ev_state \<Rightarrow> u32 \<Rightarrow> u32" where
  "counts s p = ev_count (ev_actions s p)"

lemma clear_port_nth:
  "p div 32 < length a \<Longrightarrow> clear_port p a ! i = (if i = p div 32 then a ! i AND NOT (push_bit (p mod 32) 1) else a ! i)"
  by (auto simp: clear_port_def nth_list_update)

lemma clear_port_twice [simp]: "clear_port p (clear_port p a) = clear_port p a"
  by (cases "p div 32 < length a") (simp_all add: clear_port_def and.assoc list_update_beyond)

lemma clear_evtchn_port:
  assumes "ev_wf s" "p < 1024"
  shows "clear_evtchn (of_nat p) s = Some (s\<lparr>evtchn_pending := clear_port p (evtchn_pending s)\<rparr>)"
proof -
  have "unat (of_nat p :: u32) = p" using assms(2) by (intro unat_of_nat32) simp
  then show ?thesis
    using assms by (simp add: clear_evtchn_def synch_clear_bit_def clear_port_def ev_wf_def)
qed

lemma bit_clear_port: "bit (clear_port p a ! i) j \<Longrightarrow> bit (a ! i) j"
proof (cases "p div 32 < length a")
  case True
  assume "bit (clear_port p a ! i) j"
  then show ?thesis unfolding clear_port_nth[OF True] by (simp add: bit_and_iff split: if_splits)
next
  case False
  assume "bit (clear_port p a ! i) j"
  then show ?thesis using False by (simp add: clear_port_def list_update_beyond)
qed

lemma do_event_ok:
  assumes "handlers_ok E H I" "ev_ok H I s" "open_port s p"
  obtains s' where "do_event E (of_nat p) s = Some s'" "ev_ok H I s'" "evtchn_mask s' = evtchn_mask s"
    "evtchn_pending s' = clear_port p (evtchn_pending s)"
    "counts s' = (counts s)(of_nat p := counts s (of_nat p) + 1)"
proof -
  have p1024: "p < 1024" using assms(3) by (simp add: open_port_def)
  have p: "unat (of_nat p :: u32) = p" "(of_nat p :: u32) < NR_EVS"
  proof -
    show "unat (of_nat p :: u32) = p" using p1024 by (intro unat_of_nat32) simp
    then show "(of_nat p :: u32) < NR_EVS" using p1024 by (simp add: NR_EVS_def word_less_nat_alt)
  qed
  let ?a = "ev_actions s (of_nat p)"
  define s1 where "s1 = s\<lparr>ev_actions := (ev_actions s)(of_nat p := ?a\<lparr>ev_count := ev_count ?a + 1\<rparr>)\<rparr>"
  have "handler ?a \<in> H" "I (rest s1)" using assms(2,3) by (simp_all add: ev_ok_def s1_def)
  then obtain s2 where s2: "run_handler E (handler ?a) (of_nat p) (ev_data ?a) s1 = Some s2" "I (rest s2)"
    "evtchn_mask s2 = evtchn_mask s1" "ev_actions s2 = ev_actions s1"
    "evtchn_pending s2 = evtchn_pending s1 \<or> evtchn_pending s2 = clear_port p (evtchn_pending s1)"
    using assms(1) p(1) unfolding handlers_ok_def by metis
  have wf2: "ev_wf s2" using assms(2) s2 by (auto simp: ev_ok_def ev_wf_def s1_def clear_port_def)
  have pend: "clear_port p (evtchn_pending s2) = clear_port p (evtchn_pending s)"
    using s2(5) by (auto simp: s1_def)
  show thesis
  proof (rule that)
    show "do_event E (of_nat p) s = Some (s2\<lparr>evtchn_pending := clear_port p (evtchn_pending s)\<rparr>)"
      using s2(1) clear_evtchn_port[OF wf2 p1024] p(2) pend
      by (simp add: do_event_def s1_def Let_def not_le[symmetric])
    have "open_port s q" "handler (ev_actions s2 (of_nat q)) = handler (ev_actions s (of_nat q))"
      if "open_port (s2\<lparr>evtchn_pending := clear_port p (evtchn_pending s)\<rparr>) q" for q
      using that s2(3,4) by (auto simp: open_port_def s1_def dest: bit_clear_port)
    then show "ev_ok H I (s2\<lparr>evtchn_pending := clear_port p (evtchn_pending s)\<rparr>)"
      using assms(2) s2(2,3) by (auto simp: ev_ok_def ev_wf_def s1_def clear_port_def)
  qed (use s2(3,4) in \<open>auto simp: s1_def counts_def fun_eq_iff\<close>)
qed

definition word_ports :: "('h, 'k) ev_state \<Rightarrow> nat \<Rightarrow> nat list" where
  "word_ports s i = map (\<lambda>b. 32 * i + b) (bits_of (active_evtchns s i))"

abbreviation serve_list :: "('h, 'k) ev_env \<Rightarrow> nat list \<Rightarrow> ('h, 'k) ev_state \<Rightarrow> ('h, 'k) ev_state option" where
  "serve_list E ps \<equiv> c_each ps (\<lambda>p. do_event E (of_nat p))"

definition count_up :: "nat list \<Rightarrow> (u32 \<Rightarrow> u32) \<Rightarrow> u32 \<Rightarrow> u32" where
  "count_up ps c = (\<lambda>q. c q + of_nat (count_list (map of_nat ps) q))"

lemma count_up_Nil [simp]: "count_up [] c = c"
  by (simp add: count_up_def)

lemma count_up_Cons: "count_up (p # ps) c = count_up ps (c(of_nat p := c (of_nat p) + 1))"
  by (auto simp: count_up_def fun_eq_iff)

lemma count_up_append: "count_up (ps @ qs) c = count_up qs (count_up ps c)"
  by (simp add: count_up_def fun_eq_iff add.assoc)

lemma serve_word_ok:
  assumes "handlers_ok E H I" "ev_ok H I s" "i < 32"
  shows "\<exists>s'. serve_word E i s = Some s' \<and> serve_list E (word_ports s i) s = Some s' \<and> ev_ok H I s' \<and>
    evtchn_mask s' = evtchn_mask s \<and>
    evtchn_pending s' = (evtchn_pending s)[i := evtchn_pending s ! i AND evtchn_mask s ! i] \<and>
    counts s' = count_up (word_ports s i) (counts s)"
  using assms(2)
proof (induction "bits_of (active_evtchns s i)" arbitrary: s)
  case Nil
  then have "active_evtchns s i = 0" by (metis bits_of_Nil)
  moreover from this have "evtchn_pending s ! i AND evtchn_mask s ! i = evtchn_pending s ! i"
    unfolding active_evtchns_def by (metis and.right_neutral bit.conj_disj_distrib or.right_neutral bit.disj_cancel_right)
  ultimately show ?case using Nil.prems by (simp add: serve_word.simps word_ports_def)
next
  case (Cons b bs)
  let ?w = "active_evtchns s i"
  have w: "?w \<noteq> 0" using Cons.hyps(2) by (metis bits_of_Nil list.distinct(1))
  have b: "b = ffs ?w" "b < 32" "bit ?w b" using bits_of_ffs[OF w] Cons.hyps(2) by auto
  have p: "32 * i + b < 1024" "(32 * i + b) div 32 = i" "(32 * i + b) mod 32 = b" using assms(3) b(2) by auto
  have op: "open_port s (32 * i + b)"
    using b(3) p by (simp add: open_port_def active_evtchns_def bit_and_iff bit_not_iff)
  obtain s1 where s1: "do_event E (of_nat (32 * i + b)) s = Some s1" "ev_ok H I s1" "evtchn_mask s1 = evtchn_mask s"
    "evtchn_pending s1 = clear_port (32 * i + b) (evtchn_pending s)"
    "counts s1 = (counts s)(of_nat (32 * i + b) := counts s (of_nat (32 * i + b)) + 1)"
    by (rule do_event_ok[OF assms(1) Cons.prems op])
  have i: "i < length (evtchn_pending s)" using Cons.prems assms(3) by (simp add: ev_ok_def ev_wf_def)
  have pend: "evtchn_pending s1 = (evtchn_pending s)[i := evtchn_pending s ! i AND NOT (2 ^ b)]"
    using s1(4) p by (simp add: clear_port_def)
  have "active_evtchns s1 i = ?w AND NOT (2 ^ b)"
    using i by (simp add: active_evtchns_def s1(3) pend and.commute and.left_commute)
  then have w1: "active_evtchns s1 i = ?w AND NOT (push_bit (ffs ?w) 1)" using b(1) by simp
  then have bs: "bits_of (active_evtchns s1 i) = bs" using bits_of_clear[OF w] Cons.hyps(2) by (metis list.sel(3))
  obtain s' where s': "serve_word E i s1 = Some s'" "serve_list E (word_ports s1 i) s1 = Some s'" "ev_ok H I s'"
    "evtchn_mask s' = evtchn_mask s1"
    "evtchn_pending s' = (evtchn_pending s1)[i := evtchn_pending s1 ! i AND evtchn_mask s1 ! i]"
    "counts s' = count_up (word_ports s1 i) (counts s1)"
    using Cons.hyps(1)[OF bs[symmetric] s1(2)] by blast
  have ports: "word_ports s i = (32 * i + b) # word_ports s1 i"
    by (simp add: word_ports_def bs Cons.hyps(2)[symmetric])
  have "\<not> bit (evtchn_mask s ! i) b" using b(2,3) by (simp add: active_evtchns_def bit_and_iff bit_not_iff)
  then have keep: "(evtchn_pending s ! i AND NOT (2 ^ b)) AND evtchn_mask s ! i = evtchn_pending s ! i AND evtchn_mask s ! i"
    by (intro bit_word_eqI) (auto simp: bit_clear bit_and_iff[of "evtchn_pending s ! i AND NOT (2 ^ b)"] bit_and_iff[of "evtchn_pending s ! i"])
  have "serve_word E i s = Some s'" using w b(1) s1(1) s'(1) by (subst serve_word.simps) simp
  moreover have "evtchn_pending s' = (evtchn_pending s)[i := evtchn_pending s ! i AND evtchn_mask s ! i]"
    using s'(5) i keep by (simp add: pend s1(3))
  ultimately show ?case
    using s' s1 by (simp add: ports count_up_Cons)
qed

text \<open>The ports an upcall serves: those of the selected words that are pending and not masked, in ascending
  order.\<close>

definition port_active :: "('h, 'k) ev_state \<Rightarrow> nat \<Rightarrow> bool" where
  "port_active s p \<longleftrightarrow> bit (evtchn_pending_sel s) (p div 32) \<and> bit (evtchn_pending s ! (p div 32)) (p mod 32) \<and>
     \<not> bit (evtchn_mask s ! (p div 32)) (p mod 32)"

definition active_ports :: "('h, 'k) ev_state \<Rightarrow> nat list" where
  "active_ports s = filter (port_active s) [0..<1024]"

definition sel_ports :: "('h, 'k) ev_state \<Rightarrow> u32 \<Rightarrow> nat list" where
  "sel_ports s l1 = concat (map (word_ports s) (bits_of l1))"

lemma sel_ports_cong:
  "(\<And>i. i \<in> set (bits_of l1) \<Longrightarrow> active_evtchns s i = active_evtchns s' i) \<Longrightarrow> sel_ports s l1 = sel_ports s' l1"
  unfolding sel_ports_def word_ports_def by (intro arg_cong[of _ _ concat] map_cong) simp_all

lemma serve_words_ok:
  assumes "handlers_ok E H I" "ev_ok H I s"
  shows "\<exists>s'. serve_words E l1 s = Some s' \<and> serve_list E (sel_ports s l1) s = Some s' \<and> ev_ok H I s' \<and>
    evtchn_mask s' = evtchn_mask s \<and>
    (\<forall>i<32. evtchn_pending s' ! i = (if bit l1 i then evtchn_pending s ! i AND evtchn_mask s ! i else evtchn_pending s ! i)) \<and>
    counts s' = count_up (sel_ports s l1) (counts s)"
  using assms(2)
proof (induction "bits_of l1" arbitrary: l1 s)
  case Nil
  then have "l1 = 0" by (metis bits_of_Nil)
  then show ?case using Nil.prems by (simp add: serve_words.simps sel_ports_def)
next
  case (Cons i js)
  have l1: "l1 \<noteq> 0" using Cons.hyps(2) by (metis bits_of_Nil list.distinct(1))
  have i: "i = ffs l1" "i < 32" "bit l1 i" using bits_of_ffs[OF l1] Cons.hyps(2) by auto
  define l2 where "l2 = l1 AND NOT (push_bit (ffs l1) 1)"
  have "bits_of l2 = js" using bits_of_clear[OF l1] Cons.hyps(2) by (metis l2_def list.sel(3))
  have bit2: "bit l2 j \<longleftrightarrow> bit l1 j \<and> j \<noteq> i" for j using i(1) by (simp add: l2_def bit_clear)
  obtain s1 where s1: "serve_word E i s = Some s1" "serve_list E (word_ports s i) s = Some s1" "ev_ok H I s1"
    "evtchn_mask s1 = evtchn_mask s"
    "evtchn_pending s1 = (evtchn_pending s)[i := evtchn_pending s ! i AND evtchn_mask s ! i]"
    "counts s1 = count_up (word_ports s i) (counts s)"
    using serve_word_ok[OF assms(1) Cons.prems i(2)] by blast
  obtain s' where s': "serve_words E l2 s1 = Some s'" "serve_list E (sel_ports s1 l2) s1 = Some s'" "ev_ok H I s'"
    "evtchn_mask s' = evtchn_mask s1"
    "\<forall>j<32. evtchn_pending s' ! j = (if bit l2 j then evtchn_pending s1 ! j AND evtchn_mask s1 ! j else evtchn_pending s1 ! j)"
    "counts s' = count_up (sel_ports s1 l2) (counts s1)"
    using Cons.hyps(1)[OF \<open>bits_of l2 = js\<close>[symmetric] s1(3)] by blast
  have "sel_ports s1 l2 = sel_ports s l2"
    by (rule sel_ports_cong) (auto simp: bits_of_def bit2 active_evtchns_def s1(4,5) nth_list_update_neq)
  then have ports: "sel_ports s l1 = word_ports s i @ sel_ports s1 l2"
    using Cons.hyps(2) \<open>bits_of l2 = js\<close> by (metis sel_ports_def concat.simps(2) list.map(2))
  have len: "length (evtchn_pending s) = 32" using Cons.prems by (simp add: ev_ok_def ev_wf_def)
  have "serve_words E l1 s = Some s'" using l1 s1(1) s'(1) i(1) by (subst serve_words.simps) (simp add: l2_def)
  moreover have "serve_list E (sel_ports s l1) s = Some s'" using s1(2) s'(2) by (simp add: ports c_each_append)
  moreover have "evtchn_pending s' ! j =
      (if bit l1 j then evtchn_pending s ! j AND evtchn_mask s ! j else evtchn_pending s ! j)" if "j < 32" for j
    using s'(5) that i(2,3) len by (cases "j = i") (auto simp: bit2 s1(4,5))
  ultimately show ?case
    using s' s1 by (simp add: ports count_up_append)
qed

lemma count_list_distinct: "distinct xs \<Longrightarrow> count_list xs x = (if x \<in> set xs then 1 else 0)"
  by (induction xs) auto

lemma upt_blocks: "[0..<32 * n] = concat (map (\<lambda>i. map (\<lambda>b. 32 * i + b) [0..<32]) [0..<n])"
proof (induction n)
  case (Suc n)
  have "[0..<32 * Suc n] = [0..<32 * n] @ [32 * n..<32 * n + 32]"
    using upt_add_eq_append[of 0 "32 * n" 32] by (simp add: algebra_simps)
  also have "[32 * n..<32 * n + 32] = map (\<lambda>b. 32 * n + b) [0..<32]"
    using map_add_upt[of "32 * n" 32] by (simp add: add.commute)
  finally show ?case using Suc by simp
qed simp

lemma concat_filter: "concat (map (\<lambda>i. if P i then f i else []) xs) = concat (map f (filter P xs))"
  by (induction xs) auto

lemma active_ports_sel: "active_ports s = sel_ports s (evtchn_pending_sel s)"
proof -
  have word: "filter (port_active s) (map (\<lambda>b. 32 * i + b) [0..<32]) =
      (if bit (evtchn_pending_sel s) i then word_ports s i else [])" for i
  proof -
    have "filter (port_active s) (map (\<lambda>b. 32 * i + b) [0..<32]) =
        map (\<lambda>b. 32 * i + b) (filter (\<lambda>b. port_active s (32 * i + b)) [0..<32])"
      by (simp add: filter_map o_def)
    moreover have "filter (\<lambda>b. port_active s (32 * i + b)) [0..<32] =
        (if bit (evtchn_pending_sel s) i then bits_of (active_evtchns s i) else [])"
      unfolding bits_of_def by (auto simp: port_active_def active_evtchns_def bit_and_iff bit_not_iff intro!: filter_cong)
    ultimately show ?thesis by (simp add: word_ports_def)
  qed
  have "active_ports s = filter (port_active s) (concat (map (\<lambda>i. map (\<lambda>b. 32 * i + b) [0..<32]) [0..<32]))"
    using upt_blocks[of 32] by (simp add: active_ports_def del: upt_rec_numeral)
  also have "\<dots> = concat (map (\<lambda>i. filter (port_active s) (map (\<lambda>b. 32 * i + b) [0..<32])) [0..<32])"
    by (simp only: filter_concat map_map o_def)
  also have "\<dots> = sel_ports s (evtchn_pending_sel s)"
    by (simp only: word concat_filter sel_ports_def bits_of_def)
  finally show ?thesis .
qed

lemma upcall_run:
  assumes "handlers_ok E H I" "ev_ok H I s"
  shows "\<exists>s'. do_hypervisor_callback E s = Some s' \<and>
    serve_list E (active_ports s) (s\<lparr>evtchn_upcall_pending := 0, evtchn_pending_sel := 0\<rparr>) = Some s' \<and>
    (\<forall>p<1024. bit (evtchn_pending s' ! (p div 32)) (p mod 32) \<longleftrightarrow>
       bit (evtchn_pending s ! (p div 32)) (p mod 32) \<and> \<not> port_active s p) \<and>
    (\<forall>p<1024. counts s' (of_nat p) = counts s (of_nat p) + (if port_active s p then 1 else 0))"
proof -
  define t where "t = s\<lparr>evtchn_upcall_pending := 0, evtchn_pending_sel := 0\<rparr>"
  have t: "ev_ok H I t" "evtchn_pending t = evtchn_pending s" "evtchn_mask t = evtchn_mask s" "counts t = counts s"
    using assms(2) by (simp_all add: t_def ev_ok_def ev_wf_def counts_def fun_eq_iff open_port_def)
  have ports: "sel_ports t (evtchn_pending_sel s) = active_ports s"
    unfolding active_ports_sel by (rule sel_ports_cong) (simp add: active_evtchns_def t)
  obtain s' where s': "serve_words E (evtchn_pending_sel s) t = Some s'" "serve_list E (active_ports s) t = Some s'"
    "\<forall>i<32. evtchn_pending s' ! i =
       (if bit (evtchn_pending_sel s) i then evtchn_pending s ! i AND evtchn_mask s ! i else evtchn_pending s ! i)"
    "counts s' = count_up (active_ports s) (counts s)"
    using serve_words_ok[OF assms(1) t(1), of "evtchn_pending_sel s"] t ports by auto
  have run: "do_hypervisor_callback E s = Some s'"
    using s'(1) by (simp add: do_hypervisor_callback_def t_def Let_def)
  have pend: "bit (evtchn_pending s' ! (p div 32)) (p mod 32) \<longleftrightarrow>
      bit (evtchn_pending s ! (p div 32)) (p mod 32) \<and> \<not> port_active s p" if "p < 1024" for p
  proof -
    have "p div 32 < 32" using that by auto
    then show ?thesis using s'(3) by (auto simp: port_active_def bit_and_iff)
  qed
  have cnt: "counts s' (of_nat p) = counts s (of_nat p) + (if port_active s p then 1 else 0)" if "p < 1024" for p
  proof -
    have "inj_on (of_nat :: nat \<Rightarrow> u32) {0..<1024}" by (rule inj_onI) (simp add: of_nat_inj32)
    then have inj: "inj_on (of_nat :: nat \<Rightarrow> u32) (set (active_ports s) \<union> {p})"
      by (rule inj_on_subset) (use that in \<open>auto simp: active_ports_def\<close>)
    then have "distinct (map (of_nat :: nat \<Rightarrow> u32) (active_ports s))"
      by (auto simp: distinct_map active_ports_def intro: inj_on_subset)
    moreover have "(of_nat p :: u32) \<in> set (map of_nat (active_ports s)) \<longleftrightarrow> port_active s p"
      using inj that by (auto simp: active_ports_def inj_on_def)
    ultimately show ?thesis unfolding s'(4) count_up_def by (simp add: count_list_distinct)
  qed
  show ?thesis using run s'(2) pend cnt unfolding t_def by blast
qed

text \<open>C8: An upcall ends, and it does exactly what serving the pending, unmasked ports of the selected words one after
  the other in ascending order does: every such port's handler is called once and its pending bit is clear
  afterwards, all other pending bits stay, and the selector is reset before any handler runs.  The handlers of the
  pending, unmasked ports are assumed to return and to leave the masks, the table of handlers and the pending bits of
  other ports alone (\<open>handlers_ok\<close>), and the arrays to have their 32 words.\<close>

theorem upcall_serves_active_ports:
  assumes "handlers_ok E H I" "ev_ok H I s"
  shows "\<exists>s'. do_hypervisor_callback E s = Some s' \<and>
    serve_list E (active_ports s) (s\<lparr>evtchn_upcall_pending := 0, evtchn_pending_sel := 0\<rparr>) = Some s' \<and>
    (\<forall>p<1024. bit (evtchn_pending s' ! (p div 32)) (p mod 32) \<longleftrightarrow>
       bit (evtchn_pending s ! (p div 32)) (p mod 32) \<and> \<not> port_active s p) \<and>
    (\<forall>p<1024. counts s' (of_nat p) = counts s (of_nat p) + (if port_active s p then 1 else 0))"
  using assms by (rule upcall_run)

text \<open>Handlers that do nothing, and a shared page on which port 37 is pending and selected, and port 38 pending but
  masked.\<close>

definition idle_events :: "(unit, unit) ev_env" where
  "idle_events = \<lparr>run_handler = (\<lambda>h p d. Some), default_handler = (), EVTCHNOP_bind_virq = (\<lambda>v. (0, 1)),
     EVTCHNOP_alloc_unbound = (\<lambda>d. (0, 2)), EVTCHNOP_bind_interdomain = (\<lambda>d p. (0, 3)), EVTCHNOP_close = (\<lambda>p s. s)\<rparr>"

definition two_pending :: "(unit, unit) ev_state" where
  "two_pending = \<lparr>evtchn_pending = (replicate 32 0)[1 := 0x60], evtchn_mask = (replicate 32 0)[1 := 0x40],
     evtchn_upcall_pending = 1, evtchn_upcall_mask = 0, evtchn_pending_sel = 2, arch_cr2 = 0,
     ev_actions = (\<lambda>_. \<lparr>handler = (), ev_data = NULL, ev_count = 0\<rparr>), bound_ports = replicate 32 0, forced = 0, rest = ()\<rparr>"

theorem upcall_serves_active_ports_witness:
  "\<exists>s'. do_hypervisor_callback idle_events two_pending = Some s' \<and> counts s' 37 = 1 \<and> counts s' 38 = 0"
proof -
  have ok: "handlers_ok idle_events UNIV (\<lambda>_. True)" "ev_ok UNIV (\<lambda>_. True) two_pending"
    by (simp_all add: handlers_ok_def idle_events_def ev_ok_def ev_wf_def two_pending_def)
  have bits: "bit (2 :: u32) 1" "bit (0x60 :: u32) 5" "\<not> bit (0x40 :: u32) 5" "bit (0x40 :: u32) 6" by code_simp+
  then have act: "port_active two_pending 37" "\<not> port_active two_pending 38"
    by (simp_all add: port_active_def two_pending_def)
  obtain s' where "do_hypervisor_callback idle_events two_pending = Some s'"
    "\<forall>p<1024. counts s' (of_nat p) = counts two_pending (of_nat p) + (if port_active two_pending p then 1 else 0)"
    using upcall_serves_active_ports[OF ok] by blast
  moreover from this(2)[rule_format, of 37] this(2)[rule_format, of 38] have "counts s' 37 = 1" "counts s' 38 = 0"
    using act by (simp_all add: counts_def two_pending_def)
  ultimately show ?thesis by blast
qed

end
