(* ===== verification/Xen_Time.thy ===== *)
theory Xen_Time
  imports Prelude
begin

text \<open>
  The clock of \<^verbatim>\<open>kern/xen_time.c\<close>: the time values Xen publishes on the shared page, the kernel's copy of them, and
  the time computed from the copy and the processor's cycle counter.

  Xen may change the shared page at any moment.  Each access of the kernel to it is therefore one tick of a
  counter, and the page is a function of that counter: \<open>src E t\<close> is what the \<open>t\<close>-th access sees.  The same
  counter is used for the cycle counter of the processor.
\<close>

section \<open>State\<close>

record vcpu_time_info =
  version :: u32
  tsc_timestamp :: u64
  system_time :: u64
  tsc_to_system_mul :: u32
  tsc_shift :: "8 word"

record wallclock =
  wc_version :: u32
  wc_sec :: u32
  wc_nsec :: u32

record time_env =
  src :: "nat \<Rightarrow> vcpu_time_info"
  wc :: "nat \<Rightarrow> wallclock"
  rdtsc :: "nat \<Rightarrow> u64"

record shadow_time_info =
  sh_tsc_timestamp :: u64
  sh_system_timestamp :: u64
  sh_tsc_to_nsec_mul :: u32
  sh_tsc_to_usec_mul :: u32
  sh_tsc_shift :: int
  sh_version :: u32

record timespec =
  ts_sec :: u32
  ts_nsec :: u32

text \<open>\<open>timer_op\<close> is the last time for which the kernel asked Xen to be woken, \<open>blocked\<close> how often it gave up the
  processor.\<close>

record time_state =
  reads :: nat
  shadow :: shadow_time_info
  shadow_ts :: timespec
  shadow_ts_version :: u32
  timer_op :: u64
  blocked :: nat

section \<open>Scaling\<close>

text \<open>The instructions of the 32-bit version, on the registers \<open>eax\<close>, \<open>edx\<close>, the two temporaries and the carry
  flag.  \<open>mul\<close> leaves the 64-bit product in \<open>edx:eax\<close>, and \<open>xor\<close> clears the carry flag.\<close>

record regs =
  eax :: u32
  edx :: u32
  tmp1 :: u32
  tmp2 :: u32
  cf :: bool

definition mul_tmp2 :: "regs \<Rightarrow> regs" where
  "mul_tmp2 r =
     (let p = (ucast (eax r) :: u64) * ucast (tmp2 r)
      in r\<lparr>eax := ucast p, edx := ucast (drop_bit 32 p), cf := drop_bit 32 p \<noteq> 0\<rparr>)"

definition mov_tmp1_eax :: "regs \<Rightarrow> regs" where "mov_tmp1_eax r = r\<lparr>eax := tmp1 r\<rparr>"

definition mov_edx_tmp1 :: "regs \<Rightarrow> regs" where "mov_edx_tmp1 r = r\<lparr>tmp1 := edx r\<rparr>"

definition add_tmp1_eax :: "regs \<Rightarrow> regs" where
  "add_tmp1_eax r = r\<lparr>eax := eax r + tmp1 r, cf := eax r + tmp1 r < eax r\<rparr>"

definition xor_tmp2_tmp2 :: "regs \<Rightarrow> regs" where "xor_tmp2_tmp2 r = r\<lparr>tmp2 := 0, cf := False\<rparr>"

definition adc_tmp2_edx :: "regs \<Rightarrow> regs" where
  "adc_tmp2_edx r = r\<lparr>edx := edx r + tmp2 r + of_bool (cf r)\<rparr>"

definition scale_asm :: "u64 \<Rightarrow> u32 \<Rightarrow> u64" where
  "scale_asm delta mul_frac =
     (let r = \<lparr>eax = ucast delta, edx = 0, tmp1 = ucast (drop_bit 32 delta), tmp2 = mul_frac, cf = False\<rparr>;
          r = mul_tmp2 r;
          r = mov_tmp1_eax r;
          r = mov_edx_tmp1 r;
          r = mul_tmp2 r;
          r = add_tmp1_eax r;
          r = xor_tmp2_tmp2 r;
          r = adc_tmp2_edx r
      in push_bit 32 (ucast (edx r)) OR ucast (eax r))"

definition scale_delta :: "u64 \<Rightarrow> u32 \<Rightarrow> int \<Rightarrow> u64" where
  "scale_delta delta mul_frac shift =
     (let delta = (if shift < 0 then drop_bit (nat (- shift)) delta else push_bit (nat shift) delta)
      in scale_asm delta mul_frac)"

text \<open>The result type is 32 bits wide.\<close>

definition get_nsec_offset :: "time_env \<Rightarrow> time_state \<Rightarrow> u32 \<times> time_state" where
  "get_nsec_offset E s =
     (let delta = rdtsc E (reads s) - sh_tsc_timestamp (shadow s)
      in (ucast (scale_delta delta (sh_tsc_to_nsec_mul (shadow s)) (sh_tsc_shift (shadow s))), s\<lparr>reads := reads s + 1\<rparr>))"

section \<open>Reading the shared page\<close>

definition time_values_up_to_date :: "time_env \<Rightarrow> time_state \<Rightarrow> bool \<times> time_state" where
  "time_values_up_to_date E s = (sh_version (shadow s) = version (src E (reads s)), s\<lparr>reads := reads s + 1\<rparr>)"

text \<open>One pass of the loop: five reads for the copy, two for the test at its end.\<close>

definition copy_time_values :: "time_env \<Rightarrow> time_state \<Rightarrow> bool \<times> time_state" where
  "copy_time_values E s =
     (let t = reads s;
          sh = shadow s
            \<lparr>sh_version := version (src E t), sh_tsc_timestamp := tsc_timestamp (src E (t + 1)),
             sh_system_timestamp := system_time (src E (t + 2)), sh_tsc_to_nsec_mul := tsc_to_system_mul (src E (t + 3)),
             sh_tsc_shift := sint (tsc_shift (src E (t + 4)))\<rparr>
      in ((version (src E (t + 5)) AND 1) OR (sh_version sh XOR version (src E (t + 6))) \<noteq> 0,
          s\<lparr>reads := t + 7, shadow := sh\<rparr>))"

partial_function (option) get_time_values_loop :: "time_env \<Rightarrow> time_state \<Rightarrow> time_state option" where
  "get_time_values_loop E s =
     (if fst (copy_time_values E s) then get_time_values_loop E (snd (copy_time_values E s))
      else Some (snd (copy_time_values E s)))"

definition get_time_values_from_xen :: "time_env \<Rightarrow> time_state \<Rightarrow> time_state option" where
  "get_time_values_from_xen E s =
     do { s \<leftarrow> get_time_values_loop E s;
          Some (s\<lparr>shadow := (shadow s)\<lparr>sh_tsc_to_usec_mul := sh_tsc_to_nsec_mul (shadow s) div 1000\<rparr>\<rparr>) }"

definition copy_wallclock :: "time_env \<Rightarrow> time_state \<Rightarrow> bool \<times> time_state" where
  "copy_wallclock E s =
     (let t = reads s;
          v = wc_version (wc E t)
      in ((wc_version (wc E (t + 3)) AND 1) OR (v XOR wc_version (wc E (t + 4))) \<noteq> 0,
          s\<lparr>reads := t + 5, shadow_ts_version := v,
            shadow_ts := \<lparr>ts_sec = wc_sec (wc E (t + 1)), ts_nsec = wc_nsec (wc E (t + 2))\<rparr>\<rparr>))"

partial_function (option) update_wallclock :: "time_env \<Rightarrow> time_state \<Rightarrow> time_state option" where
  "update_wallclock E s =
     (if fst (copy_wallclock E s) then update_wallclock E (snd (copy_wallclock E s))
      else Some (snd (copy_wallclock E s)))"

section \<open>The time\<close>

partial_function (option) monotonic_clock :: "time_env \<Rightarrow> time_state \<Rightarrow> (u64 \<times> time_state) option" where
  "monotonic_clock E s =
     (let local_time_version = sh_version (shadow s);
          off = get_nsec_offset E s;
          time = sh_system_timestamp (shadow s) + ucast (fst off);
          upd = time_values_up_to_date E (snd off)
      in Option.bind (if \<not> fst upd then get_time_values_from_xen E (snd upd) else Some (snd upd)) (\<lambda>s'.
           if local_time_version \<noteq> sh_version (shadow s') then monotonic_clock E s' else Some (time, s')))"

text \<open>The seconds and microseconds are 32 bits wide.\<close>

definition gettimeofday :: "time_env \<Rightarrow> time_state \<Rightarrow> (u32 \<times> u32 \<times> time_state) option" where
  "gettimeofday E s =
     do { (nsec, s) \<leftarrow> monotonic_clock E s;
          let nsec = nsec + scast (ts_nsec (shadow_ts s));
          let tv_sec = ucast (scast (ts_sec (shadow_ts s)) + nsec div 1000000000 :: u64);
          let tv_usec = ucast ((nsec mod 1000000000) div 1000);
          Some (tv_sec, tv_usec, s) }"

definition block_domain :: "time_env \<Rightarrow> u64 \<Rightarrow> time_state \<Rightarrow> time_state option" where
  "block_domain E until s =
     do { (sec, usec, s) \<leftarrow> gettimeofday E s;
          (now, s) \<leftarrow> monotonic_clock E s;
          if now < until then Some (s\<lparr>timer_op := until, blocked := blocked s + 1\<rparr>) else Some s }"

section \<open>What the multiplication computes\<close>

lemma unat_ucast64: "unat (ucast (x :: u64) :: u32) = unat x mod 2 ^ 32"
  by (simp add: unsigned_ucast_eq take_bit_eq_mod)

lemma unat_widen64 [simp]: "unat (ucast (x :: u32) :: u64) = unat x"
proof -
  have "unat x < 2 ^ 64" using unat_lt32[of x] by simp
  then show ?thesis by (simp add: unsigned_ucast_eq take_bit_nat_eq_self)
qed

lemma unat_high64: "unat (drop_bit n (x :: u64)) = unat x div 2 ^ n"
  unfolding unat_drop_bit_eq by (rule drop_bit_eq_div)

lemma unat_lt64: "unat (x :: u64) < 2 ^ 64"
  using unsigned_less[of x, where 'a = nat] by simp

lemma mul_bound: "a < 2 ^ 32 \<Longrightarrow> b < 2 ^ 32 \<Longrightarrow> a * b < 2 ^ 64" for a b :: nat
proof -
  assume "a < 2 ^ 32" "b < 2 ^ 32"
  then have "a * b < 2 ^ 32 * 2 ^ 32" by (intro mult_strict_mono) auto
  then show ?thesis by simp
qed

lemma mul_words:
  "unat (ucast ((ucast (a :: u32) :: u64) * ucast (b :: u32)) :: u32) = unat a * unat b mod 2 ^ 32"
  "unat (ucast (drop_bit 32 ((ucast a :: u64) * ucast b)) :: u32) = unat a * unat b div 2 ^ 32"
proof -
  have lt: "unat a * unat b < 2 ^ 64" by (rule mul_bound) (use unat_lt32 in simp_all)
  then have p: "unat ((ucast a :: u64) * ucast b) = unat a * unat b" by (simp add: unat_word_ariths)
  show "unat (ucast ((ucast a :: u64) * ucast b) :: u32) = unat a * unat b mod 2 ^ 32"
    by (simp only: unat_ucast64 p)
  have "unat a * unat b div 2 ^ 32 < 2 ^ 32" using lt by (intro less_mult_imp_div_less) simp
  then show "unat (ucast (drop_bit 32 ((ucast a :: u64) * ucast b)) :: u32) = unat a * unat b div 2 ^ 32"
    by (simp only: unat_ucast64 unat_high64 p mod_less)
qed

lemma scale_asm_regs:
  "scale_asm delta m = push_bit 32 (ucast (ucast (drop_bit 32 ((ucast (ucast (drop_bit 32 delta) :: u32) :: u64) * ucast m)) :: u32)) OR
     ucast (ucast ((ucast (ucast (drop_bit 32 delta) :: u32) :: u64) * ucast m) +
            ucast (drop_bit 32 ((ucast (ucast delta :: u32) :: u64) * ucast m)) :: u32)"
  by (simp add: scale_asm_def mul_tmp2_def mov_tmp1_eax_def mov_edx_tmp1_def add_tmp1_eax_def xor_tmp2_tmp2_def
      adc_tmp2_edx_def Let_def)

lemma unat_concat: "unat (push_bit 32 (ucast (h :: u32)) OR ucast (l :: u32) :: u64) = unat h * 2 ^ 32 + unat l"
proof -
  have "push_bit 32 (ucast h) OR ucast l = push_bit 32 (ucast h) + (ucast l :: u64)"
    by (rule disjunctive_add[symmetric]) (auto simp: bit_push_bit_iff bit_unsigned_iff dest: bit_imp_le_length)
  moreover have "unat (push_bit 32 (ucast h) :: u64) = unat h * 2 ^ 32"
    unfolding unsigned_push_bit_eq unat_widen64 push_bit_eq_mult[where 'a = nat]
    using unat_lt32[of h] by (simp add: take_bit_nat_eq_self)
  ultimately show ?thesis
    using unat_lt32[of h] unat_lt32[of l] by (simp add: unat_word_ariths)
qed

lemma split_product:
  fixes d m B :: nat
  assumes "0 < B"
  shows "d * m div B = d div B * m + d mod B * m div B"
proof -
  have "(d div B * B + d mod B) * m = d mod B * m + d div B * m * B"
    by (subst add_mult_distrib) (simp only: ac_simps)
  then have "d * m = d mod B * m + d div B * m * B" by (simp only: div_mult_mod_eq)
  then show ?thesis using assms by simp
qed

lemma carry_split: "a + t = a div B * B + (a mod B + t)" for a t B :: nat
  by (simp flip: add.assoc)

text \<open>The exact value, less \<^verbatim>\<open>2^32\<close> where the sum of the two middle words carries.\<close>

definition middle :: "nat \<Rightarrow> nat \<Rightarrow> nat" where
  "middle d m = (d div 2 ^ 32 * m) mod 2 ^ 32 + (d mod 2 ^ 32 * m) div 2 ^ 32"

lemma scale_asm_value:
  "unat (scale_asm delta m) = unat delta * unat m div 2 ^ 32 - (if middle (unat delta) (unat m) < 2 ^ 32 then 0 else 2 ^ 32)"
proof -
  let ?d = "unat delta" and ?m = "unat m"
  let ?hi = "?d div 2 ^ 32" and ?lo = "?d mod 2 ^ 32"
  have hi: "unat (ucast (drop_bit 32 delta) :: u32) = ?hi"
  proof -
    have "?hi < 2 ^ 32" using unat_lt64[of delta] by (intro less_mult_imp_div_less) simp
    then show ?thesis by (simp only: unat_ucast64 unat_high64 mod_less)
  qed
  have lo: "unat (ucast delta :: u32) = ?lo" by (rule unat_ucast64)
  have val: "unat (scale_asm delta m) = ?hi * ?m div 2 ^ 32 * 2 ^ 32 + middle ?d ?m mod 2 ^ 32"
    unfolding scale_asm_regs unat_concat mul_words unat_word_ariths hi lo middle_def by simp
  have exact: "?d * ?m div 2 ^ 32 = ?hi * ?m + ?lo * ?m div 2 ^ 32" by (rule split_product) simp
  have split: "?hi * ?m + ?lo * ?m div 2 ^ 32 = ?hi * ?m div 2 ^ 32 * 2 ^ 32 + middle ?d ?m"
    unfolding middle_def by (rule carry_split)
  have lt: "middle ?d ?m < 2 * 2 ^ 32"
  proof -
    have "?lo * ?m < 2 ^ 64" by (rule mul_bound) (use unat_lt32[of m] in simp_all)
    then have "?lo * ?m div 2 ^ 32 < 2 ^ 32" by (intro less_mult_imp_div_less) simp
    moreover have "?hi * ?m mod 2 ^ 32 < 2 ^ 32" by simp
    ultimately show ?thesis unfolding middle_def by linarith
  qed
  show ?thesis
  proof (cases "middle ?d ?m < 2 ^ 32")
    case True
    then show ?thesis unfolding val exact split by simp
  next
    case False
    then have "middle ?d ?m mod 2 ^ 32 = middle ?d ?m - 2 ^ 32" using lt by (simp add: mod_if)
    then show ?thesis using False unfolding val exact split by simp
  qed
qed

lemma scale_asm_low: "unat (ucast (scale_asm delta m) :: u32) = unat delta * unat m div 2 ^ 32 mod 2 ^ 32"
proof (cases "middle (unat delta) (unat m) < 2 ^ 32")
  case True
  then show ?thesis by (simp only: unat_ucast64 scale_asm_value if_True minus_nat.diff_0)
next
  case False
  have "unat delta * unat m div 2 ^ 32 = unat delta div 2 ^ 32 * unat m + unat delta mod 2 ^ 32 * unat m div 2 ^ 32"
    by (rule split_product) simp
  moreover have "unat delta div 2 ^ 32 * unat m mod 2 ^ 32 \<le> unat delta div 2 ^ 32 * unat m" by (rule mod_less_eq_dividend)
  ultimately have "2 ^ 32 \<le> unat delta * unat m div 2 ^ 32" using False unfolding middle_def by linarith
  then show ?thesis unfolding unat_ucast64 scale_asm_value using False by (simp only: if_False le_mod_geq)
qed

section \<open>Properties of the clock\<close>

definition shifted :: "u64 \<Rightarrow> int \<Rightarrow> u64" where
  "shifted delta shift = (if shift < 0 then drop_bit (nat (- shift)) delta else push_bit (nat shift) delta)"

text \<open>C32: The fixed-point multiplication of the clock yields the exact product of the 64-bit number and the 32-bit
  fraction, except that the carry of the middle words is lost, since \<^verbatim>\<open>xor\<close> clears the flag before \<^verbatim>\<open>adc\<close> adds it:
  exactly when the middle words carry, the result is \<^verbatim>\<open>2^32\<close> too small.\<close>

theorem scale_delta_loses_carry:
  "unat (scale_delta delta m shift) = unat (shifted delta shift) * unat m div 2 ^ 32 -
    (if middle (unat (shifted delta shift)) (unat m) < 2 ^ 32 then 0 else 2 ^ 32)"
  unfolding scale_delta_def Let_def shifted_def[symmetric] by (rule scale_asm_value)

text \<open>The nanoseconds since the copy was made, by the formula of \<^verbatim>\<open>kern/inc/xen/xen.h\<close>.\<close>

definition elapsed :: "time_env \<Rightarrow> time_state \<Rightarrow> nat" where
  "elapsed E s = unat (shifted (rdtsc E (reads s) - sh_tsc_timestamp (shadow s)) (sh_tsc_shift (shadow s))) *
     unat (sh_tsc_to_nsec_mul (shadow s)) div 2 ^ 32"

text \<open>C33: With an up-to-date copy of the time values, the monotonic clock is the time of the last update plus the time
  elapsed since then, but only modulo \<^verbatim>\<open>2^32\<close> nanoseconds: the offset is returned in 32 bits.  The clock is right
  exactly as long as Xen updates the values at least every 4.29 seconds; then it falls back.\<close>

theorem monotonic_clock_wraps:
  assumes "version (src E (reads s + 1)) = sh_version (shadow s)"
  shows "monotonic_clock E s =
    Some (sh_system_timestamp (shadow s) + of_nat (elapsed E s mod 2 ^ 32), s\<lparr>reads := reads s + 2\<rparr>)"
proof -
  have "ucast (fst (get_nsec_offset E s)) = (of_nat (elapsed E s mod 2 ^ 32) :: u64)"
  proof -
    have "unat (fst (get_nsec_offset E s)) = elapsed E s mod 2 ^ 32"
      unfolding get_nsec_offset_def scale_delta_def Let_def shifted_def[symmetric] elapsed_def fst_conv
      by (rule scale_asm_low)
    moreover have "ucast x = (of_nat (unat x) :: u64)" for x :: u32 by simp
    ultimately show ?thesis by metis
  qed
  then show ?thesis
    using assms by (subst monotonic_clock.simps) (simp add: get_nsec_offset_def time_values_up_to_date_def Let_def)
qed

text \<open>An unscaled clock that has run for \<^verbatim>\<open>2^32 + 5\<close> cycles since the copy was made.\<close>

definition late_clock :: time_env where
  "late_clock = \<lparr>src = \<lambda>_. \<lparr>version = 2, tsc_timestamp = 0, system_time = 0, tsc_to_system_mul = 0x80000000, tsc_shift = 1\<rparr>,
     wc = \<lambda>_. \<lparr>wc_version = 2, wc_sec = 0, wc_nsec = 0\<rparr>, rdtsc = \<lambda>_. 0x100000005\<rparr>"

definition first_copy :: time_state where
  "first_copy = \<lparr>reads = 0,
     shadow = \<lparr>sh_tsc_timestamp = 0, sh_system_timestamp = 0, sh_tsc_to_nsec_mul = 0x80000000, sh_tsc_to_usec_mul = 0,
       sh_tsc_shift = 1, sh_version = 2\<rparr>,
     shadow_ts = \<lparr>ts_sec = 0, ts_nsec = 0\<rparr>, shadow_ts_version = 0, timer_op = 0, blocked = 0\<rparr>"

theorem monotonic_clock_wraps_witness:
  "\<exists>s'. monotonic_clock late_clock first_copy = Some (5, s')"
proof -
  have "elapsed late_clock first_copy = 0x100000005"
    by (simp add: elapsed_def late_clock_def first_copy_def shifted_def)
  then show ?thesis
    using monotonic_clock_wraps[of late_clock first_copy] by (simp add: late_clock_def first_copy_def)
qed

section \<open>Consistent copies\<close>

text \<open>The protocol of Xen's side: the version grows with every update and is odd while the values change.  So where
  two accesses see the same version, so does every access in between, and if it is even, they see the same page.\<close>

definition xen_updates :: "time_env \<Rightarrow> bool" where
  "xen_updates E \<longleftrightarrow> (\<forall>i j k. i \<le> k \<longrightarrow> k \<le> j \<longrightarrow> version (src E i) = version (src E j) \<longrightarrow>
     version (src E k) = version (src E i) \<and> (even (unat (version (src E i))) \<longrightarrow> src E k = src E i))"

definition copy_of :: "vcpu_time_info \<Rightarrow> shadow_time_info \<Rightarrow> bool" where
  "copy_of v sh \<longleftrightarrow> sh_version sh = version v \<and> sh_tsc_timestamp sh = tsc_timestamp v \<and>
     sh_system_timestamp sh = system_time v \<and> sh_tsc_to_nsec_mul sh = tsc_to_system_mul v \<and>
     sh_tsc_shift sh = sint (tsc_shift v)"

lemma odd_and_1: "(x :: u32) AND 1 = 0 \<longleftrightarrow> even (unat x)"
  by (simp add: and_one_eq word_unat_eq_iff unat_mod even_iff_mod_2_eq_zero)

lemma or_eq_0: "(x :: u32) OR y = 0 \<longleftrightarrow> x = 0 \<and> y = 0"
  by (simp add: or_eq_0_iff)

lemma xor_eq_0: "(x :: u32) XOR y = 0 \<longleftrightarrow> x = y"
  by (metis xor.comm_neutral xor.left_commute xor_self_eq)

lemma copy_done:
  "fst (copy_time_values E s) \<longleftrightarrow> \<not> (even (unat (version (src E (reads s + 5)))) \<and>
     version (src E (reads s)) = version (src E (reads s + 6)))"
  "reads (snd (copy_time_values E s)) = reads s + 7"
  by (simp_all add: copy_time_values_def Let_def odd_and_1 or_eq_0 xor_eq_0)

lemma copy_consistent:
  assumes "xen_updates E" "\<not> fst (copy_time_values E s)"
  shows "copy_of (src E (reads s)) (shadow (snd (copy_time_values E s)))" "even (unat (version (src E (reads s))))"
proof -
  let ?t = "reads s"
  have eq: "version (src E ?t) = version (src E (?t + 6))" and ev: "even (unat (version (src E (?t + 5))))"
    using assms(2) by (simp_all add: copy_done)
  have same: "version (src E (?t + k)) = version (src E ?t)" "even (unat (version (src E ?t))) \<longrightarrow> src E (?t + k) = src E ?t"
    if "k \<le> 6" for k
    using assms(1)[unfolded xen_updates_def, rule_format, of ?t "?t + k" "?t + 6"] eq that by auto
  show e: "even (unat (version (src E ?t)))" using ev same(1)[of 5] by simp
  show "copy_of (src E ?t) (shadow (snd (copy_time_values E s)))"
    using same(2)[of 1] same(2)[of 2] same(2)[of 3] same(2)[of 4] e
    by (simp add: copy_of_def copy_time_values_def Let_def)
qed

lemma loop_returns:
  assumes "\<not> fst (copy_time_values E s')" "reads s' = reads s + 7 * n"
    and "\<And>r. reads r = reads s' \<Longrightarrow> \<not> fst (copy_time_values E r)"
  shows "\<exists>r. get_time_values_loop E s = Some (snd (copy_time_values E r)) \<and> \<not> fst (copy_time_values E r) \<and>
    reads s \<le> reads r \<and> reads r \<le> reads s'"
  using assms(2)
proof (induction n arbitrary: s)
  case 0
  then have "\<not> fst (copy_time_values E s)" using assms(3)[of s] by simp
  then have "get_time_values_loop E s = Some (snd (copy_time_values E s))" by (simp add: get_time_values_loop.simps)
  then show ?case using 0 \<open>\<not> fst (copy_time_values E s)\<close> by auto
next
  case (Suc n)
  show ?case
  proof (cases "fst (copy_time_values E s)")
    case True
    have "reads s' = reads (snd (copy_time_values E s)) + 7 * n" using Suc.prems by (simp add: copy_done)
    from Suc.IH[OF this] True show ?thesis by (subst get_time_values_loop.simps) (auto simp: copy_done)
  next
    case False
    then have "get_time_values_loop E s = Some (snd (copy_time_values E s))" by (simp add: get_time_values_loop.simps)
    then show ?thesis using False Suc.prems by auto
  qed
qed

text \<open>C17: The loop that copies the time values from the shared page never delivers a mixture: whatever Xen writes
  meanwhile, the copy is the page as it was at one moment, outside any update.  And the loop ends as soon
  as Xen leaves the page alone for the time of 14 accesses.\<close>

theorem time_copy_consistent:
  assumes "xen_updates E" "reads s \<le> n" "even (unat (version (src E n)))" "\<forall>k\<in>{n..n + 13}. src E k = src E n"
  shows "\<exists>s' t. get_time_values_from_xen E s = Some s' \<and> copy_of (src E t) (shadow s') \<and>
    even (unat (version (src E t))) \<and> reads s \<le> t \<and> t < n + 7"
proof -
  define q where "q = (n - reads s + 6) div 7"
  have "q * 7 + (n - reads s + 6) mod 7 = n - reads s + 6" "(n - reads s + 6) mod 7 < 7"
    unfolding q_def by (rule div_mult_mod_eq) simp
  then have q: "n \<le> reads s + 7 * q" "reads s + 7 * q < n + 7" using assms(2) by linarith+
  have quiet: "\<not> fst (copy_time_values E r)" if "reads r = reads s + 7 * q" for r
  proof -
    have "src E (reads r + j) = src E n" if "j \<le> 6" for j
      using q \<open>reads r = reads s + 7 * q\<close> that by (intro bspec[OF assms(4)]) simp
    from this[of 0] this[of 5] this[of 6] show ?thesis using assms(3) by (simp add: copy_done)
  qed
  obtain r where r: "get_time_values_loop E s = Some (snd (copy_time_values E r))" "\<not> fst (copy_time_values E r)"
    "reads s \<le> reads r" "reads r \<le> reads s + 7 * q"
    using loop_returns[of E "s\<lparr>reads := reads s + 7 * q\<rparr>" s q] quiet by auto
  define s' where "s' = (let w = snd (copy_time_values E r) in
      w\<lparr>shadow := (shadow w)\<lparr>sh_tsc_to_usec_mul := sh_tsc_to_nsec_mul (shadow w) div 1000\<rparr>\<rparr>)"
  have "get_time_values_from_xen E s = Some s'"
    using r(1) by (simp add: get_time_values_from_xen_def s'_def Let_def)
  moreover have "copy_of (src E (reads r)) (shadow s')"
    using copy_consistent(1)[OF assms(1) r(2)] by (simp add: s'_def copy_of_def Let_def)
  ultimately show ?thesis using copy_consistent(2)[OF assms(1) r(2)] r(3,4) q(2) by auto
qed

text \<open>A page on which an update is under way during the first ten accesses.\<close>

definition updating_page :: time_env where
  "updating_page = late_clock\<lparr>src := (\<lambda>t.
     \<lparr>version = if t < 10 then 3 else 4, tsc_timestamp = if t < 10 then of_nat t else 1000, system_time = 77,
      tsc_to_system_mul = 1, tsc_shift = 0\<rparr>)\<rparr>"

theorem time_copy_consistent_witness:
  "\<exists>s'. get_time_values_from_xen updating_page first_copy = Some s' \<and> sh_tsc_timestamp (shadow s') = 1000"
proof -
  have upd: "xen_updates updating_page"
    by (auto simp: xen_updates_def updating_page_def odd_and_1[symmetric])
  obtain s' t where "get_time_values_from_xen updating_page first_copy = Some s'"
    "copy_of (src updating_page t) (shadow s')" "even (unat (version (src updating_page t)))"
    using time_copy_consistent[OF upd, of first_copy 10] by (auto simp: updating_page_def first_copy_def)
  moreover from this(3) have "\<not> t < 10" by (auto simp: updating_page_def)
  ultimately show ?thesis by (auto simp: copy_of_def updating_page_def)
qed

end
