(* ===== verification/Interrupts.thy ===== *)
theory Interrupts
  imports Xen_Events Xen_Time Sched
begin

text \<open>
  The handlers the kernel binds to event channels, on the whole state: the timer of \<^verbatim>\<open>kern/xen_time.c\<close>, which copies
  the time, ticks the clock and lets the scheduler run, and console input of \<^verbatim>\<open>kern/xencons_ring.c\<close>, which moves
  the bytes from the ring to the key buffer.  The part of the state that events leave alone is the kernel's
  state and its copy of the time.
\<close>

section \<open>The handlers\<close>

datatype irq_handler = Default_irq | Timer_irq | Console_irq

type_synonym irq_state = "(irq_handler, kstate \<times> time_state) ev_state"

definition timer_handler :: "kern_env \<Rightarrow> time_env \<Rightarrow> u32 \<Rightarrow> irq_state \<Rightarrow> irq_state option" where
  "timer_handler E TE ev s =
     do { let (k, t) = rest s;
          t \<leftarrow> get_time_values_from_xen TE t;
          t \<leftarrow> update_wallclock TE t;
          let ticks = numTicks k + 1;
          let k = kernel_tick ticks (k\<lparr>numTicks := ticks\<rparr>);
          s \<leftarrow> clear_evtchn ev (s\<lparr>rest := (k, t)\<rparr>);
          let s = xen_sti s;
          k \<leftarrow> sched_bottom_half E (fst (rest s));
          Some (s\<lparr>rest := (k, snd (rest s))\<rparr>) }"

definition console_handler :: "irq_state \<Rightarrow> irq_state option" where
  "console_handler s =
     do { let (k, t) = rest s;
          (x, b) \<leftarrow> handle_input (xcons k, kbd k);
          Some (s\<lparr>rest := (k\<lparr>xcons := x, kbd := b\<rparr>, t)\<rparr>) }"

definition irq_run :: "kern_env \<Rightarrow> time_env \<Rightarrow> irq_handler \<Rightarrow> u32 \<Rightarrow> addr \<Rightarrow> irq_state \<Rightarrow> irq_state option" where
  "irq_run E TE h port data s =
     (case h of Default_irq \<Rightarrow> Some s | Timer_irq \<Rightarrow> timer_handler E TE port s | Console_irq \<Rightarrow> console_handler s)"

text \<open>The interface to Xen with these handlers; \<open>X\<close> answers the requests for ports.\<close>

definition irq_env :: "kern_env \<Rightarrow> time_env \<Rightarrow> (irq_handler, kstate \<times> time_state) ev_env \<Rightarrow>
    (irq_handler, kstate \<times> time_state) ev_env" where
  "irq_env E TE X = X\<lparr>run_handler := irq_run E TE, default_handler := Default_irq\<rparr>"

definition VIRQ_TIMER :: u32 where "VIRQ_TIMER = 0"

definition xen_init_time :: "(irq_handler, kstate \<times> time_state) ev_env \<Rightarrow> irq_state \<Rightarrow> irq_state option" where
  "xen_init_time X s =
     do { let (k, t) = rest s;
          (rc, s) \<leftarrow> bind_virq X VIRQ_TIMER Timer_irq NULL (s\<lparr>rest := (k\<lparr>numTicks := 0\<rparr>, t)\<rparr>);
          Some s }"

text \<open>\<open>evtchn\<close> is the port of the console in the start information.\<close>

definition xencons_ring_init :: "u32 \<Rightarrow> irq_state \<Rightarrow> (int \<times> irq_state) option" where
  "xencons_ring_init evtchn s =
     (if evtchn = 0 then Some (0, s)
      else do {
        (err, s) \<leftarrow> bind_evtchn evtchn Console_irq NULL s;
        if sint err \<le> 0 then Some (sint err, s)
        else let (k, t) = rest s in Some (0, s\<lparr>rest := (k\<lparr>xcons := notify_daemon (xcons k)\<rparr>, t)\<rparr>) })"

section \<open>Console input\<close>

text \<open>The bytes in the input ring, and what becomes of them.\<close>

definition in_contents :: "xencons \<Rightarrow> u8 list" where
  "in_contents r = map (\<lambda>i. in_ring r ! MASK_XENCONS_IN (in_cons r + of_nat i)) [0..<unat (in_prod r - in_cons r)]"

definition cr_to_lf :: "u8 \<Rightarrow> u8" where
  "cr_to_lf c = (if c = 13 then 10 else c)"

lemma xencons_rx_add: "xencons_rx c = keyb_add_scancode (cr_to_lf c)"
  by (auto simp: xencons_rx_def cr_to_lf_def fun_eq_iff)

lemma rx_loop_fold:
  "rx_loop inr c p k =
     (p, fold xencons_rx (map (\<lambda>i. inr ! MASK_XENCONS_IN (c + of_nat i)) [0..<unat (p - c)]) k)"
proof (induction inr c p k rule: rx_loop.induct)
  case (1 inr c p k)
  show ?case
  proof (cases "c = p")
    case True
    then show ?thesis by (subst rx_loop.simps) simp
  next
    case False
    have eq: "p - (c + 1) = (p - c) - 1" by simp
    have "unat ((p - c) - 1) = unat (p - c) - 1" using False by (intro unat_minus_one) auto
    moreover have "unat (p - c) \<noteq> 0" using False by (simp add: unat_eq_0)
    ultimately have len: "unat (p - c) = Suc (unat (p - (c + 1)))" unfolding eq by linarith
    have "map (\<lambda>i. inr ! MASK_XENCONS_IN (c + of_nat i)) [0..<unat (p - c)] =
        (inr ! MASK_XENCONS_IN c) # map (\<lambda>i. inr ! MASK_XENCONS_IN (c + 1 + of_nat i)) [0..<unat (p - (c + 1))]"
      unfolding len by (simp add: upt_conv_Cons map_Suc_upt[symmetric] o_def add.assoc del: upt_Suc)
    then show ?thesis using False 1[OF False] by (subst rx_loop.simps) simp
  qed
qed

definition input_ok :: "kstate \<times> time_state \<Rightarrow> bool" where
  "input_ok kt \<longleftrightarrow> keyb_inv (kbd (fst kt)) \<and>
     \<not> in_prod (xcons (fst kt)) - in_cons (xcons (fst kt)) > XENCONS_IN_SIZE"

lemma console_handler_run:
  assumes "input_ok (rest s)"
  defines "k \<equiv> fst (rest s)"
  obtains x b where "console_handler s = Some (s\<lparr>rest := (k\<lparr>xcons := x, kbd := b\<rparr>, snd (rest s))\<rparr>)"
    "x = notify_daemon ((xcons k)\<lparr>in_cons := in_prod (xcons k)\<rparr>)" "keyb_inv b"
    "keyb_contents b = keyb_contents (kbd k) @
       take (1023 - length (keyb_contents (kbd k))) (map cr_to_lf (in_contents (xcons k)))"
    "b = fold keyb_add_scancode (map cr_to_lf (in_contents (xcons k))) (kbd k)"
proof -
  define b where "b = fold keyb_add_scancode (map cr_to_lf (in_contents (xcons k))) (kbd k)"
  have loop: "rx_loop (in_ring (xcons k)) (in_cons (xcons k)) (in_prod (xcons k)) (kbd k) = (in_prod (xcons k), b)"
    unfolding rx_loop_fold b_def in_contents_def by (simp add: fold_map xencons_rx_add o_def)
  obtain k0 t0 where kt: "rest s = (k0, t0)" by fastforce
  have inv: "keyb_inv (kbd k)" using assms(1) by (simp add: input_ok_def k_def)
  show thesis
  proof (rule that)
    show "console_handler s =
        Some (s\<lparr>rest := (k\<lparr>xcons := notify_daemon ((xcons k)\<lparr>in_cons := in_prod (xcons k)\<rparr>), kbd := b\<rparr>, snd (rest s))\<rparr>)"
      using assms(1) loop by (simp add: console_handler_def handle_input_def input_ok_def k_def kt)
    show "keyb_inv b" "keyb_contents b = keyb_contents (kbd k) @
        take (1023 - length (keyb_contents (kbd k))) (map cr_to_lf (in_contents (xcons k)))"
      unfolding b_def by (rule keyb.inv_fold_enq[OF inv], rule keyb.elems_fold_enq[OF inv])
  qed (simp_all add: b_def)
qed

lemma input_handlers_ok: "handlers_ok (irq_env E TE X) {Default_irq, Console_irq} input_ok"
  unfolding handlers_ok_def
proof (intro ballI allI impI)
  fix h :: irq_handler and p :: u32 and d :: addr and s :: irq_state
  assume h: "h \<in> {Default_irq, Console_irq}" and ok: "input_ok (rest s)"
  show "\<exists>s'. run_handler (irq_env E TE X) h p d s = Some s' \<and> input_ok (rest s') \<and> evtchn_mask s' = evtchn_mask s \<and>
      ev_actions s' = ev_actions s \<and>
      (evtchn_pending s' = evtchn_pending s \<or> evtchn_pending s' = clear_port (unat p) (evtchn_pending s))"
  proof (cases "h = Default_irq")
    case True
    then show ?thesis using ok by (simp add: irq_env_def irq_run_def)
  next
    case False
    then have h: "h = Console_irq" using h by simp
    obtain x b where "console_handler s = Some (s\<lparr>rest := ((fst (rest s))\<lparr>xcons := x, kbd := b\<rparr>, snd (rest s))\<rparr>)"
      "x = notify_daemon ((xcons (fst (rest s)))\<lparr>in_cons := in_prod (xcons (fst (rest s)))\<rparr>)" "keyb_inv b"
      by (rule console_handler_run[OF ok])
    then show ?thesis using h by (simp add: irq_env_def irq_run_def input_ok_def notify_daemon_def)
  qed
qed

text \<open>C15: When Xen signals console input on port \<open>p\<close> and no other selected port is to be served, the upcall moves every
  byte of the input ring to the key buffer, in order and with carriage returns turned into line feeds, as far as
  the buffer has room.  The resulting state is given in full: of the console the input is all consumed (the consumer
  index is the producer's, so the ring is empty) and the daemon notified once, the key buffer gets its new contents,
  the port is no longer pending and its event counted, the selector and the flag of the upcall are reset, and
  nothing else changes, in the events, the kernel or its copy of the time.  Any handlers may be bound, the timer's
  too, but those of ports that are pending and not masked at that moment are the console's or the default one, and
  the ring holds at most 1024 bytes.\<close>

theorem console_input_delivered:
  assumes "ev_wf s" "\<forall>q. open_port s q \<longrightarrow> handler (ev_actions s (of_nat q)) \<in> {Default_irq, Console_irq}" "input_ok (rest s)"
    and "active_ports s = [p]" "handler (ev_actions s (of_nat p)) = Console_irq" "rest s = (k, t)"
  shows "\<exists>b. do_hypervisor_callback (irq_env E TE X) s = Some (s\<lparr>
      evtchn_upcall_pending := 0, evtchn_pending_sel := 0, evtchn_pending := clear_port p (evtchn_pending s),
      ev_actions := (ev_actions s)(of_nat p := (ev_actions s (of_nat p))\<lparr>ev_count := ev_count (ev_actions s (of_nat p)) + 1\<rparr>),
      rest := (k\<lparr>xcons := notify_daemon ((xcons k)\<lparr>in_cons := in_prod (xcons k)\<rparr>), kbd := b\<rparr>, t)\<rparr>) \<and>
    keyb_inv b \<and> scancode_buffer_begin b = scancode_buffer_begin (kbd k) \<and>
    keyb_contents b = keyb_contents (kbd k) @
      take (1023 - length (keyb_contents (kbd k))) (map cr_to_lf (in_contents (xcons k)))"
proof -
  let ?E = "irq_env E TE X" and ?H = "{Default_irq, Console_irq}" and ?a = "ev_actions s (of_nat p)"
  have ok: "ev_ok ?H input_ok s" using assms(1-3) by (simp add: ev_ok_def)
  have p: "p < 1024" using assms(4) by (auto simp: active_ports_def dest!: arg_cong[of _ _ set])
  define s0 where "s0 = s\<lparr>evtchn_upcall_pending := 0, evtchn_pending_sel := 0\<rparr>"
  obtain s' where s': "do_hypervisor_callback ?E s = Some s'" "serve_list ?E [p] s0 = Some s'"
    using upcall_run[OF input_handlers_ok ok] unfolding assms(4) s0_def by blast
  define s1 where "s1 = s0\<lparr>ev_actions := (ev_actions s0)(of_nat p := ?a\<lparr>ev_count := ev_count ?a + 1\<rparr>)\<rparr>"
  have r1: "rest s1 = (k, t)" "input_ok (rest s1)" using assms(3,6) by (simp_all add: s1_def s0_def)
  obtain x b where xb: "console_handler s1 = Some (s1\<lparr>rest := (k\<lparr>xcons := x, kbd := b\<rparr>, t)\<rparr>)"
    "x = notify_daemon ((xcons k)\<lparr>in_cons := in_prod (xcons k)\<rparr>)" "keyb_inv b"
    "keyb_contents b = keyb_contents (kbd k) @
       take (1023 - length (keyb_contents (kbd k))) (map cr_to_lf (in_contents (xcons k)))"
    "b = fold keyb_add_scancode (map cr_to_lf (in_contents (xcons k))) (kbd k)"
    by (rule console_handler_run[OF r1(2)]) (simp add: r1(1))
  have "scancode_buffer_begin (fold keyb_add_scancode cs q) = scancode_buffer_begin q" for cs q
    by (induction cs arbitrary: q) (simp_all add: keyb_add_scancode_def)
  then have bb: "scancode_buffer_begin b = scancode_buffer_begin (kbd k)" by (simp add: xb(5))
  have "\<not> NR_EVS \<le> (of_nat p :: u32)"
    using p unat_of_nat32[of p] by (simp add: NR_EVS_def word_le_nat_alt)
  moreover have "handler (ev_actions s0 (of_nat p)) = Console_irq" using assms(5) by (simp add: s0_def)
  ultimately have "do_event ?E (of_nat p) s0 = clear_evtchn (of_nat p) (s1\<lparr>rest := (k\<lparr>xcons := x, kbd := b\<rparr>, t)\<rparr>)"
    using xb(1) by (simp add: do_event_def irq_env_def irq_run_def s1_def s0_def Let_def)
  moreover have "ev_wf (s1\<lparr>rest := (k\<lparr>xcons := x, kbd := b\<rparr>, t)\<rparr>)" using assms(1) by (simp add: ev_wf_def s1_def s0_def)
  ultimately have "s' = s1\<lparr>rest := (k\<lparr>xcons := x, kbd := b\<rparr>, t), evtchn_pending := clear_port p (evtchn_pending s)\<rparr>"
    using s'(2) p by (simp add: clear_evtchn_port s1_def s0_def)
  then show ?thesis using s'(1) xb(2-4) bb by (intro exI[of _ b]) (simp add: s1_def s0_def)
qed

text \<open>Port 37 is the console's; its ring holds \<open>h\<close>, \<open>i\<close> and a carriage return.  Port 3 is the timer's.\<close>

definition typed :: kstate where
  "typed = zero_state\<lparr>xcons := empty_xencons\<lparr>in_ring := (replicate 1024 0)[0 := 104, 1 := 105, 2 := 13], in_prod := 3\<rparr>\<rparr>"

definition typed_event :: "time_state \<Rightarrow> irq_state" where
  "typed_event t = \<lparr>evtchn_pending = (replicate 32 0)[1 := 0x20], evtchn_mask = replicate 32 0,
     evtchn_upcall_pending = 1, evtchn_upcall_mask = 0, evtchn_pending_sel = 2, arch_cr2 = 0,
     ev_actions = (\<lambda>_. \<lparr>handler = Default_irq, ev_data = NULL, ev_count = 0\<rparr>)
       (3 := \<lparr>handler = Timer_irq, ev_data = NULL, ev_count = 0\<rparr>,
        37 := \<lparr>handler = Console_irq, ev_data = NULL, ev_count = 0\<rparr>),
     bound_ports = replicate 32 0, forced = 0, rest = (typed, t)\<rparr>"

lemma filter_one: "k < n \<Longrightarrow> filter (\<lambda>q. q = k) [0..<n] = [k :: nat]"
  using split_upt[of k n] by (simp add: filter_empty_conv del: upt_Suc)

theorem console_input_delivered_witness:
  "\<forall>E TE X t. \<exists>s' b. do_hypervisor_callback (irq_env E TE X) (typed_event t) = Some s' \<and>
     rest s' = (typed\<lparr>xcons := notify_daemon ((xcons typed)\<lparr>in_cons := 3\<rparr>), kbd := b\<rparr>, t) \<and> keyb_contents b = [104, 105, 10]"
proof (intro allI)
  fix E :: kern_env and TE :: time_env and X :: "(irq_handler, kstate \<times> time_state) ev_env" and t :: time_state
  have one: "(port_active (typed_event t) q \<longleftrightarrow> q = 37) \<and> (open_port (typed_event t) q \<longleftrightarrow> q = 37)" if "q < 1024" for q
  proof -
    have "bit ((2 :: u32) ^ 1) i \<longleftrightarrow> i = 1" "bit ((2 :: u32) ^ 5) i \<longleftrightarrow> i = 5" for i :: nat
      unfolding bit_exp_iff by auto
    from this(1)[of "q div 32"] this(2)[of "q mod 32"]
    have "bit (2 :: u32) (q div 32) \<longleftrightarrow> q div 32 = 1" "bit (0x20 :: u32) (q mod 32) \<longleftrightarrow> q mod 32 = 5" by simp_all
    moreover have "q div 32 < 32" using that by auto
    ultimately have "port_active (typed_event t) q \<longleftrightarrow> q div 32 = 1 \<and> q mod 32 = 5"
      "open_port (typed_event t) q \<longleftrightarrow> q div 32 = 1 \<and> q mod 32 = 5"
      using that unfolding port_active_def open_port_def typed_event_def
      by (cases "q div 32 = 1"; simp_all add: nth_list_update)+
    moreover have "q div 32 = 1 \<and> q mod 32 = 5 \<longleftrightarrow> q = 37" by presburger
    ultimately show ?thesis by simp
  qed
  have "filter (\<lambda>q. q = 37) [0..<1024] = [37 :: nat]" by (rule filter_one) simp
  moreover have "filter (port_active (typed_event t)) [0..<1024] = filter (\<lambda>q. q = 37) [0..<1024]"
    by (rule filter_cong) (simp_all add: one)
  ultimately have act: "active_ports (typed_event t) = [37]" unfolding active_ports_def by simp
  have inv: "keyb_inv keyb_initial" "keyb_contents keyb_initial = []"
    by (simp_all add: keyb_inv_def keyb_contents_def keyb_len_def keyb_initial_def SCANCODE_BUFFER_SIZE_def)
  have h37: "handler (ev_actions (typed_event t) (of_nat 37)) \<in> {Default_irq, Console_irq}" by (simp add: typed_event_def)
  have "q = 37" if "open_port (typed_event t) q" for q using one[of q] that by (simp add: open_port_def)
  then have open_ok: "\<forall>q. open_port (typed_event t) q \<longrightarrow> handler (ev_actions (typed_event t) (of_nat q)) \<in> {Default_irq, Console_irq}"
    using h37 by blast
  have ok: "ev_wf (typed_event t)" "input_ok (rest (typed_event t))"
    using inv by (simp_all add: ev_wf_def typed_event_def input_ok_def typed_def zero_state_def empty_xencons_def XENCONS_IN_SIZE_def)
  have "in_contents (xcons typed) = [104, 105, 13]"
    by (simp add: in_contents_def typed_def empty_xencons_def MASK_XENCONS_IN_def XENCONS_IN_SIZE_def upt_rec)
  then have "map cr_to_lf (in_contents (xcons typed)) = [104, 105, 10]" by (simp add: cr_to_lf_def)
  moreover have "kbd typed = keyb_initial" by (simp add: typed_def zero_state_def)
  moreover have "in_prod (xcons typed) = 3" by (simp add: typed_def)
  ultimately show "\<exists>s' b. do_hypervisor_callback (irq_env E TE X) (typed_event t) = Some s' \<and>
      rest s' = (typed\<lparr>xcons := notify_daemon ((xcons typed)\<lparr>in_cons := 3\<rparr>), kbd := b\<rparr>, t) \<and> keyb_contents b = [104, 105, 10]"
    using console_input_delivered[OF ok(1) open_ok ok(2) act, of typed t E TE X] inv(2) by (simp add: typed_event_def) fastforce
qed

end
