(* ===== verification/Kernel_Heap.thy ===== *)
theory Kernel_Heap
  imports C_Memory
begin

text \<open>
  The heap of the kernel: the list memory manager of \<^verbatim>\<open>410kern/lmm\<close>, \<^verbatim>\<open>malloc\<close> and its relatives of
  \<^verbatim>\<open>410kern/malloc\<close>, the wrappers of \<^verbatim>\<open>kern/malloc_wrappers.c\<close>, and the regions that \<^verbatim>\<open>410kern/boot/util_lmm.c\<close> sets up.

  The nodes of the free lists lie in the free memory itself, so the model keeps them in a memory of bytes, in
  which allocated blocks and the sizes that \<open>malloc\<close> stores before them lie, too.  The regions are static
  structures, modelled as the list in which they are linked.
\<close>

section \<open>Data\<close>

record lmm_region =
  reg_nodes :: addr
  reg_min :: u32
  reg_max :: u32
  reg_flags :: u32
  reg_pri :: u32
  reg_free :: u32

record lmm =
  regions :: "lmm_region list"
  hmem :: bytes

definition ALIGN_SIZE :: u32 where "ALIGN_SIZE = 8"
definition ALIGN_MASK :: u32 where "ALIGN_MASK = ALIGN_SIZE - 1"

definition align_up :: "u32 \<Rightarrow> u32" where
  "align_up x = (x + ALIGN_MASK) AND NOT ALIGN_MASK"

definition align_down :: "u32 \<Rightarrow> u32" where
  "align_down x = x AND NOT ALIGN_MASK"

text \<open>A node is its address; these are its two fields.\<close>

definition node_next :: "bytes \<Rightarrow> addr \<Rightarrow> addr" where "node_next m node = ld32 m node"
definition node_size :: "bytes \<Rightarrow> addr \<Rightarrow> u32" where "node_size m node = ld32 m (node + 4)"

definition set_node :: "addr \<Rightarrow> addr \<Rightarrow> u32 \<Rightarrow> bytes \<Rightarrow> bytes" where
  "set_node node nxt sz m = st32 (node + 4) sz (st32 node nxt m)"

text \<open>The pointer to a pointer with which the code walks: to the head of the list or to a \<open>next\<close> field.\<close>

datatype nodep = Reg_nodes | Next_of addr

definition get_nodep :: "nodep \<Rightarrow> lmm_region \<Rightarrow> bytes \<Rightarrow> addr" where
  "get_nodep np r m = (case np of Reg_nodes \<Rightarrow> reg_nodes r | Next_of a \<Rightarrow> node_next m a)"

definition set_nodep :: "nodep \<Rightarrow> addr \<Rightarrow> lmm_region \<times> bytes \<Rightarrow> lmm_region \<times> bytes" where
  "set_nodep np v rm =
     (let (r, m) = rm
      in case np of Reg_nodes \<Rightarrow> (r\<lparr>reg_nodes := v\<rparr>, m) | Next_of a \<Rightarrow> (r, st32 a v m))"

text \<open>The assertions on a region and on a node that the loops check.\<close>

definition region_asserts :: "lmm_region \<Rightarrow> bool" where
  "region_asserts r \<longleftrightarrow> (reg_nodes r = NULL \<and> reg_free r = 0 \<or> reg_nodes r \<ge> reg_min r) \<and>
     reg_free r \<le> reg_max r - reg_min r"

definition node_asserts :: "lmm_region \<Rightarrow> bytes \<Rightarrow> addr \<Rightarrow> bool" where
  "node_asserts r m node \<longleftrightarrow> node AND ALIGN_MASK = 0 \<and> node_size m node AND ALIGN_MASK = 0 \<and>
     (node_next m node = NULL \<or> node_next m node > node) \<and> node < reg_max r"

section \<open>Allocation\<close>

text \<open>The first node that is large enough loses its head, the block that is returned.\<close>

partial_function (option) alloc_nodes ::
  "u32 \<Rightarrow> nodep \<Rightarrow> lmm_region \<Rightarrow> bytes \<Rightarrow> (addr \<times> lmm_region \<times> bytes) option" where
  "alloc_nodes sz np r m =
     (let node = get_nodep np r m
      in if node = NULL then Some (NULL, r, m)
         else if \<not> node_asserts r m node then None
         else if node_size m node \<ge> sz then
           let (r, m) =
             (if node_size m node > sz then
                let newnode = node + sz;
                    m = set_node newnode (node_next m node) (node_size m node - sz) m
                in set_nodep np newnode (r, m)
              else set_nodep np (node_next m node) (r, m))
           in if reg_free r \<ge> sz then Some (node, r\<lparr>reg_free := reg_free r - sz\<rparr>, m) else None
         else alloc_nodes sz (Next_of node) r m)"

fun alloc_regions ::
  "u32 \<Rightarrow> u32 \<Rightarrow> lmm_region list \<Rightarrow> bytes \<Rightarrow> (addr \<times> lmm_region list \<times> bytes) option" where
  "alloc_regions sz flgs [] m = Some (NULL, [], m)"
| "alloc_regions sz flgs (r # rs) m =
     (if \<not> region_asserts r then None
      else if flgs AND NOT (reg_flags r) \<noteq> 0 then
        do { (a, rs, m) \<leftarrow> alloc_regions sz flgs rs m; Some (a, r # rs, m) }
      else do {
        (a, r, m) \<leftarrow> alloc_nodes sz Reg_nodes r m;
        if a \<noteq> NULL then Some (a, r # rs, m)
        else do { (a, rs, m) \<leftarrow> alloc_regions sz flgs rs m; Some (a, r # rs, m) } })"

definition lmm_alloc :: "u32 \<Rightarrow> u32 \<Rightarrow> lmm \<Rightarrow> (addr \<times> lmm) option" where
  "lmm_alloc sz flgs h =
     (if sz = 0 then None
      else do {
        (a, rs, m) \<leftarrow> alloc_regions (align_up sz) flgs (regions h) (hmem h);
        Some (a, h\<lparr>regions := rs, hmem := m\<rparr>) })"

text \<open>Allocation with alignment and within bounds.  \<open>align_addr\<close> is the loop that moves the address up until its low
  \<open>align_bits\<close> bits are those of \<open>align_ofs\<close>.\<close>

fun align_addr :: "nat \<Rightarrow> nat \<Rightarrow> u32 \<Rightarrow> u32 \<Rightarrow> u32" where
  "align_addr i 0 ofs a = a"
| "align_addr i (Suc n) ofs a =
     (let b = push_bit i 1
      in align_addr (Suc i) n ofs (if (a XOR ofs) AND b \<noteq> 0 then a + b else a))"

text \<open>What the allocation from one node leaves: the part before the block, if any, and the part after it.\<close>

definition take_from_node ::
  "u32 \<Rightarrow> u32 \<Rightarrow> addr \<Rightarrow> nodep \<Rightarrow> lmm_region \<Rightarrow> bytes \<Rightarrow> (lmm_region \<times> bytes) option" where
  "take_from_node a sz node np r m =
     (let anode = align_down a
      in if \<not> anode \<ge> node then None
         else do {
           (np, m) \<leftarrow>
             (if anode > node then
                let split_size = anode - node
                in if split_size AND ALIGN_MASK \<noteq> 0 then None
                   else let m = set_node anode (node_next m node) (node_size m node - split_size) m;
                            m = st32 (node + 4) split_size m
                        in Some (Next_of node, m)
              else Some (np, m));
           let sz = align_up ((a AND ALIGN_MASK) + sz);
           let (r, m) =
             (if node_size m anode > sz then
                let newnode = anode + sz;
                    m = set_node newnode (node_next m anode) (node_size m anode - sz) m
                in set_nodep np newnode (r, m)
              else set_nodep np (node_next m anode) (r, m));
           if reg_free r \<ge> sz then Some (r\<lparr>reg_free := reg_free r - sz\<rparr>, m) else None })"

partial_function (option) gen_nodes ::
  "u32 \<Rightarrow> nat \<Rightarrow> u32 \<Rightarrow> u32 \<Rightarrow> u32 \<Rightarrow> nodep \<Rightarrow> lmm_region \<Rightarrow> bytes \<Rightarrow> (addr option \<times> lmm_region \<times> bytes) option" where
  "gen_nodes sz abits ofs in_min in_max np r m =
     (let node = get_nodep np r m
      in if node = NULL then Some (None, r, m)
         else if \<not> node_asserts r m node then None
         else if node_size m node < sz then gen_nodes sz abits ofs in_min in_max (Next_of node) r m
         else
           let a = align_addr 0 abits ofs (if node < in_min then in_min else node)
           in if a - node + sz > node_size m node then gen_nodes sz abits ofs in_min in_max (Next_of node) r m
              else if a + sz > in_max then Some (None, r, m)
              else Option.bind (take_from_node a sz node np r m) (\<lambda>(r, m). Some (Some a, r, m)))"

fun gen_regions ::
  "u32 \<Rightarrow> u32 \<Rightarrow> nat \<Rightarrow> u32 \<Rightarrow> u32 \<Rightarrow> u32 \<Rightarrow> lmm_region list \<Rightarrow> bytes \<Rightarrow> (addr \<times> lmm_region list \<times> bytes) option" where
  "gen_regions sz flgs abits ofs in_min in_max [] m = Some (NULL, [], m)"
| "gen_regions sz flgs abits ofs in_min in_max (r # rs) m =
     (if \<not> region_asserts r then None
      else if flgs AND NOT (reg_flags r) \<noteq> 0 \<or> reg_min r \<ge> in_max \<or> reg_max r \<le> in_min then
        do { (a, rs, m) \<leftarrow> gen_regions sz flgs abits ofs in_min in_max rs m; Some (a, r # rs, m) }
      else do {
        (found, r, m) \<leftarrow> gen_nodes sz abits ofs in_min in_max Reg_nodes r m;
        case found of
          Some a \<Rightarrow> Some (a, r # rs, m)
        | None \<Rightarrow> do { (a, rs, m) \<leftarrow> gen_regions sz flgs abits ofs in_min in_max rs m; Some (a, r # rs, m) } })"

definition lmm_alloc_gen :: "u32 \<Rightarrow> u32 \<Rightarrow> nat \<Rightarrow> u32 \<Rightarrow> u32 \<Rightarrow> u32 \<Rightarrow> lmm \<Rightarrow> (addr \<times> lmm) option" where
  "lmm_alloc_gen sz flgs align_bits align_ofs in_min in_size h =
     (if sz = 0 then None
      else do {
        (a, rs, m) \<leftarrow> gen_regions sz flgs align_bits align_ofs in_min (in_min + in_size) (regions h) (hmem h);
        Some (a, h\<lparr>regions := rs, hmem := m\<rparr>) })"

definition lmm_alloc_aligned :: "u32 \<Rightarrow> u32 \<Rightarrow> nat \<Rightarrow> u32 \<Rightarrow> lmm \<Rightarrow> (addr \<times> lmm) option" where
  "lmm_alloc_aligned sz flgs align_bits align_ofs h = lmm_alloc_gen sz flgs align_bits align_ofs 0 (-1) h"

definition lmm_alloc_page :: "u32 \<Rightarrow> lmm \<Rightarrow> (addr \<times> lmm) option" where
  "lmm_alloc_page flgs h = lmm_alloc_gen PAGE_SIZE flgs 12 0 0 (-1) h"

section \<open>Release\<close>

text \<open>The last node before the block (\<open>NULL\<close> if there is none) and the first one after it.\<close>

partial_function (option) free_position :: "addr \<Rightarrow> addr \<Rightarrow> addr \<Rightarrow> bytes \<Rightarrow> (addr \<times> addr) option" where
  "free_position node prevnode nextnode m =
     (if nextnode \<noteq> NULL \<and> nextnode < node then free_position node nextnode (node_next m nextnode) m
      else Some (prevnode, nextnode))"

definition free_into_region :: "addr \<Rightarrow> u32 \<Rightarrow> lmm_region \<Rightarrow> bytes \<Rightarrow> (lmm_region \<times> bytes) option" where
  "free_into_region node sz r m =
     (let r = r\<lparr>reg_free := reg_free r + sz\<rparr>
      in if \<not> reg_free r \<le> reg_max r - reg_min r then None
         else do {
           (prevnode, nextnode) \<leftarrow> free_position node NULL (reg_nodes r) m;
           if prevnode \<noteq> NULL \<and> prevnode + node_size m prevnode \<ge> node then
             if prevnode + node_size m prevnode \<noteq> node then None
             else if nextnode \<noteq> NULL \<and> node + sz \<ge> nextnode then
               if node + sz \<noteq> nextnode then None
               else
                 let m = st32 (prevnode + 4) (node_size m prevnode + (sz + node_size m nextnode)) m;
                     m = st32 prevnode (node_next m nextnode) m
                 in Some (r, m)
             else Some (r, st32 (prevnode + 4) (node_size m prevnode + sz) m)
           else
             let (r, m) = (if prevnode \<noteq> NULL then (r, st32 prevnode node m) else (r\<lparr>reg_nodes := node\<rparr>, m));
                 m = (if nextnode \<noteq> NULL \<and> node + sz \<ge> nextnode then
                        let m = st32 (node + 4) (sz + node_size m nextnode) m in st32 node (node_next m nextnode) m
                      else let m = st32 (node + 4) sz m in st32 node nextnode m)
             in Some (r, m) })"

fun free_regions :: "addr \<Rightarrow> u32 \<Rightarrow> lmm_region list \<Rightarrow> bytes \<Rightarrow> (lmm_region list \<times> bytes) option" where
  "free_regions node sz [] m = None"
| "free_regions node sz (r # rs) m =
     (if \<not> (reg_nodes r = NULL \<and> reg_free r = 0 \<or> reg_nodes r \<ge> reg_min r) then None
      else if node \<ge> reg_min r \<and> node < reg_max r then
        do { (r, m) \<leftarrow> free_into_region node sz r m; Some (r # rs, m) }
      else do { (rs, m) \<leftarrow> free_regions node sz rs m; Some (r # rs, m) })"

definition lmm_free :: "addr \<Rightarrow> u32 \<Rightarrow> lmm \<Rightarrow> lmm option" where
  "lmm_free block sz h =
     (if block = NULL \<or> sz = 0 then None
      else do {
        (rs, m) \<leftarrow> free_regions (align_down block) (align_up ((block AND ALIGN_MASK) + sz)) (regions h) (hmem h);
        Some (h\<lparr>regions := rs, hmem := m\<rparr>) })"

definition lmm_free_page :: "addr \<Rightarrow> lmm \<Rightarrow> lmm option" where
  "lmm_free_page page h = lmm_free page PAGE_SIZE h"

section \<open>Regions\<close>

definition lmm_init :: "lmm \<Rightarrow> lmm" where
  "lmm_init h = h\<lparr>regions := []\<rparr>"

text \<open>In descending priority, and among equals from the largest to the smallest.  Priorities are unsigned.\<close>

fun insert_region :: "lmm_region \<Rightarrow> lmm_region list \<Rightarrow> lmm_region list option" where
  "insert_region reg [] = Some [reg]"
| "insert_region reg (r # rs) =
     (if reg_pri r > reg_pri reg \<or> reg_pri r = reg_pri reg \<and> reg_max r - reg_min r > reg_max reg - reg_min reg then
        if reg_max reg \<le> reg_min r \<or> reg_min reg \<ge> reg_max r
        then do { rs \<leftarrow> insert_region reg rs; Some (r # rs) } else None
      else Some (reg # r # rs))"

definition lmm_add_region :: "addr \<Rightarrow> u32 \<Rightarrow> u32 \<Rightarrow> u32 \<Rightarrow> lmm \<Rightarrow> lmm option" where
  "lmm_add_region a sz flgs pri h =
     (let rmin = align_up a;
          rmax = align_down (a + sz)
      in if rmax \<le> rmin then Some h
         else do {
           rs \<leftarrow> insert_region \<lparr>reg_nodes = NULL, reg_min = rmin, reg_max = rmax, reg_flags = flgs,
                  reg_pri = pri, reg_free = 0\<rparr> (regions h);
           Some (h\<lparr>regions := rs\<rparr>) })"

text \<open>Free memory is given to the regions it overlaps.\<close>

definition add_free_to :: "u32 \<Rightarrow> u32 \<Rightarrow> nat \<Rightarrow> lmm \<Rightarrow> lmm option" where
  "add_free_to bmin bmax i h =
     (let r = regions h ! i
      in if \<not> (reg_min r < reg_max r \<and> reg_min r AND ALIGN_MASK = 0 \<and> reg_max r AND ALIGN_MASK = 0) then None
         else if bmax > reg_min r \<and> bmin < reg_max r then
           let new_min = (if bmin < reg_min r then reg_min r else bmin);
               new_max = (if bmax > reg_max r then reg_max r else bmax)
           in if new_max > new_min then lmm_free new_min (new_max - new_min) h else None
         else Some h)"

definition lmm_add_free :: "addr \<Rightarrow> u32 \<Rightarrow> lmm \<Rightarrow> lmm option" where
  "lmm_add_free block sz h =
     (let bmin = align_up block;
          bmax = align_down (block + sz)
      in if \<not> bmax \<ge> bmin then None
         else if bmax = bmin then Some h
         else c_each [0..<length (regions h)] (add_free_to bmin bmax) h)"

definition lmm_avail :: "u32 \<Rightarrow> lmm \<Rightarrow> u32 option" where
  "lmm_avail flgs h =
     c_each (regions h) (\<lambda>r n.
       if \<not> (reg_nodes r \<ge> reg_min r \<and> reg_nodes r < reg_max r \<and> reg_free r \<le> reg_max r - reg_min r) then None
       else if flgs AND NOT (reg_flags r) \<noteq> 0 then Some n else Some (n + reg_free r)) 0"

text \<open>The lowest free memory at or above an address; the state of the search is the lowest found so far, as its
  address, size and flags.\<close>

partial_function (option) find_nodes ::
  "u32 \<Rightarrow> lmm_region \<Rightarrow> bytes \<Rightarrow> addr \<Rightarrow> u32 \<times> u32 \<times> u32 \<Rightarrow> (u32 \<times> u32 \<times> u32) option" where
  "find_nodes start_addr r m node low =
     (if node = NULL then Some low
      else if \<not> (node \<ge> reg_min r \<and> node < reg_max r) then None
      else if node \<ge> fst low then Some low
      else if node + node_size m node > start_addr then
        Some (if node > start_addr then (node, node_size m node, reg_flags r)
              else (start_addr, node_size m node - (start_addr - node), reg_flags r))
      else find_nodes start_addr r m (node_next m node) low)"

definition lmm_find_free :: "u32 \<Rightarrow> lmm \<Rightarrow> (u32 \<times> u32 \<times> u32) option" where
  "lmm_find_free a h =
     (let start_addr = align_up a
      in c_each (regions h) (\<lambda>r low.
           if reg_nodes r = NULL \<or> reg_max r \<le> start_addr \<or> reg_min r > fst low then Some low
           else find_nodes start_addr r (hmem h) (reg_nodes r) low) (-1, 0, 0))"

partial_function (option) remove_free_loop :: "u32 \<Rightarrow> u32 \<Rightarrow> u32 \<Rightarrow> lmm \<Rightarrow> lmm option" where
  "remove_free_loop block rend rstart h =
     (if rstart < rend then
        Option.bind (lmm_find_free rstart h) (\<lambda>(rstart, sz, flgs).
          if \<not> rstart \<ge> block then None
          else if sz = 0 \<or> rstart \<ge> rend then Some h
          else
            let sz = (if rstart + sz > rend then rend - rstart else sz)
            in Option.bind (lmm_alloc_gen sz flgs 0 0 rstart sz h) (\<lambda>(p, h).
                 if p = rstart then remove_free_loop block rend rstart h else None))
      else Some h)"

definition lmm_remove_free :: "addr \<Rightarrow> u32 \<Rightarrow> lmm \<Rightarrow> lmm option" where
  "lmm_remove_free block block_size h =
     (let rend = block + block_size
      in if rend > block then remove_free_loop block rend block h else None)"

section \<open>The C interface\<close>

text \<open>The functions of \<^verbatim>\<open>410kern/malloc\<close>, whose names begin with an underscore there: \<open>malloc\<close> stores the size before
  the block it returns.\<close>

definition lib_malloc :: "u32 \<Rightarrow> lmm \<Rightarrow> (addr \<times> lmm) option" where
  "lib_malloc sz h =
     (let sz = sz + 4
      in do {
        (chunk, h) \<leftarrow> lmm_alloc sz 0 h;
        if chunk = NULL then Some (NULL, h)
        else Some (chunk + 4, h\<lparr>hmem := st32 chunk sz (hmem h)\<rparr>) })"

definition lib_mustmalloc :: "u32 \<Rightarrow> lmm \<Rightarrow> (addr \<times> lmm) option" where
  "lib_mustmalloc sz h = do { (buf, h) \<leftarrow> lib_malloc sz h; if buf = NULL then None else Some (buf, h) }"

text \<open>The shift of an alignment.  The processor takes the number of positions modulo 32, so that the loop does not
  end for alignments above \<open>2^31\<close>.\<close>

partial_function (option) alignment_shift :: "u32 \<Rightarrow> nat \<Rightarrow> nat option" where
  "alignment_shift alignment shift =
     (if push_bit (shift mod 32) 1 < alignment then alignment_shift alignment (Suc shift) else Some shift)"

definition lib_memalign :: "u32 \<Rightarrow> u32 \<Rightarrow> lmm \<Rightarrow> (addr \<times> lmm) option" where
  "lib_memalign alignment sz h =
     do { shift \<leftarrow> alignment_shift alignment 0;
          let sz = sz + 4;
          (chunk, h) \<leftarrow> lmm_alloc_aligned sz 0 shift (push_bit (shift mod 32) 1 - 4) h;
          if chunk = NULL then Some (NULL, h)
          else Some (chunk + 4, h\<lparr>hmem := st32 chunk sz (hmem h)\<rparr>) }"

definition lib_free :: "addr \<Rightarrow> lmm \<Rightarrow> lmm option" where
  "lib_free chunk_ptr h = (let chunk = chunk_ptr - 4 in lmm_free chunk (ld32 (hmem h) chunk) h)"

definition lib_calloc :: "u32 \<Rightarrow> u32 \<Rightarrow> lmm \<Rightarrow> (addr \<times> lmm) option" where
  "lib_calloc nelt eltsize h =
     (let allocsize = nelt * eltsize
      in do {
        (ptr, h) \<leftarrow> lib_malloc allocsize h;
        if ptr = NULL then Some (NULL, h)
        else Some (ptr, h\<lparr>hmem := memset_b ptr 0 allocsize (hmem h)\<rparr>) })"

definition lib_mustcalloc :: "u32 \<Rightarrow> u32 \<Rightarrow> lmm \<Rightarrow> (addr \<times> lmm) option" where
  "lib_mustcalloc nelt eltsize h =
     do { (buf, h) \<leftarrow> lib_calloc nelt eltsize h; if buf = NULL then None else Some (buf, h) }"

text \<open>The copy includes the word with the size.\<close>

definition lib_realloc :: "addr \<Rightarrow> u32 \<Rightarrow> lmm \<Rightarrow> (addr \<times> lmm) option" where
  "lib_realloc buf new_size h =
     (if buf = NULL then lib_malloc new_size h
      else
        let old = buf - 4;
            old_size = ld32 (hmem h) old;
            new_size = new_size + 4
        in do {
          (np, h) \<leftarrow> lmm_alloc new_size 0 h;
          if np = NULL then Some (NULL, h)
          else do {
            h \<leftarrow> lmm_free old old_size
                  (h\<lparr>hmem := memcpy_b np old (if old_size < new_size then old_size else new_size) (hmem h)\<rparr>);
            Some (np + 4, h\<lparr>hmem := st32 np new_size (hmem h)\<rparr>) } })"

definition lib_smalloc :: "u32 \<Rightarrow> lmm \<Rightarrow> (addr \<times> lmm) option" where
  "lib_smalloc sz h = lmm_alloc sz 0 h"

definition lib_smemalign :: "u32 \<Rightarrow> u32 \<Rightarrow> lmm \<Rightarrow> (addr \<times> lmm) option" where
  "lib_smemalign alignment sz h =
     do { shift \<leftarrow> alignment_shift alignment 0; lmm_alloc_aligned sz 0 shift 0 h }"

definition lib_sfree :: "addr \<Rightarrow> u32 \<Rightarrow> lmm \<Rightarrow> lmm option" where
  "lib_sfree chunk sz h = lmm_free chunk sz h"

text \<open>The kernel's wrappers.\<close>

definition malloc :: "u32 \<Rightarrow> lmm \<Rightarrow> (addr \<times> lmm) option" where "malloc sz h = lib_malloc sz h"

definition memalign :: "u32 \<Rightarrow> u32 \<Rightarrow> lmm \<Rightarrow> (addr \<times> lmm) option" where
  "memalign alignment sz h = lib_memalign alignment sz h"

definition calloc :: "u32 \<Rightarrow> u32 \<Rightarrow> lmm \<Rightarrow> (addr \<times> lmm) option" where
  "calloc nelt eltsize h = lib_calloc nelt eltsize h"

definition realloc :: "addr \<Rightarrow> u32 \<Rightarrow> lmm \<Rightarrow> (addr \<times> lmm) option" where
  "realloc buf new_size h = lib_realloc buf new_size h"

definition free :: "addr \<Rightarrow> lmm \<Rightarrow> lmm option" where "free buf h = lib_free buf h"

definition smalloc :: "u32 \<Rightarrow> lmm \<Rightarrow> (addr \<times> lmm) option" where "smalloc sz h = lib_smalloc sz h"

definition smemalign :: "u32 \<Rightarrow> u32 \<Rightarrow> lmm \<Rightarrow> (addr \<times> lmm) option" where
  "smemalign alignment sz h = lib_smemalign alignment sz h"

definition scalloc :: "u32 \<Rightarrow> lmm \<Rightarrow> (addr \<times> lmm) option" where
  "scalloc sz h =
     do { (a, h) \<leftarrow> smalloc sz h;
          if a \<noteq> NULL then Some (a, h\<lparr>hmem := memset_b a 0 sz (hmem h)\<rparr>) else Some (a, h) }"

definition sfree :: "addr \<Rightarrow> u32 \<Rightarrow> lmm \<Rightarrow> lmm option" where "sfree buf sz h = lib_free buf h"

section \<open>The heap at the start\<close>

definition LMM_PRI_1MB :: u32 where "LMM_PRI_1MB = -2"
definition LMM_PRI_16MB :: u32 where "LMM_PRI_16MB = -1"
definition LMM_PRI_HIGH :: u32 where "LMM_PRI_HIGH = 0"
definition LMMF_1MB :: u32 where "LMMF_1MB = 0x01"
definition LMMF_16MB :: u32 where "LMMF_16MB = 0x02"

text \<open>What \<open>mb_util_lmm\<close> does with the heap; \<open>bstack\<close> is the end of what Xen has put into memory.\<close>

definition mb_util_regions :: "lmm \<Rightarrow> lmm option" where
  "mb_util_regions h =
     do { h \<leftarrow> lmm_add_region 0 0x00100000 (LMMF_1MB OR LMMF_16MB) LMM_PRI_1MB (lmm_init h);
          h \<leftarrow> lmm_add_region 0x00100000 0x00f00000 LMMF_16MB LMM_PRI_16MB h;
          lmm_add_region 0x01000000 0xfeffffff 0 LMM_PRI_HIGH h }"

definition mb_util_lmm :: "addr \<Rightarrow> lmm \<Rightarrow> lmm option" where
  "mb_util_lmm bstack h =
     do { h \<leftarrow> mb_util_regions h;
          h \<leftarrow> lmm_add_free bstack (USER_MEM_START - bstack) h;
          h \<leftarrow> lmm_remove_free USER_MEM_START (-8 - USER_MEM_START) h;
          lmm_remove_free 0 0x100000 h }"

end
