(* ===== verification/Heap_Lists.thy ===== *)
theory Heap_Lists
  imports Kernel_Heap
begin

text \<open>
  The free list of a region as a list of pairs of numbers, the address and the size of each free block, and what
  allocation and release do to it.  The lists are kept apart from the rest of the memory by frame conditions: a
  node is read and written only within the block that it describes.
\<close>

section \<open>Alignment\<close>

lemma ALIGN_MASK_eq: "ALIGN_MASK = mask 3"
  by (simp add: ALIGN_MASK_def ALIGN_SIZE_def mask_eq_exp_minus_1)

lemma unat_align_down: "unat (align_down x) = unat x div 8 * 8"
  using unat_and_not_mask[of x 3] by (simp add: align_down_def ALIGN_MASK_eq)

lemma unat_and_ALIGN_MASK: "unat (x AND ALIGN_MASK) = unat x mod 8"
proof -
  have "x AND ALIGN_MASK = take_bit 3 x" by (simp only: ALIGN_MASK_eq take_bit_eq_mask)
  then have "unat (x AND ALIGN_MASK) = take_bit 3 (unat x)" by (simp only: unsigned_take_bit_eq)
  then show ?thesis by (simp add: take_bit_eq_mod)
qed

lemma aligned_iff: "x AND ALIGN_MASK = 0 \<longleftrightarrow> 8 dvd unat x"
  by (simp add: dvd_eq_mod_eq_0 flip: unat_and_ALIGN_MASK unat_eq_0)

lemma unat_align_up:
  assumes "unat x + 7 < 2 ^ 32"
  shows "unat (align_up x) = (unat x + 7) div 8 * 8"
proof -
  have "unat (x + ALIGN_MASK) = unat x + 7"
    using assms by (simp add: unat_add_no_wrap ALIGN_MASK_def ALIGN_SIZE_def)
  then show ?thesis using unat_align_down[of "x + ALIGN_MASK"] by (simp add: align_up_def align_down_def)
qed

lemma dvd_word_aligned: "8 dvd unat a \<Longrightarrow> word_aligned a"
  unfolding word_aligned_def by presburger

section \<open>Nodes and segments of lists\<close>

text \<open>Writing back what is there changes nothing.\<close>

lemma ld32_parts:
  "ucast (ld32 m a) = m a" "ucast (drop_bit 8 (ld32 m a)) = m (a + 1)"
  "ucast (drop_bit 16 (ld32 m a)) = m (a + 2)" "ucast (drop_bit 24 (ld32 m a)) = m (a + 3)"
  by (rule bit_word_eqI, auto simp: ld32_def bit_simps dest: bit_imp_le_length)+

lemma st32_ld32_id: "st32 a (ld32 m a) m = m"
  by (simp add: st32_def ld32_parts)

text \<open>Writing a word changes four bytes, reading one looks at four.\<close>

lemma st32_out:
  assumes "word_aligned a" "\<not> (unat a \<le> unat x \<and> unat x < unat a + 4)"
  shows "st32 a v m x = m x"
proof -
  have "unat (a + of_nat i) = unat a + i" if "i < 4" for i by (rule unat_add_small[OF assms(1) that])
  from this[of 0] this[of 1] this[of 2] this[of 3] have "x \<noteq> a" "x \<noteq> a + 1" "x \<noteq> a + 2" "x \<noteq> a + 3"
    using assms(2) by auto
  then show ?thesis by (simp add: st32_def)
qed

lemma ld32_same:
  assumes "word_aligned a" "\<And>x. unat a \<le> unat x \<Longrightarrow> unat x < unat a + 4 \<Longrightarrow> m' x = m x"
  shows "ld32 m' a = ld32 m a"
proof -
  have "m' (a + of_nat i) = m (a + of_nat i)" if "i < 4" for i
    by (rule assms(2)) (simp_all add: unat_add_small[OF assms(1) that] that)
  from this[of 0] this[of 1] this[of 2] this[of 3] show ?thesis by (intro ld32_cong) simp_all
qed

lemma aligned_plus4: "8 dvd unat a \<Longrightarrow> unat (a + 4) = unat a + 4 \<and> word_aligned (a + 4)"
proof -
  assume a: "8 dvd unat a"
  obtain k where k: "unat a = 8 * k" using a by (rule dvdE)
  then have "k < 536870912" using unat_lt32[of a] by simp
  then have "unat a + 4 < 2 ^ 32" using k by simp
  then have "unat (a + 4) = unat a + 4" by (simp add: unat_add_no_wrap)
  moreover have "4 dvd unat a" using a by presburger
  ultimately show ?thesis by (simp add: word_aligned_def)
qed

lemma node_same:
  assumes "8 dvd unat a" "\<And>x. unat a \<le> unat x \<Longrightarrow> unat x < unat a + 8 \<Longrightarrow> m' x = m x"
  shows "node_next m' a = node_next m a" "node_size m' a = node_size m a"
  using aligned_plus4[OF assms(1)] dvd_word_aligned[OF assms(1)] assms(2)
  by (auto simp: node_next_def node_size_def intro!: ld32_same)

lemma set_node_get:
  assumes "8 dvd unat a"
  shows "node_next (set_node a n s m) a = n" "node_size (set_node a n s m) a = s"
  using aligned_plus4[OF assms] dvd_word_aligned[OF assms]
  by (auto simp: node_next_def node_size_def set_node_def ld32_st32_other)

lemma set_node_out:
  assumes "8 dvd unat a" "\<not> (unat a \<le> unat x \<and> unat x < unat a + 8)"
  shows "set_node a n s m x = m x"
  using aligned_plus4[OF assms(1)] dvd_word_aligned[OF assms(1)] assms(2)
  by (auto simp: set_node_def st32_out)

lemma set_next_get:
  assumes "8 dvd unat a"
  shows "node_next (st32 a v m) a = v" "node_size (st32 a v m) a = node_size m a"
    "node_next (st32 (a + 4) v m) a = node_next m a" "node_size (st32 (a + 4) v m) a = v"
  using aligned_plus4[OF assms] dvd_word_aligned[OF assms]
  by (auto simp: node_next_def node_size_def ld32_st32_other)

lemma set_next_out:
  assumes "8 dvd unat a" "\<not> (unat a \<le> unat x \<and> unat x < unat a + 8)"
  shows "st32 a v m x = m x" "st32 (a + 4) v m x = m x"
  using aligned_plus4[OF assms(1)] dvd_word_aligned[OF assms(1)] assms(2) by (auto simp: st32_out)

lemma node_next_beside:
  assumes "8 dvd unat a" "8 dvd unat b"
  shows "node_next (st32 (a + 4) v m) b = node_next m b"
proof -
  have "unat (a + 4) = unat a + 4" using aligned_plus4[OF assms(1)] by blast
  moreover have "unat a + 4 \<noteq> unat b" using assms by presburger
  ultimately have "a + 4 \<noteq> b" by auto
  then show ?thesis
    using aligned_plus4[OF assms(1)] dvd_word_aligned[OF assms(2)] by (simp add: node_next_def ld32_st32_other)
qed

text \<open>\<open>seg m a ns b\<close>: the list that starts at \<open>a\<close> has the nodes \<open>ns\<close> and then continues at \<open>b\<close>.\<close>

type_synonym blocks = "(nat \<times> nat) list"

fun seg :: "bytes \<Rightarrow> addr \<Rightarrow> blocks \<Rightarrow> addr \<Rightarrow> bool" where
  "seg m a [] b \<longleftrightarrow> a = b"
| "seg m a ((n, s) # ns) b \<longleftrightarrow> a \<noteq> NULL \<and> unat a = n \<and> unat (node_size m a) = s \<and> seg m (node_next m a) ns b"

text \<open>Blocks in ascending order within bounds, aligned, and no two of them adjacent.\<close>

fun spaced :: "nat \<Rightarrow> nat \<Rightarrow> blocks \<Rightarrow> bool" where
  "spaced lo hi [] \<longleftrightarrow> True"
| "spaced lo hi ((n, s) # ns) \<longleftrightarrow> lo \<le> n \<and> 8 dvd n \<and> 8 dvd s \<and> 0 < s \<and> n + s \<le> hi \<and> spaced (n + s + 1) hi ns"

definition covers :: "blocks \<Rightarrow> nat set" where
  "covers ns = (\<Union>(n, s) \<in> set ns. {n..<n + s})"

lemma covers_simps [simp]:
  "covers [] = {}" "covers ((n, s) # ns) = {n..<n + s} \<union> covers ns" "covers (as @ bs) = covers as \<union> covers bs"
  by (auto simp: covers_def)

lemma seg_append: "seg m a (as @ bs) c \<longleftrightarrow> (\<exists>b. seg m a as b \<and> seg m b bs c)"
  by (induction as arbitrary: a) auto

lemma spaced_append:
  "spaced lo hi (as @ bs) \<longleftrightarrow>
     spaced lo hi as \<and> spaced (if as = [] then lo else fst (last as) + snd (last as) + 1) hi bs"
  by (induction lo hi as rule: spaced.induct) auto

lemma spaced_mono: "spaced lo hi ns \<Longrightarrow> lo' \<le> lo \<Longrightarrow> spaced lo' hi ns"
  by (cases ns) auto

lemma spaced_covers: "spaced lo hi ns \<Longrightarrow> covers ns \<subseteq> {lo..<hi}"
  by (induction lo hi ns rule: spaced.induct) (auto simp: subset_iff)

lemma spaced_member: "spaced lo hi ns \<Longrightarrow> (n, s) \<in> set ns \<Longrightarrow> 8 dvd n \<and> 8 dvd s \<and> 0 < s \<and> lo \<le> n \<and> n + s \<le> hi"
  by (induction lo hi ns rule: spaced.induct) auto

lemma spaced_sum: "spaced lo hi ns \<Longrightarrow> lo \<le> hi \<Longrightarrow> sum_list (map snd ns) \<le> hi - lo"
proof (induction lo hi ns rule: spaced.induct)
  case (2 lo hi n s ns)
  then show ?case by (cases ns) auto
qed simp

lemma spaced_before: "spaced lo hi (as @ (n, s) # bs) \<Longrightarrow> covers as \<subseteq> {lo..<n}"
proof (induction lo hi as rule: spaced.induct)
  case (2 lo hi n' s' as)
  then have "covers as \<subseteq> {n' + s' + 1..<n}" by simp
  moreover have "n' + s' + 1 \<le> n" using 2(2) spaced_append[of "n' + s' + 1" hi as "(n, s) # bs"]
      spaced_member[of "n' + s' + 1" hi "as @ (n, s) # bs" n s] by auto
  ultimately show ?case using 2(2) by auto
qed simp

lemma spaced_after: "spaced lo hi (as @ (n, s) # bs) \<Longrightarrow> covers bs \<subseteq> {n + s + 1..<hi}"
  using spaced_covers[of "n + s + 1" hi bs] by (auto simp: spaced_append)

lemma covers_below:
  assumes "spaced lo hi as" "as \<noteq> [] \<longrightarrow> fst (last as) + snd (last as) \<le> n"
  shows "covers as \<subseteq> {lo..<n}"
proof (cases as rule: rev_cases)
  case (snoc xs y)
  obtain q s where y: "y = (q, s)" by fastforce
  show ?thesis using spaced_before[of lo hi xs q s "[]"] assms spaced_member[OF assms(1), of q s]
    by (fastforce simp: snoc y subset_iff)
qed simp

lemma covers_above:
  assumes "spaced lo hi bs" "bs \<noteq> [] \<longrightarrow> n \<le> fst (hd bs)"
  shows "covers bs \<subseteq> {n..<hi}"
proof (cases bs)
  case (Cons p cs)
  then show ?thesis using spaced_covers[of n hi bs] assms by (cases p) auto
qed simp

text \<open>The nodes lie in the blocks, so that nothing else matters to a segment.\<close>

lemma seg_same:
  assumes "seg m a ns b" "spaced lo hi ns" "\<And>x. unat x \<in> covers ns \<Longrightarrow> m' x = m x"
  shows "seg m' a ns b"
  using assms
proof (induction ns arbitrary: a lo)
  case (Cons p ns)
  obtain n s where p: "p = (n, s)" by fastforce
  have a: "unat a = n" "8 dvd unat a" "8 \<le> s" using Cons.prems(1,2) by (auto simp: p dvd_imp_le)
  have "node_next m' a = node_next m a" "node_size m' a = node_size m a"
    using a by (auto intro!: node_same Cons.prems(3) simp: p)
  then show ?case using Cons.prems Cons.IH[of "node_next m a" "n + s + 1"] by (auto simp: p)
qed simp

lemma seg_update:
  assumes "seg m a ns b" "spaced lo hi ns" "\<And>x. unat x \<notin> S \<Longrightarrow> m' x = m x" "S \<inter> covers ns = {}"
  shows "seg m' a ns b"
  using assms(1,2) by (rule seg_same) (use assms(3,4) in blast)

text \<open>The pointer to the place behind a segment.\<close>

definition ptr_to :: "blocks \<Rightarrow> nodep" where
  "ptr_to as = (if as = [] then Reg_nodes else Next_of (of_nat (fst (last as))))"

lemma get_ptr: "seg m (reg_nodes r) as b \<Longrightarrow> get_nodep (ptr_to as) r m = b"
  by (cases as rule: rev_cases) (auto simp: ptr_to_def get_nodep_def seg_append)

lemma set_ptr:
  assumes "seg m (reg_nodes r) as b" "spaced lo hi as"
  obtains m' nd where "set_nodep (ptr_to as) c (r, m) = (r\<lparr>reg_nodes := nd\<rparr>, m')" "seg m' nd as c"
    "\<And>x. unat x \<notin> covers as \<Longrightarrow> m' x = m x"
proof (cases as rule: rev_cases)
  case Nil
  then show thesis using that[of c m] by (simp add: ptr_to_def set_nodep_def)
next
  case (snoc xs p)
  obtain n s where p: "p = (n, s)" by fastforce
  obtain e where e: "seg m (reg_nodes r) xs e" "e \<noteq> NULL" "unat e = n" "unat (node_size m e) = s"
    using assms(1) by (auto simp: snoc p seg_append)
  have sp: "spaced lo hi xs" "8 dvd unat e" "8 \<le> s" using assms(2) e(3) by (auto simp: snoc p spaced_append dvd_imp_le)
  have out: "st32 e c m x = m x" if "unat x \<notin> {n..<n + s}" for x
    using set_next_out(1)[OF sp(2), of x] that e(3) sp(3) by auto
  have "{n..<n + s} \<inter> covers xs = {}"
    using spaced_before[of lo hi xs n s "[]"] assms(2) by (auto simp: snoc p)
  then have "seg (st32 e c m) (reg_nodes r) xs e" using seg_update[OF e(1) sp(1) out] by blast
  then have "seg (st32 e c m) (reg_nodes r) as c"
    using e set_next_get[OF sp(2)] by (auto simp: snoc p seg_append)
  moreover have "set_nodep (ptr_to as) c (r, m) = (r, st32 e c m)"
    using e(3) by (auto simp: ptr_to_def set_nodep_def snoc p)
  ultimately show thesis using that[of "reg_nodes r" "st32 e c m"] out by (auto simp: snoc p)
qed

section \<open>Allocation from a list\<close>

lemma node_ok:
  assumes "seg m (reg_nodes r) (as @ (n, s) # bs) NULL" "spaced lo (unat (reg_max r)) (as @ (n, s) # bs)"
  obtains a where "get_nodep (ptr_to as) r m = a" "a \<noteq> NULL" "unat a = n" "unat (node_size m a) = s"
    "node_asserts r m a" "seg m (reg_nodes r) as a" "seg m (node_next m a) bs NULL" "of_nat n = a"
proof -
  obtain a where a: "seg m (reg_nodes r) as a" "a \<noteq> NULL" "unat a = n" "unat (node_size m a) = s"
    "seg m (node_next m a) bs NULL"
    using assms(1) by (auto simp: seg_append)
  have sp: "8 dvd n" "8 dvd s" "0 < s" "n + s \<le> unat (reg_max r)" "spaced (n + s + 1) (unat (reg_max r)) bs"
    using assms(2) by (auto simp: spaced_append)
  have "node_next m a = NULL \<or> a < node_next m a"
    using a(3,5) sp(5) by (cases bs) (auto simp: word_less_nat_alt)
  then have "node_asserts r m a"
    using a sp by (auto simp: node_asserts_def aligned_iff word_less_nat_alt)
  moreover have "of_nat n = a" using a(3) by auto
  ultimately show thesis using that a get_ptr[OF a(1)] by blast
qed

lemma alloc_skip:
  assumes "seg m (reg_nodes r) (as @ bs @ cs) NULL" "spaced lo (unat (reg_max r)) (as @ bs @ cs)"
    and "\<And>p. p \<in> set bs \<Longrightarrow> snd p < unat z"
  shows "alloc_nodes z (ptr_to as) r m = alloc_nodes z (ptr_to (as @ bs)) r m"
  using assms
proof (induction bs arbitrary: as)
  case (Cons p bs)
  obtain n s where p: "p = (n, s)" by fastforce
  obtain a where a: "get_nodep (ptr_to as) r m = a" "a \<noteq> NULL" "unat (node_size m a) = s" "node_asserts r m a" "of_nat n = a"
    using node_ok[of m r as n s "bs @ cs"] Cons.prems(1,2) unfolding p by auto
  have "\<not> z \<le> node_size m a" using Cons.prems(3)[of p] a(3) by (simp add: p word_le_nat_alt)
  then have "alloc_nodes z (ptr_to as) r m = alloc_nodes z (Next_of a) r m"
    using a by (subst alloc_nodes.simps) (simp add: Let_def)
  also have "Next_of a = ptr_to (as @ [p])" using a(5) by (simp add: ptr_to_def p)
  also have "alloc_nodes z (ptr_to (as @ [p])) r m = alloc_nodes z (ptr_to ((as @ [p]) @ bs)) r m"
    by (rule Cons.IH) (use Cons.prems in auto)
  finally show ?case by simp
qed simp

lemma apart:
  "(A :: nat set) \<subseteq> {n..<k} \<Longrightarrow> B \<subseteq> {lo..<n} \<Longrightarrow> A \<inter> B = {}"
  "(A :: nat set) \<subseteq> {n..<k} \<Longrightarrow> B \<subseteq> {k + 1..<hi} \<Longrightarrow> A \<inter> B = {}"
  "(A :: nat set) \<subseteq> {lo..<n} \<Longrightarrow> B \<subseteq> {k + 1..<hi} \<Longrightarrow> n \<le> k \<Longrightarrow> A \<inter> B = {}"
  by (fastforce simp: subset_iff)+

text \<open>What is left of the node from which \<open>z\<close> bytes are taken.\<close>

definition cut_head :: "nat \<Rightarrow> nat \<times> nat \<Rightarrow> blocks" where
  "cut_head z p = (if z < snd p then [(fst p + z, snd p - z)] else [])"

lemma cut_head_covers:
  assumes "spaced lo hi (as @ (n, s) # bs)" "z \<le> s" "0 < z"
  shows "covers (as @ cut_head z (n, s) @ bs) = covers (as @ (n, s) # bs) - {n..<n + z}"
  using spaced_before[OF assms(1)] spaced_after[OF assms(1)] assms(2,3) by (auto simp: cut_head_def)

lemma cut_head_spaced:
  assumes "spaced lo hi (as @ (n, s) # bs)" "z \<le> s" "8 dvd z"
  shows "spaced lo hi (as @ cut_head z (n, s) @ bs)"
proof -
  have "spaced (n + s + 1) hi bs" using assms(1) by (auto simp: spaced_append)
  then have "spaced l hi bs" if "l \<le> n + s + 1" for l using that by (rule spaced_mono)
  then show ?thesis using assms by (auto simp: spaced_append cut_head_def)
qed

lemma set_node_beyond:
  assumes "seg m a ns b" "spaced lo hi ns" "8 dvd unat e" "covers ns \<inter> {unat e..<unat e + 8} = {}"
  shows "seg (set_node e x y m) a ns b"
  by (rule seg_update[OF assms(1,2), of "{unat e..<unat e + 8}"]) (use assms(3,4) in \<open>auto intro: set_node_out\<close>)

lemma alloc_take:
  assumes "seg m (reg_nodes r) (as @ (n, s) # bs) NULL" "spaced lo (unat (reg_max r)) (as @ (n, s) # bs)"
    and "unat z \<le> s" "z \<noteq> 0" "8 dvd unat z" "z \<le> reg_free r"
  shows "\<exists>m' nd. alloc_nodes z (ptr_to as) r m = Some (of_nat n, r\<lparr>reg_nodes := nd, reg_free := reg_free r - z\<rparr>, m') \<and>
    seg m' nd (as @ cut_head (unat z) (n, s) @ bs) NULL \<and>
    (\<forall>x. unat x \<notin> covers (as @ cut_head (unat z) (n, s)) \<longrightarrow> m' x = m x)"
proof -
  obtain a where a: "get_nodep (ptr_to as) r m = a" "a \<noteq> NULL" "unat a = n" "unat (node_size m a) = s"
    "node_asserts r m a" "seg m (reg_nodes r) as a" "seg m (node_next m a) bs NULL" "of_nat n = a"
    using node_ok[OF assms(1,2)] by blast
  have sp: "spaced lo (unat (reg_max r)) as" "8 dvd n" "8 dvd s" "n + s \<le> unat (reg_max r)"
    "spaced (n + s + 1) (unat (reg_max r)) bs"
    using assms(2) by (auto simp: spaced_append)
  note before = spaced_before[OF assms(2)] and after = spaced_after[OF assms(2)]
  have le: "z \<le> node_size m a" using assms(3) a(4) by (simp add: word_le_nat_alt)
  define c where "c = (if z < node_size m a then a + z else node_next m a)"
  define m1 where "m1 = (if z < node_size m a then set_node (a + z) (node_next m a) (node_size m a - z) m else m)"
  have lt: "z < node_size m a \<longleftrightarrow> unat z < s" using a(4) by (simp add: word_less_nat_alt)
  have big: "n + unat z < 2 ^ 32" if "unat z < s" using that sp(4) unat_lt32[of "reg_max r"] by simp
  then have az: "unat (a + z) = n + unat z" if "unat z < s" using that a(3) by (simp add: unat_add_no_wrap)
  have d: "8 dvd n + unat z" using sp(2) assms(5) by simp
  have room: "8 \<le> s - unat z" if "unat z < s"
    using that sp(3) assms(5) by (auto simp: dvd_imp_le)
  have out1: "m1 x = m x" if "unat x \<notin> covers (cut_head (unat z) (n, s))" for x
    using set_node_out[of "a + z" x] az d room that by (auto simp: m1_def lt cut_head_def)
  have inside: "covers (cut_head (unat z) (n, s)) \<subseteq> {n..<n + s}" by (auto simp: cut_head_def)
  have pre: "seg m1 (reg_nodes r) as a" by (rule seg_update[OF a(6) sp(1) out1 apart(1)[OF inside before]])
  have post: "seg m1 (node_next m a) bs NULL" by (rule seg_update[OF a(7) sp(5) out1 apart(2)[OF inside after]])
  obtain m' nd where set: "set_nodep (ptr_to as) c (r, m1) = (r\<lparr>reg_nodes := nd\<rparr>, m')" "seg m' nd as c"
    "\<And>x. unat x \<notin> covers as \<Longrightarrow> m' x = m1 x"
    using set_ptr[OF pre sp(1)] by blast
  have run: "alloc_nodes z (ptr_to as) r m = Some (of_nat n, r\<lparr>reg_nodes := nd, reg_free := reg_free r - z\<rparr>, m')"
    using a le set(1) assms(6) by (subst alloc_nodes.simps) (auto simp: Let_def c_def m1_def)
  have "seg m' c (cut_head (unat z) (n, s)) (node_next m a)"
  proof (cases "unat z < s")
    case True
    have dz: "8 dvd unat (a + z)" using az[OF True] d by simp
    have same: "node_next m' (a + z) = node_next m1 (a + z)" "node_size m' (a + z) = node_size m1 (a + z)"
      by (rule node_same[OF dz], rule set(3), use az[OF True] before in fastforce)+
    have "unat (node_size m a - z) = s - unat z" using le a(4) by (simp add: unat_sub_le)
    moreover have "a + z \<noteq> NULL" using az[OF True] True assms(4) by (metis a(2,3) add_is_0 unat_eq_0)
    ultimately show ?thesis
      using True same az[OF True] set_node_get[OF dz] by (simp add: cut_head_def c_def m1_def lt)
  qed (simp add: cut_head_def c_def lt)
  moreover have "seg m' (node_next m a) bs NULL"
    by (rule seg_update[OF post sp(5) set(3) apart(3)[OF before after]]) simp_all
  ultimately have "seg m' nd (as @ cut_head (unat z) (n, s) @ bs) NULL" using set(2) by (auto simp: seg_append)
  moreover have "m' x = m x" if "unat x \<notin> covers (as @ cut_head (unat z) (n, s))" for x
    using set(3)[of x] out1[of x] that by auto
  ultimately show ?thesis using run by blast
qed

section \<open>Release into a list\<close>

text \<open>The specification: the block between the blocks before it and those after it, joined to its neighbours.\<close>

fun join_next :: "nat \<times> nat \<Rightarrow> blocks \<Rightarrow> blocks" where
  "join_next p [] = [p]"
| "join_next p (q # bs) = (if fst p + snd p = fst q then (fst p, snd p + snd q) # bs else p # q # bs)"

definition join :: "blocks \<Rightarrow> nat \<times> nat \<Rightarrow> blocks \<Rightarrow> blocks" where
  "join as p bs =
     (if as \<noteq> [] \<and> fst (last as) + snd (last as) = fst p
      then butlast as @ join_next (fst (last as), snd (last as) + snd p) bs
      else as @ join_next p bs)"

definition fits :: "nat \<Rightarrow> nat \<Rightarrow> blocks \<Rightarrow> nat \<times> nat \<Rightarrow> blocks \<Rightarrow> bool" where
  "fits lo hi as p bs \<longleftrightarrow> spaced lo hi (as @ bs) \<and> 8 dvd fst p \<and> 8 dvd snd p \<and> 0 < snd p \<and> lo \<le> fst p \<and>
     fst p + snd p \<le> hi \<and> (as \<noteq> [] \<longrightarrow> fst (last as) + snd (last as) \<le> fst p) \<and>
     (bs \<noteq> [] \<longrightarrow> fst p + snd p \<le> fst (hd bs))"

lemma interval_split: "{(n :: nat)..<n + (z + s)} = {n..<n + z} \<union> {n + z..<n + z + s}"
  by (simp add: ivl_disj_un add.assoc)

lemma join_next_props:
  assumes "lo \<le> n" "8 dvd n" "8 dvd z" "0 < z" "n + z \<le> hi" "spaced l hi bs" "bs \<noteq> [] \<longrightarrow> n + z \<le> fst (hd bs)"
  shows "spaced lo hi (join_next (n, z) bs)" "covers (join_next (n, z) bs) = {n..<n + z} \<union> covers bs"
    "sum_list (map snd (join_next (n, z) bs)) = z + sum_list (map snd bs)"
proof -
  have "spaced lo hi (join_next (n, z) bs) \<and> covers (join_next (n, z) bs) = {n..<n + z} \<union> covers bs \<and>
    sum_list (map snd (join_next (n, z) bs)) = z + sum_list (map snd bs)"
  proof (cases bs)
    case (Cons p cs)
    obtain n2 s2 where p: "p = (n2, s2)" by fastforce
    have sp: "8 dvd n2" "8 dvd s2" "n2 + s2 \<le> hi" "spaced (n2 + s2 + 1) hi cs" "n + z \<le> n2" "0 < s2"
      using assms(6,7) by (simp_all add: Cons p)
    show ?thesis
    proof (cases "n + z = n2")
      case True
      then have n2: "n2 = n + z" by simp
      show ?thesis using assms(1-4) sp interval_split[of n z s2]
        by (simp add: Cons p Un_assoc n2 add.assoc)
    next
      case False
      then show ?thesis using assms(1-5) sp by (simp add: Cons p)
    qed
  qed (use assms in simp)
  then show "spaced lo hi (join_next (n, z) bs)" "covers (join_next (n, z) bs) = {n..<n + z} \<union> covers bs"
    "sum_list (map snd (join_next (n, z) bs)) = z + sum_list (map snd bs)" by blast+
qed

lemma join_props:
  assumes "fits lo hi as (n, z) bs"
  shows "spaced lo hi (join as (n, z) bs)" "covers (join as (n, z) bs) = covers as \<union> {n..<n + z} \<union> covers bs"
    "sum_list (map snd (join as (n, z) bs)) = sum_list (map snd as) + z + sum_list (map snd bs)"
proof -
  have f: "spaced lo hi (as @ bs)" "8 dvd n" "8 dvd z" "0 < z" "lo \<le> n" "n + z \<le> hi"
    "as \<noteq> [] \<longrightarrow> fst (last as) + snd (last as) \<le> n" "bs \<noteq> [] \<longrightarrow> n + z \<le> fst (hd bs)"
    using assms by (auto simp: fits_def)
  obtain l where bs: "spaced l hi bs" using f(1) by (auto simp: spaced_append)
  have "spaced lo hi (join as (n, z) bs) \<and> covers (join as (n, z) bs) = covers as \<union> {n..<n + z} \<union> covers bs \<and>
    sum_list (map snd (join as (n, z) bs)) = sum_list (map snd as) + z + sum_list (map snd bs)"
  proof (cases as rule: rev_cases)
    case Nil
    then show ?thesis using join_next_props[OF f(5,2,3,4,6) bs f(8)] by (simp add: join_def)
  next
    case (snoc xs p)
    obtain q s where p: "p = (q, s)" by fastforce
    define l' where "l' = (if xs = [] then lo else fst (last xs) + snd (last xs) + 1)"
    have sp: "spaced lo hi xs" "l' \<le> q" "8 dvd q" "8 dvd s" "0 < s" "q + s \<le> n" "lo \<le> q"
      using f(1,7) spaced_member[OF f(1), of q s] by (auto simp: snoc p spaced_append l'_def)
    show ?thesis
    proof (cases "q + s = n")
      case True
      have "q + (s + z) \<le> hi" "bs \<noteq> [] \<longrightarrow> q + (s + z) \<le> fst (hd bs)" using True f(6,8) by auto
      then have "spaced l' hi (join_next (q, s + z) bs)" "covers (join_next (q, s + z) bs) = {q..<q + (s + z)} \<union> covers bs"
        "sum_list (map snd (join_next (q, s + z) bs)) = s + z + sum_list (map snd bs)"
        using sp f(3) bs by (intro join_next_props[of l' q "s + z" hi l bs]; simp)+
      moreover have "join as (n, z) bs = xs @ join_next (q, s + z) bs" using True by (simp add: join_def snoc p)
      ultimately show ?thesis using sp(1) True interval_split[of q s z]
        by (simp add: snoc p spaced_append l'_def Un_assoc)
    next
      case False
      then have "q + s + 1 \<le> n" using sp(6) by simp
      note nxt = join_next_props[OF this f(2,3,4,6) bs f(8)]
      moreover have "join as (n, z) bs = as @ join_next (n, z) bs" using False by (simp add: join_def snoc p)
      moreover have "spaced lo hi as" using f(1) by (simp add: spaced_append)
      ultimately show ?thesis by (simp add: spaced_append) (simp add: snoc p Un_assoc)
    qed
  qed
  then show "spaced lo hi (join as (n, z) bs)" "covers (join as (n, z) bs) = covers as \<union> {n..<n + z} \<union> covers bs"
    "sum_list (map snd (join as (n, z) bs)) = sum_list (map snd as) + z + sum_list (map snd bs)" by blast+
qed

lemma free_position_run:
  assumes "seg m a (as @ bs) NULL" "\<And>p. p \<in> set as \<Longrightarrow> fst p < unat node"
    and "bs \<noteq> [] \<longrightarrow> unat node \<le> fst (hd bs)"
  obtains b where "free_position node prevn a m = Some (if as = [] then prevn else of_nat (fst (last as)), b)"
    "seg m a as b" "seg m b bs NULL"
proof -
  have "\<exists>b. free_position node prevn a m = Some (if as = [] then prevn else of_nat (fst (last as)), b) \<and>
    seg m a as b \<and> seg m b bs NULL"
    using assms
  proof (induction as arbitrary: a prevn)
    case Nil
    then have "\<not> (a \<noteq> NULL \<and> a < node)" by (cases bs) (auto simp: word_less_nat_alt)
    then show ?case using Nil by (subst free_position.simps) auto
  next
    case (Cons p as)
    obtain n s where p: "p = (n, s)" by fastforce
    have a: "a \<noteq> NULL" "unat a = n" "seg m (node_next m a) (as @ bs) NULL" "unat (node_size m a) = s"
      using Cons.prems(1) by (auto simp: p)
    have "a < node" using Cons.prems(2)[of p] a(2) by (simp add: p word_less_nat_alt)
    then have "free_position node prevn a m = free_position node a (node_next m a) m"
      using a(1) by (subst free_position.simps) simp
    moreover obtain b where "free_position node a (node_next m a) m = Some (if as = [] then a else of_nat (fst (last as)), b)"
      "seg m (node_next m a) as b" "seg m b bs NULL"
      using Cons.IH[OF a(3), of a] Cons.prems(2,3) by auto
    moreover have "of_nat n = a" using a(2) by auto
    ultimately show ?case using a by (auto simp: p)
  qed
  then show thesis using that by blast
qed

text \<open>What the code writes for the new or grown block \<open>e\<close> of size \<open>sz\<close> that is followed by \<open>nxt\<close>.\<close>

definition write_joined :: "addr \<Rightarrow> u32 \<Rightarrow> addr \<Rightarrow> bytes \<Rightarrow> bytes" where
  "write_joined e sz nxt m =
     (if nxt \<noteq> NULL \<and> unat e + unat sz = unat nxt
      then st32 e (node_next m nxt) (st32 (e + 4) (sz + node_size m nxt) m)
      else st32 e nxt (st32 (e + 4) sz m))"

lemma write_joined_seg:
  assumes "8 dvd unat e" "e \<noteq> NULL" "8 dvd unat sz" "0 < unat sz" "unat e + unat sz \<le> hi" "hi < 2 ^ 32"
    and "seg m nxt bs NULL" "spaced l hi bs" "bs \<noteq> [] \<longrightarrow> unat e + unat sz \<le> fst (hd bs)"
  shows "seg (write_joined e sz nxt m) e (join_next (unat e, unat sz) bs) NULL"
    "\<And>x. \<not> (unat e \<le> unat x \<and> unat x < unat e + 8) \<Longrightarrow> write_joined e sz nxt m x = m x"
proof -
  show out: "write_joined e sz nxt m x = m x" if "\<not> (unat e \<le> unat x \<and> unat x < unat e + 8)" for x
    using set_next_out[OF assms(1) that] by (simp add: write_joined_def)
  have s8: "8 \<le> unat sz" using assms(3,4) by (simp add: dvd_imp_le)
  show "seg (write_joined e sz nxt m) e (join_next (unat e, unat sz) bs) NULL"
  proof (cases bs)
    case Nil
    then show ?thesis using assms(2,7) set_next_get[OF assms(1)] by (simp add: write_joined_def)
  next
    case (Cons p cs)
    obtain n2 s2 where p: "p = (n2, s2)" by fastforce
    have nx: "nxt \<noteq> NULL" "unat nxt = n2" "unat (node_size m nxt) = s2" "seg m (node_next m nxt) cs NULL"
      using assms(7) by (auto simp: Cons p)
    have sp: "8 dvd unat nxt" "n2 + s2 \<le> hi" "spaced (n2 + s2 + 1) hi cs" "8 \<le> s2" "unat e + unat sz \<le> n2"
      using assms(8,9) nx(2) by (auto simp: Cons p dvd_imp_le)
    have bs: "spaced n2 hi bs" using assms(8) by (simp add: Cons p)
    have keep: "seg (write_joined e sz nxt m) a' ns' NULL" if "seg m a' ns' NULL" "spaced n2 hi ns'" for a' ns'
    proof (rule seg_same[OF that])
      fix x :: u32 assume "unat x \<in> covers ns'"
      then have "n2 \<le> unat x" using spaced_covers[OF that(2)] by auto
      then show "write_joined e sz nxt m x = m x" by (intro out) (use sp(5) s8 in linarith)
    qed
    show ?thesis
    proof (cases "unat e + unat sz = n2")
      case True
      have "unat sz + s2 < 2 ^ 32" using True sp(2) assms(6) by linarith
      then have "unat (sz + node_size m nxt) = unat sz + s2" using nx(3) by (simp add: unat_add_no_wrap)
      moreover have "spaced n2 hi cs" by (rule spaced_mono[OF sp(3)]) simp
      then have "seg (write_joined e sz nxt m) (node_next m nxt) cs NULL" by (rule keep[OF nx(4)])
      ultimately show ?thesis using True nx(1,2) assms(2) set_next_get[OF assms(1)]
        by (simp add: Cons p write_joined_def)
    next
      case False
      have "node_next (write_joined e sz nxt m) e = nxt" "node_size (write_joined e sz nxt m) e = sz"
        using False nx(2) set_next_get[OF assms(1)] by (auto simp: write_joined_def)
      then show ?thesis using False assms(2) keep[OF assms(7) bs] by (simp add: Cons p)
    qed
  qed
qed

lemma free_into_region_run:
  assumes "seg m (reg_nodes r) (as @ bs) NULL"
    and "fits (unat (reg_min r)) (unat (reg_max r)) as (unat node, unat sz) bs"
    and "node \<noteq> NULL" "reg_min r \<le> reg_max r" "unat (reg_free r) = sum_list (map snd (as @ bs))"
  shows "\<exists>m' nd. free_into_region node sz r m = Some (r\<lparr>reg_nodes := nd, reg_free := reg_free r + sz\<rparr>, m') \<and>
    seg m' nd (join as (unat node, unat sz) bs) NULL \<and>
    unat (reg_free r + sz) = sum_list (map snd (join as (unat node, unat sz) bs)) \<and>
    (\<forall>x. unat x \<notin> covers as \<union> {unat node..<unat node + unat sz} \<longrightarrow> m' x = m x)"
proof -
  let ?lo = "unat (reg_min r)" and ?hi = "unat (reg_max r)" and ?n = "unat node" and ?z = "unat sz"
  note J = join_props[OF assms(2)]
  have f: "spaced ?lo ?hi (as @ bs)" "8 dvd ?n" "8 dvd ?z" "0 < ?z" "?lo \<le> ?n" "?n + ?z \<le> ?hi"
    "as \<noteq> [] \<longrightarrow> fst (last as) + snd (last as) \<le> ?n" "bs \<noteq> [] \<longrightarrow> ?n + ?z \<le> fst (hd bs)"
    using assms(2) by (auto simp: fits_def)
  have hi: "?hi < 2 ^ 32" using unat_lt32 by simp
  obtain l where bs: "spaced l ?hi bs" using f(1) by (auto simp: spaced_append)
  have as: "spaced ?lo ?hi as" using f(1) by (simp add: spaced_append)
  have "sum_list (map snd (join as (?n, ?z) bs)) \<le> ?hi - ?lo"
    using spaced_sum[OF J(1)] assms(4) by (simp add: word_le_nat_alt)
  then have fr: "unat (reg_free r) + ?z \<le> ?hi - ?lo" using J(3) assms(5) by simp
  then have free: "unat (reg_free r + sz) = unat (reg_free r) + ?z" using hi by (subst unat_add_no_wrap) auto
  have free_ok: "reg_free r + sz \<le> reg_max r - reg_min r"
    using fr free assms(4) by (simp add: word_le_nat_alt unat_sub_le)
  have sum: "unat (reg_free r + sz) = sum_list (map snd (join as (?n, ?z) bs))" using free J(3) assms(5) by simp
  define prv where "prv = (if as = [] then NULL else of_nat (fst (last as)) :: addr)"
  have lt: "fst p < ?n" if "p \<in> set as" for p
  proof -
    obtain q s where p: "p = (q, s)" by fastforce
    have "q \<in> covers as" using that spaced_member[OF as, of q s] by (force simp: covers_def p)
    moreover have "covers as \<subseteq> {?lo..<?n}" using covers_below[OF as] f(7) by blast
    ultimately show ?thesis by (auto simp: p)
  qed
  obtain nxt where pos: "free_position node NULL (reg_nodes r) m = Some (prv, nxt)" "seg m (reg_nodes r) as nxt"
    "seg m nxt bs NULL"
    unfolding prv_def by (rule free_position_run[OF assms(1) lt]) (use f(4,8) in auto)
  have nx: "nxt \<noteq> NULL \<Longrightarrow> ?n + ?z \<le> unat nxt" using pos(3) f(8) by (cases bs) auto
  have nsz: "unat (node + sz) = ?n + ?z" using f(6) hi by (simp add: unat_add_no_wrap)
  have ge: "nxt \<noteq> NULL \<Longrightarrow> node + sz \<ge> nxt \<longleftrightarrow> ?n + ?z = unat nxt" "node + sz = nxt \<longleftrightarrow> ?n + ?z = unat nxt"
    using nx nsz by (auto simp: word_le_nat_alt word_unat_eq_iff)
  show ?thesis
  proof (cases "as \<noteq> [] \<and> fst (last as) + snd (last as) = ?n")
    case True
    then obtain xs q s where snoc: "as = xs @ [(q, s)]" "q + s = ?n" by (cases as rule: rev_cases) auto
    obtain e where e: "seg m (reg_nodes r) xs e" "e \<noteq> NULL" "unat e = q" "unat (node_size m e) = s" "node_next m e = nxt"
      using pos(2) by (auto simp: snoc seg_append)
    have sp: "8 dvd q" "8 dvd s" "0 < s" "spaced ?lo ?hi xs" using as by (auto simp: snoc spaced_append)
    have prv: "prv = e" using e(3) by (auto simp: prv_def snoc)
    have grown: "unat (node_size m e + sz) = s + ?z"
      using e(4) snoc(2) f(6) hi by (subst unat_add_no_wrap) auto
    let ?m = "write_joined e (node_size m e + sz) nxt m"
    have run: "free_into_region node sz r m = Some (r\<lparr>reg_free := reg_free r + sz\<rparr>, ?m)"
    proof -
      have end_prv: "e + node_size m e = node"
        using e(3,4) snoc(2) unat_lt32[of node] by (simp add: word_unat_eq_iff unat_add_no_wrap)
      have d: "8 dvd unat e" "nxt \<noteq> NULL \<Longrightarrow> 8 dvd unat nxt" using sp(1) e(3) pos(3) bs by (cases bs; auto)+
      have skip: "st32 e nxt (st32 (e + 4) v m) = st32 (e + 4) v m" for v
        using st32_ld32_id[of e "st32 (e + 4) v m"] e(5) set_next_get(3)[OF d(1), of v m] unfolding node_next_def by metis
      show ?thesis
        using free_ok e(2) end_prv nx ge grown snoc(2) e(3) node_next_beside[OF d] skip
        by (auto simp: free_into_region_def pos(1) prv write_joined_def Let_def ac_simps)
    qed
    have d: "8 dvd unat e" using sp(1) e(3) by simp
    have "8 dvd unat (node_size m e + sz)" "0 < unat (node_size m e + sz)"
      "unat e + unat (node_size m e + sz) \<le> ?hi" "bs \<noteq> [] \<longrightarrow> unat e + unat (node_size m e + sz) \<le> fst (hd bs)"
      using grown sp(2,3) f(3,6,8) e(3) snoc(2) by auto
    note W = write_joined_seg[OF d e(2) this(1,2,3) hi pos(3) bs this(4)]
    have "seg ?m (reg_nodes r) xs e"
    proof (rule seg_same[OF e(1) sp(4)])
      fix x :: u32 assume "unat x \<in> covers xs"
      then have "unat x < q" using spaced_before[of ?lo ?hi xs q s "[]"] as by (auto simp: snoc)
      then show "?m x = m x" by (intro W(2)) (simp add: e(3))
    qed
    then have "seg ?m (reg_nodes r) (join as (?n, ?z) bs) NULL"
      using W(1) snoc(2) e(3) grown by (auto simp: snoc(1) join_def seg_append)
    moreover have "?m x = m x" if "unat x \<notin> covers as \<union> {?n..<?n + ?z}" for x
      by (rule W(2)) (use that sp(2,3) e(3) in \<open>auto simp: snoc(1) dest!: dvd_imp_le\<close>)
    moreover have "r\<lparr>reg_free := reg_free r + sz\<rparr> = r\<lparr>reg_nodes := reg_nodes r, reg_free := reg_free r + sz\<rparr>" by simp
    ultimately show ?thesis using run sum by (intro exI[of _ ?m] exI[of _ "reg_nodes r"]) auto
  next
    case False
    obtain m1 nd where set: "set_nodep (ptr_to as) node (r, m) = (r\<lparr>reg_nodes := nd\<rparr>, m1)" "seg m1 nd as node"
      "\<And>x. unat x \<notin> covers as \<Longrightarrow> m1 x = m x"
      using set_ptr[OF pos(2) as] by blast
    let ?m = "write_joined node sz nxt m1"
    have as_below: "covers as \<subseteq> {?lo..<?n}" using covers_below[OF as] f(7) by blast
    have bs_above: "covers bs \<subseteq> {?n + ?z..<?hi}" using covers_above[OF bs] f(8) by blast
    have "seg m1 nxt bs NULL"
      by (rule seg_same[OF pos(3) bs], rule set(3)) (use subsetD[OF as_below] subsetD[OF bs_above] in fastforce)
    note W = write_joined_seg[OF f(2) assms(3) f(3,4,6) hi this bs f(8)]
    have "seg ?m nd as node" by (rule seg_same[OF set(2) as], rule W(2)) (use subsetD[OF as_below] in fastforce)
    then have "seg ?m nd (join as (?n, ?z) bs) NULL" using W(1) False by (auto simp: join_def seg_append)
    moreover have "?m x = m x" if "unat x \<notin> covers as \<union> {?n..<?n + ?z}" for x
      using set(3)[of x] W(2)[of x] that f(3,4) by (auto dest!: dvd_imp_le)
    moreover have "free_into_region node sz r m = Some (r\<lparr>reg_nodes := nd, reg_free := reg_free r + sz\<rparr>, ?m)"
    proof -
      have prev: "\<not> (prv \<noteq> NULL \<and> prv + node_size m prv \<ge> node) \<and>
        (if prv \<noteq> NULL then (r0, st32 prv node m) else (r0\<lparr>reg_nodes := node\<rparr>, m)) = set_nodep (ptr_to as) node (r0, m)" for r0
      proof (cases as rule: rev_cases)
        case Nil
        then show ?thesis by (simp add: prv_def ptr_to_def set_nodep_def)
      next
        case (snoc xs y)
        obtain q s where y: "y = (q, s)" by fastforce
        obtain e where e: "e \<noteq> NULL" "unat e = q" "unat (node_size m e) = s"
          using pos(2) by (auto simp: snoc y seg_append)
        have "prv = e" using e(2) by (auto simp: prv_def snoc y)
        moreover have "q + s < ?n" using False f(7) by (auto simp: snoc y)
        then have "unat (e + node_size m e) < ?n" using e(2,3) unat_lt32[of node] by (simp add: unat_add_no_wrap)
        ultimately show ?thesis using e(1,2) by (auto simp: ptr_to_def set_nodep_def snoc y word_le_nat_alt)
      qed
      have set': "set_nodep (ptr_to as) node (r\<lparr>reg_free := reg_free r + sz\<rparr>, m) =
          (r\<lparr>reg_nodes := nd, reg_free := reg_free r + sz\<rparr>, m1)"
        using set(1) by (cases r) (auto simp: set_nodep_def split: nodep.splits)
      have d: "nxt \<noteq> NULL \<Longrightarrow> 8 dvd unat nxt" using pos(3) bs by (cases bs) auto
      have body: "(if nxt \<noteq> NULL \<and> nxt \<le> node + sz
          then st32 node (node_next (st32 (node + 4) (sz + node_size m1 nxt) m1) nxt) (st32 (node + 4) (sz + node_size m1 nxt) m1)
          else st32 node nxt (st32 (node + 4) sz m1)) = ?m"
      proof (cases "nxt \<noteq> NULL \<and> nxt \<le> node + sz")
        case True
        then have "?n + ?z = unat nxt" using ge(1) by simp
        with True show ?thesis using node_next_beside[OF f(2) d] by (simp add: write_joined_def)
      next
        case False
        then have "\<not> (nxt \<noteq> NULL \<and> ?n + ?z = unat nxt)" using ge(1) by auto
        with False show ?thesis by (simp only: write_joined_def if_False)
      qed
      have "node + sz \<noteq> nxt \<longrightarrow> \<not> (nxt \<noteq> NULL \<and> nxt \<le> node + sz)" using ge by auto
      show ?thesis
        unfolding free_into_region_def Let_def
        by (simp add: free_ok pos(1) prev[simplified not_le not_less] body[simplified] set' prev[THEN conjunct2] split del: if_split)
    qed
    ultimately show ?thesis using sum by (intro exI[of _ ?m] exI[of _ nd]) auto
  qed
qed

end
