(* ===== verification/Heap_Properties.thy ===== *)
theory Heap_Properties
  imports Heap_Lists Block_Allocator
begin

text \<open>
  The heap refines lists of free blocks, one list per region: allocation is first fit on them, release joins a
  block to its neighbours.  The invariant \<open>heap_inv\<close> relates a heap to its lists.
\<close>

section \<open>The invariant\<close>

definition region_ok :: "bytes \<Rightarrow> lmm_region \<Rightarrow> blocks \<Rightarrow> bool" where
  "region_ok m r ns \<longleftrightarrow> seg m (reg_nodes r) ns NULL \<and> spaced (unat (reg_min r)) (unat (reg_max r)) ns \<and>
     reg_min r < reg_max r \<and> unat (reg_free r) = sum_list (map snd ns)"

definition extent :: "lmm_region \<Rightarrow> nat set" where
  "extent r = {unat (reg_min r)..<unat (reg_max r)}"

fun heap_lists :: "bytes \<Rightarrow> lmm_region list \<Rightarrow> blocks list \<Rightarrow> bool" where
  "heap_lists m [] [] \<longleftrightarrow> True"
| "heap_lists m (r # rs) (ns # nss) \<longleftrightarrow>
     region_ok m r ns \<and> (\<forall>q \<in> set rs. reg_max q \<le> reg_min r \<or> reg_max r \<le> reg_min q) \<and> heap_lists m rs nss"
| "heap_lists m rs nss \<longleftrightarrow> False"

definition heap_inv :: "lmm \<Rightarrow> blocks list \<Rightarrow> bool" where
  "heap_inv h nss \<longleftrightarrow> heap_lists (hmem h) (regions h) nss"

definition free_of :: "blocks list \<Rightarrow> nat set" where
  "free_of nss = (\<Union>ns \<in> set nss. covers ns)"

lemma free_of_simps [simp]: "free_of [] = {}" "free_of (ns # nss) = covers ns \<union> free_of nss"
  by (auto simp: free_of_def)

definition shape :: "lmm_region \<Rightarrow> u32 \<times> u32 \<times> u32 \<times> u32" where
  "shape r = (reg_min r, reg_max r, reg_flags r, reg_pri r)"

lemma shape_update [simp]: "shape (r\<lparr>reg_nodes := a, reg_free := f\<rparr>) = shape r"
  by (simp add: shape_def)

lemma shape_extent: "shape q = shape r \<Longrightarrow> extent q = extent r"
  by (simp add: shape_def extent_def)

lemma region_ok_covers: "region_ok m r ns \<Longrightarrow> covers ns \<subseteq> extent r"
  by (auto simp: region_ok_def extent_def dest!: spaced_covers)

lemma region_ok_same:
  assumes "region_ok m r ns" "\<And>x. unat x \<in> extent r \<Longrightarrow> m' x = m x"
  shows "region_ok m' r ns"
  using assms region_ok_covers[OF assms(1)] by (auto simp: region_ok_def subset_iff intro: seg_same)

lemma region_ok_asserts: "region_ok m r ns \<Longrightarrow> region_asserts r"
proof -
  assume a: "region_ok m r ns"
  then have s: "spaced (unat (reg_min r)) (unat (reg_max r)) ns" "reg_min r < reg_max r"
    "unat (reg_free r) = sum_list (map snd ns)" "seg m (reg_nodes r) ns NULL"
    by (auto simp: region_ok_def)
  have "sum_list (map snd ns) \<le> unat (reg_max r) - unat (reg_min r)"
    using spaced_sum[OF s(1)] s(2) by (simp add: word_less_nat_alt)
  then have "reg_free r \<le> reg_max r - reg_min r" using s(3) unat_sub_le[OF less_imp_le[OF s(2)]] by (simp add: word_le_nat_alt)
  moreover have "reg_nodes r = NULL \<and> reg_free r = 0 \<or> reg_nodes r \<ge> reg_min r"
    using s(1,3,4) by (cases ns) (auto simp: word_le_nat_alt unat_eq_0[symmetric] simp del: unat_eq_0)
  ultimately show ?thesis by (simp add: region_asserts_def)
qed

lemma heap_lists_extent: "heap_lists m rs nss \<Longrightarrow> free_of nss \<subseteq> (\<Union>r \<in> set rs. extent r)"
  by (induction m rs nss rule: heap_lists.induct) (auto dest!: region_ok_covers)

text \<open>Regions do not overlap, so that a change in one does not matter to the others.\<close>

lemma heap_lists_apart:
  assumes "\<forall>q \<in> set rs. reg_max q \<le> reg_min r \<or> reg_max r \<le> reg_min q"
  shows "extent r \<inter> (\<Union>q \<in> set rs. extent q) = {}"
  using assms by (fastforce simp: extent_def word_le_nat_alt)

lemma heap_lists_same:
  assumes "heap_lists m rs nss" "\<And>x. unat x \<in> (\<Union>r \<in> set rs. extent r) \<Longrightarrow> m' x = m x"
  shows "heap_lists m' rs nss"
  using assms by (induction m rs nss rule: heap_lists.induct) (auto intro: region_ok_same)

section \<open>Allocation\<close>

text \<open>The specification: the first block that is large enough, of the first region that has one and all the flags.\<close>

fun take_first :: "nat \<Rightarrow> blocks \<Rightarrow> (nat \<times> blocks) option" where
  "take_first z [] = None"
| "take_first z (p # ns) =
     (if z \<le> snd p then Some (fst p, cut_head z p @ ns)
      else map_option (\<lambda>(a, ns). (a, p # ns)) (take_first z ns))"

fun alloc_spec :: "nat \<Rightarrow> u32 \<Rightarrow> u32 list \<Rightarrow> blocks list \<Rightarrow> nat \<times> blocks list" where
  "alloc_spec z flgs (f # fs) (ns # nss) =
     (case (if flgs AND NOT f \<noteq> 0 then None else take_first z ns) of
        Some (a, ns) \<Rightarrow> (a, ns # nss)
      | None \<Rightarrow> let (a, nss) = alloc_spec z flgs fs nss in (a, ns # nss))"
| "alloc_spec z flgs fs nss = (0, nss)"

lemma take_first_None: "take_first z ns = None \<longleftrightarrow> (\<forall>p \<in> set ns. snd p < z)"
  by (induction ns) auto

lemma take_first_Some:
  assumes "take_first z ns = Some (n, ns')"
  shows "\<exists>as s bs. ns = as @ (n, s) # bs \<and> ns' = as @ cut_head z (n, s) @ bs \<and> z \<le> s \<and> (\<forall>p \<in> set as. snd p < z)"
  using assms
proof (induction ns arbitrary: ns')
  case (Cons p ns)
  show ?case
  proof (cases "z \<le> snd p")
    case True
    then show ?thesis using Cons.prems by (intro exI[of _ "[]"] exI[of _ "snd p"] exI[of _ ns]) (cases p; auto)
  next
    case False
    then obtain ns1 where "take_first z ns = Some (n, ns1)" "ns' = p # ns1" using Cons.prems by auto
    with Cons.IH obtain as s bs where "ns = as @ (n, s) # bs" "ns' = p # as @ cut_head z (n, s) @ bs" "z \<le> s"
      "\<forall>p \<in> set as. snd p < z"
      by blast
    then show ?thesis using False by (intro exI[of _ "p # as"] exI[of _ s] exI[of _ bs]) auto
  qed
qed simp

lemma take_first_member: "take_first z ns = Some (n, ns') \<Longrightarrow> \<exists>s. (n, s) \<in> set ns \<and> z \<le> s"
  by (drule take_first_Some) auto

lemma ptr_to_Nil [simp]: "ptr_to [] = Reg_nodes"
  by (simp add: ptr_to_def)

lemma region_alloc_none:
  assumes "region_ok m r ns" "take_first (unat z) ns = None"
  shows "alloc_nodes z Reg_nodes r m = Some (NULL, r, m)"
proof -
  have s: "seg m (reg_nodes r) ns NULL" "spaced (unat (reg_min r)) (unat (reg_max r)) ns"
    using assms(1) by (auto simp: region_ok_def)
  have "alloc_nodes z Reg_nodes r m = alloc_nodes z (ptr_to ns) r m"
    using alloc_skip[of m r "[]" ns "[]" _ z] s assms(2) by (auto simp: take_first_None)
  also have "\<dots> = Some (NULL, r, m)" using get_ptr[OF s(1)] by (subst alloc_nodes.simps) simp
  finally show ?thesis .
qed

lemma region_alloc_some:
  assumes "region_ok m r ns" "take_first (unat z) ns = Some (n, ns')" "z \<noteq> 0" "8 dvd unat z"
  obtains r' m' where "alloc_nodes z Reg_nodes r m = Some (of_nat n, r', m')" "region_ok m' r' ns'" "shape r' = shape r"
    "\<And>x. unat x \<notin> covers ns' \<Longrightarrow> m' x = m x" "0 < n" "n < 2 ^ 32"
    "covers ns' = covers ns - {n..<n + unat z}" "{n..<n + unat z} \<subseteq> covers ns" "8 dvd n"
proof -
  obtain as s bs where ns: "ns = as @ (n, s) # bs" "ns' = as @ cut_head (unat z) (n, s) @ bs" "unat z \<le> s"
    "\<forall>p \<in> set as. snd p < unat z"
    using take_first_Some[OF assms(2)] by blast
  have s: "seg m (reg_nodes r) ns NULL" "spaced (unat (reg_min r)) (unat (reg_max r)) ns" "reg_min r < reg_max r"
    "unat (reg_free r) = sum_list (map snd ns)"
    using assms(1) by (auto simp: region_ok_def)
  have skip: "alloc_nodes z Reg_nodes r m = alloc_nodes z (ptr_to as) r m"
    using alloc_skip[of m r "[]" as "(n, s) # bs" _ z] s(1,2) ns(1,4) by auto
  have le: "z \<le> reg_free r" using s(4) ns(1,3) by (simp add: word_le_nat_alt)
  obtain m' nd where run: "alloc_nodes z (ptr_to as) r m =
      Some (of_nat n, r\<lparr>reg_nodes := nd, reg_free := reg_free r - z\<rparr>, m')" "seg m' nd ns' NULL"
    "\<forall>x. unat x \<notin> covers (as @ cut_head (unat z) (n, s)) \<longrightarrow> m' x = m x"
    using alloc_take[OF s(1,2)[unfolded ns(1)] ns(3) assms(3,4) le] unfolding ns(2) by blast
  have z: "0 < unat z" using assms(3) by (simp add: unat_gt_0)
  have sp: "spaced (unat (reg_min r)) (unat (reg_max r)) ns'"
    using cut_head_spaced[OF s(2)[unfolded ns(1)] ns(3) assms(4)] by (simp add: ns(2))
  have "sum_list (map snd ns) = unat z + sum_list (map snd ns')"
    using ns(3) by (simp add: ns(1,2) cut_head_def)
  then have "unat (reg_free r - z) = sum_list (map snd ns')" using s(4) le by (simp add: unat_sub_le)
  then have ok: "region_ok m' (r\<lparr>reg_nodes := nd, reg_free := reg_free r - z\<rparr>) ns'"
    using run(2) sp s(3) by (simp add: region_ok_def)
  have mem: "8 dvd n" "n + s \<le> unat (reg_max r)" using spaced_member[OF s(2), of n s] ns(1) by auto
  have "0 < n" using s(1) by (auto simp: ns(1) seg_append simp flip: unat_gt_0)
  moreover have "n < 2 ^ 32" using mem(2) unat_lt32[of "reg_max r"] by simp
  moreover have "covers ns' = covers ns - {n..<n + unat z}"
    using cut_head_covers[OF s(2)[unfolded ns(1)] ns(3) z] by (simp add: ns(1,2))
  moreover have "{n..<n + unat z} \<subseteq> covers ns" using ns(3) by (auto simp: ns(1))
  moreover have "m' x = m x" if "unat x \<notin> covers ns'" for x using run(3) that by (simp add: ns(2))
  ultimately show thesis using that[OF _ ok] run(1) skip mem(1) by simp
qed

text \<open>The whole heap.  Nothing outside the memory that stays free is written.\<close>

lemma heap_lists_shape:
  assumes "map shape rs' = map shape rs"
  shows "(\<Union>q \<in> set rs'. extent q) = (\<Union>q \<in> set rs. extent q)"
    "(\<forall>q \<in> set rs'. reg_max q \<le> lo \<or> hi \<le> reg_min q) \<longleftrightarrow> (\<forall>q \<in> set rs. reg_max q \<le> lo \<or> hi \<le> reg_min q)"
proof -
  have ext: "(\<Union>q \<in> set qs. extent q) = (\<Union>(a, b, c, d) \<in> set (map shape qs). {unat a..<unat b})" for qs
    by (simp add: shape_def extent_def)
  have sep: "(\<forall>q \<in> set qs. reg_max q \<le> lo \<or> hi \<le> reg_min q) \<longleftrightarrow>
    (\<forall>(a, b, c, d) \<in> set (map shape qs). b \<le> lo \<or> hi \<le> a)" for qs
    by (simp add: shape_def)
  show "(\<Union>q \<in> set rs'. extent q) = (\<Union>q \<in> set rs. extent q)" by (simp only: ext assms)
  show "(\<forall>q \<in> set rs'. reg_max q \<le> lo \<or> hi \<le> reg_min q) \<longleftrightarrow> (\<forall>q \<in> set rs. reg_max q \<le> lo \<or> hi \<le> reg_min q)"
    by (simp only: sep assms)
qed

lemma shape_flags: "map shape rs' = map shape rs \<Longrightarrow> map reg_flags rs' = map reg_flags rs"
proof -
  assume "map shape rs' = map shape rs"
  then have "map (fst \<circ> snd \<circ> snd) (map shape rs') = map (fst \<circ> snd \<circ> snd) (map shape rs)" by (rule arg_cong)
  then show ?thesis by (simp add: shape_def comp_def)
qed

lemma alloc_regions_refines:
  assumes "heap_lists m rs nss" "alloc_spec (unat z) flgs (map reg_flags rs) nss = (n, nss')" "z \<noteq> 0" "8 dvd unat z"
  shows "\<exists>rs' m'. alloc_regions z flgs rs m = Some (of_nat n, rs', m') \<and> heap_lists m' rs' nss' \<and>
    map shape rs' = map shape rs \<and> (\<forall>x. unat x \<notin> free_of nss' \<longrightarrow> m' x = m x) \<and> n < 2 ^ 32 \<and>
    (if n = 0 then rs' = rs \<and> m' = m \<and> nss' = nss
     else 8 dvd n \<and> {n..<n + unat z} \<subseteq> free_of nss \<and> free_of nss' = free_of nss - {n..<n + unat z})"
  using assms(1,2)
proof (induction m rs nss arbitrary: nss' rule: heap_lists.induct)
  case (2 m r rs ns nss)
  have ok: "region_ok m r ns" "heap_lists m rs nss" "\<forall>q \<in> set rs. reg_max q \<le> reg_min r \<or> reg_max r \<le> reg_min q"
    using 2(2) by auto
  note asserts = region_ok_asserts[OF ok(1)]
  note sep = heap_lists_apart[OF ok(3)]
  show ?case
  proof (cases "if flgs AND NOT (reg_flags r) \<noteq> 0 then None else take_first (unat z) ns")
    case None
    obtain nss1 where n: "alloc_spec (unat z) flgs (map reg_flags rs) nss = (n, nss1)" "nss' = ns # nss1"
      using 2(3) None by (auto split: prod.splits)
    obtain rs' m' where IH: "alloc_regions z flgs rs m = Some (of_nat n, rs', m')" "heap_lists m' rs' nss1"
      "map shape rs' = map shape rs" "\<forall>x. unat x \<notin> free_of nss1 \<longrightarrow> m' x = m x" "n < 2 ^ 32"
      "if n = 0 then rs' = rs \<and> m' = m \<and> nss1 = nss
       else 8 dvd n \<and> {n..<n + unat z} \<subseteq> free_of nss \<and> free_of nss1 = free_of nss - {n..<n + unat z}"
      using 2(1)[OF ok(2) n(1)] by blast
    have "alloc_nodes z Reg_nodes r m = Some (NULL, r, m)" if "flgs AND NOT (reg_flags r) = 0"
      using None that by (intro region_alloc_none[OF ok(1)]) simp
    then have run: "alloc_regions z flgs (r # rs) m = Some (of_nat n, r # rs', m')" using asserts IH(1) by simp
    have "free_of nss1 \<subseteq> (\<Union>q \<in> set rs. extent q)"
      using heap_lists_extent[OF IH(2)] heap_lists_shape(1)[OF IH(3)] by simp
    then have "region_ok m' r ns"
      using sep IH(4) by (intro region_ok_same[OF ok(1)]) blast
    then have "heap_lists m' (r # rs') nss'"
      using IH(2) ok(3) heap_lists_shape(2)[OF IH(3)] by (simp add: n(2))
    moreover have "covers ns \<inter> free_of nss = {}"
      using region_ok_covers[OF ok(1)] heap_lists_extent[OF ok(2)] sep by blast
    ultimately show ?thesis using run IH(3-6) by (auto simp: n(2) split: if_splits)
  next
    case (Some p)
    obtain ns' where p: "p = (n, ns')" "nss' = ns' # nss" using 2(3) Some by (cases p) auto
    have flag: "flgs AND NOT (reg_flags r) = 0" and tk: "take_first (unat z) ns = Some (n, ns')"
      using Some p(1) by (auto split: if_splits)
    obtain r' m' where a: "alloc_nodes z Reg_nodes r m = Some (of_nat n, r', m')" "region_ok m' r' ns'"
      "shape r' = shape r" "\<And>x. unat x \<notin> covers ns' \<Longrightarrow> m' x = m x" "0 < n" "n < 2 ^ 32"
      "covers ns' = covers ns - {n..<n + unat z}" "{n..<n + unat z} \<subseteq> covers ns" "8 dvd n"
      using region_alloc_some[OF ok(1) tk assms(3,4)] by blast
    have "unat (of_nat n :: addr) = n" using a(6) by (simp add: unsigned_of_nat take_bit_nat_eq_self)
    then have "(of_nat n :: addr) \<noteq> NULL" using a(5) by (metis less_irrefl unat_0)
    then have run: "alloc_regions z flgs (r # rs) m = Some (of_nat n, r' # rs, m')" using asserts flag a(1) by simp
    have cov: "covers ns \<inter> free_of nss = {}"
      using region_ok_covers[OF ok(1)] heap_lists_extent[OF ok(2)] sep by blast
    have "heap_lists m' rs nss"
      using sep a(4,7) region_ok_covers[OF ok(1)] by (intro heap_lists_same[OF ok(2)]) blast
    then have "heap_lists m' (r' # rs) nss'" using a(2,3) ok(3) by (auto simp: p(2) shape_def)
    then show ?thesis using run a(3-9) cov by (auto simp: p(2))
  qed
qed auto

section \<open>Release\<close>

text \<open>The specification: the block goes to its place in the list of its region, joined to its neighbours.\<close>

definition release :: "nat \<times> nat \<Rightarrow> blocks \<Rightarrow> blocks" where
  "release p ns = join (takeWhile (\<lambda>q. fst q < fst p) ns) p (dropWhile (\<lambda>q. fst q < fst p) ns)"

fun free_spec :: "nat \<times> nat \<Rightarrow> lmm_region list \<Rightarrow> blocks list \<Rightarrow> blocks list" where
  "free_spec p (r # rs) (ns # nss) =
     (if fst p \<in> extent r then release p ns # nss else ns # free_spec p rs nss)"
| "free_spec p rs nss = nss"

lemma covers_member: "p \<in> set ns \<Longrightarrow> fst p \<le> x \<Longrightarrow> x < fst p + snd p \<Longrightarrow> x \<in> covers ns"
  by (cases p) (auto simp: covers_def intro!: bexI[of _ p])

lemma release_fits:
  assumes "spaced lo hi ns" "8 dvd n" "8 dvd z" "0 < z" "lo \<le> n" "n + z \<le> hi" "{n..<n + z} \<inter> covers ns = {}"
  shows "fits lo hi (takeWhile (\<lambda>q. fst q < n) ns) (n, z) (dropWhile (\<lambda>q. fst q < n) ns)"
proof -
  let ?as = "takeWhile (\<lambda>q. fst q < n) ns" and ?bs = "dropWhile (\<lambda>q. fst q < n) ns"
  have "fst (last ?as) + snd (last ?as) \<le> n" if "?as \<noteq> []"
  proof (rule ccontr)
    assume "\<not> ?thesis"
    moreover have "last ?as \<in> set ns \<and> fst (last ?as) < n" by (rule set_takeWhileD[OF last_in_set[OF that]])
    ultimately have "n \<in> covers ns" by (intro covers_member[of "last ?as"]) simp_all
    moreover have "n \<in> {n..<n + z}" using assms(4) by simp
    ultimately show False using assms(7) by blast
  qed
  moreover have "n + z \<le> fst (hd ?bs)" if "?bs \<noteq> []"
  proof (rule ccontr)
    assume "\<not> ?thesis"
    moreover have "hd ?bs \<in> set ns" "\<not> fst (hd ?bs) < n"
      using list.set_sel(1)[OF that] hd_dropWhile[OF that] by (auto dest: set_dropWhileD)
    moreover have "0 < snd (hd ?bs)" using spaced_member[OF assms(1), of "fst (hd ?bs)" "snd (hd ?bs)"] calculation(2) by simp
    ultimately have "fst (hd ?bs) \<in> covers ns" "fst (hd ?bs) \<in> {n..<n + z}"
      using covers_member[of "hd ?bs" ns "fst (hd ?bs)"] by simp_all
    then show False using assms(7) by blast
  qed
  ultimately show ?thesis using assms by (simp add: fits_def)
qed

lemma region_free:
  assumes "region_ok m r ns" "8 dvd unat node" "8 dvd unat sz" "sz \<noteq> 0" "node \<noteq> NULL"
    and "unat (reg_min r) \<le> unat node" "unat node + unat sz \<le> unat (reg_max r)"
    and "{unat node..<unat node + unat sz} \<inter> covers ns = {}"
  obtains r' m' where "free_into_region node sz r m = Some (r', m')" "shape r' = shape r"
    "region_ok m' r' (release (unat node, unat sz) ns)"
    "covers (release (unat node, unat sz) ns) = covers ns \<union> {unat node..<unat node + unat sz}"
    "\<And>x. unat x \<notin> covers (release (unat node, unat sz) ns) \<Longrightarrow> m' x = m x"
proof -
  let ?as = "takeWhile (\<lambda>q. fst q < unat node) ns" and ?bs = "dropWhile (\<lambda>q. fst q < unat node) ns"
  have s: "seg m (reg_nodes r) (?as @ ?bs) NULL" "spaced (unat (reg_min r)) (unat (reg_max r)) ns" "reg_min r < reg_max r"
    "unat (reg_free r) = sum_list (map snd (?as @ ?bs))"
    using assms(1) by (auto simp: region_ok_def simp del: map_append)
  have fit: "fits (unat (reg_min r)) (unat (reg_max r)) ?as (unat node, unat sz) ?bs"
    using assms(4) by (intro release_fits[OF s(2) assms(2,3) _ assms(6,7,8)]) (simp add: unat_gt_0)
  note J = join_props[OF fit]
  obtain m' nd where run: "free_into_region node sz r m = Some (r\<lparr>reg_nodes := nd, reg_free := reg_free r + sz\<rparr>, m')"
    "seg m' nd (join ?as (unat node, unat sz) ?bs) NULL"
    "unat (reg_free r + sz) = sum_list (map snd (join ?as (unat node, unat sz) ?bs))"
    "\<forall>x. unat x \<notin> covers ?as \<union> {unat node..<unat node + unat sz} \<longrightarrow> m' x = m x"
    using free_into_region_run[OF s(1) fit assms(5) less_imp_le[OF s(3)] s(4)] by blast
  have ok: "region_ok m' (r\<lparr>reg_nodes := nd, reg_free := reg_free r + sz\<rparr>) (release (unat node, unat sz) ns)"
    using run(2,3) J(1) s(3) by (simp add: region_ok_def release_def)
  have "covers ns = covers (?as @ ?bs)" by simp
  then have "covers ns = covers ?as \<union> covers ?bs" by (simp only: covers_simps)
  then have cov: "covers (release (unat node, unat sz) ns) = covers ns \<union> {unat node..<unat node + unat sz}"
    "covers ?as \<union> {unat node..<unat node + unat sz} \<subseteq> covers (release (unat node, unat sz) ns)"
    using J(2) by (auto simp: release_def)
  then show thesis using run(1,4) by (intro that[OF run(1) _ ok cov(1)]) auto
qed

lemma free_regions_refines:
  assumes "heap_lists m rs nss" "8 dvd unat node" "8 dvd unat sz" "sz \<noteq> 0" "node \<noteq> NULL"
    and "r \<in> set rs" "unat (reg_min r) \<le> unat node" "unat node + unat sz \<le> unat (reg_max r)"
    and "{unat node..<unat node + unat sz} \<inter> free_of nss = {}"
  shows "\<exists>rs' m'. free_regions node sz rs m = Some (rs', m') \<and>
    heap_lists m' rs' (free_spec (unat node, unat sz) rs nss) \<and> map shape rs' = map shape rs \<and>
    free_of (free_spec (unat node, unat sz) rs nss) = free_of nss \<union> {unat node..<unat node + unat sz} \<and>
    (\<forall>x. unat x \<notin> free_of nss \<union> {unat node..<unat node + unat sz} \<longrightarrow> m' x = m x)"
  using assms(1,6,9)
proof (induction m rs nss rule: heap_lists.induct)
  case (2 m q rs ns nss)
  have ok: "region_ok m q ns" "heap_lists m rs nss" "\<forall>p \<in> set rs. reg_max p \<le> reg_min q \<or> reg_max q \<le> reg_min p"
    using 2(2) by auto
  note sep = heap_lists_apart[OF ok(3)]
  have asserts: "reg_nodes q = NULL \<and> reg_free q = 0 \<or> reg_nodes q \<ge> reg_min q"
    using region_ok_asserts[OF ok(1)] by (simp add: region_asserts_def)
  have in_q: "reg_min q \<le> node \<and> node < reg_max q \<longleftrightarrow> unat node \<in> extent q"
    by (simp add: extent_def word_le_nat_alt word_less_nat_alt)
  have z: "0 < unat sz" using assms(4) by (simp add: unat_gt_0)
  have "unat node \<in> extent r" using assms(7,8) z by (simp add: extent_def)
  then have r_rest: "r \<in> set rs" if "unat node \<notin> extent q" using 2(3) that by auto
  show ?case
  proof (cases "unat node \<in> extent q")
    case True
    then have "r = q" using \<open>unat node \<in> extent r\<close> 2(3) sep by auto
    then have bounds: "unat (reg_min q) \<le> unat node" "unat node + unat sz \<le> unat (reg_max q)" using assms(7,8) by auto
    have "{unat node..<unat node + unat sz} \<inter> covers ns = {}" using 2(4) by auto
    then obtain q' m' where F: "free_into_region node sz q m = Some (q', m')" "shape q' = shape q"
      "region_ok m' q' (release (unat node, unat sz) ns)"
      "covers (release (unat node, unat sz) ns) = covers ns \<union> {unat node..<unat node + unat sz}"
      "\<And>x. unat x \<notin> covers (release (unat node, unat sz) ns) \<Longrightarrow> m' x = m x"
      using region_free[OF ok(1) assms(2-5) bounds] by blast
    have run: "free_regions node sz (q # rs) m = Some (q' # rs, m')" using asserts in_q True F(1) by simp
    have "{unat node..<unat node + unat sz} \<subseteq> extent q" using bounds by (auto simp: extent_def)
    then have "heap_lists m' rs nss"
      using sep F(4,5) region_ok_covers[OF ok(1)] by (intro heap_lists_same[OF ok(2)]) blast
    then have "heap_lists m' (q' # rs) (release (unat node, unat sz) ns # nss)"
      using F(2,3) ok(3) by (auto simp: shape_def)
    then show ?thesis using run F(2,4,5) True by auto
  next
    case False
    obtain rs' m' where IH: "free_regions node sz rs m = Some (rs', m')"
      "heap_lists m' rs' (free_spec (unat node, unat sz) rs nss)" "map shape rs' = map shape rs"
      "free_of (free_spec (unat node, unat sz) rs nss) = free_of nss \<union> {unat node..<unat node + unat sz}"
      "\<forall>x. unat x \<notin> free_of nss \<union> {unat node..<unat node + unat sz} \<longrightarrow> m' x = m x"
      using 2(1)[OF ok(2) r_rest[OF False]] 2(4) by auto
    have run: "free_regions node sz (q # rs) m = Some (q # rs', m')" using asserts in_q False IH(1) by auto
    have "free_of nss \<union> {unat node..<unat node + unat sz} \<subseteq> (\<Union>p \<in> set rs. extent p)"
      using heap_lists_extent[OF IH(2)] heap_lists_shape(1)[OF IH(3)] IH(4) by simp
    then have "region_ok m' q ns" using sep IH(5) by (intro region_ok_same[OF ok(1)]) blast
    then have "heap_lists m' (q # rs') (ns # free_spec (unat node, unat sz) rs nss)"
      using IH(2) ok(3) heap_lists_shape(2)[OF IH(3)] by simp
    then show ?thesis using run IH(3-5) False by auto
  qed
qed auto

section \<open>The heap and its lists\<close>

text \<open>A region has only one list with given free bytes, so that the lists are determined by what is free.\<close>

lemma spaced_unique: "spaced lo hi xs \<Longrightarrow> spaced lo' hi' ys \<Longrightarrow> covers xs = covers ys \<Longrightarrow> xs = ys"
proof (induction xs arbitrary: ys lo lo')
  case Nil
  then show ?case by (cases ys) auto
next
  case (Cons p xs)
  obtain n s where p: "p = (n, s)" by fastforce
  obtain q t zs where ys: "ys = (q, t) # zs" using Cons.prems by (cases ys) (auto simp: p)
  have x: "0 < s" "spaced (n + s + 1) hi xs" and y: "0 < t" "spaced (q + t + 1) hi' zs"
    using Cons.prems(1,2) by (auto simp: p ys)
  have sub: "covers xs \<subseteq> {n + s + 1..}" "covers zs \<subseteq> {q + t + 1..}"
    using spaced_covers[OF x(2)] spaced_covers[OF y(2)] by auto
  have eq: "{n..<n + s} \<union> covers xs = {q..<q + t} \<union> covers zs" using Cons.prems(3) by (simp add: p ys)
  have "n \<in> {q..<q + t} \<union> covers zs" "q \<in> {n..<n + s} \<union> covers xs" using eq x(1) y(1) by auto
  then have "q \<le> n" "n \<le> q" using sub by auto
  then have n: "n = q" by simp
  have "\<not> s < t"
  proof
    assume "s < t"
    then have "n + s \<in> {n..<n + s} \<union> covers xs" using eq n by auto
    then show False using sub(1) by auto
  qed
  moreover have "\<not> t < s"
  proof
    assume "t < s"
    then have "n + t \<in> {q..<q + t} \<union> covers zs" using eq n by auto
    then show False using sub(2) n by auto
  qed
  ultimately have s: "s = t" by simp
  have "{n..<n + s} \<inter> covers xs = {}" "{n..<n + s} \<inter> covers zs = {}" using sub n s by auto
  then have "covers xs = covers zs" using eq n s by blast
  then show ?case using Cons.IH[OF x(2) y(2)] n s by (simp add: p ys)
qed

lemma heap_lists_unique:
  assumes "heap_lists m rs nss" "heap_lists m' rs' nss'" "map shape rs' = map shape rs" "free_of nss = free_of nss'"
  shows "nss = nss'"
  using assms
proof (induction m rs nss arbitrary: rs' nss' rule: heap_lists.induct)
  case (1 m)
  then show ?case by (cases nss') auto
next
  case (2 m r rs ns nss)
  obtain r' rs1 where rs': "rs' = r' # rs1" using 2(4) by (cases rs') auto
  obtain ns' nss1 where nss': "nss' = ns' # nss1" using 2(3) by (cases nss') (auto simp: rs')
  have ok: "region_ok m r ns" "heap_lists m rs nss" "region_ok m' r' ns'" "heap_lists m' rs1 nss1"
    "shape r' = shape r" "map shape rs1 = map shape rs"
    using 2(2,3,4) by (auto simp: rs' nss')
  have sep: "extent r \<inter> (\<Union>q \<in> set rs. extent q) = {}" using 2(2) heap_lists_apart by auto
  note c = region_ok_covers[OF ok(1)] region_ok_covers[OF ok(3)] heap_lists_extent[OF ok(2)] heap_lists_extent[OF ok(4)]
    shape_extent[OF ok(5)] heap_lists_shape(1)[OF ok(6)]
  have eq: "covers ns \<union> free_of nss = covers ns' \<union> free_of nss1" using 2(5) by (simp add: nss')
  have "covers ns = covers ns'" "free_of nss = free_of nss1" using eq c sep by blast+
  then show ?case using ok 2(1)[OF ok(2,4,6)] spaced_unique[of _ _ ns _ _ ns'] by (auto simp: region_ok_def nss')
qed auto

lemma heap_lists_frame:
  assumes "heap_lists m rs nss" "\<And>x. unat x \<in> free_of nss \<Longrightarrow> m' x = m x"
  shows "heap_lists m' rs nss"
  using assms
proof (induction m rs nss rule: heap_lists.induct)
  case (2 m r rs ns nss)
  then have "seg m (reg_nodes r) ns NULL" "spaced (unat (reg_min r)) (unat (reg_max r)) ns"
    by (auto simp: region_ok_def)
  then have "seg m' (reg_nodes r) ns NULL" by (rule seg_same) (use 2(3) in auto)
  then show ?case using 2 by (auto simp: region_ok_def)
qed auto

lemma heap_inv_frame:
  "heap_inv h nss \<Longrightarrow> (\<And>x. unat x \<in> free_of nss \<Longrightarrow> m x = hmem h x) \<Longrightarrow> heap_inv (h\<lparr>hmem := m\<rparr>) nss"
  by (simp add: heap_inv_def heap_lists_frame)

text \<open>The number of bytes that a request for \<open>sz\<close> takes.\<close>

definition room :: "u32 \<Rightarrow> nat" where "room sz = (unat sz + 7) div 8 * 8"

lemma room_props:
  assumes "unat sz \<le> 2 ^ 32 - 8"
  shows "unat (align_up sz) = room sz" "8 dvd room sz" "unat sz \<le> room sz" "0 < unat sz \<Longrightarrow> align_up sz \<noteq> 0"
proof -
  have "unat sz + 7 < 2 ^ 32" using assms by simp
  then show r: "unat (align_up sz) = room sz" by (simp only: unat_align_up room_def)
  show "8 dvd room sz" by (simp add: room_def)
  show "unat sz \<le> room sz" unfolding room_def by presburger
  then show "align_up sz \<noteq> 0" if "0 < unat sz" using r that by auto
qed

abbreviation flags_of :: "lmm \<Rightarrow> u32 list" where "flags_of h \<equiv> map reg_flags (regions h)"

lemma alloc_refines:
  assumes "heap_inv h nss" "0 < sz" "unat sz \<le> 2 ^ 32 - 8" "alloc_spec (room sz) flgs (flags_of h) nss = (n, nss')"
  obtains h' where "lmm_alloc sz flgs h = Some (of_nat n, h')" "heap_inv h' nss'"
    "map shape (regions h') = map shape (regions h)" "\<And>x. unat x \<notin> free_of nss' \<Longrightarrow> hmem h' x = hmem h x" "n < 2 ^ 32"
    "if n = 0 then h' = h \<and> nss' = nss
     else 8 dvd n \<and> {n..<n + room sz} \<subseteq> free_of nss \<and> free_of nss' = free_of nss - {n..<n + room sz}"
proof -
  have sz: "0 < unat sz" using assms(2) by (simp add: word_less_nat_alt)
  note R = room_props[OF assms(3)]
  have "\<exists>rs' m'. alloc_regions (align_up sz) flgs (regions h) (hmem h) = Some (of_nat n, rs', m') \<and> heap_lists m' rs' nss' \<and>
    map shape rs' = map shape (regions h) \<and> (\<forall>x. unat x \<notin> free_of nss' \<longrightarrow> m' x = hmem h x) \<and> n < 2 ^ 32 \<and>
    (if n = 0 then rs' = regions h \<and> m' = hmem h \<and> nss' = nss
     else 8 dvd n \<and> {n..<n + room sz} \<subseteq> free_of nss \<and> free_of nss' = free_of nss - {n..<n + room sz})"
    by (rule alloc_regions_refines[OF assms(1)[unfolded heap_inv_def], where z = "align_up sz", unfolded R(1),
          OF assms(4) R(4)[OF sz] R(2)])
  then obtain rs' m' where "alloc_regions (align_up sz) flgs (regions h) (hmem h) = Some (of_nat n, rs', m')"
    "heap_lists m' rs' nss'" "map shape rs' = map shape (regions h)" "\<forall>x. unat x \<notin> free_of nss' \<longrightarrow> m' x = hmem h x"
    "n < 2 ^ 32" "if n = 0 then rs' = regions h \<and> m' = hmem h \<and> nss' = nss
     else 8 dvd n \<and> {n..<n + room sz} \<subseteq> free_of nss \<and> free_of nss' = free_of nss - {n..<n + room sz}"
    by blast
  then show thesis using assms(2)
    by (intro that[of "h\<lparr>regions := rs', hmem := m'\<rparr>"]) (auto simp: lmm_alloc_def heap_inv_def split: if_splits)
qed

text \<open>The address is in some region together with the end of the block.\<close>

definition in_region :: "lmm \<Rightarrow> addr \<Rightarrow> nat \<Rightarrow> bool" where
  "in_region h a z \<longleftrightarrow> (\<exists>r \<in> set (regions h). unat (reg_min r) \<le> unat a \<and> unat a + z \<le> unat (reg_max r))"

lemma free_refines:
  assumes "heap_inv h nss" "a \<noteq> NULL" "8 dvd unat a" "0 < sz" "unat sz \<le> 2 ^ 32 - 8" "in_region h a (room sz)"
    and "{unat a..<unat a + room sz} \<inter> free_of nss = {}"
  obtains h' where "lmm_free a sz h = Some h'" "heap_inv h' (free_spec (unat a, room sz) (regions h) nss)"
    "map shape (regions h') = map shape (regions h)"
    "free_of (free_spec (unat a, room sz) (regions h) nss) = free_of nss \<union> {unat a..<unat a + room sz}"
    "\<And>x. unat x \<notin> free_of nss \<union> {unat a..<unat a + room sz} \<Longrightarrow> hmem h' x = hmem h x"
proof -
  have sz: "0 < unat sz" "sz \<noteq> 0" using assms(4) by (auto simp: word_less_nat_alt)
  note R = room_props[OF assms(5)]
  have al: "a AND ALIGN_MASK = 0" using assms(3) by (simp add: aligned_iff)
  have dn: "align_down a = a"
    using assms(3) by (simp add: word_unat_eq_iff unat_align_down)
  obtain r where r: "r \<in> set (regions h)" "unat (reg_min r) \<le> unat a" "unat a + room sz \<le> unat (reg_max r)"
    using assms(6) by (auto simp: in_region_def)
  have "\<exists>rs' m'. free_regions a (align_up sz) (regions h) (hmem h) = Some (rs', m') \<and>
    heap_lists m' rs' (free_spec (unat a, room sz) (regions h) nss) \<and> map shape rs' = map shape (regions h) \<and>
    free_of (free_spec (unat a, room sz) (regions h) nss) = free_of nss \<union> {unat a..<unat a + room sz} \<and>
    (\<forall>x. unat x \<notin> free_of nss \<union> {unat a..<unat a + room sz} \<longrightarrow> m' x = hmem h x)"
    using free_regions_refines[of "hmem h" "regions h" nss a "align_up sz" r] assms(1,2,3,7) R(1,2) R(4)[OF sz(1)] r
    by (simp add: heap_inv_def)
  then obtain rs' m' where "free_regions a (align_up sz) (regions h) (hmem h) = Some (rs', m')"
    "heap_lists m' rs' (free_spec (unat a, room sz) (regions h) nss)" "map shape rs' = map shape (regions h)"
    "free_of (free_spec (unat a, room sz) (regions h) nss) = free_of nss \<union> {unat a..<unat a + room sz}"
    "\<forall>x. unat x \<notin> free_of nss \<union> {unat a..<unat a + room sz} \<longrightarrow> m' x = hmem h x"
    by blast
  then show thesis using assms(2) sz(2) dn al
    by (intro that[of "h\<lparr>regions := rs', hmem := m'\<rparr>"]) (auto simp: lmm_free_def heap_inv_def)
qed

section \<open>malloc and free\<close>

lemma heap_lists_pos: "heap_lists m rs nss \<Longrightarrow> ns \<in> set nss \<Longrightarrow> p \<in> set ns \<Longrightarrow> 0 < fst p"
proof (induction m rs nss rule: heap_lists.induct)
  case (2 m r rs ns1 nss)
  have "0 < fst p" if "seg m a ns NULL" "p \<in> set ns" for a ns
    using that by (induction ns arbitrary: a) (auto simp: unat_gt_0)
  then show ?case using 2 by (auto simp: region_ok_def)
qed auto

text \<open>No flags are asked for: then a request fails only if no block is large enough.\<close>

lemma alloc_spec_none:
  assumes "length fs = length nss" "\<And>ns p. ns \<in> set nss \<Longrightarrow> p \<in> set ns \<Longrightarrow> 0 < fst p"
    and "alloc_spec z 0 fs nss = (0, nss')" "ns \<in> set nss" "p \<in> set ns"
  shows "snd p < z"
  using assms
proof (induction z "0 :: u32" fs nss arbitrary: nss' rule: alloc_spec.induct)
  case (1 z f fs ns1 nss)
  show ?case
  proof (cases "take_first z ns1")
    case None
    then have here: "\<forall>p \<in> set ns1. snd p < z" by (simp add: take_first_None)
    obtain nss1 where "alloc_spec z 0 fs nss = (0, nss1)" using 1(4) None by (auto split: prod.splits)
    then have "snd p < z" if "ns \<in> set nss" using 1(1) None 1(2,3,6) that by auto
    then show ?thesis using here 1(5,6) by auto
  next
    case (Some q)
    then obtain ns2 where "take_first z ns1 = Some (0, ns2)" using 1(4) by (cases q) auto
    then have "\<exists>s. (0, s) \<in> set ns1" using take_first_member by blast
    then show ?thesis using 1(3) by fastforce
  qed
qed auto

lemma heap_lists_length: "heap_lists m rs nss \<Longrightarrow> length rs = length nss"
  by (induction m rs nss rule: heap_lists.induct) auto

text \<open>The memory of a block that \<open>malloc\<close> returns: the size comes first.\<close>

definition heap_block :: "addr \<Rightarrow> u32 \<Rightarrow> nat set" where
  "heap_block p sz = {unat p - 4..<unat p - 4 + room (sz + 4)}"

definition heap_own :: "lmm \<Rightarrow> addr \<Rightarrow> u32 \<Rightarrow> bool" where
  "heap_own h p sz \<longleftrightarrow> 4 < unat p \<and> 8 dvd (unat p - 4) \<and> unat sz \<le> 2 ^ 32 - 12 \<and>
     in_region h (p - 4) (room (sz + 4)) \<and> ld32 (hmem h) (p - 4) = sz + 4"

definition heap_avail :: "lmm \<Rightarrow> nat set \<Rightarrow> bool" where
  "heap_avail h F \<longleftrightarrow> (\<exists>nss. heap_inv h nss \<and> free_of nss = F)"

lemma size_with_header:
  assumes "unat (sz :: u32) \<le> 2 ^ 32 - 12"
  shows "unat (sz + 4) = unat sz + 4" "0 < sz + 4" "unat (sz + 4) \<le> 2 ^ 32 - 8"
proof -
  have "unat sz + 4 < 2 ^ 32" using assms by simp
  then show s: "unat (sz + 4) = unat sz + 4" using unat_add_no_wrap[of sz 4] by simp
  then show "0 < sz + 4" by (simp add: word_less_nat_alt)
  show "unat (sz + 4) \<le> 2 ^ 32 - 8" using s assms by simp
qed

lemma in_region_shape: "map shape (regions h') = map shape (regions h) \<Longrightarrow> in_region h' a z = in_region h a z"
proof -
  have eq: "in_region k a z \<longleftrightarrow> (\<exists>(l, u, f, p) \<in> set (map shape (regions k)). unat l \<le> unat a \<and> unat a + z \<le> unat u)" for k
    by (auto simp: in_region_def shape_def)
  show "map shape (regions h') = map shape (regions h) \<Longrightarrow> in_region h' a z = in_region h a z" by (simp only: eq)
qed

lemma heap_block_in_region:
  assumes "heap_inv h nss" "{n..<n + z} \<subseteq> free_of nss" "unat a = n" "0 < z"
    and "alloc_spec z 0 (flags_of h) nss = (n, nss')" "0 < n"
  shows "in_region h a z"
proof -
  have "\<exists>r \<in> set rs. unat (reg_min r) \<le> n \<and> n + z \<le> unat (reg_max r)"
    if "heap_lists m rs nss" "alloc_spec z 0 (map reg_flags rs) nss = (n, nss')" for m rs nss nss'
    using that
  proof (induction m rs nss arbitrary: nss' rule: heap_lists.induct)
    case (2 m r rs ns nss)
    then have ok: "region_ok m r ns" "heap_lists m rs nss" by auto
    show ?case
    proof (cases "take_first z ns")
      case None
      then obtain nss1 where "alloc_spec z 0 (map reg_flags rs) nss = (n, nss1)" using 2(3) by (auto split: prod.splits)
      then have "\<exists>r \<in> set rs. unat (reg_min r) \<le> n \<and> n + z \<le> unat (reg_max r)" by (rule 2(1)[OF ok(2)])
      then show ?thesis by simp
    next
      case (Some q)
      then obtain ns1 where "take_first z ns = Some (n, ns1)" using 2(3) by (cases q) auto
      then obtain s where s: "(n, s) \<in> set ns" "z \<le> s" using take_first_member by blast
      moreover have "spaced (unat (reg_min r)) (unat (reg_max r)) ns" using ok(1) by (simp add: region_ok_def)
      ultimately have "unat (reg_min r) \<le> n \<and> n + s \<le> unat (reg_max r)" using spaced_member by blast
      then show ?thesis using s(2) by simp
    qed
  qed (use assms(6) in auto)
  then show ?thesis using assms(1,3,5) by (auto simp: heap_inv_def in_region_def)
qed

lemma malloc_run:
  assumes "heap_inv h nss" "unat sz \<le> 2 ^ 32 - 12" "alloc_spec (room (sz + 4)) 0 (flags_of h) nss = (n, nss')"
  obtains p h' where "malloc sz h = Some (p, h')" "map shape (regions h') = map shape (regions h)"
    "\<And>x. unat x \<notin> free_of nss \<Longrightarrow> hmem h' x = hmem h x"
    "if n = 0 then p = NULL \<and> h' = h \<and> nss' = nss
     else unat p = n + 4 \<and> heap_own h' p sz \<and> heap_inv h' nss' \<and> heap_block p sz \<subseteq> free_of nss \<and>
       free_of nss' = free_of nss - heap_block p sz"
proof -
  note S = size_with_header[OF assms(2)] and R = room_props[OF size_with_header(3)[OF assms(2)]]
  obtain h1 where A: "lmm_alloc (sz + 4) 0 h = Some (of_nat n, h1)" "heap_inv h1 nss'"
    "map shape (regions h1) = map shape (regions h)" "\<And>x. unat x \<notin> free_of nss' \<Longrightarrow> hmem h1 x = hmem h x" "n < 2 ^ 32"
    "if n = 0 then h1 = h \<and> nss' = nss
     else 8 dvd n \<and> {n..<n + room (sz + 4)} \<subseteq> free_of nss \<and> free_of nss' = free_of nss - {n..<n + room (sz + 4)}"
    using alloc_refines[OF assms(1) S(2,3) assms(3)] by blast
  show thesis
  proof (cases "n = 0")
    case True
    then show thesis using A by (intro that[of NULL h]) (auto simp: malloc_def lib_malloc_def Let_def)
  next
    case False
    define c :: addr where "c = of_nat n"
    have c: "unat c = n" "c \<noteq> NULL" using A(5) False by (auto simp: c_def unat_of_nat32 word_unat_eq_iff)
    have sub: "{n..<n + room (sz + 4)} \<subseteq> free_of nss" "free_of nss' = free_of nss - {n..<n + room (sz + 4)}" "8 dvd unat c"
      using A(6) False c(1) by auto
    have c4: "unat (c + 4) = n + 4" using aligned_plus4[OF sub(3)] c(1) by simp
    have cc: "c + 4 - 4 = c" by simp
    let ?h = "h1\<lparr>hmem := st32 c (sz + 4) (hmem h1)\<rparr>"
    have room: "8 \<le> room (sz + 4)" using R(2,3) S(1) by (intro dvd_imp_le) auto
    have out: "st32 c (sz + 4) (hmem h1) x = hmem h1 x" if "unat x \<notin> {n..<n + room (sz + 4)}" for x
      using that room c(1) by (intro st32_out[OF dvd_word_aligned[OF sub(3)]]) auto
    have "heap_inv ?h nss'" using out sub(2) by (intro heap_inv_frame[OF A(2)]) auto
    moreover have "in_region ?h c (room (sz + 4))"
      using heap_block_in_region[OF assms(1) sub(1) c(1) _ assms(3)] False room in_region_shape[OF A(3)]
      by (simp add: in_region_def)
    moreover have "hmem ?h x = hmem h x" if "unat x \<notin> free_of nss" for x
    proof -
      have "unat x \<notin> {n..<n + room (sz + 4)}" "unat x \<notin> free_of nss'" using that sub(1,2) by blast+
      then show ?thesis using A(4)[of x] out[of x] by simp
    qed
    moreover have "malloc sz h = Some (c + 4, ?h)"
      using A(1) c(2) by (simp add: malloc_def lib_malloc_def Let_def c_def)
    ultimately show thesis
      using False c(1) c4 cc sub A(3) assms(2) dvd_word_aligned[OF sub(3)]
      by (intro that[of "c + 4" ?h]) (auto simp: heap_own_def heap_block_def)
  qed
qed

lemma free_run:
  assumes "heap_inv h nss" "heap_own h p sz" "heap_block p sz \<inter> free_of nss = {}"
  obtains h' nss' where "free p h = Some h'" "heap_inv h' nss'" "map shape (regions h') = map shape (regions h)"
    "free_of nss' = free_of nss \<union> heap_block p sz"
    "\<And>x. unat x \<notin> free_of nss \<union> heap_block p sz \<Longrightarrow> hmem h' x = hmem h x"
proof -
  have o: "4 < unat p" "8 dvd (unat p - 4)" "unat sz \<le> 2 ^ 32 - 12" "in_region h (p - 4) (room (sz + 4))"
    "ld32 (hmem h) (p - 4) = sz + 4"
    using assms(2) by (auto simp: heap_own_def)
  note S = size_with_header[OF o(3)]
  have p: "unat (p - 4) = unat p - 4" using o(1) by (subst unat_sub) (auto simp: word_le_nat_alt)
  have "p - 4 \<noteq> NULL" using o(1) p by (metis unat_0 zero_less_diff less_irrefl)
  moreover have "{unat (p - 4)..<unat (p - 4) + room (sz + 4)} = heap_block p sz" by (simp only: heap_block_def p)
  ultimately obtain h' where "lmm_free (p - 4) (sz + 4) h = Some h'"
    "heap_inv h' (free_spec (unat (p - 4), room (sz + 4)) (regions h) nss)"
    "map shape (regions h') = map shape (regions h)"
    "free_of (free_spec (unat (p - 4), room (sz + 4)) (regions h) nss) = free_of nss \<union> heap_block p sz"
    "\<And>x. unat x \<notin> free_of nss \<union> heap_block p sz \<Longrightarrow> hmem h' x = hmem h x"
    using free_refines[OF assms(1), of "p - 4" "sz + 4"] o(2,4) p S(2,3) assms(3) by metis
  then show thesis using that o(5) by (simp add: free_def lib_free_def Let_def)
qed

section \<open>The heap as an implementation of the interface\<close>

lemma heap_own_pos:
  assumes "heap_own h p sz"
  shows "unat (p - 4) = unat p - 4" "word_aligned (p - 4)" "8 dvd unat (p - 4)"
    "{unat p - 4..<unat p + unat sz} \<subseteq> heap_block p sz" "unat p + unat sz < 2 ^ 32"
proof -
  have o: "4 < unat p" "8 dvd (unat p - 4)" "unat sz \<le> 2 ^ 32 - 12" "in_region h (p - 4) (room (sz + 4))"
    using assms by (auto simp: heap_own_def)
  show p: "unat (p - 4) = unat p - 4" using o(1) by (subst unat_sub) (auto simp: word_le_nat_alt)
  show "8 dvd unat (p - 4)" using o(2) p by simp
  then show "word_aligned (p - 4)" by (rule dvd_word_aligned)
  have r: "unat sz + 4 \<le> room (sz + 4)"
    using room_props(3)[OF size_with_header(3)[OF o(3)]] size_with_header(1)[OF o(3)] by simp
  show "{unat p - 4..<unat p + unat sz} \<subseteq> heap_block p sz"
    using r o(1) by (auto simp: heap_block_def)
  obtain q :: lmm_region where "unat p - 4 + room (sz + 4) \<le> unat (reg_max q)"
    using o(4) unfolding in_region_def p by blast
  then show "unat p + unat sz < 2 ^ 32" using r o(1) unat_lt32[of "reg_max q"] by simp
qed

lemma heap_own_data:
  assumes "heap_own h p sz"
  shows "{unat p..<unat p + unat sz} \<subseteq> heap_block p sz"
proof -
  have "{unat p..<unat p + unat sz} \<subseteq> {unat p - 4..<unat p + unat sz}" by simp
  then show ?thesis using heap_own_pos(4)[OF assms] by (rule subset_trans)
qed

lemma heap_own_frame:
  assumes "heap_own h p sz" "map shape (regions h') = map shape (regions h)"
    and "\<And>x. unat x \<in> {unat p - 4..<unat p} \<Longrightarrow> hmem h' x = hmem h x"
  shows "heap_own h' p sz"
proof -
  note P = heap_own_pos[OF assms(1)]
  have "4 < unat p" using assms(1) by (simp add: heap_own_def)
  then have "ld32 (hmem h') (p - 4) = ld32 (hmem h) (p - 4)"
    using P(1) by (intro ld32_same[OF P(2)] assms(3)) auto
  then show ?thesis using assms(1) in_region_shape[OF assms(2)] by (simp add: heap_own_def)
qed

text \<open>A client may write to the \<open>sz\<close> bytes that it asked for.\<close>

definition heap_store :: "addr \<Rightarrow> u32 \<Rightarrow> nat \<Rightarrow> u8 \<Rightarrow> lmm \<Rightarrow> lmm" where
  "heap_store p sz j b h = (if j < unat sz then h\<lparr>hmem := (hmem h)(p + of_nat j := b)\<rparr> else h)"

lemma heap_store_out:
  assumes "heap_own h p sz" "unat x \<notin> {unat p..<unat p + unat sz}"
  shows "hmem (heap_store p sz j b h) x = hmem h x"
proof (cases "j < unat sz")
  case True
  have "unat (p + of_nat j) = unat p + j"
    using True heap_own_pos(5)[OF assms(1)] by (subst unat_add_no_wrap) (auto simp: unat_of_nat32)
  then have "x \<noteq> p + of_nat j" using assms(2) True by auto
  then show ?thesis by (simp add: heap_store_def)
qed (simp add: heap_store_def)

interpretation kernel_heap: block_allocator heap_avail heap_own heap_block "\<lambda>sz. unat sz \<le> 2 ^ 32 - 12"
  malloc "\<lambda>p sz h. free p h" heap_store
proof
  fix h :: lmm and F and sz :: u32
  assume inv: "heap_avail h F" and sz: "unat sz \<le> 2 ^ 32 - 12"
  obtain nss where nss: "heap_inv h nss" "free_of nss = F" using inv by (auto simp: heap_avail_def)
  obtain n nss' where sp: "alloc_spec (room (sz + 4)) 0 (flags_of h) nss = (n, nss')" by fastforce
  obtain p0 h0 where M: "malloc sz h = Some (p0, h0)" "map shape (regions h0) = map shape (regions h)"
    "\<And>x. unat x \<notin> free_of nss \<Longrightarrow> hmem h0 x = hmem h x"
    "if n = 0 then p0 = NULL \<and> h0 = h \<and> nss' = nss
     else unat p0 = n + 4 \<and> heap_own h0 p0 sz \<and> heap_inv h0 nss' \<and> heap_block p0 sz \<subseteq> free_of nss \<and>
       free_of nss' = free_of nss - heap_block p0 sz"
    using malloc_run[OF nss(1) sz sp] by blast
  show "\<exists>p h'. malloc sz h = Some (p, h')" using M(1) by blast
  show "heap_block p sz \<subseteq> F \<and> heap_avail h' (F - heap_block p sz) \<and> heap_own h' p sz"
    if "malloc sz h = Some (p, h')" "p \<noteq> NULL" for p h'
    using M(1,4) that nss(2) by (auto simp: heap_avail_def split: if_splits)
  show "heap_avail h' F" if "malloc sz h = Some (NULL, h')" for h'
    using M(1,4) that inv by (auto split: if_splits)
  show "heap_own h' b k" if "malloc sz h = Some (p, h')" "heap_own h b k" "heap_block b k \<inter> F = {}" for p h' b k
  proof (rule heap_own_frame[OF that(2)])
    show "map shape (regions h') = map shape (regions h)" using M(1,2) that(1) by simp
    show "hmem h' x = hmem h x" if "unat x \<in> {unat b - 4..<unat b}" for x
    proof -
      have "unat x \<in> heap_block b k" using heap_own_pos(4)[OF \<open>heap_own h b k\<close>] that by auto
      then show ?thesis using M(1) M(3)[of x] nss(2) \<open>malloc sz h = Some (p, h')\<close> \<open>heap_block b k \<inter> F = {}\<close> by auto
    qed
  qed
next
  fix h :: lmm and F p and sz :: u32
  assume a: "heap_avail h F" "heap_own h p sz" "heap_block p sz \<inter> F = {}"
  obtain nss where nss: "heap_inv h nss" "free_of nss = F" using a(1) by (auto simp: heap_avail_def)
  obtain h0 nss' where R: "free p h = Some h0" "heap_inv h0 nss'" "map shape (regions h0) = map shape (regions h)"
    "free_of nss' = free_of nss \<union> heap_block p sz"
    "\<And>x. unat x \<notin> free_of nss \<union> heap_block p sz \<Longrightarrow> hmem h0 x = hmem h x"
    using free_run[OF nss(1) a(2)] a(3) nss(2) by blast
  show "\<exists>h'. free p h = Some h' \<and> heap_avail h' (F \<union> heap_block p sz)"
    using R(1,2,4) nss(2) by (auto simp: heap_avail_def)
  show "heap_own h' b k" if "free p h = Some h'" "heap_own h b k" "heap_block b k \<inter> (F \<union> heap_block p sz) = {}" for h' b k
  proof (rule heap_own_frame[OF that(2)])
    show "map shape (regions h') = map shape (regions h)" using R(1,3) that(1) by simp
    show "hmem h' x = hmem h x" if "unat x \<in> {unat b - 4..<unat b}" for x
    proof -
      have "unat x \<in> heap_block b k" using heap_own_pos(4)[OF \<open>heap_own h b k\<close>] that by auto
      then show ?thesis
        using R(1) R(5)[of x] nss(2) \<open>free p h = Some h'\<close> \<open>heap_block b k \<inter> (F \<union> heap_block p sz) = {}\<close> by auto
    qed
  qed
next
  fix h :: lmm and F p and sz :: u32 and j b
  assume a: "heap_avail h F" "heap_own h p sz"
  have regs: "regions (heap_store p sz j b h) = regions h" by (simp add: heap_store_def)
  have out: "hmem (heap_store p sz j b h) x = hmem h x" if "unat x \<notin> {unat p..<unat p + unat sz}" for x
    using heap_store_out[OF a(2) that] .
  show "heap_avail (heap_store p sz j b h) F" if "heap_block p sz \<inter> F = {}"
  proof -
    obtain nss where nss: "heap_inv h nss" "free_of nss = F" using a(1) by (auto simp: heap_avail_def)
    have "hmem (heap_store p sz j b h) x = hmem h x" if "unat x \<in> free_of nss" for x
    proof (rule out)
      have "unat x \<notin> heap_block p sz" using \<open>heap_block p sz \<inter> F = {}\<close> that nss(2) by blast
      then show "unat x \<notin> {unat p..<unat p + unat sz}" using heap_own_data[OF a(2)] by blast
    qed
    then have "heap_inv (h\<lparr>hmem := hmem (heap_store p sz j b h)\<rparr>) nss" by (rule heap_inv_frame[OF nss(1)])
    then have "heap_inv (heap_store p sz j b h) nss" by (simp add: heap_inv_def regs)
    then show ?thesis using nss(2) by (auto simp: heap_avail_def)
  qed
  show "heap_own (heap_store p sz j b h) q k" if "heap_own h q k" "(q, k) = (p, sz) \<or> heap_block q k \<inter> heap_block p sz = {}" for q k
  proof (rule heap_own_frame[OF that(1)])
    show "hmem (heap_store p sz j b h) x = hmem h x" if "unat x \<in> {unat q - 4..<unat q}" for x
    proof (rule out)
      have "unat x \<in> heap_block q k" using heap_own_pos(4)[OF \<open>heap_own h q k\<close>] that by auto
      then show "unat x \<notin> {unat p..<unat p + unat sz}"
        using heap_own_data[OF a(2)] that
          \<open>(q, k) = (p, sz) \<or> heap_block q k \<inter> heap_block p sz = {}\<close> by auto
    qed
  qed (simp add: regs)
qed

section \<open>The heap at the start\<close>

text \<open>The regions in the order in which they are searched.\<close>

definition start_regions :: "lmm_region list" where
  "start_regions =
     [\<lparr>reg_nodes = NULL, reg_min = 0x00100000, reg_max = 0x01000000, reg_flags = LMMF_16MB, reg_pri = LMM_PRI_16MB, reg_free = 0\<rparr>,
      \<lparr>reg_nodes = NULL, reg_min = 0, reg_max = 0x00100000, reg_flags = LMMF_1MB OR LMMF_16MB, reg_pri = LMM_PRI_1MB, reg_free = 0\<rparr>,
      \<lparr>reg_nodes = NULL, reg_min = 0x01000000, reg_max = 0xfffffff8, reg_flags = 0, reg_pri = LMM_PRI_HIGH, reg_free = 0\<rparr>]"

lemma mb_util_regions_run: "mb_util_regions h = Some (h\<lparr>regions := start_regions\<rparr>)"
proof -
  have "(0 :: u32) < - 1" "(0 :: u32) < - 2" by (simp_all add: word_gt_0)
  then show ?thesis
    by (simp add: mb_util_regions_def lmm_init_def lmm_add_region_def align_up_def align_down_def ALIGN_MASK_def
        ALIGN_SIZE_def LMM_PRI_1MB_def LMM_PRI_16MB_def LMM_PRI_HIGH_def start_regions_def Let_def)
qed

lemma start_regions_ok: "heap_inv (h\<lparr>regions := start_regions\<rparr>) [[], [], []]"
  by (simp add: heap_inv_def start_regions_def region_ok_def)

lemma align_small: "8 dvd unat a \<Longrightarrow> align_up a = a" "8 dvd unat a \<Longrightarrow> align_down a = a"
proof -
  assume a: "8 dvd unat a"
  then obtain k where k: "unat a = 8 * k" by (rule dvdE)
  then have "k < 536870912" using unat_lt32[of a] by simp
  then have "unat a \<le> 2 ^ 32 - 8" using k by simp
  then have "unat (align_up a) = (unat a + 7) div 8 * 8" by (intro unat_align_up) simp
  then show "align_up a = a" "align_down a = a" using a by (simp_all add: word_unat_eq_iff unat_align_down) presburger
qed

text \<open>Searches in a heap all of whose free memory is one block of the first region.\<close>

definition one_block :: "addr \<Rightarrow> lmm \<Rightarrow> bool" where
  "one_block lo h \<longleftrightarrow> map shape (regions h) = map shape start_regions \<and>
     heap_inv h [[(unat lo, 0x01000000 - unat lo)], [], []]"

lemma one_block_regions:
  assumes "one_block lo h"
  obtains a b c where "regions h = [a, b, c]" "reg_nodes a = lo" "lo \<noteq> NULL" "unat (node_size (hmem h) lo) = 0x01000000 - unat lo"
    "reg_nodes b = NULL" "reg_nodes c = NULL" "reg_min a = 0x00100000" "reg_max a = 0x01000000"
    "reg_min b = 0" "reg_max b = 0x00100000" "0x00100000 \<le> unat lo" "unat lo < 0x01000000"
proof -
  obtain a b c where r: "regions h = [a, b, c]" "shape a = shape (start_regions ! 0)" "shape b = shape (start_regions ! 1)"
    using assms by (auto simp: one_block_def start_regions_def)
  have ok: "region_ok (hmem h) a [(unat lo, 0x01000000 - unat lo)]" "region_ok (hmem h) b []" "region_ok (hmem h) c []"
    using assms by (auto simp: one_block_def heap_inv_def r(1))
  then have s: "seg (hmem h) (reg_nodes a) [(unat lo, 0x01000000 - unat lo)] NULL" "reg_nodes b = NULL" "reg_nodes c = NULL"
    "spaced (unat (reg_min a)) (unat (reg_max a)) [(unat lo, 0x01000000 - unat lo)]"
    by (auto simp: region_ok_def)
  have sh: "reg_min a = 0x00100000" "reg_max a = 0x01000000" "reg_min b = 0" "reg_max b = 0x00100000"
    using r(2,3) by (auto simp: shape_def start_regions_def)
  have a: "reg_nodes a = lo" using s(1) by (simp add: word_unat_eq_iff)
  show thesis by (rule that[OF r(1) a]) (use s a sh in auto)
qed

lemma remove_free_above:
  assumes "one_block lo h"
  shows "lmm_remove_free USER_MEM_START (-8 - USER_MEM_START) h = Some h"
proof -
  have up: "align_up 0x01000000 = 0x01000000" by (simp add: align_small)
  have "lmm_find_free USER_MEM_START h = Some (-1, 0, 0)"
    using assms by (rule one_block_regions) (simp add: lmm_find_free_def Let_def up USER_MEM_START_def)
  then show ?thesis
    by (simp add: lmm_remove_free_def Let_def USER_MEM_START_def remove_free_loop.simps)
qed

lemma remove_free_below:
  assumes "one_block lo h"
  shows "lmm_remove_free 0 0x100000 h = Some h"
  using assms
proof (rule one_block_regions)
  fix a b c
  assume r: "regions h = [a, b, c]" "reg_nodes a = lo" "lo \<noteq> NULL" "unat (node_size (hmem h) lo) = 0x01000000 - unat lo"
    "reg_nodes b = NULL" "reg_nodes c = NULL" "reg_min a = 0x00100000" "reg_max a = 0x01000000"
    "reg_min b = 0" "reg_max b = 0x00100000" "0x00100000 \<le> unat lo" "unat lo < 0x01000000"
  have up: "align_up 0 = 0" by (simp add: align_small)
  have m1: "unat (- 1 :: u32) = 0xffffffff" by (simp add: unsigned_minus_1_eq_mask mask_eq_exp_minus_1)
  have "unat (lo + node_size (hmem h) lo) = 0x01000000" using r(4,12) by (subst unat_add_no_wrap) auto
  then have "lo + node_size (hmem h) lo > 0" by (simp add: word_less_nat_alt)
  then have "find_nodes 0 a (hmem h) lo (-1, 0, 0) = Some (lo, node_size (hmem h) lo, reg_flags a)"
    using r(3,7,8,11,12) by (subst find_nodes.simps) (auto simp: word_le_nat_alt word_less_nat_alt unat_gt_0 m1)
  then have "lmm_find_free 0 h = Some (lo, node_size (hmem h) lo, reg_flags a)"
    using r by (simp add: lmm_find_free_def Let_def up word_less_nat_alt m1)
  then show ?thesis
    using r(11) by (simp add: lmm_remove_free_def Let_def remove_free_loop.simps word_le_nat_alt)
qed

text \<open>The heap that \<open>mb_util_lmm\<close> leaves: everything from the end of Xen's data to 16 MB is free.\<close>

lemma heap_start_run:
  assumes "0x00100000 \<le> unat bstack" "unat bstack \<le> 0x00fffff8"
  obtains h' where "mb_util_lmm bstack h = Some h'" "one_block (align_up bstack) h'"
    "\<And>x. unat x \<notin> {unat (align_up bstack)..<0x01000000} \<Longrightarrow> hmem h' x = hmem h x"
    "0x00100000 \<le> unat (align_up bstack)" "unat (align_up bstack) \<le> 0x00fffff8"
proof -
  define lo where "lo = align_up bstack"
  define h0 where "h0 = h\<lparr>regions := start_regions\<rparr>"
  have "unat lo = (unat bstack + 7) div 8 * 8" unfolding lo_def by (rule unat_align_up) (use assms in simp)
  then have lo: "8 dvd unat lo" "0x00100000 \<le> unat lo" "unat lo \<le> 0x00fffff8" using assms by auto
  define sz where "sz = 0x01000000 - lo"
  have sz: "unat sz = 0x01000000 - unat lo" using lo(3) by (simp add: sz_def unat_sub_le word_le_nat_alt)
  have d: "8 dvd unat sz" using lo(1,3) sz by presburger
  have room: "room sz = unat sz" using d by (auto simp: room_def elim!: dvdE)
  have inv: "heap_inv h0 [[], [], []]" by (simp add: h0_def start_regions_ok)
  have in_r: "in_region h0 lo (room sz)" using lo sz by (simp add: in_region_def h0_def start_regions_def room)
  obtain h1 where F: "lmm_free lo sz h0 = Some h1" "heap_inv h1 (free_spec (unat lo, room sz) (regions h0) [[], [], []])"
    "map shape (regions h1) = map shape (regions h0)"
    "\<And>x. unat x \<notin> free_of [[], [], []] \<union> {unat lo..<unat lo + room sz} \<Longrightarrow> hmem h1 x = hmem h0 x"
    by (rule free_refines[OF inv _ lo(1) _ _ in_r]) (use lo sz in \<open>auto simp: word_less_nat_alt\<close>)
  have one: "one_block lo h1"
    using F(2,3) lo sz by (simp add: one_block_def h0_def start_regions_def extent_def release_def join_def room)
  obtain a b c where r: "regions h1 = [a, b, c]" "reg_min b = 0" "reg_max b = 0x00100000" "reg_min c = 0x01000000"
    "reg_max c = 0xfffffff8"
    using F(3) by (auto simp: h0_def start_regions_def shape_def)
  have top: "align_down (bstack + (USER_MEM_START - bstack)) = 0x01000000" by (simp add: align_small USER_MEM_START_def)
  have "lmm_add_free bstack (USER_MEM_START - bstack) h0 = Some h1"
  proof -
    have "add_free_to lo 0x01000000 0 h0 = Some h1"
      using F(1) lo sz by (auto simp: add_free_to_def h0_def start_regions_def sz_def aligned_iff Let_def word_less_nat_alt)
    moreover have "add_free_to lo 0x01000000 i h1 = Some h1" if "i = 1 \<or> i = 2" for i
      using that r lo by (auto simp: add_free_to_def aligned_iff Let_def word_less_nat_alt)
    moreover have "length (regions h0) = 3" by (simp add: h0_def start_regions_def)
    moreover have "lo < 0x01000000" "lo \<le> 0x01000000" using lo by (simp_all add: word_less_nat_alt word_le_nat_alt)
    ultimately show ?thesis
      unfolding lmm_add_free_def lo_def[symmetric] top by (simp add: Let_def upt_rec)
  qed
  then have run: "mb_util_lmm bstack h = Some h1"
    using remove_free_above[OF one] remove_free_below[OF one] by (simp add: mb_util_lmm_def mb_util_regions_run flip: h0_def)
  have "hmem h1 x = hmem h x" if "unat x \<notin> {unat lo..<0x01000000}" for x
    using F(4)[of x] that lo sz by (simp add: h0_def room)
  then show thesis using that[OF run] one lo by (simp add: lo_def)
qed

section \<open>Properties\<close>

definition a_heap :: lmm where
  "a_heap = the (mb_util_lmm 0x00200000 \<lparr>regions = [], hmem = \<lambda>_. 0\<rparr>)"

lemma a_heap_start:
  "heap_inv a_heap [[(0x00200000, 0x00e00000)], [], []]" "map shape (regions a_heap) = map shape start_regions"
  "mb_util_lmm 0x00200000 \<lparr>regions = [], hmem = \<lambda>_. 0\<rparr> = Some a_heap"
proof -
  have up: "align_up 0x00200000 = 0x00200000" by (simp add: align_small)
  obtain h' where h: "mb_util_lmm 0x00200000 \<lparr>regions = [], hmem = \<lambda>_. 0\<rparr> = Some h'" "one_block 0x00200000 h'"
    using heap_start_run[of "0x00200000" "\<lparr>regions = [], hmem = \<lambda>_. 0\<rparr>"] unfolding up by auto
  then have a: "a_heap = h'" by (simp add: a_heap_def)
  show "mb_util_lmm 0x00200000 \<lparr>regions = [], hmem = \<lambda>_. 0\<rparr> = Some a_heap" using h(1) a by simp
  show "heap_inv a_heap [[(0x00200000, 0x00e00000)], [], []]" "map shape (regions a_heap) = map shape start_regions"
    using h(2) by (simp_all add: a one_block_def)
qed

lemma a_heap_flags: "flags_of a_heap = [2, 3, 0]"
  using shape_flags[OF a_heap_start(2)] by (simp add: start_regions_def LMMF_16MB_def LMMF_1MB_def)

lemma a_heap_first:
  "alloc_spec (room 100) 0 (flags_of a_heap) [[(0x00200000, 0x00e00000)], [], []] =
     (0x00200000, [[(0x00200068, 0x00dfff98)], [], []])"
  by (simp add: a_heap_flags room_def cut_head_def)

lemma malloc_post:
  assumes "heap_inv h nss" "unat sz \<le> 2 ^ 32 - 12" "alloc_spec (room (sz + 4)) 0 (flags_of h) nss = (n, nss')"
  shows "\<exists>p h'. malloc sz h = Some (p, h') \<and> (if n = 0 then p = NULL else unat p = n + 4)"
  by (rule malloc_run[OF assms]) (auto split: if_splits)

lemma a_heap_malloc: "\<exists>h'. malloc 96 a_heap = Some (0x00200004, h')"
proof -
  have sp: "alloc_spec (room (96 + 4)) 0 (flags_of a_heap) [[(0x00200000, 0x00e00000)], [], []] =
      (0x00200000, [[(0x00200068, 0x00dfff98)], [], []])"
    using a_heap_first by simp
  have "unat (96 :: u32) \<le> 2 ^ 32 - 12" by simp
  then obtain p h1 where m: "malloc 96 a_heap = Some (p, h1)" "unat p = 0x00200004"
    using malloc_post[OF a_heap_start(1) _ sp] by auto
  have "p = 0x00200004" using m(2) by (simp add: word_unat_eq_iff)
  then show ?thesis using m(1) by blast
qed

text \<open>C12: For a size between 1 and \<open>2 ^ 32 - 8\<close> bytes allocation takes the first block that is large enough, from the first region of the heap that has one and
  all the flags asked for; it never fails otherwise, keeps the free lists in order, and writes to nothing but
  memory that stays free.\<close>

theorem lmm_alloc_first_fit:
  assumes "heap_inv h nss" "0 < sz" "unat sz \<le> 2 ^ 32 - 8"
    and "alloc_spec (room sz) flgs (flags_of h) nss = (n, nss')"
  shows "\<exists>h'. lmm_alloc sz flgs h = Some (of_nat n, h') \<and> heap_inv h' nss' \<and>
    (\<forall>x. unat x \<notin> free_of nss' \<longrightarrow> hmem h' x = hmem h x) \<and>
    (if n = 0 then h' = h else 8 dvd n \<and> free_of nss' = free_of nss - {n..<n + room sz})"
  by (rule alloc_refines[OF assms]) (auto split: if_splits)

theorem lmm_alloc_first_fit_witness:
  "\<exists>h'. lmm_alloc 100 0 a_heap = Some (0x00200000, h') \<and> heap_inv h' [[(0x00200068, 0x00dfff98)], [], []]"
  using lmm_alloc_first_fit[OF a_heap_start(1) _ _ a_heap_first] by auto

text \<open>C11: Releasing a block of a region that is not free puts it at its place in the list of the region, joined to the
  free blocks before and after it, and makes exactly its bytes free.\<close>

theorem lmm_free_joins:
  assumes "heap_inv h nss" "a \<noteq> NULL" "8 dvd unat a" "0 < sz" "unat sz \<le> 2 ^ 32 - 8" "in_region h a (room sz)"
    and "{unat a..<unat a + room sz} \<inter> free_of nss = {}"
  shows "\<exists>h'. lmm_free a sz h = Some h' \<and> heap_inv h' (free_spec (unat a, room sz) (regions h) nss) \<and>
    free_of (free_spec (unat a, room sz) (regions h) nss) = free_of nss \<union> {unat a..<unat a + room sz} \<and>
    (\<forall>x. unat x \<notin> free_of nss \<union> {unat a..<unat a + room sz} \<longrightarrow> hmem h' x = hmem h x)"
  by (rule free_refines[OF assms]) blast

theorem lmm_free_joins_witness:
  "\<exists>h'. lmm_free 0x001fff00 0x100 a_heap = Some h' \<and> heap_inv h' [[(0x001fff00, 0x00e00100)], [], []]"
proof -
  obtain a b c where r: "regions a_heap = [a, b, c]" "reg_min a = 0x00100000" "reg_max a = 0x01000000"
    using a_heap_start(2) by (auto simp: start_regions_def shape_def)
  have "in_region a_heap 0x001fff00 (room 0x100)" by (simp add: in_region_def r room_def)
  moreover have "free_spec (0x001fff00, room 0x100) (regions a_heap) [[(0x00200000, 0x00e00000)], [], []] =
      [[(0x001fff00, 0x00e00100)], [], []]"
    by (simp add: r extent_def release_def join_def room_def)
  ultimately show ?thesis
    using lmm_free_joins[OF a_heap_start(1), of "0x001fff00" "0x100"] by (auto simp: room_def)
qed

text \<open>C14: For a size of at most \<open>2 ^ 32 - 12\<close> bytes, what \<open>malloc\<close> returns can be written to and given to \<open>free\<close>, which leaves exactly the free lists that were
  there before, whatever has been written to the block.\<close>

theorem malloc_free_restores:
  assumes "heap_inv h nss" "malloc sz h = Some (p, h1)" "p \<noteq> NULL" "unat sz \<le> 2 ^ 32 - 12"
    and "\<forall>x. unat x \<notin> {unat p..<unat p + unat sz} \<longrightarrow> m x = hmem h1 x"
  shows "\<exists>h2. free p (h1\<lparr>hmem := m\<rparr>) = Some h2 \<and> heap_inv h2 nss"
proof -
  obtain n nss' where sp: "alloc_spec (room (sz + 4)) 0 (flags_of h) nss = (n, nss')" by fastforce
  obtain p' h' where "malloc sz h = Some (p', h')" "map shape (regions h') = map shape (regions h)"
    "if n = 0 then p' = NULL \<and> h' = h \<and> nss' = nss
     else unat p' = n + 4 \<and> heap_own h' p' sz \<and> heap_inv h' nss' \<and> heap_block p' sz \<subseteq> free_of nss \<and>
       free_of nss' = free_of nss - heap_block p' sz"
    using malloc_run[OF assms(1,4) sp] by blast
  then have M: "map shape (regions h1) = map shape (regions h)" "heap_own h1 p sz" "heap_inv h1 nss'"
    "heap_block p sz \<subseteq> free_of nss" "free_of nss' = free_of nss - heap_block p sz"
    using assms(2,3) by (auto split: if_splits)
  have "heap_inv (h1\<lparr>hmem := m\<rparr>) nss'"
    using assms(5) heap_own_data[OF M(2)] M(5) by (intro heap_inv_frame[OF M(3)]) blast
  moreover have "heap_own (h1\<lparr>hmem := m\<rparr>) p sz" using assms(5) by (intro heap_own_frame[OF M(2)]) auto
  moreover have "heap_block p sz \<inter> free_of nss' = {}" using M(5) by blast
  ultimately obtain h2 nss2 where F: "free p (h1\<lparr>hmem := m\<rparr>) = Some h2" "heap_inv h2 nss2"
    "map shape (regions h2) = map shape (regions (h1\<lparr>hmem := m\<rparr>))" "free_of nss2 = free_of nss' \<union> heap_block p sz"
    by (rule free_run)
  have "map shape (regions h2) = map shape (regions h)" "free_of nss = free_of nss2" using F(3,4) M(1,4,5) by auto
  then have "nss = nss2" using heap_lists_unique assms(1) F(2) by (auto simp: heap_inv_def)
  then show ?thesis using F(1,2) by blast
qed

theorem malloc_free_restores_witness:
  "\<exists>h1 h2. malloc 96 a_heap = Some (0x00200004, h1) \<and>
     free 0x00200004 (h1\<lparr>hmem := (hmem h1)(0x00200010 := 7)\<rparr>) = Some h2 \<and> heap_inv h2 [[(0x00200000, 0x00e00000)], [], []]"
proof -
  obtain h1 where m: "malloc 96 a_heap = Some (0x00200004, h1)" using a_heap_malloc by blast
  have "\<forall>x. unat x \<notin> {unat (0x00200004 :: addr)..<unat (0x00200004 :: addr) + unat (96 :: u32)} \<longrightarrow>
      ((hmem h1)(0x00200010 := 7)) x = hmem h1 x"
    by simp
  then show ?thesis
    using malloc_free_restores[OF a_heap_start(1) m, of "(hmem h1)(0x00200010 := 7)"] m by simp
qed

text \<open>C10: From the heap that start-up leaves, where the end of Xen's data is between 1 MB and 8 bytes below 16 MB, any
  sequence of requests for memory, each of at most \<open>2 ^ 32 - 12\<close> bytes, releases of blocks that are held and stores
  into them is served without a panic; the blocks that are held at the end do not overlap, and together with the free
  memory they are all the memory from the end of Xen's data to 16 MB, so that nothing is lost.  The bound on the
  requests is needed: a larger one destroys the free list (C37) or trips an assertion.\<close>

theorem heap_clients_safe:
  assumes "0x00100000 \<le> unat bstack" "unat bstack \<le> 0x00fffff8" "mb_util_lmm bstack h0 = Some h"
    and "\<And>sz. Get sz \<in> set rs \<Longrightarrow> unat sz \<le> 2 ^ 32 - 12"
  shows "\<exists>h' live. c_each rs (serve malloc (\<lambda>p sz h. free p h) heap_store) (h, []) = Some (h', live) \<and>
    sorted_wrt (\<lambda>(p, n) (q, k). heap_block p n \<inter> heap_block q k = {}) live \<and>
    heap_avail h' ({unat (align_up bstack)..<0x01000000} - (\<Union>(p, n) \<in> set live. heap_block p n))"
proof -
  obtain h1 where "mb_util_lmm bstack h0 = Some h1" "one_block (align_up bstack) h1"
    "unat (align_up bstack) \<le> 0x00fffff8"
    by (rule heap_start_run[OF assms(1,2)]) blast
  then have "heap_avail h {unat (align_up bstack)..<0x01000000}"
    using assms(3) unfolding heap_avail_def one_block_def
    by (intro exI[of _ "[[(unat (align_up bstack), 0x01000000 - unat (align_up bstack))], [], []]"]) auto
  then have start: "kernel_heap.holds {unat (align_up bstack)..<0x01000000} h []" by (rule kernel_heap.holds_start)
  obtain h' live where s: "c_each rs (serve malloc (\<lambda>p sz h. free p h) heap_store) (h, []) = Some (h', live)"
    "kernel_heap.holds {unat (align_up bstack)..<0x01000000} h' live"
    using kernel_heap.serve_all_holds[OF start assms(4)] by blast
  have "sorted_wrt (\<lambda>(p, n) (q, k). heap_block p n \<inter> heap_block q k = {}) live"
    using s(2) unfolding kernel_heap.holds_def by blast
  with s(1) kernel_heap.holds_free[OF s(2)] show ?thesis by blast
qed

theorem heap_clients_safe_witness:
  "\<exists>h' live. c_each [Get 96, Store 0 12 7, Get 1000, Put 0, Get 5] (serve malloc (\<lambda>p sz h. free p h) heap_store) (a_heap, []) =
     Some (h', live) \<and> sorted_wrt (\<lambda>(p, n) (q, k). heap_block p n \<inter> heap_block q k = {}) live"
proof -
  have lo: "0x00100000 \<le> unat (0x00200000 :: addr)" "unat (0x00200000 :: addr) \<le> 0x00fffff8" by simp_all
  have "unat (sz :: u32) \<le> 2 ^ 32 - 12" if "Get sz \<in> set [Get 96, Store 0 12 7, Get 1000, Put 0, Get 5]" for sz
    using that by auto
  from heap_clients_safe[OF lo a_heap_start(3) this] show ?thesis by blast
qed

text \<open>C16: Where Xen's data ends at or above 1 MB and at most at 16 MB less 8 bytes, start-up does not fail: it leaves the
  three regions with the memory from the end of Xen's data to 16 MB as the only free block, and writes to nothing
  else.  The regions are searched in the order 1 MB to 16 MB, below 1 MB, above 16 MB.  That is not the order of the
  comment at the priorities in \<^verbatim>\<open>util_lmm.c\<close>, which wants high memory first and the memory below 1 MB last:
  priorities are unsigned, so -1 and -2 come before 0.\<close>

theorem heap_start_correct:
  assumes "0x00100000 \<le> unat bstack" "unat bstack \<le> 0x00fffff8"
  shows "\<exists>h'. mb_util_lmm bstack h = Some h' \<and> map reg_min (regions h') = [0x00100000, 0, 0x01000000] \<and>
    heap_inv h' [[(unat (align_up bstack), 0x01000000 - unat (align_up bstack))], [], []] \<and>
    (\<forall>x. unat x \<notin> {unat (align_up bstack)..<0x01000000} \<longrightarrow> hmem h' x = hmem h x)"
  by (rule heap_start_run[OF assms, of h]) (auto simp: one_block_def start_regions_def shape_def)

theorem heap_start_correct_witness:
  "\<exists>h'. mb_util_lmm 0x00200000 \<lparr>regions = [], hmem = \<lambda>_. 0\<rparr> = Some h' \<and> map reg_min (regions h') = [0x00100000, 0, 0x01000000]"
  using heap_start_correct[of "0x00200000" "\<lparr>regions = [], hmem = \<lambda>_. 0\<rparr>"] by auto

text \<open>Requests so close to \<open>2 ^ 32\<close> that rounding up their size gives zero.\<close>

lemma st32_of_nat_id: "set_node a (node_next m a) (node_size m a) m = m"
  by (simp add: set_node_def node_next_def node_size_def st32_ld32_id)

lemma malloc_huge_run:
  assumes "heap_inv h (((n, s) # ns) # nss)" "2 ^ 32 - 12 < unat sz" "unat sz < 2 ^ 32 - 4"
  shows "malloc sz h = Some (of_nat n + 4, h\<lparr>hmem := st32 (of_nat n) (sz + 4) (hmem h)\<rparr>)"
proof -
  obtain r rs where r: "regions h = r # rs" "region_ok (hmem h) r ((n, s) # ns)"
    using assms(1) by (cases "regions h") (auto simp: heap_inv_def)
  obtain a where a: "get_nodep (ptr_to []) r (hmem h) = a" "a \<noteq> NULL" "unat (node_size (hmem h) a) = s"
    "node_asserts r (hmem h) a" "of_nat n = a"
    using node_ok[of "hmem h" r "[]" n s ns "unat (reg_min r)"] r(2) by (auto simp: region_ok_def)
  have "0 < s" using r(2) by (simp add: region_ok_def)
  then have s: "0 < node_size (hmem h) a" using a(3) by (simp add: word_less_nat_alt)
  have sz: "unat (sz + 4) = unat sz + 4" using assms(3) unat_add_no_wrap[of sz 4] by simp
  have zero: "align_up (sz + 4) = 0"
  proof -
    have "unat (sz + 4 + ALIGN_MASK) = unat sz + 4 + 7 - 2 ^ 32"
      using sz assms(2,3) by (simp add: ALIGN_MASK_def ALIGN_SIZE_def unat_word_ariths mod_nat_eqI)
    then have "unat (sz + 4 + ALIGN_MASK) div 8 = 0" using assms(3) by simp
    then show ?thesis using unat_align_down[of "sz + 4 + ALIGN_MASK"] by (simp add: align_up_def align_down_def unat_eq_0)
  qed
  have "sz + 4 \<noteq> 0" using sz by (metis add_is_0 unat_0 zero_neq_numeral)
  moreover have "alloc_nodes 0 Reg_nodes r (hmem h) = Some (a, r, hmem h)"
    using a s by (subst alloc_nodes.simps) (simp add: Let_def set_nodep_def get_nodep_def st32_of_nat_id)
  ultimately show ?thesis
    using r a(2,5) region_ok_asserts[OF r(2)] by (simp add: malloc_def lib_malloc_def lmm_alloc_def zero Let_def)
qed

text \<open>C37: The size that \<open>malloc\<close> adds to is rounded up to zero for requests close to \<open>2 ^ 32\<close>.  They are not rejected: the
  first free block is returned although it stays free, and its size is written over its link, so that the free
  list is lost.\<close>

theorem malloc_huge_not_rejected:
  assumes "heap_inv h (((n, s) # ns) # nss)" "2 ^ 32 - 12 < unat sz" "unat sz < 2 ^ 32 - 4"
  shows "\<exists>h'. malloc sz h = Some (of_nat n + 4, h') \<and> regions h' = regions h \<and> (\<nexists>nss'. heap_inv h' nss')"
proof -
  let ?m = "st32 (of_nat n) (sz + 4) (hmem h)"
  obtain r rs where r: "regions h = r # rs" "region_ok (hmem h) r ((n, s) # ns)"
    using assms(1) by (cases "regions h") (auto simp: heap_inv_def)
  have a: "reg_nodes r = of_nat n" "8 dvd unat (reg_nodes r)" "reg_nodes r \<noteq> NULL"
    using r(2) by (auto simp: region_ok_def)
  have sz: "unat (sz + 4) = unat sz + 4" using assms(3) unat_add_no_wrap[of sz 4] by simp
  have nxt: "node_next ?m (of_nat n) = sz + 4" using set_next_get(1)[OF a(2)] a(1) by simp
  have odd: "\<not> 8 dvd unat (sz + 4)"
  proof
    assume "8 dvd unat (sz + 4)"
    then obtain k where "unat sz + 4 = 8 * k" unfolding sz by (rule dvdE)
    moreover have "4294967284 < unat sz" "unat sz < 4294967292" using assms(2,3) by simp_all
    ultimately have "536870911 < k" "k < 536870912" by linarith+
    then show False by simp
  qed
  have "\<not> region_ok ?m r ns'" for ns'
  proof
    assume ok: "region_ok ?m r ns'"
    then obtain p qs where "ns' = p # qs" using a(3) by (cases ns') (auto simp: region_ok_def)
    with ok nxt a(1) have "seg ?m (sz + 4) qs NULL" "\<exists>l. spaced l (unat (reg_max r)) qs"
      by (cases p; auto simp: region_ok_def)+
    then show False using odd by (cases qs) auto
  qed
  then have "\<not> heap_inv (h\<lparr>hmem := ?m\<rparr>) nss'" for nss' by (cases nss') (auto simp: heap_inv_def r(1))
  then show ?thesis using malloc_huge_run[OF assms] by simp
qed

theorem malloc_huge_not_rejected_witness:
  "\<exists>h'. malloc 0xfffffff8 a_heap = Some (0x00200004, h') \<and> (\<nexists>nss'. heap_inv h' nss')"
  using malloc_huge_not_rejected[OF a_heap_start(1), of "0xfffffff8"] by auto

end
