(* ===== verification/Heap_Aligned.thy ===== *)
theory Heap_Aligned
  imports Heap_Properties
begin

text \<open>
  Allocation with alignment and bounds, \<open>lmm_alloc_gen\<close> and what is built on it: the block is cut out of the middle of
  a free block, so that a part before it and a part after it may stay free.
\<close>

section \<open>The address\<close>

lemma mod_pow_Suc: "(x :: nat) mod 2 ^ Suc i = 2 ^ i * (x div 2 ^ i mod 2) + x mod 2 ^ i"
  using mod_mult2_eq[of x "2 ^ i" 2] by (simp add: mult.commute)

lemma xor_bit_test:
  assumes "i < 32"
  shows "((a :: u32) XOR b) AND push_bit i 1 \<noteq> 0 \<longleftrightarrow> unat a div 2 ^ i mod 2 \<noteq> unat b div 2 ^ i mod 2"
proof -
  have bit: "bit c i \<longleftrightarrow> unat c div 2 ^ i mod 2 = 1" for c :: u32
  proof -
    have "bit (unat c) i \<longleftrightarrow> bit c i" by (simp only: bit_unsigned_iff possible_bit_nat simp_thms)
    then show ?thesis by (simp only: bit_iff_odd[of "unat c"] odd_iff_mod_2_eq_one)
  qed
  have "(a XOR b) AND push_bit i 1 \<noteq> 0 \<longleftrightarrow> bit a i \<noteq> bit b i"
    by (simp only: bit_iff_and_push_bit_not_eq_0[symmetric] bit_xor_iff)
  also have "\<dots> \<longleftrightarrow> unat a div 2 ^ i mod 2 \<noteq> unat b div 2 ^ i mod 2"
    unfolding bit using mod_less_divisor[of 2 "unat a div 2 ^ i"] mod_less_divisor[of 2 "unat b div 2 ^ i"] by linarith
  finally show ?thesis .
qed

lemma unat_of_bit: "i < 32 \<Longrightarrow> unat (push_bit i 1 :: u32) = 2 ^ i"
proof -
  assume i: "i < 32"
  then have "(2 :: nat) ^ i < 2 ^ 32" by (intro power_strict_increasing) simp_all
  moreover have "unat (push_bit i 1 :: u32) = take_bit LENGTH(32) (push_bit i (unat (1 :: u32)))"
    by (rule unsigned_push_bit_eq)
  ultimately show ?thesis using i by (simp add: push_bit_eq_mult take_bit_nat_eq_self)
qed

lemma align_addr_props:
  assumes "unat a mod 2 ^ i = unat ofs mod 2 ^ i" "unat a + 2 ^ (i + n) < 2 ^ 32 + 2 ^ i" "i + n \<le> 32"
  shows "unat (align_addr i n ofs a) mod 2 ^ (i + n) = unat ofs mod 2 ^ (i + n) \<and> unat a \<le> unat (align_addr i n ofs a) \<and>
    unat (align_addr i n ofs a) + 2 ^ i \<le> unat a + 2 ^ (i + n)"
  using assms
proof (induction n arbitrary: i a)
  case (Suc n)
  define b where "b = (if (a XOR ofs) AND push_bit i 1 \<noteq> 0 then a + push_bit i 1 else a)"
  have i: "i < 32" using Suc.prems(3) by simp
  have pow: "(2 :: nat) ^ Suc i \<le> 2 ^ (i + Suc n)" by (rule power_increasing) auto
  have u: "unat (push_bit i 1 :: u32) = 2 ^ i" using i by (rule unat_of_bit)
  have lt: "unat a + 2 ^ i < 2 ^ 32" using Suc.prems(2) pow unfolding power_Suc by linarith
  have add: "unat (a + push_bit i 1) = unat a + 2 ^ i" using lt u by (subst unat_add_no_wrap) simp_all
  have d: "(unat a + 2 ^ i) div 2 ^ i mod 2 \<noteq> unat a div 2 ^ i mod 2" "(unat a + 2 ^ i) mod 2 ^ i = unat a mod 2 ^ i"
  proof -
    have parity: "Suc y mod 2 \<noteq> y mod 2" for y by presburger
    have "(unat a + 2 ^ i) div 2 ^ i = Suc (unat a div 2 ^ i)"
      using div_add_self2[of "2 ^ i :: nat" "unat a"] by simp
    then show "(unat a + 2 ^ i) div 2 ^ i mod 2 \<noteq> unat a div 2 ^ i mod 2"
      using parity[of "unat a div 2 ^ i"] by simp
  qed simp
  have "unat b mod 2 ^ Suc i = unat ofs mod 2 ^ Suc i"
  proof (cases "(a XOR ofs) AND push_bit i 1 \<noteq> 0")
    case True
    then have "unat a div 2 ^ i mod 2 \<noteq> unat ofs div 2 ^ i mod 2" using xor_bit_test[OF i] by blast
    then have "(unat a + 2 ^ i) div 2 ^ i mod 2 = unat ofs div 2 ^ i mod 2" using d(1) by (metis mod2_eq_if)
    moreover have "unat b = unat a + 2 ^ i" unfolding b_def using True add by simp
    ultimately show ?thesis using Suc.prems(1) d(2) by (simp only: mod_pow_Suc)
  next
    case False
    then have "unat a div 2 ^ i mod 2 = unat ofs div 2 ^ i mod 2" using xor_bit_test[OF i] by blast
    moreover have "b = a" unfolding b_def using False by simp
    ultimately show ?thesis using Suc.prems(1) by (simp only: mod_pow_Suc)
  qed
  moreover have "unat a \<le> unat b" "unat b \<le> unat a + 2 ^ i" using add by (auto simp: b_def)
  moreover have "align_addr i (Suc n) ofs a = align_addr (Suc i) n ofs b" by (simp add: b_def Let_def)
  ultimately show ?case using Suc.IH[of b "Suc i"] Suc.prems(2,3) by auto
qed simp

section \<open>Cutting a block out of a node\<close>

text \<open>What is left behind the block: the pointer to it and the memory.\<close>

definition cut_step :: "u32 \<Rightarrow> addr \<Rightarrow> bytes \<Rightarrow> addr \<times> bytes" where
  "cut_step z a m =
     (if node_size m a > z then (a + z, set_node (a + z) (node_next m a) (node_size m a - z) m)
      else (node_next m a, m))"

lemma cut_step_seg:
  assumes "seg m a ((n, s) # bs) NULL" "spaced lo (unat (mx :: u32)) ((n, s) # bs)"
    and "unat z \<le> s" "z \<noteq> 0" "8 dvd unat z" "cut_step z a m = (c, m')"
  shows "seg m' c (cut_head (unat z) (n, s) @ bs) NULL"
    "unat x \<notin> covers (cut_head (unat z) (n, s)) \<Longrightarrow> m' x = m x"
proof -
  define r where "r = \<lparr>reg_nodes = a, reg_min = 0, reg_max = mx, reg_flags = 0, reg_pri = 0, reg_free = z\<rparr>"
  have r: "reg_nodes r = a" "reg_max r = mx" "reg_free r = z" by (simp_all add: r_def)
  obtain e where e: "get_nodep (ptr_to []) r m = e" "e \<noteq> NULL" "unat e = n" "unat (node_size m e) = s" "node_asserts r m e"
    using node_ok[of m r "[]" n s bs lo] assms(1,2) r(1,2) by auto
  have a: "e = a" using e(1) r(1) by (simp add: get_nodep_def)
  have le: "z \<le> node_size m a" using assms(3) e(4) a by (simp add: word_le_nat_alt)
  obtain m1 nd where T: "alloc_nodes z (ptr_to []) r m = Some (of_nat n, r\<lparr>reg_nodes := nd, reg_free := reg_free r - z\<rparr>, m1)"
    "seg m1 nd ([] @ cut_head (unat z) (n, s) @ bs) NULL"
    "\<forall>x. unat x \<notin> covers ([] @ cut_head (unat z) (n, s)) \<longrightarrow> m1 x = m x"
    using alloc_take[of m r "[]" n s bs lo z] assms(1-5) r by auto
  have "alloc_nodes z (ptr_to []) r m = Some (a, r\<lparr>reg_nodes := c, reg_free := reg_free r - z\<rparr>, m')"
    using e(1,2,5) a le r(3) assms(6)
    by (subst alloc_nodes.simps) (auto simp: Let_def set_nodep_def cut_step_def split: if_splits)
  then have "nd = c" "m1 = m'" using T(1) by (auto simp: r_def)
  with T(2,3) show "seg m' c (cut_head (unat z) (n, s) @ bs) NULL"
    "unat x \<notin> covers (cut_head (unat z) (n, s)) \<Longrightarrow> m' x = m x"
    by auto
qed

lemma split_seg:
  assumes "seg m a0 (as @ (n, s) # bs) NULL" "spaced lo (unat (mx :: u32)) (as @ (n, s) # bs)"
    and "8 dvd unat d" "0 < unat d" "unat d < s" "unat node = n"
    and m': "m' = st32 (node + 4) d (set_node (node + d) (node_next m node) (node_size m node - d) m)"
  shows "seg m' a0 (as @ [(n, unat d)]) (node_next m node)" "seg m' (node + d) ((n + unat d, s - unat d) # bs) NULL"
    "unat (node + d) = n + unat d" "unat x \<notin> {n..<n + s} \<Longrightarrow> m' x = m x"
proof -
  obtain e where e: "seg m a0 as e" "e \<noteq> NULL" "unat e = n" "unat (node_size m e) = s" "seg m (node_next m e) bs NULL"
    using assms(1) by (auto simp: seg_append)
  have node: "e = node" using e(3) assms(6) by (simp add: word_unat_eq_iff)
  have sp: "spaced lo (unat mx) as" "8 dvd n" "8 dvd s" "n + s \<le> unat mx" "spaced (n + s + 1) (unat mx) bs"
    using assms(2) by (auto simp: spaced_append)
  note before = spaced_before[OF assms(2)] and after = spaced_after[OF assms(2)]
  have "n + unat d < 2 ^ 32" using assms(5) sp(4) unat_lt32[of mx] by simp
  then show nd: "unat (node + d) = n + unat d" using assms(6) by (simp add: unat_add_no_wrap)
  have dn: "8 dvd unat node" "8 dvd unat (node + d)" using sp(2) assms(3,6) nd by auto
  have room: "8 \<le> unat d" "unat d + 8 \<le> s"
  proof -
    show "8 \<le> unat d" using assms(3,4) by (simp add: dvd_imp_le)
    have "8 dvd s - unat d" "0 < s - unat d" using sp(3) assms(3,5) by auto
    then have "8 \<le> s - unat d" by (simp add: dvd_imp_le)
    then show "unat d + 8 \<le> s" using assms(5) by simp
  qed
  have out: "m' x = m x" if "unat x \<notin> {n..<n + s}" for x
  proof -
    have "\<not> (unat node \<le> unat x \<and> unat x < unat node + 8)" using that room assms(6) by auto
    moreover have "\<not> (unat (node + d) \<le> unat x \<and> unat x < unat (node + d) + 8)" using that room(2) nd by auto
    ultimately show ?thesis
      using set_next_out(2)[OF dn(1)] set_node_out[OF dn(2)] by (simp add: m')
  qed
  then show "unat x \<notin> {n..<n + s} \<Longrightarrow> m' x = m x" .
  have beside: "node_next (set_node (node + d) v w m) node = node_next m node" for v w
    by (rule node_same[OF dn(1)], rule set_node_out[OF dn(2)]) (use nd assms(6) room(1) in auto)
  have at_node: "node_size m' node = d" "node_next m' node = node_next m node"
    using set_next_get(3,4)[OF dn(1)] beside by (simp_all add: m')
  have far: "node_next (st32 (node + 4) d k) (node + d) = node_next k (node + d)"
    "node_size (st32 (node + 4) d k) (node + d) = node_size k (node + d)" for k
    by (rule node_same[OF dn(2)], rule set_next_out(2)[OF dn(1)]; use nd assms(6) room(1) in auto)+
  have at_new: "node_next m' (node + d) = node_next m node" "node_size m' (node + d) = node_size m node - d"
    using set_node_get[OF dn(2)] by (simp_all add: m' far)
  have bs: "seg m' (node_next m node) bs NULL"
    by (rule seg_update[OF e(5)[unfolded node] sp(5) out, of "{n..<n + s}"]) (use after in fastforce)+
  have nd0: "node + d \<noteq> NULL" using nd assms(4) by (metis add_gr_0 unat_0 less_irrefl)
  have "d \<le> node_size m node" using e(4) node assms(5) by (simp add: word_le_nat_alt)
  then have "unat (node_size m node - d) = s - unat d" using e(4) node by (simp add: unat_sub_le)
  then show "seg m' (node + d) ((n + unat d, s - unat d) # bs) NULL" using nd nd0 bs at_new by simp
  have "seg m' a0 as node"
    by (rule seg_update[OF e(1)[unfolded node] sp(1) out, of "{n..<n + s}"]) (use before in fastforce)+
  then show "seg m' a0 (as @ [(n, unat d)]) (node_next m node)"
    using e(2) node assms(6) at_node by (auto simp: seg_append)
qed

lemma round_up_le: "x \<le> 8 * k \<Longrightarrow> (x + 7) div 8 * 8 \<le> 8 * (k :: nat)"
  using div_le_mono[of "x + 7" "8 * k + 7" 8] by simp

text \<open>The arithmetic of a block within a node: it begins \<open>d\<close> bytes after the node and takes \<open>z\<close> bytes.\<close>

lemma block_in_node:
  assumes "8 dvd n" "8 dvd s" "n \<le> unat (a :: u32)" "unat a - n + unat sz \<le> s" "n + s < 2 ^ 32" "sz \<noteq> 0"
  defines "d \<equiv> unat (align_down a) - n" and "z \<equiv> align_up ((a AND ALIGN_MASK) + sz)"
  shows "unat (align_down a) = n + d" "8 dvd d" "8 dvd unat z" "z \<noteq> 0" "d + unat z \<le> s" "0 < unat z"
    "{unat a..<unat a + unat sz} \<subseteq> {n + d..<n + d + unat z}"
proof -
  define A where "A = unat a"
  have ad: "unat (align_down a) = A div 8 * 8" by (simp add: unat_align_down A_def)
  obtain k where k: "n = 8 * k" using assms(1) by (rule dvdE)
  obtain l where l: "s = 8 * l" using assms(2) by (rule dvdE)
  have le: "n \<le> A div 8 * 8" using div_le_mono[of n A 8] assms(3) k by (simp add: A_def)
  then show nd: "unat (align_down a) = n + d" by (simp add: d_def ad)
  show d8: "8 dvd d" unfolding d_def ad k by (simp add: mult.commute flip: diff_mult_distrib2)
  have A: "A = n + d + A mod 8" using le ad by (simp add: d_def)
  have sz: "0 < unat sz" using assms(6) by (simp add: unat_gt_0)
  have fit: "d + A mod 8 + unat sz \<le> s" using assms(4) A unfolding A_def by linarith
  have s: "s \<le> 2 ^ 32 - 8"
  proof -
    have "l < 536870912" using assms(5) l by simp
    then show ?thesis using l by simp
  qed
  have "unat (a AND ALIGN_MASK) = A mod 8" by (simp add: unat_and_ALIGN_MASK A_def)
  moreover from this have "unat ((a AND ALIGN_MASK) + sz) = A mod 8 + unat sz"
    using fit s by (subst unat_add_no_wrap) simp_all
  ultimately have z: "unat z = (A mod 8 + unat sz + 7) div 8 * 8"
    unfolding z_def using fit s by (subst unat_align_up) simp_all
  then show z8: "8 dvd unat z" by simp
  have up: "A mod 8 + unat sz \<le> unat z" unfolding z by presburger
  then show zp: "0 < unat z" using sz by simp
  then show "z \<noteq> 0" by auto
  obtain e where e: "d = 8 * e" using d8 by (rule dvdE)
  have "A mod 8 + unat sz \<le> 8 * (l - e)" using fit l e by simp
  moreover have "e \<le> l" using fit l e by linarith
  ultimately have "unat z \<le> 8 * (l - e)" "e \<le> l" unfolding z by (simp_all only: round_up_le)
  then show "d + unat z \<le> s" unfolding l e by simp
  show "{unat a..<unat a + unat sz} \<subseteq> {n + d..<n + d + unat z}" using A up by (auto simp: A_def)
qed

definition cut_out :: "nat \<Rightarrow> nat \<Rightarrow> nat \<times> nat \<Rightarrow> blocks" where
  "cut_out d z p = (if 0 < d then [(fst p, d)] else []) @ cut_head z (fst p + d, snd p - d)"

lemma cut_out_props:
  assumes "spaced lo hi (as @ (n, s) # bs)" "8 dvd d" "8 dvd z" "0 < z" "d + z \<le> s"
  shows "spaced lo hi (as @ cut_out d z (n, s) @ bs)"
    "covers (as @ cut_out d z (n, s) @ bs) = covers (as @ (n, s) # bs) - {n + d..<n + d + z}"
    "sum_list (map snd (as @ (n, s) # bs)) = z + sum_list (map snd (as @ cut_out d z (n, s) @ bs))"
proof -
  have sp: "spaced (n + s + 1) hi bs" using assms(1) by (auto simp: spaced_append)
  have "spaced l hi bs" if "l \<le> n + s + 1" for l using sp that by (rule spaced_mono)
  then show "spaced lo hi (as @ cut_out d z (n, s) @ bs)"
    using assms by (auto simp: spaced_append cut_out_def cut_head_def)
  show "covers (as @ cut_out d z (n, s) @ bs) = covers (as @ (n, s) # bs) - {n + d..<n + d + z}"
    using spaced_before[OF assms(1)] spaced_after[OF assms(1)] assms(5) by (auto simp: cut_out_def cut_head_def)
  show "sum_list (map snd (as @ (n, s) # bs)) = z + sum_list (map snd (as @ cut_out d z (n, s) @ bs))"
    using assms(4,5) by (simp add: cut_out_def cut_head_def) linarith
qed

text \<open>The split and the cut together, as lists.\<close>

lemma cut_out_seg:
  assumes "seg m (reg_nodes r) (as @ (n, s) # bs) NULL" "spaced lo (unat (reg_max r)) (as @ (n, s) # bs)" "unat node = n"
    and "8 dvd unat d" "8 dvd unat z" "z \<noteq> 0" "unat d + unat z \<le> s"
    and m2: "m2 = (if 0 < unat d then st32 (node + 4) d (set_node (node + d) (node_next m node) (node_size m node - d) m) else m)"
    and np: "np = (if 0 < unat d then Next_of node else ptr_to as)" and "cut_step z (node + d) m2 = (c, m3)"
  shows "\<exists>nd m4. set_nodep np c (r, m3) = (r\<lparr>reg_nodes := nd\<rparr>, m4) \<and>
    seg m4 nd (as @ cut_out (unat d) (unat z) (n, s) @ bs) NULL \<and>
    (\<forall>x. unat x \<notin> covers as \<union> {n..<n + s} \<longrightarrow> m4 x = m x)"
proof -
  define ps where "ps = (if 0 < unat d then [(n, unat d)] else [])"
  have sp: "spaced lo (unat (reg_max r)) as" "8 dvd n" "8 dvd s" "n + s \<le> unat (reg_max r)"
    "spaced (n + s + 1) (unat (reg_max r)) bs" "0 < s"
    using assms(2) by (auto simp: spaced_append)
  have z: "0 < unat z" using assms(6) by (simp add: unat_gt_0)
  obtain b where b: "seg m2 (reg_nodes r) (as @ ps) b" "seg m2 (node + d) ((n + unat d, s - unat d) # bs) NULL"
    "\<And>x. unat x \<notin> {n..<n + s} \<Longrightarrow> m2 x = m x"
  proof (cases "0 < unat d")
    case True
    have "unat d < s" using assms(7) z by simp
    note S = split_seg[OF assms(1,2,4) True this assms(3) m2[unfolded if_P[OF True]]]
    show thesis by (rule that[of "node_next m node"]) (use S True in \<open>simp_all add: ps_def\<close>)
  next
    case False
    obtain e where "seg m (reg_nodes r) as e" "unat e = n" "seg m e ((n, s) # bs) NULL"
      using assms(1) by (auto simp: seg_append)
    moreover from this have "e = node" using assms(3) by (simp add: word_unat_eq_iff)
    moreover have "d = 0" using False by (simp add: unat_eq_0)
    ultimately show thesis using m2 by (intro that[of node]) (simp_all add: ps_def)
  qed
  have np: "np = ptr_to (as @ ps)" using assms(9) assms(3) by (auto simp: ps_def ptr_to_def)
  have sps: "spaced lo (unat (reg_max r)) (as @ ps)"
    using assms(2,4,7) by (auto simp: ps_def spaced_append)
  have tail: "spaced (n + unat d) (unat (reg_max r)) ((n + unat d, s - unat d) # bs)"
    using sp assms(4,7) z by auto
  have zle: "unat z \<le> s - unat d" using assms(7) by simp
  note C = cut_step_seg[OF b(2) tail zle assms(6,5,10)]
  have ps_below: "covers (as @ ps) \<subseteq> {lo..<n + unat d}"
    using spaced_before[OF assms(2)] spaced_member[OF assms(2), of n s] by (auto simp: ps_def subset_iff)
  have cut_above: "covers (cut_head (unat z) (n + unat d, s - unat d)) \<subseteq> {n + unat d..<n + s}"
    using assms(7) by (auto simp: cut_head_def)
  have "seg m3 (reg_nodes r) (as @ ps) b"
    by (rule seg_update[OF b(1) sps C(2)]) (use ps_below cut_above in fastforce)+
  then obtain m4 nd where set: "set_nodep np c (r, m3) = (r\<lparr>reg_nodes := nd\<rparr>, m4)" "seg m4 nd (as @ ps) c"
    "\<And>x. unat x \<notin> covers (as @ ps) \<Longrightarrow> m4 x = m3 x"
    unfolding np using set_ptr[OF _ sps] by blast
  have rest: "spaced (n + unat d) (unat (reg_max r)) (cut_head (unat z) (n + unat d, s - unat d) @ bs)"
    using cut_head_spaced[of "n + unat d" "unat (reg_max r)" "[]", OF _ zle assms(5)] tail by (simp only: append_Nil)
  have "seg m4 c (cut_head (unat z) (n + unat d, s - unat d) @ bs) NULL"
    by (rule seg_update[OF C(1) rest set(3)]) (use apart(1)[OF spaced_covers[OF rest] ps_below] in blast)+
  then have "seg m4 nd ((as @ ps) @ (cut_head (unat z) (n + unat d, s - unat d) @ bs)) NULL"
    using set(2) unfolding seg_append[of m4 nd "as @ ps"] by blast
  then have "seg m4 nd (as @ cut_out (unat d) (unat z) (n, s) @ bs) NULL"
  proof -
    have "as @ cut_out (unat d) (unat z) (n, s) @ bs = (as @ ps) @ (cut_head (unat z) (n + unat d, s - unat d) @ bs)"
      by (simp add: cut_out_def ps_def)
    with \<open>seg m4 nd _ NULL\<close> show ?thesis by (simp only:)
  qed
  moreover have "m4 x = m x" if "unat x \<notin> covers as \<union> {n..<n + s}" for x
  proof -
    have "unat x \<notin> covers (as @ ps)" using that assms(7) by (auto simp: ps_def)
    moreover have "unat x \<notin> covers (cut_head (unat z) (n + unat d, s - unat d))" using that cut_above by auto
    ultimately show ?thesis using set(3) C(2) b(3) that by simp
  qed
  ultimately show ?thesis using set(1) by blast
qed

lemma set_nodep_cut:
  "(if node_size m a > z
    then let newnode = a + z; m = set_node newnode (node_next m a) (node_size m a - z) m in set_nodep np newnode (r, m)
    else set_nodep np (node_next m a) (r, m)) = (case cut_step z a m of (c, m) \<Rightarrow> set_nodep np c (r, m))"
  by (simp add: cut_step_def Let_def)

lemma take_run:
  assumes "region_ok m r (as @ (n, s) # bs)" "unat node = n" "n \<le> unat a" "unat a - n + unat sz \<le> s" "sz \<noteq> 0"
  defines "d \<equiv> unat (align_down a) - n" and "z \<equiv> unat (align_up ((a AND ALIGN_MASK) + sz))"
  shows "\<exists>r' m'. take_from_node a sz node (ptr_to as) r m = Some (r', m') \<and>
    region_ok m' r' (as @ cut_out d z (n, s) @ bs) \<and> shape r' = shape r \<and>
    (\<forall>x. unat x \<notin> covers (as @ (n, s) # bs) \<longrightarrow> m' x = m x)"
proof -
  define w where "w = align_down a - node"
  define zz where "zz = align_up ((a AND ALIGN_MASK) + sz)"
  have ok: "seg m (reg_nodes r) (as @ (n, s) # bs) NULL" "spaced (unat (reg_min r)) (unat (reg_max r)) (as @ (n, s) # bs)"
    "reg_min r < reg_max r" "unat (reg_free r) = sum_list (map snd (as @ (n, s) # bs))"
    using assms(1) by (auto simp: region_ok_def simp del: map_append)
  have al: "8 dvd n" "8 dvd s" "n + s \<le> unat (reg_max r)" using spaced_member[OF ok(2), of n s] by auto
  have big: "n + s < 2 ^ 32" using al(3) unat_lt32[of "reg_max r"] by simp
  have B: "unat (align_down a) = n + d" "8 dvd d" "8 dvd z" "zz \<noteq> 0" "d + z \<le> s" "0 < z"
    using block_in_node[OF al(1,2) assms(3,4) big assms(5)] by (simp_all add: d_def z_def zz_def)
  have ge: "node \<le> align_down a" using assms(2) B(1) by (simp add: word_le_nat_alt)
  have w: "unat w = d" "node + w = align_down a" using ge B(1) assms(2) by (simp_all add: w_def unat_sub_le)
  have gt: "node < align_down a \<longleftrightarrow> 0 < unat w" using w(1) B(1) assms(2) by (simp add: word_less_nat_alt)
  define m2 where "m2 = (if 0 < unat w then st32 (node + 4) w (set_node (node + w) (node_next m node) (node_size m node - w) m) else m)"
  define np where "np = (if 0 < unat w then Next_of node else ptr_to as)"
  obtain c m3 where cut: "cut_step zz (node + w) m2 = (c, m3)" by fastforce
  have zu: "unat zz = z" by (simp add: zz_def z_def)
  obtain nd m4 where R: "set_nodep np c (r, m3) = (r\<lparr>reg_nodes := nd\<rparr>, m4)"
    "seg m4 nd (as @ cut_out d z (n, s) @ bs) NULL" "\<forall>x. unat x \<notin> covers as \<union> {n..<n + s} \<longrightarrow> m4 x = m x"
    using cut_out_seg[OF ok(1,2) assms(2) _ _ B(4) _ m2_def np_def cut] B(2,3,5) w(1) zu by auto
  note P = cut_out_props[OF ok(2) B(2,3,6,5)]
  have fr: "zz \<le> reg_free r" "unat (reg_free r - zz) = sum_list (map snd (as @ cut_out d z (n, s) @ bs))"
  proof -
    show "zz \<le> reg_free r" using P(3) ok(4) zu by (simp add: word_le_nat_alt)
    then show "unat (reg_free r - zz) = sum_list (map snd (as @ cut_out d z (n, s) @ bs))"
      using P(3) ok(4) zu by (simp add: unat_sub_le)
  qed
  have "w AND ALIGN_MASK = 0" using B(2) w(1) by (simp add: aligned_iff)
  then have "take_from_node a sz node (ptr_to as) r m = Some (r\<lparr>reg_nodes := nd, reg_free := reg_free r - zz\<rparr>, m4)"
    using ge gt R(1) cut fr(1) w(2)
    unfolding take_from_node_def set_nodep_cut
    by (cases "0 < unat w") (simp_all add: Let_def m2_def np_def flip: w_def zz_def)
  moreover have "region_ok m4 (r\<lparr>reg_nodes := nd, reg_free := reg_free r - zz\<rparr>) (as @ cut_out d z (n, s) @ bs)"
    using R(2) P(1) ok(3) fr(2) by (simp add: region_ok_def)
  moreover have "m4 x = m x" if "unat x \<notin> covers (as @ (n, s) # bs)" for x using R(3) that by simp
  ultimately show ?thesis by (intro exI[of _ "r\<lparr>reg_nodes := nd, reg_free := reg_free r - zz\<rparr>"] exI[of _ m4]) simp
qed

section \<open>The search\<close>

text \<open>No addition of the search exceeds \<open>2 ^ 32\<close>.\<close>

definition gen_room :: "nat \<Rightarrow> nat \<Rightarrow> nat \<Rightarrow> blocks \<Rightarrow> bool" where
  "gen_room abits in_min sz ns \<longleftrightarrow> (\<forall>(n, s) \<in> set ns. max n in_min + 2 ^ abits + sz \<le> 2 ^ 32)"

text \<open>What a successful search has found: an aligned block within bounds, cut out of the free memory.\<close>

definition block_of :: "addr \<Rightarrow> u32 \<Rightarrow> nat set" where
  "block_of a sz = {unat (align_down a)..<unat (align_down a) + unat (align_up ((a AND ALIGN_MASK) + sz))}"

definition gen_found :: "u32 \<Rightarrow> nat \<Rightarrow> u32 \<Rightarrow> u32 \<Rightarrow> u32 \<Rightarrow> addr \<Rightarrow> nat set \<Rightarrow> nat set \<Rightarrow> bool" where
  "gen_found sz abits ofs in_min in_max a F F' \<longleftrightarrow>
     unat a mod 2 ^ abits = unat ofs mod 2 ^ abits \<and> in_min \<le> a \<and> unat a + unat sz \<le> unat in_max \<and>
     0 < unat (align_down a) \<and> {unat a..<unat a + unat sz} \<subseteq> block_of a sz \<and> block_of a sz \<subseteq> F \<and> F' = F - block_of a sz"

lemma gen_nodes_run:
  assumes "region_ok m r (as @ bs)" "gen_room abits (unat in_min) (unat sz) bs" "abits \<le> 32" "sz \<noteq> 0"
  shows "\<exists>found r' m' ns'. gen_nodes sz abits ofs in_min in_max (ptr_to as) r m = Some (found, r', m') \<and>
    region_ok m' r' ns' \<and> shape r' = shape r \<and> (\<forall>x. unat x \<notin> covers (as @ bs) \<longrightarrow> m' x = m x) \<and>
    (case found of None \<Rightarrow> r' = r \<and> m' = m \<and> ns' = as @ bs
     | Some a \<Rightarrow> gen_found sz abits ofs in_min in_max a (covers (as @ bs)) (covers ns'))"
  using assms(1,2)
proof (induction bs arbitrary: as)
  case Nil
  then have "get_nodep (ptr_to as) r m = NULL" by (intro get_ptr) (simp add: region_ok_def)
  then show ?case using Nil by (subst gen_nodes.simps) (simp add: Let_def)
next
  case (Cons p bs)
  obtain n s where p: "p = (n, s)" by fastforce
  have ok: "seg m (reg_nodes r) (as @ (n, s) # bs) NULL" "spaced (unat (reg_min r)) (unat (reg_max r)) (as @ (n, s) # bs)"
    using Cons.prems(1) by (auto simp: region_ok_def p)
  obtain node where node: "get_nodep (ptr_to as) r m = node" "node \<noteq> NULL" "unat node = n" "unat (node_size m node) = s"
    "node_asserts r m node" "of_nat n = node"
    using node_ok[OF ok] by blast
  have "ptr_to (as @ [p]) = Next_of node" using node(6) by (simp add: ptr_to_def p)
  moreover have "gen_room abits (unat in_min) (unat sz) bs" using Cons.prems(2) by (simp add: gen_room_def)
  moreover have "region_ok m r ((as @ [p]) @ bs)" using Cons.prems(1) by simp
  ultimately have IH: "\<exists>found r' m' ns'. gen_nodes sz abits ofs in_min in_max (Next_of node) r m = Some (found, r', m') \<and>
      region_ok m' r' ns' \<and> shape r' = shape r \<and> (\<forall>x. unat x \<notin> covers (as @ p # bs) \<longrightarrow> m' x = m x) \<and>
      (case found of None \<Rightarrow> r' = r \<and> m' = m \<and> ns' = as @ p # bs
       | Some a \<Rightarrow> gen_found sz abits ofs in_min in_max a (covers (as @ p # bs)) (covers ns'))"
    using Cons.IH[of "as @ [p]"] unfolding append_assoc append_Cons append_Nil by metis
  define a0 where "a0 = (if node < in_min then in_min else node)"
  define a where "a = align_addr 0 abits ofs a0"
  have a0: "unat a0 = max n (unat in_min)" using node(3) by (simp add: a0_def word_less_nat_alt max_def)
  have room: "max n (unat in_min) + 2 ^ abits + unat sz \<le> 2 ^ 32" using Cons.prems(2) by (simp add: gen_room_def p)
  have sz: "0 < unat sz" using assms(4) by (simp add: unat_gt_0)
  have A: "unat a mod 2 ^ abits = unat ofs mod 2 ^ abits" "unat a0 \<le> unat a" "unat a + 1 \<le> unat a0 + 2 ^ abits"
    using align_addr_props[of a0 0 ofs abits] assms(3) a0 room by (simp_all add: a_def)
  have le: "n \<le> unat a" "in_min \<le> a" using A(2) a0 by (simp_all add: word_le_nat_alt)
  have sub: "unat (a - node) = unat a - n" using le node(3) by (simp add: unat_sub_le word_le_nat_alt)
  have add: "unat (a - node + sz) = unat a - n + unat sz" "unat (a + sz) = unat a + unat sz"
    using A(3) a0 room sub by (subst unat_add_no_wrap; simp)+
  consider (small) "node_size m node < sz" | (misfit) "\<not> node_size m node < sz" "a - node + sz > node_size m node"
    | (beyond) "\<not> node_size m node < sz" "\<not> a - node + sz > node_size m node" "a + sz > in_max"
    | (take) "\<not> node_size m node < sz" "\<not> a - node + sz > node_size m node" "\<not> a + sz > in_max" by blast
  then show ?case
  proof cases
    case small
    then have "gen_nodes sz abits ofs in_min in_max (ptr_to as) r m = gen_nodes sz abits ofs in_min in_max (Next_of node) r m"
      using node by (subst gen_nodes.simps) (simp add: Let_def)
    then show ?thesis using IH by simp
  next
    case misfit
    then have "gen_nodes sz abits ofs in_min in_max (ptr_to as) r m = gen_nodes sz abits ofs in_min in_max (Next_of node) r m"
      using node unfolding a_def a0_def by (subst gen_nodes.simps) (simp add: Let_def)
    then show ?thesis using IH by simp
  next
    case beyond
    then have "gen_nodes sz abits ofs in_min in_max (ptr_to as) r m = Some (None, r, m)"
      using node unfolding a_def a0_def by (subst gen_nodes.simps) (simp add: Let_def)
    then show ?thesis using Cons.prems(1) by simp
  next
    case take
    define d where "d = unat (align_down a) - n"
    define z where "z = unat (align_up ((a AND ALIGN_MASK) + sz))"
    have fit: "unat a - n + unat sz \<le> s" using take(2) add(1) node(4) by (simp add: word_less_nat_alt)
    have al: "8 dvd n" "8 dvd s" "n + s \<le> unat (reg_max r)" using spaced_member[OF ok(2), of n s] by auto
    have big: "n + s < 2 ^ 32" using al(3) unat_lt32[of "reg_max r"] by simp
    note B = block_in_node[OF al(1,2) le(1) fit big assms(4), folded d_def z_def]
    note P = cut_out_props[OF ok(2) B(2,3,6,5)]
    obtain r' m' where T: "take_from_node a sz node (ptr_to as) r m = Some (r', m')"
      "region_ok m' r' (as @ cut_out d z (n, s) @ bs)" "shape r' = shape r"
      "\<forall>x. unat x \<notin> covers (as @ (n, s) # bs) \<longrightarrow> m' x = m x"
      using take_run[OF Cons.prems(1)[unfolded p] node(3) le(1) fit assms(4)] unfolding d_def z_def by blast
    have run: "gen_nodes sz abits ofs in_min in_max (ptr_to as) r m = Some (Some a, r', m')"
      using node take T(1) unfolding a_def a0_def by (subst gen_nodes.simps) (simp add: Let_def)
    have "0 < n" using node(2,3) unat_gt_0 by blast
    moreover have "unat a + unat sz \<le> unat in_max" using take(3) add(2) by (simp add: word_less_nat_alt)
    moreover have "{n + d..<n + d + z} \<subseteq> covers (as @ (n, s) # bs)" using B(5) by auto
    ultimately have "gen_found sz abits ofs in_min in_max a (covers (as @ (n, s) # bs)) (covers (as @ cut_out d z (n, s) @ bs))"
      unfolding gen_found_def block_of_def B(1) z_def[symmetric] using A(1) le(2) B(7) P(2) by simp
    then show ?thesis using run T(2,3,4) unfolding p
      by (intro exI[of _ "Some a"] exI[of _ r'] exI[of _ m'] exI[of _ "as @ cut_out d z (n, s) @ bs"]) simp
  qed
qed

lemma gen_regions_run:
  assumes "heap_lists m rs nss" "\<forall>ns \<in> set nss. gen_room abits (unat in_min) (unat sz) ns" "abits \<le> 32" "sz \<noteq> 0"
  shows "\<exists>a rs' m' nss'. gen_regions sz flgs abits ofs in_min in_max rs m = Some (a, rs', m') \<and>
    heap_lists m' rs' nss' \<and> map shape rs' = map shape rs \<and> (\<forall>x. unat x \<notin> free_of nss \<longrightarrow> m' x = m x) \<and>
    (if a = NULL then rs' = rs \<and> m' = m \<and> nss' = nss
     else gen_found sz abits ofs in_min in_max a (free_of nss) (free_of nss') \<and> (\<exists>r \<in> set rs. block_of a sz \<subseteq> extent r))"
  using assms(1,2)
proof (induction m rs nss rule: heap_lists.induct)
  case (2 m r rs ns nss)
  have ok: "region_ok m r ns" "heap_lists m rs nss" "\<forall>q \<in> set rs. reg_max q \<le> reg_min r \<or> reg_max r \<le> reg_min q"
    using 2(2) by auto
  note sep = heap_lists_apart[OF ok(3)] and asserts = region_ok_asserts[OF ok(1)]
  have dis: "covers ns \<inter> free_of nss = {}"
    using region_ok_covers[OF ok(1)] heap_lists_extent[OF ok(2)] sep by blast
  obtain a rs' m' nss' where IH: "gen_regions sz flgs abits ofs in_min in_max rs m = Some (a, rs', m')"
    "heap_lists m' rs' nss'" "map shape rs' = map shape rs" "\<forall>x. unat x \<notin> free_of nss \<longrightarrow> m' x = m x"
    "if a = NULL then rs' = rs \<and> m' = m \<and> nss' = nss
     else gen_found sz abits ofs in_min in_max a (free_of nss) (free_of nss') \<and> (\<exists>r \<in> set rs. block_of a sz \<subseteq> extent r)"
    using 2(1)[OF ok(2)] 2(3) by auto
  have skip: ?case if run: "gen_regions sz flgs abits ofs in_min in_max (r # rs) m = Some (a, r # rs', m')"
  proof -
    have "region_ok m' r ns"
      using sep IH(4) heap_lists_extent[OF ok(2)] by (intro region_ok_same[OF ok(1)]) blast
    then have "heap_lists m' (r # rs') (ns # nss')" using IH(2) ok(3) heap_lists_shape(2)[OF IH(3)] by simp
    moreover have "gen_found sz abits ofs in_min in_max a (free_of (ns # nss)) (free_of (ns # nss'))"
      if "gen_found sz abits ofs in_min in_max a (free_of nss) (free_of nss')"
      using that dis unfolding gen_found_def by auto
    ultimately show ?thesis using run IH(3-5)
      by (intro exI[of _ a] exI[of _ "r # rs'"] exI[of _ m'] exI[of _ "ns # nss'"]) (auto split: if_splits)
  qed
  have "region_ok m r ([] @ ns)" "gen_room abits (unat in_min) (unat sz) ns" using ok(1) 2(3) by auto
  then obtain found r1 m1 ns1 where G: "gen_nodes sz abits ofs in_min in_max Reg_nodes r m = Some (found, r1, m1)"
    "region_ok m1 r1 ns1" "shape r1 = shape r" "\<forall>x. unat x \<notin> covers ns \<longrightarrow> m1 x = m x"
    "case found of None \<Rightarrow> r1 = r \<and> m1 = m \<and> ns1 = ns
     | Some a \<Rightarrow> gen_found sz abits ofs in_min in_max a (covers ns) (covers ns1)"
    using gen_nodes_run[OF _ _ assms(3,4), of m r "[]" ns in_min ofs in_max] unfolding ptr_to_Nil append_Nil by blast
  show ?case
  proof (cases "flgs AND NOT (reg_flags r) \<noteq> 0 \<or> reg_min r \<ge> in_max \<or> reg_max r \<le> in_min")
    case True
    then show ?thesis using asserts IH(1) by (intro skip) simp
  next
    case False
    show ?thesis
    proof (cases found)
      case None
      then show ?thesis using G(1,5) False asserts IH(1) by (intro skip) simp
    next
      case (Some b)
      have F: "gen_found sz abits ofs in_min in_max b (covers ns) (covers ns1)" using G(5) Some by simp
      then have "b \<noteq> NULL" by (auto simp: gen_found_def unat_align_down)
      have "heap_lists m1 rs nss"
        using sep G(4) region_ok_covers[OF ok(1)] by (intro heap_lists_same[OF ok(2)]) blast
      then have "heap_lists m1 (r1 # rs) (ns1 # nss)" using G(2,3) ok(3) by (auto simp: shape_def)
      moreover have "gen_found sz abits ofs in_min in_max b (free_of (ns # nss)) (free_of (ns1 # nss))"
        using F dis unfolding gen_found_def by auto
      moreover have "block_of b sz \<subseteq> extent r"
        using F region_ok_covers[OF ok(1)] unfolding gen_found_def by blast
      moreover have "gen_regions sz flgs abits ofs in_min in_max (r # rs) m = Some (b, r1 # rs, m1)"
        using False asserts G(1) Some by auto
      ultimately show ?thesis using G(3,4) \<open>b \<noteq> NULL\<close>
        by (intro exI[of _ b] exI[of _ "r1 # rs"] exI[of _ m1] exI[of _ "ns1 # nss"]) auto
    qed
  qed
qed auto

lemma gen_refines:
  assumes "heap_inv h nss" "\<forall>ns \<in> set nss. gen_room abits (unat in_min) (unat sz) ns" "abits \<le> 32" "sz \<noteq> 0"
  obtains a h' nss' where "lmm_alloc_gen sz flgs abits ofs in_min in_size h = Some (a, h')" "heap_inv h' nss'"
    "map shape (regions h') = map shape (regions h)" "\<And>x. unat x \<notin> free_of nss \<Longrightarrow> hmem h' x = hmem h x"
    "if a = NULL then h' = h \<and> nss' = nss
     else gen_found sz abits ofs in_min (in_min + in_size) a (free_of nss) (free_of nss') \<and>
       (\<exists>r \<in> set (regions h). block_of a sz \<subseteq> extent r)"
proof -
  obtain a rs' m' nss' where "gen_regions sz flgs abits ofs in_min (in_min + in_size) (regions h) (hmem h) = Some (a, rs', m')"
    "heap_lists m' rs' nss'" "map shape rs' = map shape (regions h)" "\<forall>x. unat x \<notin> free_of nss \<longrightarrow> m' x = hmem h x"
    "if a = NULL then rs' = regions h \<and> m' = hmem h \<and> nss' = nss
     else gen_found sz abits ofs in_min (in_min + in_size) a (free_of nss) (free_of nss') \<and>
       (\<exists>r \<in> set (regions h). block_of a sz \<subseteq> extent r)"
    using gen_regions_run[OF assms(1)[unfolded heap_inv_def] assms(2-4), of flgs ofs "in_min + in_size"] by blast
  then show thesis using assms(4)
    by (intro that[of a "h\<lparr>regions := rs', hmem := m'\<rparr>" nss']) (auto simp: lmm_alloc_gen_def heap_inv_def split: if_splits)
qed

section \<open>Failure of the search\<close>

text \<open>Addresses of the alignment asked for where the block fits into a free block.\<close>

definition fits_at :: "nat \<Rightarrow> nat \<Rightarrow> nat \<Rightarrow> nat \<times> nat \<Rightarrow> nat \<Rightarrow> bool" where
  "fits_at sz abits ofs p c \<longleftrightarrow> fst p \<le> c \<and> c + sz \<le> fst p + snd p \<and> c mod 2 ^ abits = ofs mod 2 ^ abits"

text \<open>The address that \<open>align_addr\<close> gives is the first one with the alignment.\<close>

lemma align_addr_first:
  assumes "abits \<le> 32" "n + 2 ^ abits \<le> 2 ^ 32" "unat node = n" "n \<le> c" "c mod 2 ^ abits = unat ofs mod 2 ^ abits"
  shows "unat (align_addr 0 abits ofs node) \<le> c"
proof (rule ccontr)
  let ?a = "unat (align_addr 0 abits ofs node)"
  assume "\<not> ?a \<le> c"
  moreover have A: "?a mod 2 ^ abits = unat ofs mod 2 ^ abits" "?a + 1 \<le> n + 2 ^ abits"
    using align_addr_props[of node 0 ofs abits] assms(1-3) by simp_all
  ultimately have "2 ^ abits dvd ?a - c" "0 < ?a - c" using assms(5) mod_eq_dvd_iff_nat[of c ?a "2 ^ abits"] by simp_all
  then have "2 ^ abits + c \<le> ?a" using dvd_imp_le[of "2 ^ abits" "?a - c"] by (simp add: le_diff_conv2)
  then show False using A(2) assms(4) by linarith
qed

lemma gen_nodes_none:
  assumes "region_ok m r (as @ bs)" "gen_room abits 0 (unat sz) bs" "abits \<le> 32"
    and "gen_nodes sz abits ofs 0 (- 1) (ptr_to as) r m = Some (None, r', m')"
  shows "\<forall>p \<in> set bs. \<nexists>c. fits_at (unat sz) abits (unat ofs) p c"
  using assms(1,2,4)
proof (induction bs arbitrary: as)
  case (Cons p bs)
  obtain n s where p: "p = (n, s)" by fastforce
  have ok: "seg m (reg_nodes r) (as @ (n, s) # bs) NULL" "spaced (unat (reg_min r)) (unat (reg_max r)) (as @ (n, s) # bs)"
    using Cons.prems(1) by (auto simp: region_ok_def p)
  obtain node where node: "get_nodep (ptr_to as) r m = node" "node \<noteq> NULL" "unat node = n" "unat (node_size m node) = s"
    "node_asserts r m node" "of_nat n = node"
    using node_ok[OF ok] by blast
  have next_ptr: "ptr_to (as @ [p]) = Next_of node" using node(6) by (simp add: ptr_to_def p)
  have room: "n + 2 ^ abits + unat sz \<le> 2 ^ 32" "gen_room abits 0 (unat sz) bs"
    using Cons.prems(2) by (simp_all add: gen_room_def p)
  define a where "a = align_addr 0 abits ofs node"
  have A: "n \<le> unat a" "unat a + 1 \<le> n + 2 ^ abits"
    using align_addr_props[of node 0 ofs abits] assms(3) node(3) room(1) by (simp_all add: a_def)
  have sub: "unat (a - node) = unat a - n" using A(1) node(3) by (simp add: unat_sub_le word_le_nat_alt)
  have add: "unat (a - node + sz) = unat a - n + unat sz" "unat (a + sz) = unat a + unat sz"
    using A(2) room(1) sub by (subst unat_add_no_wrap; simp)+
  have m1: "unat (- 1 :: u32) = 2 ^ 32 - 1" by (simp add: unsigned_minus_1_eq_mask mask_eq_exp_minus_1)
  have top: "n + s \<le> 2 ^ 32 - 1"
    using spaced_member[OF ok(2), of n s] unat_lt32[of "reg_max r"] by auto
  have step: "(node_size m node < sz \<or> a - node + sz > node_size m node) \<and>
      gen_nodes sz abits ofs 0 (- 1) (Next_of node) r m = Some (None, r', m')"
  proof (cases "node_size m node < sz \<or> a - node + sz > node_size m node")
    case True
    then have "gen_nodes sz abits ofs 0 (- 1) (ptr_to as) r m = gen_nodes sz abits ofs 0 (- 1) (Next_of node) r m"
      using node unfolding a_def by (subst gen_nodes.simps) (auto simp: Let_def)
    then show ?thesis using True Cons.prems(3) by simp
  next
    case False
    then have "unat a - n + unat sz \<le> s" using add(1) node(4) by (simp add: word_less_nat_alt)
    then have "\<not> a + sz > - 1" using add(2) A(1) m1 top by (simp add: word_less_nat_alt)
    then show ?thesis using False Cons.prems(3) node unfolding a_def
      by (subst (asm) gen_nodes.simps) (auto simp: Let_def split: Option.bind_splits prod.splits)
  qed
  have "\<not> fits_at (unat sz) abits (unat ofs) p c" for c
  proof
    assume "fits_at (unat sz) abits (unat ofs) p c"
    then have c: "n \<le> c" "c + unat sz \<le> n + s" "c mod 2 ^ abits = unat ofs mod 2 ^ abits" by (simp_all add: fits_at_def p)
    have "unat a \<le> c" unfolding a_def using room(1) by (intro align_addr_first[OF assms(3) _ node(3) c(1,3)]) simp
    then show False using step c(2) add(1) A(1) node(4) by (auto simp: word_less_nat_alt)
  qed
  moreover have "region_ok m r ((as @ [p]) @ bs)" using Cons.prems(1) by simp
  from Cons.IH[OF this room(2)] step have "\<forall>p \<in> set bs. \<nexists>c. fits_at (unat sz) abits (unat ofs) p c"
    unfolding next_ptr by blast
  ultimately show ?case by simp
qed simp

lemma gen_regions_null:
  assumes "heap_lists m rs nss" "\<forall>ns \<in> set nss. gen_room abits 0 (unat sz) ns" "abits \<le> 32" "sz \<noteq> 0"
    and "gen_regions sz 0 abits ofs 0 (- 1) rs m = Some (NULL, rs', m')"
  shows "\<forall>ns \<in> set nss. \<forall>p \<in> set ns. \<nexists>c. fits_at (unat sz) abits (unat ofs) p c"
  using assms(1,2,5)
proof (induction m rs nss arbitrary: rs' m' rule: heap_lists.induct)
  case (2 m r rs ns nss)
  have ok: "region_ok m r ns" "heap_lists m rs nss" using 2(2) by auto
  have lt: "reg_min r < reg_max r" using ok(1) by (simp add: region_ok_def)
  have no: "\<not> reg_min r \<ge> - 1" "\<not> reg_max r \<le> 0"
    using lt word_n1_ge[of "reg_max r"] by (auto dest: order.strict_trans2 order.strict_trans1)
  note asserts = region_ok_asserts[OF ok(1)]
  have r0: "region_ok m r ([] @ ns)" "gen_room abits (unat (0 :: u32)) (unat sz) ns" using ok(1) 2(3) by auto
  then obtain found r1 m1 ns1 where G: "gen_nodes sz abits ofs 0 (- 1) Reg_nodes r m = Some (found, r1, m1)"
    "case found of None \<Rightarrow> r1 = r \<and> m1 = m \<and> ns1 = ns
     | Some a \<Rightarrow> gen_found sz abits ofs 0 (- 1) a (covers ns) (covers ns1)"
    using gen_nodes_run[OF _ _ assms(3,4), of m r "[]" ns 0 ofs "- 1"] unfolding ptr_to_Nil append_Nil by blast
  have none: "found = None"
  proof (cases found)
    case (Some b)
    then have "gen_found sz abits ofs 0 (- 1) b (covers ns) (covers ns1)" using G(2) by simp
    then have "b \<noteq> NULL" by (auto simp: gen_found_def unat_align_down)
    then show ?thesis using 2(4) no asserts G(1) Some by (auto split: Option.bind_splits)
  qed simp
  then obtain rs2 m2 where "gen_regions sz 0 abits ofs 0 (- 1) rs m = Some (NULL, rs2, m2)"
    using 2(4) no asserts G by (auto split: Option.bind_splits)
  then have "\<forall>ns \<in> set nss. \<forall>p \<in> set ns. \<nexists>c. fits_at (unat sz) abits (unat ofs) p c"
    using 2(1)[OF ok(2)] 2(3) by simp
  moreover have "\<forall>p \<in> set ns. \<nexists>c. fits_at (unat sz) abits (unat ofs) p c"
    using gen_nodes_none[OF r0(1) _ assms(3), of sz ofs r1 m1] r0(2) G(1) none unfolding ptr_to_Nil by simp
  ultimately show ?case by simp
qed simp_all

lemma alignment_shift_run: "j \<le> k \<Longrightarrow> k < 32 \<Longrightarrow> alignment_shift (push_bit k 1) j = Some k"
proof (induction "k - j" arbitrary: j)
  case 0
  then show ?case by (subst alignment_shift.simps) simp
next
  case (Suc d)
  have "unat (push_bit (j mod 32) 1 :: u32) < unat (push_bit k 1 :: u32)"
    using Suc(2,4) by (simp only: unat_of_bit mod_less) simp
  then have "alignment_shift (push_bit k 1) j = alignment_shift (push_bit k 1) (Suc j)"
    by (subst alignment_shift.simps) (simp add: word_less_nat_alt)
  then show ?case using Suc by simp
qed

lemma header_residue:
  assumes "2 \<le> k" "k < 32" "2 ^ k dvd q" "4 \<le> q"
  shows "(q - 4) mod 2 ^ k = unat (push_bit k 1 - 4 :: u32) mod 2 ^ k"
proof -
  let ?o = "push_bit k 1 - 4 :: u32"
  have pow: "(4 :: nat) \<le> 2 ^ k" using power_increasing[of 2 k "2 :: nat"] assms(1) by simp
  have o: "unat ?o = 2 ^ k - 4" using unat_of_bit[OF assms(2)] pow by (subst unat_sub) (simp_all add: word_le_nat_alt)
  show "(q - 4) mod 2 ^ k = unat ?o mod 2 ^ k"
  proof (cases "q - 4 \<le> unat ?o")
    case True
    have "2 ^ k dvd unat ?o - (q - 4)" using assms(3) pow assms(4) o by (auto intro: dvd_diff_nat)
    then show ?thesis using mod_eq_dvd_iff_nat[OF True, of "2 ^ k"] by simp
  next
    case False
    then have "q - 4 - unat ?o = q - 2 ^ k" using o pow by simp
    then have "2 ^ k dvd q - 4 - unat ?o" using assms(3) by (simp add: dvd_diff_nat)
    then show ?thesis using False mod_eq_dvd_iff_nat[of "unat ?o" "q - 4" "2 ^ k"] by simp
  qed
qed

lemma memalign_null:
  assumes "heap_inv h nss" "2 \<le> k" "k < 32" "unat sz + 4 < 2 ^ 32" "\<forall>ns \<in> set nss. gen_room k 0 (unat sz + 4) ns"
    and "memalign (push_bit k 1) sz h = Some (NULL, h')" "(n, s) \<in> set (concat nss)" "n + 4 \<le> q" "q + unat sz \<le> n + s"
  shows "\<not> 2 ^ k dvd q"
proof
  assume q: "2 ^ k dvd q"
  let ?o = "push_bit k 1 - 4 :: u32"
  have sz: "unat (sz + 4) = unat sz + 4" using assms(4) unat_add_no_wrap[of sz 4] by simp
  then have nz: "sz + 4 \<noteq> 0" by (metis add_is_0 unat_0 zero_neq_numeral)
  have "(q - 4) mod 2 ^ k = unat ?o mod 2 ^ k" using assms(8) by (intro header_residue[OF assms(2,3) q]) simp
  then have fit: "fits_at (unat (sz + 4)) k (unat ?o) (n, s) (q - 4)" using assms(8,9) sz by (simp add: fits_at_def)
  have room: "\<forall>ns \<in> set nss. gen_room k (unat (0 :: u32)) (unat (sz + 4)) ns" using assms(5) sz by simp
  have k32: "k \<le> 32" using assms(3) by simp
  obtain c h1 nss1 where G: "lmm_alloc_gen (sz + 4) 0 k ?o 0 (- 1) h = Some (c, h1)" "heap_inv h1 nss1"
    "map shape (regions h1) = map shape (regions h)" "\<And>x. unat x \<notin> free_of nss \<Longrightarrow> hmem h1 x = hmem h x"
    "if c = NULL then h1 = h \<and> nss1 = nss
     else gen_found (sz + 4) k ?o 0 (0 + - 1) c (free_of nss) (free_of nss1) \<and>
       (\<exists>r \<in> set (regions h). block_of c (sz + 4) \<subseteq> extent r)"
    using gen_refines[OF assms(1) room k32 nz, of 0 ?o "- 1"] by blast
  have "c = NULL"
  proof (rule ccontr)
    assume c: "c \<noteq> NULL"
    then have "memalign (push_bit k 1) sz h = Some (c + 4, h1\<lparr>hmem := st32 c (sz + 4) (hmem h1)\<rparr>)"
      using G(1) assms(3) alignment_shift_run[of 0 k]
      by (simp add: memalign_def lib_memalign_def lmm_alloc_aligned_def Let_def)
    moreover have "unat (- 1 :: u32) = 2 ^ 32 - 1" by (simp add: unsigned_minus_1_eq_mask mask_eq_exp_minus_1)
    then have "unat (c + 4) = unat c + 4" using G(5) c sz by (subst unat_add_no_wrap) (simp_all add: gen_found_def)
    then have "c + 4 \<noteq> NULL" by (metis add_is_0 unat_0 zero_neq_numeral)
    ultimately show False using assms(6) by simp
  qed
  then obtain rs' m' where "gen_regions (sz + 4) 0 k ?o 0 (- 1) (regions h) (hmem h) = Some (NULL, rs', m')"
    using G(1) nz by (auto simp: lmm_alloc_gen_def split: Option.bind_splits if_splits)
  then have "\<forall>ns \<in> set nss. \<forall>p \<in> set ns. \<nexists>c. fits_at (unat (sz + 4)) k (unat ?o) p c"
    using gen_regions_null[OF assms(1)[unfolded heap_inv_def] _ _ nz] assms(3,5) sz by simp
  then show False using fit assms(7) by auto
qed

section \<open>Release of blocks that do not start on a boundary\<close>

lemma lmm_free_down:
  assumes "a \<noteq> NULL" "align_down a \<noteq> NULL" "sz \<noteq> 0" "(a AND ALIGN_MASK) + sz \<noteq> 0"
  shows "lmm_free a sz h = lmm_free (align_down a) ((a AND ALIGN_MASK) + sz) h"
proof -
  have d: "8 dvd unat (align_down a)" by (simp add: unat_align_down)
  have "align_down (align_down a) = align_down a" "align_down a AND ALIGN_MASK = 0"
    using align_small(2)[OF d] d aligned_iff by auto
  then show ?thesis using assms by (simp add: lmm_free_def)
qed

lemma block_of_props:
  assumes "block_of a sz \<subseteq> extent r" "{unat a..<unat a + unat sz} \<subseteq> block_of a sz" "sz \<noteq> 0" "unat a + unat sz + 8 \<le> 2 ^ 32"
  defines "S \<equiv> (a AND ALIGN_MASK) + sz"
  shows "unat S = unat a mod 8 + unat sz" "unat (align_up S) = room S" "0 < S" "unat S \<le> 2 ^ 32 - 8"
    "unat (reg_min r) \<le> unat (align_down a)" "unat (align_down a) + room S \<le> unat (reg_max r)"
    "block_of a sz = {unat (align_down a)..<unat (align_down a) + room S}"
proof -
  have m: "unat (a AND ALIGN_MASK) = unat a mod 8" by (rule unat_and_ALIGN_MASK)
  have le: "unat a mod 8 \<le> unat a" by simp
  then have fit: "unat a mod 8 + unat sz + 8 \<le> 2 ^ 32" using assms(4) by linarith
  show S: "unat S = unat a mod 8 + unat sz" unfolding S_def using fit m by (subst unat_add_no_wrap) simp_all
  show b: "unat S \<le> 2 ^ 32 - 8" using S fit by simp
  show u: "unat (align_up S) = room S" by (rule room_props(1)[OF b])
  have p: "0 < unat sz" using assms(3) unat_gt_0 by blast
  then show "0 < S" using S by (simp add: word_less_nat_alt)
  show eq: "block_of a sz = {unat (align_down a)..<unat (align_down a) + room S}" unfolding block_of_def by (simp add: u flip: S_def)
  have "unat S \<le> room S" by (rule room_props(3)[OF b])
  then have "0 < room S" using S p by linarith
  then show "unat (reg_min r) \<le> unat (align_down a)" "unat (align_down a) + room S \<le> unat (reg_max r)"
    using assms(1) unfolding eq extent_def by auto
qed

section \<open>memalign\<close>

lemma header_offset:
  assumes "k < 32" "unat (c :: u32) mod 2 ^ k = unat (push_bit k 1 - 4 :: u32) mod 2 ^ k"
  shows "2 ^ k dvd unat c + 4"
proof -
  let ?o = "push_bit k 1 - 4 :: u32"
  have "unat (x + 4) = (unat x + 4) mod 2 ^ 32" for x :: u32 by (simp add: unat_word_ariths)
  then have "unat (?o + 4) = (unat ?o + 4) mod 2 ^ 32" .
  moreover have "unat (?o + 4) = 2 ^ k" using unat_of_bit[OF assms(1)] by simp
  ultimately have e: "(unat ?o + 4) mod 2 ^ 32 = 2 ^ k" by simp
  have "(2 :: nat) ^ k dvd 2 ^ 32" using assms(1) by (intro le_imp_power_dvd) simp
  then have "(unat ?o + 4) mod 2 ^ k = ((unat ?o + 4) mod 2 ^ 32) mod 2 ^ k" by (rule mod_mod_cancel[symmetric])
  also have "\<dots> = 0" unfolding e by simp
  finally have "(unat c + 4) mod 2 ^ k = 0" using assms(2) by (metis mod_add_left_eq)
  then show ?thesis by (rule mod_0_imp_dvd)
qed

lemma memalign_run:
  assumes "heap_inv h nss" "2 \<le> k" "k < 32" "unat sz + 4 < 2 ^ 32"
    and "\<forall>ns \<in> set nss. gen_room k 0 (unat sz + 4) ns"
  shows "\<exists>p h'. memalign (push_bit k 1) sz h = Some (p, h') \<and>
    (if p = NULL then h' = h
     else 2 ^ k dvd unat p \<and> 4 \<le> unat p \<and> map shape (regions h') = map shape (regions h) \<and> ld32 (hmem h') (p - 4) = sz + 4 \<and>
       (\<exists>nss'. heap_inv h' nss' \<and> gen_found (sz + 4) k (push_bit k 1 - 4) 0 (- 1) (p - 4) (free_of nss) (free_of nss')) \<and>
       (\<exists>r \<in> set (regions h). block_of (p - 4) (sz + 4) \<subseteq> extent r) \<and>
       (\<forall>x. unat x \<notin> free_of nss \<longrightarrow> hmem h' x = hmem h x))"
proof -
  have sz: "unat (sz + 4) = unat sz + 4" using assms(4) unat_add_no_wrap[of sz 4] by simp
  then have nz: "sz + 4 \<noteq> 0" by (metis add_is_0 unat_0 zero_neq_numeral)
  have room: "\<forall>ns \<in> set nss. gen_room k (unat (0 :: u32)) (unat (sz + 4)) ns" using assms(5) sz by simp
  have k: "k \<le> 32" using assms(3) by simp
  obtain c h1 nss1 where G: "lmm_alloc_gen (sz + 4) 0 k (push_bit k 1 - 4) 0 (- 1) h = Some (c, h1)" "heap_inv h1 nss1"
    "map shape (regions h1) = map shape (regions h)" "\<And>x. unat x \<notin> free_of nss \<Longrightarrow> hmem h1 x = hmem h x"
    "if c = NULL then h1 = h \<and> nss1 = nss
     else gen_found (sz + 4) k (push_bit k 1 - 4) 0 (0 + - 1) c (free_of nss) (free_of nss1) \<and>
       (\<exists>r \<in> set (regions h). block_of c (sz + 4) \<subseteq> extent r)"
    using gen_refines[OF assms(1) room k nz, of 0 "push_bit k 1 - 4" "- 1"] by blast
  have run: "memalign (push_bit k 1) sz h =
      (if c = NULL then Some (NULL, h1) else Some (c + 4, h1\<lparr>hmem := st32 c (sz + 4) (hmem h1)\<rparr>))"
    using G(1) assms(3) alignment_shift_run[of 0 k]
    by (simp add: memalign_def lib_memalign_def lmm_alloc_aligned_def Let_def)
  show ?thesis
  proof (cases "c = NULL")
    case True
    then show ?thesis using run G(5) by simp
  next
    case False
    have F: "gen_found (sz + 4) k (push_bit k 1 - 4) 0 (- 1) c (free_of nss) (free_of nss1)"
      "\<exists>r \<in> set (regions h). block_of c (sz + 4) \<subseteq> extent r"
      using G(5) False by simp_all
    have m1: "unat (- 1 :: u32) = 2 ^ 32 - 1" by (simp add: unsigned_minus_1_eq_mask mask_eq_exp_minus_1)
    have c: "2 ^ k dvd unat c + 4" "unat c + unat (sz + 4) \<le> 2 ^ 32 - 1" "{unat c..<unat c + unat (sz + 4)} \<subseteq> block_of c (sz + 4)"
      "block_of c (sz + 4) \<subseteq> free_of nss" "free_of nss1 = free_of nss - block_of c (sz + 4)"
      using F(1) header_offset[OF assms(3)] m1 unfolding gen_found_def by simp_all
    have c4: "unat (c + 4) = unat c + 4" using c(2) sz by (subst unat_add_no_wrap) simp_all
    have "(4 :: nat) dvd 2 ^ k" using assms(2) le_imp_power_dvd[of 2 k 2] by simp
    then have "4 dvd unat c + 4" using c(1) by (rule dvd_trans)
    then have "4 dvd unat c" by simp
    then have al: "word_aligned c" unfolding word_aligned_def using c(2) sz by simp
    have out: "st32 c (sz + 4) (hmem h1) x = hmem h1 x" if "unat x \<notin> block_of c (sz + 4)" for x
    proof (rule st32_out[OF al])
      show "\<not> (unat c \<le> unat x \<and> unat x < unat c + 4)" using subsetD[OF c(3), of "unat x"] that sz by auto
    qed
    have "heap_inv (h1\<lparr>hmem := st32 c (sz + 4) (hmem h1)\<rparr>) nss1"
      using out c(5) by (intro heap_inv_frame[OF G(2)]) auto
    moreover have "st32 c (sz + 4) (hmem h1) x = hmem h x" if "unat x \<notin> free_of nss" for x
      using that G(4)[of x] out[of x] c(4) by auto
    moreover have "c + 4 \<noteq> NULL" using c4 by (metis add_is_0 unat_0 zero_neq_numeral)
    moreover have "c + 4 - 4 = c" by simp
    ultimately show ?thesis
      using run False c(1) c4 F G(3) al
      by (intro exI[of _ "c + 4"] exI[of _ "h1\<lparr>hmem := st32 c (sz + 4) (hmem h1)\<rparr>"]) auto
  qed
qed

section \<open>Properties\<close>

lemma free_of_below:
  assumes "heap_lists m rs nss" "x \<in> free_of nss"
  shows "x + 8 < 2 ^ 32"
  using assms
proof (induction m rs nss rule: heap_lists.induct)
  case (2 m r rs ns nss)
  show ?case
  proof (cases "x \<in> covers ns")
    case True
    then obtain n s where ns: "(n, s) \<in> set ns" "n \<le> x" "x < n + s" by (auto simp: covers_def)
    have "spaced (unat (reg_min r)) (unat (reg_max r)) ns" using 2(2) by (simp add: region_ok_def)
    then have al: "8 dvd n + s" "n + s \<le> unat (reg_max r)" using spaced_member ns(1) by auto
    obtain k where k: "n + s = 8 * k" using al(1) by (rule dvdE)
    then have "k < 536870912" using al(2) unat_lt32[of "reg_max r"] by simp
    then show ?thesis using k ns(3) by simp
  next
    case False
    then show ?thesis using 2 by auto
  qed
qed auto

text \<open>C13: For an alignment \<open>2 ^ k\<close> with \<open>2 \<le> k < 32\<close> \<open>memalign\<close> returns an address with that alignment whenever a free
  block has room for it: for the bytes asked for at an aligned address and the four bytes of the size before them.
  The bytes and the size lie in a block cut out of the free memory, and \<open>free\<close> puts exactly that block back.  Only
  when no free block has such room it returns \<open>NULL\<close>, and changes nothing.  It is assumed that no sum wraps: the size
  plus 4 is below \<open>2 ^ 32\<close>, and for each free block its start plus the alignment plus the size plus 4 is at most
  \<open>2 ^ 32\<close> (\<open>gen_room\<close>).\<close>

theorem memalign_correct:
  assumes "heap_inv h nss" "2 \<le> k" "k < 32" "unat sz + 4 < 2 ^ 32" "\<forall>ns \<in> set nss. gen_room k 0 (unat sz + 4) ns"
  shows "\<exists>p h'. memalign (push_bit k 1) sz h = Some (p, h') \<and>
    (if p = NULL then h' = h \<and> (\<forall>(n, s) \<in> set (concat nss). \<forall>q. n + 4 \<le> q \<and> q + unat sz \<le> n + s \<longrightarrow> \<not> 2 ^ k dvd q)
     else 2 ^ k dvd unat p \<and>
       (\<exists>nss' B. heap_inv h' nss' \<and> {unat p - 4..<unat p + unat sz} \<subseteq> B \<and> B \<subseteq> free_of nss \<and> free_of nss' = free_of nss - B) \<and>
       (\<exists>h''. free p h' = Some h'' \<and> heap_inv h'' nss))"
proof -
  from memalign_run[OF assms] obtain p h' where M: "memalign (push_bit k 1) sz h = Some (p, h')"
    "if p = NULL then h' = h
     else 2 ^ k dvd unat p \<and> 4 \<le> unat p \<and> map shape (regions h') = map shape (regions h) \<and> ld32 (hmem h') (p - 4) = sz + 4 \<and>
       (\<exists>nss'. heap_inv h' nss' \<and> gen_found (sz + 4) k (push_bit k 1 - 4) 0 (- 1) (p - 4) (free_of nss) (free_of nss')) \<and>
       (\<exists>r \<in> set (regions h). block_of (p - 4) (sz + 4) \<subseteq> extent r) \<and>
       (\<forall>x. unat x \<notin> free_of nss \<longrightarrow> hmem h' x = hmem h x)"
    by blast
  show ?thesis
  proof (cases "p = NULL")
    case True
    have "\<forall>(n, s) \<in> set (concat nss). \<forall>q. n + 4 \<le> q \<and> q + unat sz \<le> n + s \<longrightarrow> \<not> 2 ^ k dvd q"
      using memalign_null[OF assms] M(1) True by blast
    then show ?thesis using M True by auto
  next
    case False
    obtain nss' r where m: "2 ^ k dvd unat p" "4 \<le> unat p" "map shape (regions h') = map shape (regions h)"
      "ld32 (hmem h') (p - 4) = sz + 4" "heap_inv h' nss'"
      "gen_found (sz + 4) k (push_bit k 1 - 4) 0 (- 1) (p - 4) (free_of nss) (free_of nss')"
      "r \<in> set (regions h)" "block_of (p - 4) (sz + 4) \<subseteq> extent r"
      using M(2) False by auto
    define c where "c = p - 4"
    define B where "B = block_of c (sz + 4)"
    have sz: "unat (sz + 4) = unat sz + 4" using assms(4) unat_add_no_wrap[of sz 4] by simp
    then have nz: "sz + 4 \<noteq> 0" by (metis add_is_0 unat_0 zero_neq_numeral)
    have c: "unat c = unat p - 4" unfolding c_def using m(2) by (subst unat_sub) (auto simp: word_le_nat_alt)
    have F: "0 < unat (align_down c)" "{unat c..<unat c + unat (sz + 4)} \<subseteq> B" "B \<subseteq> free_of nss" "free_of nss' = free_of nss - B"
      using m(6) by (simp_all add: gen_found_def B_def flip: c_def)
    have "unat c + unat (sz + 4) - 1 \<in> free_of nss" using sz by (intro subsetD[OF F(3)] subsetD[OF F(2)]) auto
    then have below: "unat c + unat (sz + 4) + 8 \<le> 2 ^ 32"
      using free_of_below assms(1) sz unfolding heap_inv_def by fastforce
    note P = block_of_props[OF m(8)[folded c_def] F(2)[unfolded B_def] nz below]
    have down: "align_down c \<noteq> NULL" using F(1) by auto
    have cn: "c \<noteq> NULL" using down by (auto simp: align_down_def)
    have B: "B = {unat (align_down c)..<unat (align_down c) + room ((c AND ALIGN_MASK) + (sz + 4))}"
      unfolding B_def by (rule P(7))
    have "r \<in> set (regions h)" by (rule m(7))
    then have "in_region h (align_down c) (room ((c AND ALIGN_MASK) + (sz + 4)))" using P(5,6) by (auto simp: in_region_def)
    then have in_r: "in_region h' (align_down c) (room ((c AND ALIGN_MASK) + (sz + 4)))" using in_region_shape[OF m(3)] by simp
    have al: "8 dvd unat (align_down c)" by (simp add: unat_align_down)
    have dis: "{unat (align_down c)..<unat (align_down c) + room ((c AND ALIGN_MASK) + (sz + 4))} \<inter> free_of nss' = {}"
      using F(4) unfolding B[symmetric] by blast
    obtain h2 where R: "lmm_free (align_down c) ((c AND ALIGN_MASK) + (sz + 4)) h' = Some h2"
      "heap_inv h2 (free_spec (unat (align_down c), room ((c AND ALIGN_MASK) + (sz + 4))) (regions h') nss')"
      "map shape (regions h2) = map shape (regions h')"
      "free_of (free_spec (unat (align_down c), room ((c AND ALIGN_MASK) + (sz + 4))) (regions h') nss') = free_of nss' \<union> B"
      unfolding B using free_refines[OF m(5) down al P(3,4) in_r dis] by blast
    have "free p h' = Some h2"
      using R(1) m(4) lmm_free_down[OF cn down nz, of h'] P(3) by (simp add: free_def lib_free_def Let_def flip: c_def)
    moreover have "map shape (regions h2) = map shape (regions h)" using R(3) m(3) by simp
    then have "heap_inv h2 nss"
      using heap_lists_unique[of "hmem h" "regions h" nss "hmem h2" "regions h2"] assms(1) R(2,4) F(3,4)
      unfolding heap_inv_def by fastforce
    moreover have "{unat p - 4..<unat p + unat sz} \<subseteq> B" using F(2) sz c m(2) by simp
    ultimately show ?thesis using M(1) False m(1,5) F(3,4) by auto
  qed
qed

theorem memalign_correct_witness:
  "\<exists>p h'. memalign 0x1000 0x1000 a_heap = Some (p, h') \<and> p \<noteq> NULL \<and> 4096 dvd unat p \<and>
    (\<exists>h''. free p h' = Some h'' \<and> heap_inv h'' [[(0x00200000, 0x00e00000)], [], []])"
proof -
  let ?nss = "[[(0x00200000, 0x00e00000)], [], []] :: blocks list"
  have r: "\<forall>ns \<in> set ?nss. gen_room 12 0 (unat (0x1000 :: u32) + 4) ns"
    by (simp add: gen_room_def)
  have "(2 :: nat) \<le> 12" "(12 :: nat) < 32" "unat (0x1000 :: u32) + 4 < 2 ^ 32" by simp_all
  from memalign_correct[OF a_heap_start(1) this r] obtain p h' where M: "memalign 0x1000 0x1000 a_heap = Some (p, h')"
    "if p = NULL then h' = a_heap \<and> (\<forall>(n, s) \<in> set (concat ?nss). \<forall>q. n + 4 \<le> q \<and> q + unat (0x1000 :: u32) \<le> n + s \<longrightarrow> \<not> 2 ^ 12 dvd q)
     else 2 ^ 12 dvd unat p \<and> (\<exists>nss' B. heap_inv h' nss' \<and> {unat p - 4..<unat p + unat (0x1000 :: u32)} \<subseteq> B \<and> B \<subseteq> free_of ?nss \<and>
         free_of nss' = free_of ?nss - B) \<and> (\<exists>h''. free p h' = Some h'' \<and> heap_inv h'' ?nss)"
    by auto
  have p: "p \<noteq> NULL"
  proof
    assume "p = NULL"
    then have "\<forall>q. 0x00200004 \<le> q \<and> q + 0x1000 \<le> 0x01000000 \<longrightarrow> \<not> (4096 :: nat) dvd q" using M(2) by simp
    from this[rule_format, of "0x00201000"] show False by simp
  qed
  then show ?thesis using M by (intro exI[of _ p] exI[of _ h']) simp
qed

end
