(* ===== verification/Printf.thy ===== *)
theory Printf
  imports C_Memory
begin

text \<open>
  Formatted output, \<^verbatim>\<open>410kern/stdio/doprnt.c\<close>, and its two users: \<open>printf\<close>, which collects characters for the console, and
  \<open>sprintf\<close>, which stores them in memory.

  The formatter calls its argument \<open>putc\<close> on a state \<open>'s\<close> and reads strings from memory through \<open>rd\<close>.  A format is the
  list of its characters before the terminator; the arguments are the words on the stack behind it, two for a
  \<open>long long\<close>.  None is a fault: a division by zero, an access outside an array, more arguments than there are.
\<close>

section \<open>Characters and directives\<close>

abbreviation ch :: "char \<Rightarrow> u8" where "ch c \<equiv> of_char c"

definition is_digit :: "u8 \<Rightarrow> bool" where
  "is_digit c \<longleftrightarrow> ch CHR ''0'' \<le> c \<and> c \<le> ch CHR ''9''"

definition digs :: "u8 list" where
  "digs = map of_char ''0123456789abcdef'' @ [0]"

record directive =
  len :: int
  prec :: int
  ladjust :: bool
  padc :: u8
  plus_sign :: u8
  altfmt :: bool
  longopt :: nat

definition plain :: directive where
  "plain = \<lparr>len = 0, prec = -1, ladjust = False, padc = ch CHR '' '', plus_sign = 0, altfmt = False, longopt = 0\<rparr>"

type_synonym 's put = "u8 \<Rightarrow> 's \<Rightarrow> 's option"

definition va_arg :: "u32 list \<Rightarrow> (u32 \<times> u32 list) option" where
  "va_arg args = (case args of [] \<Rightarrow> None | a # args \<Rightarrow> Some (a, args))"

section \<open>Reading a directive\<close>

fun flags :: "u8 list \<Rightarrow> directive \<Rightarrow> u8 list \<times> directive" where
  "flags (c # fmt) d =
     (if c = ch CHR ''#'' then flags fmt (d\<lparr>altfmt := True\<rparr>)
      else if c = ch CHR ''-'' then flags fmt (d\<lparr>ladjust := True\<rparr>)
      else if c = ch CHR ''+'' then flags fmt (d\<lparr>plus_sign := ch CHR ''+''\<rparr>)
      else if c = ch CHR '' '' then flags fmt (if plus_sign d = 0 then d\<lparr>plus_sign := ch CHR '' ''\<rparr> else d)
      else (c # fmt, d))"
| "flags [] d = ([], d)"

fun number :: "int \<Rightarrow> u8 list \<Rightarrow> int \<times> u8 list" where
  "number n (c # fmt) = (if is_digit c then number (10 * n + (uint c - 48)) fmt else (n, c # fmt))"
| "number n [] = (n, [])"

definition at :: "u8 list \<Rightarrow> char \<Rightarrow> bool" where
  "at fmt c \<longleftrightarrow> fmt \<noteq> [] \<and> hd fmt = ch c"

definition read_width :: "u8 list \<Rightarrow> u32 list \<Rightarrow> directive \<Rightarrow> (u8 list \<times> u32 list \<times> directive) option" where
  "read_width fmt args d =
     (if fmt \<noteq> [] \<and> is_digit (hd fmt) then let (n, fmt) = number 0 fmt in Some (fmt, args, d\<lparr>len := n\<rparr>)
      else if at fmt CHR ''*'' then
        do { (a, args) \<leftarrow> va_arg args;
             Some (tl fmt, args, if sint a < 0 then d\<lparr>ladjust := \<not> ladjust d, len := - sint a\<rparr> else d\<lparr>len := sint a\<rparr>) }
      else Some (fmt, args, d))"

definition read_prec :: "u8 list \<Rightarrow> u32 list \<Rightarrow> directive \<Rightarrow> (u8 list \<times> u32 list \<times> directive) option" where
  "read_prec fmt args d =
     (if at fmt CHR ''.'' then
        let fmt = tl fmt
        in if fmt \<noteq> [] \<and> is_digit (hd fmt) then let (n, fmt) = number 0 fmt in Some (fmt, args, d\<lparr>prec := n\<rparr>)
           else if at fmt CHR ''*'' then
             do { (a, args) \<leftarrow> va_arg args; Some (tl fmt, args, d\<lparr>prec := sint a\<rparr>) }
           else Some (fmt, args, d)
      else Some (fmt, args, d))"

text \<open>Everything between the percent sign and the character that names the conversion.\<close>

definition read_directive :: "u8 list \<Rightarrow> u32 list \<Rightarrow> (u8 list \<times> u32 list \<times> directive) option" where
  "read_directive fmt args =
     (let (fmt, d) = flags fmt plain;
          (fmt, d) = (if at fmt CHR ''0'' then (tl fmt, d\<lparr>padc := ch CHR ''0''\<rparr>) else (fmt, d))
      in do {
        (fmt, args, d) \<leftarrow> read_width fmt args d;
        (fmt, args, d) \<leftarrow> read_prec fmt args d;
        let ls = takeWhile (\<lambda>c. c = ch CHR ''l'') fmt;
        Some (drop (length ls) fmt, args, d\<lparr>longopt := length ls\<rparr>) })"

section \<open>Numbers\<close>

definition MAXBUF :: nat where "MAXBUF = 32"

text \<open>The digits, built from the last one; the buffer has \<open>MAXBUF\<close> places; \<open>digs\<close> is an array with a terminator.\<close>

partial_function (option) digits :: "u64 \<Rightarrow> u64 \<Rightarrow> u8 list \<Rightarrow> u8 list option" where
  "digits base u buf =
     (if base = 0 \<or> length buf = MAXBUF \<or> unat (u mod base) \<ge> length digs then None
      else
        let buf = digs ! unat (u mod base) # buf; u = u div base
        in if u \<noteq> 0 then digits base u buf else Some buf)"

definition printnum :: "'s put \<Rightarrow> u32 \<Rightarrow> int \<Rightarrow> 's \<Rightarrow> 's option" where
  "printnum putc u base s =
     do { buf \<leftarrow> digits (ucast (word_of_int base :: u32)) (ucast u) []; c_each buf putc s }"

definition printnum_16 :: "'s put \<Rightarrow> u32 \<Rightarrow> 's \<Rightarrow> 's option" where
  "printnum_16 putc u s = c_each (map (\<lambda>i. digs ! unat (drop_bit (4 * i) u AND 0x0f)) (rev [0..<8])) putc s"

definition pad :: "'s put \<Rightarrow> u8 \<Rightarrow> int \<Rightarrow> 's \<Rightarrow> 's option" where
  "pad putc c n s = c_each (replicate (nat n) c) putc s"

text \<open>The part that all number conversions share.\<close>

definition print_num :: "'s put \<Rightarrow> directive \<Rightarrow> int \<Rightarrow> u8 \<Rightarrow> u64 \<Rightarrow> 's \<Rightarrow> 's option" where
  "print_num putc d base sign_char u s =
     (let prefix = (if u \<noteq> 0 \<and> altfmt d then
                      if base = 8 then [ch CHR ''0''] else if base = 16 then [ch CHR ''0'', ch CHR ''x''] else []
                    else [])
      in do {
        buf \<leftarrow> digits (word_of_int base) u [];
        let n = len d - int (length buf) - (if sign_char \<noteq> 0 then 1 else 0) - int (length prefix);
        let blanks = (if padc d = ch CHR '' '' \<and> \<not> ladjust d then n else 0);
        s \<leftarrow> pad putc (ch CHR '' '') blanks s;
        let n = (if padc d = ch CHR '' '' \<and> \<not> ladjust d then -1 else n);
        s \<leftarrow> (if sign_char \<noteq> 0 then putc sign_char s else Some s);
        s \<leftarrow> c_each prefix putc s;
        s \<leftarrow> pad putc (ch CHR ''0'') (if padc d = ch CHR ''0'' then n else 0) s;
        let n = (if padc d = ch CHR ''0'' then -1 else n);
        s \<leftarrow> c_each buf putc s;
        if ladjust d then pad putc (ch CHR '' '') n s else Some s })"

text \<open>The value of an argument: sign-extended or zero-extended from a word, or two words.\<close>

definition va_long :: "bool \<Rightarrow> nat \<Rightarrow> u32 list \<Rightarrow> (u64 \<times> u32 list) option" where
  "va_long sg lopt args =
     do { (lo, args) \<leftarrow> va_arg args;
          if lopt > 1 then do { (hi, args) \<leftarrow> va_arg args; Some (push_bit 32 (ucast hi) OR ucast lo, args) }
          else Some (if sg then scast lo else ucast lo, args) }"

definition doprnt_truncates :: bool where "doprnt_truncates = False"

text \<open>Whether a conversion character asks for a number, whether truncated and signed, and its base.\<close>

definition number_conversion :: "int \<Rightarrow> u8 \<Rightarrow> (bool \<times> bool \<times> int) option" where
  "number_conversion radix c =
     (if c = ch CHR ''o'' then Some (doprnt_truncates, False, 8)
      else if c = ch CHR ''O'' then Some (False, False, 8)
      else if c = ch CHR ''d'' then Some (doprnt_truncates, True, 10)
      else if c = ch CHR ''D'' then Some (False, True, 10)
      else if c = ch CHR ''u'' then Some (doprnt_truncates, False, 10)
      else if c = ch CHR ''U'' then Some (False, False, 10)
      else if c = ch CHR ''p'' \<or> c = ch CHR ''x'' then Some (doprnt_truncates, False, 16)
      else if c = ch CHR ''X'' then Some (False, False, 16)
      else if c = ch CHR ''z'' then Some (doprnt_truncates, True, 16)
      else if c = ch CHR ''Z'' then Some (False, True, 16)
      else if c = ch CHR ''r'' then Some (doprnt_truncates, True, radix)
      else if c = ch CHR ''R'' then Some (False, True, radix)
      else if c = ch CHR ''n'' then Some (doprnt_truncates, False, radix)
      else if c = ch CHR ''N'' then Some (False, False, radix)
      else None)"

definition print_number ::
  "'s put \<Rightarrow> directive \<Rightarrow> bool \<times> bool \<times> int \<Rightarrow> u32 list \<Rightarrow> 's \<Rightarrow> ('s \<times> u32 list) option" where
  "print_number putc d conv args s =
     (let (truncate, sg, base) = conv
      in do {
        (n, args) \<leftarrow> va_long sg (longopt d) args;
        let u = (if sg \<and> sint n < 0 then - n else n);
        let sign_char = (if \<not> sg then 0 else if sint n < 0 then ch CHR ''-'' else plus_sign d);
        let u = (if truncate then scast (ucast u :: u32) else u);
        s \<leftarrow> print_num putc d base sign_char u s;
        Some (s, args) })"

section \<open>Bit fields, thread identifiers and strings\<close>

text \<open>A name ends before the first character that is not above a blank.\<close>

partial_function (option) put_name :: "('s \<Rightarrow> addr \<Rightarrow> u8) \<Rightarrow> 's put \<Rightarrow> addr \<Rightarrow> 's \<Rightarrow> (addr \<times> 's) option" where
  "put_name rd putc p s =
     (if sint (rd s p) > 32 then Option.bind (putc (rd s p) s) (put_name rd putc (p + 1)) else Some (p, s))"

partial_function (option) skip_name :: "('s \<Rightarrow> addr \<Rightarrow> u8) \<Rightarrow> 's \<Rightarrow> addr \<Rightarrow> addr option" where
  "skip_name rd s p = (if sint (rd s p) > 32 then skip_name rd s (p + 1) else Some p)"

definition put_sep :: "'s put \<Rightarrow> bool \<Rightarrow> 's \<Rightarrow> 's option" where
  "put_sep putc any s = putc (if any then ch CHR '','' else ch CHR ''<'') s"

definition field_value :: "u32 \<Rightarrow> int \<Rightarrow> int \<Rightarrow> u32 option" where
  "field_value u i j =
     (if 1 \<le> j \<and> j \<le> i \<and> i - j < 32 \<and> j \<le> 64 then Some (drop_bit (nat (j - 1)) u AND (push_bit (nat (i - j)) 2 - 1)) else None)"

partial_function (option) bits ::
  "('s \<Rightarrow> addr \<Rightarrow> u8) \<Rightarrow> 's put \<Rightarrow> u32 \<Rightarrow> int \<Rightarrow> addr \<Rightarrow> bool \<Rightarrow> 's \<Rightarrow> (bool \<times> 's) option" where
  "bits rd putc u base p any s =
     (let i = sint (rd s p); p = p + 1
      in if i = 0 then Some (any, s)
         else if sint (rd s p) \<le> 32 then
           let j = sint (rd s p)
           in Option.bind (put_sep putc any s) (\<lambda>s.
                Option.bind (put_name rd putc (p + 1) s) (\<lambda>(p, s).
                  Option.bind (field_value u i j) (\<lambda>v.
                    Option.bind (printnum putc v base s) (bits rd putc u base p True))))
         else if \<not> (1 \<le> i \<and> i \<le> 32) then None
         else if u AND push_bit (nat (i - 1)) 1 \<noteq> 0 then
           Option.bind (put_sep putc any s) (\<lambda>s.
             Option.bind (put_name rd putc p s) (\<lambda>(p, s). bits rd putc u base p True s))
         else Option.bind (skip_name rd s p) (\<lambda>p. bits rd putc u base p any s))"

definition print_bits :: "('s \<Rightarrow> addr \<Rightarrow> u8) \<Rightarrow> 's put \<Rightarrow> u32 list \<Rightarrow> 's \<Rightarrow> ('s \<times> u32 list) option" where
  "print_bits rd putc args s =
     do { (u, args) \<leftarrow> va_arg args;
          (p, args) \<leftarrow> va_arg args;
          let base = sint (rd s p);
          s \<leftarrow> printnum putc u base s;
          if u = 0 then Some (s, args)
          else do {
            (any, s) \<leftarrow> bits rd putc u base (p + 1) False s;
            s \<leftarrow> (if any then putc (ch CHR ''>'') s else Some s);
            Some (s, args) } }"

text \<open>The identifier is two words, of which the first holds the low version, the thread and the task.\<close>

definition print_tid :: "'s put \<Rightarrow> directive \<Rightarrow> u32 list \<Rightarrow> 's \<Rightarrow> ('s \<times> u32 list) option" where
  "print_tid putc d args s =
     do { (high, args) \<leftarrow> va_arg args;
          (low, args) \<leftarrow> va_arg args;
          let blank = ch CHR '' '';
          let brackets = (\<lambda>c. if altfmt d then [ch c] else []);
          if longopt d > 0 then
            do { let n = (if altfmt d then 19 else 17);
                 s \<leftarrow> pad putc blank (if len d > 0 \<and> \<not> ladjust d then len d - n else 0) s;
                 let n = (if len d > 0 \<and> \<not> ladjust d then max n (len d) else n);
                 s \<leftarrow> c_each (brackets CHR ''['') putc s;
                 s \<leftarrow> printnum_16 putc high s;
                 s \<leftarrow> putc (ch CHR '':'') s;
                 s \<leftarrow> printnum_16 putc low s;
                 s \<leftarrow> c_each (brackets CHR '']'') putc s;
                 s \<leftarrow> pad putc blank (if len d > 0 \<and> ladjust d then len d - n else 0) s;
                 Some (s, args) }
          else
            do { let lthread = take_bit 7 (drop_bit 10 high);
                 let task = take_bit 11 (drop_bit 17 high);
                 let n = (if altfmt d then 4 else 2) + (if task \<ge> 0x10 then 1 else 0) + (if task \<ge> 0x100 then 1 else 0);
                 let m = 1 + (if lthread \<ge> 0x10 then 1 else 0);
                 let before = len d > 0 \<and> \<not> ladjust d;
                 s \<leftarrow> pad putc blank (if before \<and> padc d = blank then len d - 2 - n else 0) s;
                 let n = (if before \<and> padc d = blank then max n (len d - 2) else n);
                 s \<leftarrow> c_each (brackets CHR ''['') putc s;
                 s \<leftarrow> pad putc (ch CHR ''0'') (if before \<and> padc d = ch CHR ''0'' then len d - 2 - n else 0) s;
                 let n = (if before \<and> padc d = ch CHR ''0'' then max n (len d - 2) else n);
                 s \<leftarrow> printnum putc task 16 s;
                 s \<leftarrow> putc (ch CHR ''.'') s;
                 s \<leftarrow> pad putc (padc d) (if before then len d - m - n else 0) s;
                 let n = (if before then max n (len d - m) else n);
                 s \<leftarrow> printnum putc lthread 16 s;
                 s \<leftarrow> c_each (brackets CHR '']'') putc s;
                 s \<leftarrow> pad putc blank (if ladjust d then len d - m - n else 0) s;
                 Some (s, args) } }"

partial_function (option) count_chars :: "('s \<Rightarrow> addr \<Rightarrow> u8) \<Rightarrow> 's \<Rightarrow> addr \<Rightarrow> int \<Rightarrow> int \<Rightarrow> int option" where
  "count_chars rd s p prc n = (if rd s p \<noteq> 0 \<and> n < prc then count_chars rd s (p + 1) prc (n + 1) else Some n)"

partial_function (option) put_string ::
  "('s \<Rightarrow> addr \<Rightarrow> u8) \<Rightarrow> 's put \<Rightarrow> addr \<Rightarrow> int \<Rightarrow> int \<Rightarrow> 's \<Rightarrow> (int \<times> 's) option" where
  "put_string rd putc p prc n s =
     (if rd s p = 0 then Some (n, s)
      else let n = n + 1
           in if n > prc then Some (n, s)
              else Option.bind (putc (rd s p) s) (put_string rd putc (p + 1) prc n))"

definition print_string :: "('s \<Rightarrow> addr \<Rightarrow> u8) \<Rightarrow> 's put \<Rightarrow> directive \<Rightarrow> u32 list \<Rightarrow> 's \<Rightarrow> ('s \<times> u32 list) option" where
  "print_string rd putc d args s =
     (let prc = (if prec d = -1 then 0x7fffffff else prec d)
      in do {
        (p, args) \<leftarrow> va_arg args;
        s \<leftarrow> (if len d > 0 \<and> \<not> ladjust d then
                do { n \<leftarrow> (if p = NULL then Some 0 else count_chars rd s p prc 0);
                     pad putc (ch CHR '' '') (len d - n) s }
              else Some s);
        (n, s) \<leftarrow> (if p = NULL then Some (0, s) else put_string rd putc p prc 0 s);
        s \<leftarrow> pad putc (ch CHR '' '') (if ladjust d then len d - n else 0) s;
        Some (s, args) })"

section \<open>The formatter\<close>

definition conversion ::
  "('s \<Rightarrow> addr \<Rightarrow> u8) \<Rightarrow> int \<Rightarrow> 's put \<Rightarrow> u8 \<Rightarrow> directive \<Rightarrow> u32 list \<Rightarrow> 's \<Rightarrow> ('s \<times> u32 list) option" where
  "conversion rd radix putc c d args s =
     (if c = ch CHR ''b'' \<or> c = ch CHR ''B'' then print_bits rd putc args s
      else if c = ch CHR ''c'' then do { (a, args) \<leftarrow> va_arg args; s \<leftarrow> putc (ucast a) s; Some (s, args) }
      else if c = ch CHR ''t'' then print_tid putc d args s
      else if c = ch CHR ''s'' then print_string rd putc d args s
      else case number_conversion radix c of
             None \<Rightarrow> do { s \<leftarrow> putc c s; Some (s, args) }
           | Some conv \<Rightarrow>
               do { s \<leftarrow> (if c = ch CHR ''p'' then c_each [ch CHR ''0'', ch CHR ''x''] putc s else Some s);
                    print_number putc (if c = ch CHR ''p'' then d\<lparr>padc := ch CHR ''0'', len := 8\<rparr> else d) conv args s })"

text \<open>Reading a directive never goes back in the format.\<close>

lemma flags_length: "flags fmt d = (fmt', d') \<Longrightarrow> length fmt' \<le> length fmt"
  by (induction fmt d rule: flags.induct) (auto split: if_splits)

lemma number_length: "number n fmt = (m, fmt') \<Longrightarrow> length fmt' \<le> length fmt"
  by (induction n fmt rule: number.induct) (auto split: if_splits)

lemma read_width_length: "read_width fmt args d = Some (fmt', args', d') \<Longrightarrow> length fmt' \<le> length fmt"
  by (auto simp: read_width_def split: if_splits prod.splits bind_splits dest: number_length)

lemma read_prec_length: "read_prec fmt args d = Some (fmt', args', d') \<Longrightarrow> length fmt' \<le> length fmt"
  by (auto simp: read_prec_def Let_def split: if_splits prod.splits bind_splits dest!: number_length)

lemma read_directive_length:
  assumes "read_directive fmt args = Some (fmt', args', d)"
  shows "length fmt' \<le> length fmt"
proof -
  obtain f1 d1 where f: "flags fmt plain = (f1, d1)" by fastforce
  define f2 d2 where "f2 = (if at f1 CHR ''0'' then tl f1 else f1)" "d2 = (if at f1 CHR ''0'' then d1\<lparr>padc := ch CHR ''0''\<rparr> else d1)"
  obtain f3 a3 d3 where w: "read_width f2 args d2 = Some (f3, a3, d3)"
    using assms f by (auto simp: read_directive_def f2_d2_def split: bind_splits if_splits)
  obtain f4 a4 d4 where p: "read_prec f3 a3 d3 = Some (f4, a4, d4)"
    using assms f w by (auto simp: read_directive_def f2_d2_def split: bind_splits if_splits)
  have "length fmt' \<le> length f4"
    using assms f w p by (auto simp: read_directive_def f2_d2_def Let_def split: bind_splits if_splits)
  also have "\<dots> \<le> length f3" by (rule read_prec_length[OF p])
  also have "\<dots> \<le> length f2" by (rule read_width_length[OF w])
  also have "\<dots> \<le> length f1" by (simp add: f2_d2_def)
  also have "\<dots> \<le> length fmt" by (rule flags_length[OF f])
  finally show ?thesis .
qed

function doprnt ::
  "('s \<Rightarrow> addr \<Rightarrow> u8) \<Rightarrow> int \<Rightarrow> 's put \<Rightarrow> u8 list \<Rightarrow> u32 list \<Rightarrow> 's \<Rightarrow> 's option" where
  "doprnt rd radix putc [] args s = Some s"
| "doprnt rd radix putc (c # fmt) args s =
     (if c \<noteq> ch CHR ''%'' then do { s \<leftarrow> putc c s; doprnt rd radix putc fmt args s }
      else case read_directive fmt args of
             None \<Rightarrow> None
           | Some ([], args, d) \<Rightarrow> Some s
           | Some (k # fmt, args, d) \<Rightarrow>
               do { (s, args) \<leftarrow> conversion rd radix putc k d args s; doprnt rd radix putc fmt args s })"
  by pat_completeness auto
termination
  by (relation "measure (\<lambda>(rd, radix, putc, fmt, args, s). length fmt)") (auto dest: read_directive_length)

text \<open>The text that a format stands for, collected in a list.\<close>

definition collect :: "u8 list put" where
  "collect c out = Some (out @ [c])"

definition formatted :: "bytes \<Rightarrow> int \<Rightarrow> u8 list \<Rightarrow> u32 list \<Rightarrow> u8 list option" where
  "formatted m radix fmt args = doprnt (\<lambda>_. m) radix collect fmt args []"

section \<open>printf\<close>

definition PRINTF_BUFMAX :: nat where "PRINTF_BUFMAX = 128"

text \<open>
  The console is the list of the bytes handed to \<open>putchar\<close>.  The index follows the buffer in the structure, so that its
  low byte is \<open>buf[128]\<close>.
\<close>

record printf_state =
  buf :: "u8 list"
  index :: u32
  shown :: "u8 list"

definition putchar :: "u8 \<Rightarrow> printf_state \<Rightarrow> printf_state" where
  "putchar c st = st\<lparr>shown := shown st @ [c]\<rparr>"

definition flush :: "printf_state \<Rightarrow> printf_state" where
  "flush st = (fold putchar (take (unat (index st)) (buf st)) st)\<lparr>index := 0\<rparr>"

definition state_bytes :: "printf_state \<Rightarrow> u8 list" where
  "state_bytes st = buf st @ map (\<lambda>i. ucast (drop_bit (8 * i) (index st))) [0..<4]"

definition set_buf :: "u32 \<Rightarrow> u8 \<Rightarrow> printf_state \<Rightarrow> printf_state option" where
  "set_buf i c st =
     (if unat i < length (buf st) then Some (st\<lparr>buf := (buf st)[unat i := c]\<rparr>)
      else if unat i = length (buf st) then Some (st\<lparr>index := index st AND 0xffffff00 OR ucast c\<rparr>)
      else None)"

text \<open>Reading on behind the structure is a fault.\<close>

definition puts :: "printf_state \<Rightarrow> printf_state option" where
  "puts st =
     (let cs = takeWhile (\<lambda>c. c \<noteq> 0) (state_bytes st)
      in if length cs = length (state_bytes st) then None else Some (putchar (ch CHR ''\<newline>'') (fold putchar cs st)))"

definition printf_char :: "printf_state put" where
  "printf_char c st =
     (if c = ch CHR ''\<newline>'' then
        do { st \<leftarrow> set_buf (index st) 0 st; st \<leftarrow> puts st; Some (st\<lparr>index := 0\<rparr>) }
      else if c = 0 \<or> index st \<ge> of_nat PRINTF_BUFMAX then Some (putchar c (flush st))
      else do { st \<leftarrow> set_buf (index st) c st; Some (st\<lparr>index := index st + 1\<rparr>) })"

text \<open>The bytes \<open>junk\<close> are what the stack holds where the buffer is made.\<close>

definition vprintf :: "bytes \<Rightarrow> u8 list \<Rightarrow> u8 list \<Rightarrow> u8 list \<Rightarrow> u32 list \<Rightarrow> u8 list option" where
  "vprintf m junk con fmt args =
     do { st \<leftarrow> doprnt (\<lambda>_. m) 0 printf_char fmt args \<lparr>buf = junk, index = 0, shown = con\<rparr>;
          Some (shown (if index st \<noteq> 0 then flush st else st)) }"

section \<open>sprintf\<close>

definition SPRINTF_UNLIMITED :: u32 where "SPRINTF_UNLIMITED = -1"

record sprintf_state =
  mem :: bytes
  sbuf :: addr
  slen :: u32
  smax :: u32

definition savechar :: "sprintf_state put" where
  "savechar c st =
     Some (if smax st \<noteq> SPRINTF_UNLIMITED \<and> slen st = smax st then st
           else st\<lparr>slen := slen st + 1, mem := (mem st)(sbuf st := c), sbuf := sbuf st + 1\<rparr>)"

definition sprint_with :: "u32 \<Rightarrow> addr \<Rightarrow> u8 list \<Rightarrow> u32 list \<Rightarrow> bytes \<Rightarrow> (u32 \<times> bytes) option" where
  "sprint_with limit s fmt args m =
     do { st \<leftarrow> doprnt mem 0 savechar fmt args \<lparr>mem = m, sbuf = s, slen = 0, smax = limit\<rparr>;
          Some (slen st, (mem st)(sbuf st := 0)) }"

definition vsprintf :: "addr \<Rightarrow> u8 list \<Rightarrow> u32 list \<Rightarrow> bytes \<Rightarrow> (u32 \<times> bytes) option" where
  "vsprintf s fmt args m = sprint_with SPRINTF_UNLIMITED s fmt args m"

definition vsnprintf :: "addr \<Rightarrow> u32 \<Rightarrow> u8 list \<Rightarrow> u32 list \<Rightarrow> bytes \<Rightarrow> (u32 \<times> bytes) option" where
  "vsnprintf s limit fmt args m = sprint_with limit s fmt args m"

end
