(* ===== verification/Formatting.thy ===== *)
theory Formatting
  imports Printf
begin

text \<open>
  What formatted output means.  Two printers that start in related states and whose \<open>putc\<close> keep them related stay
  related through the whole of \<open>doprnt\<close> (locale \<open>printer_sim\<close>); so \<open>printf\<close>, with its buffer, shows the text that the
  format stands for, and \<open>vsnprintf\<close> stores no character behind its limit but the terminator, which it stores there
  whenever the text reaches the limit.
\<close>

section \<open>Computations that follow each other\<close>

definition follows :: "('a \<Rightarrow> 'b \<Rightarrow> bool) \<Rightarrow> 'a option \<Rightarrow> 'b option \<Rightarrow> bool" where
  "follows P x y \<longleftrightarrow> (\<forall>r. x = Some r \<longrightarrow> (\<exists>r'. y = Some r' \<and> P r r'))"

lemma follows_some [simp]: "follows P (Some a) y \<longleftrightarrow> (\<exists>b. y = Some b \<and> P a b)"
  by (simp add: follows_def)

lemma follows_none [simp]: "follows P None y"
  by (simp add: follows_def)

lemma follows_bind:
  "follows P x y \<Longrightarrow> (\<And>r r'. P r r' \<Longrightarrow> follows Q (f r) (g r')) \<Longrightarrow> follows Q (Option.bind x f) (Option.bind y g)"
  by (cases x; cases y) (auto simp: follows_def)

lemma follows_refl: "(\<And>r. P r r) \<Longrightarrow> follows P x x"
  by (simp add: follows_def)

lemma follows_same: "(\<And>r. x = Some r \<Longrightarrow> follows Q (f r) (g r)) \<Longrightarrow> follows Q (Option.bind x f) (Option.bind x g)"
  by (cases x) auto

lemma follows_pair:
  "(\<And>a b. follows Q (f a b) (g a b)) \<Longrightarrow> follows Q (Option.bind x (\<lambda>(a, b). f a b)) (Option.bind x (\<lambda>(a, b). g a b))"
  by (cases x) auto

lemma follows_if:
  "(b \<Longrightarrow> follows P x y) \<Longrightarrow> (\<not> b \<Longrightarrow> follows P x' y') \<Longrightarrow> follows P (if b then x else x') (if b then y else y')"
  by simp

lemma follows_each:
  assumes "\<And>i s t. R s t \<Longrightarrow> follows R (f i s) (g i t)" and "R s t"
  shows "follows R (c_each is f s) (c_each is g t)"
  using assms(2)
proof (induction "is" arbitrary: s t)
  case (Cons i "is")
  show ?case unfolding c_each.simps by (rule follows_bind[OF assms(1)[OF Cons.prems]]) (rule Cons.IH)
qed simp

section \<open>Simulation of printers\<close>

locale printer_sim =
  fixes rd :: "'s \<Rightarrow> addr \<Rightarrow> u8" and putc :: "u8 \<Rightarrow> 's \<Rightarrow> 's option"
    and rd' :: "'t \<Rightarrow> addr \<Rightarrow> u8" and putc' :: "u8 \<Rightarrow> 't \<Rightarrow> 't option"
    and R :: "'s \<Rightarrow> 't \<Rightarrow> bool"
  assumes read: "R s t \<Longrightarrow> rd s p = rd' t p"
    and put: "R s t \<Longrightarrow> follows R (putc c s) (putc' c t)"
begin

abbreviation state_left :: "'s \<times> 'a \<Rightarrow> 't \<times> 'a \<Rightarrow> bool" where
  "state_left \<equiv> rel_prod R (=)"

abbreviation state_right :: "'a \<times> 's \<Rightarrow> 'a \<times> 't \<Rightarrow> bool" where
  "state_right \<equiv> rel_prod (=) R"

lemma each: "R s t \<Longrightarrow> follows R (c_each cs putc s) (c_each cs putc' t)"
  by (rule follows_each[OF put])

lemma pad: "R s t \<Longrightarrow> follows R (pad putc c n s) (pad putc' c n t)"
  unfolding pad_def by (rule each)

lemma printnum: "R s t \<Longrightarrow> follows R (printnum putc u b s) (printnum putc' u b t)"
  unfolding printnum_def by (rule follows_bind[of "(=)"]) (auto intro: follows_refl each)

lemma printnum_16: "R s t \<Longrightarrow> follows R (printnum_16 putc u s) (printnum_16 putc' u t)"
  unfolding printnum_16_def by (rule each)

lemma sep: "R s t \<Longrightarrow> follows R (put_sep putc any s) (put_sep putc' any t)"
  unfolding put_sep_def by (rule put)

lemma finish: "R s t \<Longrightarrow> follows state_left (Some (s, x)) (Some (t, x))"
  by simp

lemma name_some:
  "put_name rd1 putc1 p s = Some r \<Longrightarrow> rd1 = rd \<Longrightarrow> putc1 = putc \<Longrightarrow> R s t \<Longrightarrow>
    \<exists>t'. put_name rd' putc' p t = Some (fst r, t') \<and> R (snd r) t'"
proof (induction rd1 putc1 p s r arbitrary: t rule: put_name.raw_induct[rotated, consumes 1, case_names 1])
  case (1 f rd1 putc1 p s r)
  show ?case
  proof (cases "sint (rd s p) > 32")
    case True
    then obtain s1 where s1: "putc (rd s p) s = Some s1" "f rd putc (p + 1) s1 = Some r"
      using 1(2-4) by (auto split: bind_splits)
    obtain t1 where t1: "putc' (rd s p) t = Some t1" "R s1 t1"
      using put[OF 1(5), of "rd s p"] s1 by auto
    show ?thesis
      using 1(1)[OF s1(2) refl refl t1(2)] t1 True read[OF 1(5), of p] by (subst put_name.simps) simp
  next
    case False
    then show ?thesis using 1(2-5) read[OF 1(5), of p] by (subst put_name.simps) auto
  qed
qed

lemma name: "R s t \<Longrightarrow> follows state_right (put_name rd putc p s) (put_name rd' putc' p t)"
  using name_some[OF _ refl refl] by (force simp: follows_def)

lemma skip_some:
  "skip_name rd1 s p = Some r \<Longrightarrow> rd1 = rd \<Longrightarrow> R s t \<Longrightarrow> skip_name rd' t p = Some r"
proof (induction rd1 s p r arbitrary: t rule: skip_name.raw_induct[rotated, consumes 1, case_names 1])
  case (1 f rd1 s p r)
  then show ?case using read[OF 1(4), of p] by (subst skip_name.simps) (auto split: if_splits)
qed

lemma count_some:
  "count_chars rd1 s p prc n = Some r \<Longrightarrow> rd1 = rd \<Longrightarrow> R s t \<Longrightarrow> count_chars rd' t p prc n = Some r"
proof (induction rd1 s p prc n r arbitrary: t rule: count_chars.raw_induct[rotated, consumes 1, case_names 1])
  case (1 f rd1 s p prc n r)
  then show ?case using read[OF 1(4), of p] by (subst count_chars.simps) (auto split: if_splits)
qed

lemma string_some:
  "put_string rd1 putc1 p prc n s = Some r \<Longrightarrow> rd1 = rd \<Longrightarrow> putc1 = putc \<Longrightarrow> R s t \<Longrightarrow>
    \<exists>t'. put_string rd' putc' p prc n t = Some (fst r, t') \<and> R (snd r) t'"
proof (induction rd1 putc1 p prc n s r arbitrary: t rule: put_string.raw_induct[rotated, consumes 1, case_names 1])
  case (1 f rd1 putc1 p prc n s r)
  show ?case
  proof (cases "rd s p \<noteq> 0 \<and> n + 1 \<le> prc")
    case True
    then obtain s1 where s1: "putc (rd s p) s = Some s1" "f rd putc (p + 1) prc (n + 1) s1 = Some r"
      using 1(2-4) by (auto simp: Let_def split: bind_splits)
    obtain t1 where t1: "putc' (rd s p) t = Some t1" "R s1 t1"
      using put[OF 1(5), of "rd s p"] s1 by auto
    show ?thesis
      using 1(1)[OF s1(2) refl refl t1(2)] t1 True read[OF 1(5), of p] by (subst put_string.simps) (simp add: Let_def)
  next
    case False
    then show ?thesis
      using 1(2-5) read[OF 1(5), of p] by (subst put_string.simps) (auto simp: Let_def split: if_splits)
  qed
qed

lemma skip: "R s t \<Longrightarrow> follows (=) (skip_name rd s p) (skip_name rd' t p)"
  using skip_some[OF _ refl] by (force simp: follows_def)

lemma count: "R s t \<Longrightarrow> follows (=) (count_chars rd s p prc n) (count_chars rd' t p prc n)"
  using count_some[OF _ refl] by (force simp: follows_def)

lemma string: "R s t \<Longrightarrow> follows state_right (put_string rd putc p prc n s) (put_string rd' putc' p prc n t)"
  using string_some[OF _ refl refl] by (force simp: follows_def)

lemma bits_body:
  assumes IH: "\<And>p any s t. R s t \<Longrightarrow> follows state_right (f p any s) (f' p any t)" and R: "R s t"
  shows "follows state_right
     (Option.bind (put_sep putc any s) (\<lambda>s. Option.bind (put_name rd putc p s) (\<lambda>(p, s). f p True s)))
     (Option.bind (put_sep putc' any t) (\<lambda>s. Option.bind (put_name rd' putc' p s) (\<lambda>(p, s). f' p True s)))"
    and "follows state_right
     (Option.bind (put_sep putc any s) (\<lambda>s. Option.bind (put_name rd putc p s) (\<lambda>(p, s).
        Option.bind v (\<lambda>v. Option.bind (Printf.printnum putc v b s) (f p True)))))
     (Option.bind (put_sep putc' any t) (\<lambda>s. Option.bind (put_name rd' putc' p s) (\<lambda>(p, s).
        Option.bind v (\<lambda>v. Option.bind (Printf.printnum putc' v b s) (f' p True)))))"
    and "follows state_right (Option.bind (skip_name rd s p) (\<lambda>p. f p any s)) (Option.bind (skip_name rd' t p) (\<lambda>p. f' p any t))"
  subgoal by (rule follows_bind[OF sep[OF R]], rule follows_bind[OF name]) (auto intro: IH)
  subgoal
    by (rule follows_bind[OF sep[OF R]], rule follows_bind[OF name])
      (auto intro!: follows_bind[where P = "(=)"] follows_bind[OF printnum] follows_refl IH)
  subgoal by (rule follows_bind[OF skip[OF R]]) (auto intro: IH R)
  done

lemma bits_some:
  "bits rd1 putc1 u b p any s = Some r \<Longrightarrow> rd1 = rd \<Longrightarrow> putc1 = putc \<Longrightarrow> R s t \<Longrightarrow>
    \<exists>t'. bits rd' putc' u b p any t = Some (fst r, t') \<and> R (snd r) t'"
proof (induction rd1 putc1 u b p any s r arbitrary: t rule: bits.raw_induct[rotated, consumes 1, case_names 1])
  case (1 f rd1 putc1 u b p any s r)
  have IH: "follows state_right (f rd putc u b p any s) (bits rd' putc' u b p any t)" if "R s t" for p any s t
    using 1(1)[OF _ refl refl that] by (force simp: follows_def)
  have "follows state_right (Some r) (bits rd' putc' u b p any t)"
    unfolding 1(2)[symmetric] unfolding 1(3,4) read[OF 1(5)]
    by (subst bits.simps) (unfold Let_def, intro follows_if bits_body IH 1(5); simp add: 1(5))
  then show ?case by (cases r) auto
qed

lemma print_bits: "R s t \<Longrightarrow> follows state_left (print_bits rd putc args s) (print_bits rd' putc' args t)"
proof -
  assume R: "R s t"
  have bits: "follows state_right (bits rd putc u b p any s) (bits rd' putc' u b p any t)" if "R s t" for u b p any s t
    using bits_some[OF _ refl refl that] by (force simp: follows_def)
  show ?thesis
    unfolding print_bits_def Let_def read[OF R]
    by (auto intro!: follows_same follows_bind[OF printnum[OF R]] follows_bind[OF bits]
      follows_bind[where P = R] follows_if put)
qed

lemma print_string: "R s t \<Longrightarrow> follows state_left (print_string rd putc d args s) (print_string rd' putc' d args t)"
proof -
  assume R: "R s t"
  have c: "follows (=) (if p = NULL then Some 0 else count_chars rd s p prc 0) (if p = NULL then Some 0 else count_chars rd' t p prc 0)"
    for p prc by (auto intro: count R)
  have w: "follows state_right (if p = NULL then Some (0, s) else put_string rd putc p prc 0 s)
    (if p = NULL then Some (0, t) else put_string rd' putc' p prc 0 t)" if "R s t" for p prc s t
    using that by (auto intro: string)
  show ?thesis
    unfolding print_string_def Let_def
    by (auto intro!: follows_same follows_bind[OF c] follows_bind[OF w] follows_bind[where P = R] follows_if pad R)
qed

lemma print_tid: "R s t \<Longrightarrow> follows state_left (print_tid putc d args s) (print_tid putc' d args t)"
  unfolding print_tid_def Let_def
  by (intro follows_pair follows_if follows_bind[where P = R] each pad printnum printnum_16 put finish)

lemma print_num: "R s t \<Longrightarrow> follows R (print_num putc d b sc u s) (print_num putc' d b sc u t)"
  unfolding print_num_def Let_def
  by (intro follows_same follows_bind[where P = R] follows_if each pad put; simp)

lemma print_number: "R s t \<Longrightarrow> follows state_left (print_number putc d conv args s) (print_number putc' d conv args t)"
  unfolding print_number_def Let_def
  by (cases conv) (auto intro!: follows_pair follows_bind[OF print_num] simp del: split_paired_Ex)

lemma conversion: "R s t \<Longrightarrow> follows state_left (conversion rd radix putc c d args s) (conversion rd' radix putc' c d args t)"
  unfolding conversion_def
  by (auto intro!: follows_if print_bits print_tid print_string print_number follows_pair follows_bind[where P = R]
      each put split: option.split)

text \<open>The formatter.\<close>

theorem formatter:
  "R s t \<Longrightarrow> follows R (doprnt rd radix putc fmt args s) (doprnt rd' radix putc' fmt args t)"
proof (induction "length fmt" arbitrary: fmt args s t rule: less_induct)
  case less
  show ?case
  proof (cases fmt)
    case (Cons c cs)
    have IH: "follows R (doprnt rd radix putc f a s) (doprnt rd' radix putc' f a t)"
      if "length f \<le> length cs" "R s t" for f a s t
      using less(1)[of f s t a] that Cons by simp
    have step: "follows R (do { (s, args) \<leftarrow> conversion rd radix putc k d a s; doprnt rd radix putc f args s })
      (do { (s, args) \<leftarrow> conversion rd' radix putc' k d a t; doprnt rd' radix putc' f args s })"
      if "length f \<le> length cs" for k d a f
      by (rule follows_bind[OF conversion[OF less(2)]]) (auto intro: IH[OF that])
    have plain: "follows R (do { s \<leftarrow> putc c s; doprnt rd radix putc cs args s })
      (do { s \<leftarrow> putc' c t; doprnt rd' radix putc' cs args s })"
      by (rule follows_bind[OF put[OF less(2)]]) (auto intro: IH)
    show ?thesis
      unfolding Cons doprnt.simps
      by (auto intro!: follows_if plain step less(2) dest!: read_directive_length split: option.split list.split)
  qed (simp add: less(2))
qed

end

section \<open>printf shows the formatted text\<close>

text \<open>The text is on the console but for the part in the buffer, which holds no terminator.\<close>

definition on_console :: "u8 list \<Rightarrow> printf_state \<Rightarrow> u8 list \<Rightarrow> bool" where
  "on_console con st out \<longleftrightarrow>
     length (buf st) = PRINTF_BUFMAX \<and> unat (index st) \<le> PRINTF_BUFMAX \<and> 0 \<notin> set (take (unat (index st)) (buf st)) \<and>
     shown st @ take (unat (index st)) (buf st) = con @ out"

lemma putchar_fold: "fold putchar cs st = st\<lparr>shown := shown st @ cs\<rparr>"
  by (induction cs arbitrary: st) (simp_all add: putchar_def)

lemma takeWhile_nul: "0 \<notin> set xs \<Longrightarrow> takeWhile (\<lambda>c. c \<noteq> 0) (xs @ 0 # ys) = xs"
  by (induction xs) auto

lemma state_bytes_nul:
  assumes s: "on_console con st out" and b: "set_buf (index st) 0 st = Some st1"
  shows "\<exists>zs. state_bytes st1 = take (unat (index st)) (buf st) @ 0 # zs" (is "\<exists>zs. _ = ?cs @ 0 # zs")
proof (cases "unat (index st) < 128")
  case True
  then show ?thesis using s b by (auto simp: on_console_def PRINTF_BUFMAX_def set_buf_def state_bytes_def upd_conv_take_nth_drop)
next
  case False
  then have "index st = 128" using s by (simp add: on_console_def PRINTF_BUFMAX_def word_unat_eq_iff)
  then show ?thesis
    using s b by (auto simp: on_console_def PRINTF_BUFMAX_def set_buf_def state_bytes_def upt_conv_Cons)
qed

lemma printf_newline:
  assumes s: "on_console con st out"
  shows "\<exists>st'. printf_char (ch CHR ''\<newline>'') st = Some st' \<and> on_console con st' (out @ [ch CHR ''\<newline>''])"
proof -
  have l: "length (buf st) = 128" "unat (index st) \<le> 128" using s by (simp_all add: on_console_def PRINTF_BUFMAX_def)
  obtain st1 where b: "set_buf (index st) 0 st = Some st1" "length (buf st1) = 128" "shown st1 = shown st"
    using l by (cases "unat (index st) < 128") (auto simp: set_buf_def)
  obtain zs where zs: "state_bytes st1 = take (unat (index st)) (buf st) @ 0 # zs"
    using state_bytes_nul[OF s b(1)] by blast
  have cs: "takeWhile (\<lambda>c. c \<noteq> 0) (state_bytes st1) = take (unat (index st)) (buf st)"
    unfolding zs using s by (simp add: takeWhile_nul on_console_def)
  have p: "puts st1 = Some (st1\<lparr>shown := con @ out @ [ch CHR ''\<newline>'']\<rparr>)"
    using s b(3) zs unfolding puts_def Let_def cs by (simp add: putchar_fold on_console_def) (simp add: putchar_def)
  show ?thesis using b p l by (simp add: printf_char_def on_console_def PRINTF_BUFMAX_def)
qed

lemma printf_char_console:
  assumes s: "on_console con st out"
  shows "\<exists>st'. printf_char c st = Some st' \<and> on_console con st' (out @ [c])"
proof -
  have l: "length (buf st) = 128" "unat (index st) \<le> 128" using s by (simp_all add: on_console_def PRINTF_BUFMAX_def)
  consider "c = ch CHR ''\<newline>''" | "c \<noteq> ch CHR ''\<newline>''" "c = 0 \<or> index st \<ge> 128"
    | "c \<noteq> ch CHR ''\<newline>''" "c \<noteq> 0" "index st < 128" by fastforce
  then show ?thesis
  proof cases
    case 1
    then show ?thesis using printf_newline[OF s] by simp
  next
    case 2
    then show ?thesis
      using s by (simp add: printf_char_def flush_def putchar_fold on_console_def PRINTF_BUFMAX_def) (simp add: putchar_def)
  next
    case 3
    then have "unat (index st) < 128" by (simp add: word_less_nat_alt)
    moreover from this 3 have "unat (index st + 1) = Suc (unat (index st))"
      using unat_suc_less[of "index st" 128] by simp
    moreover have "\<not> 128 \<le> index st" using 3 by simp
    ultimately show ?thesis
      using 3 s l by (auto simp: printf_char_def set_buf_def on_console_def PRINTF_BUFMAX_def take_Suc_conv_app_nth word_less_nat_alt)
  qed
qed

lemma printf_char_step: "on_console con st out \<Longrightarrow> follows (on_console con) (printf_char c st) (collect c out)"
  using printf_char_console[of con st out c] by (auto simp: collect_def)

lemma collect_step: "(on_console con)\<inverse>\<inverse> out st \<Longrightarrow> follows (on_console con)\<inverse>\<inverse> (collect c out) (printf_char c st)"
  using printf_char_console[of con st out c] by (auto simp: collect_def)

interpretation console: printer_sim "\<lambda>_. m" printf_char "\<lambda>_. m" collect "on_console con" for m con
  by unfold_locales (auto intro: printf_char_step)

interpretation text_of: printer_sim "\<lambda>_. m" collect "\<lambda>_. m" printf_char "(on_console con)\<inverse>\<inverse>" for m con
  by unfold_locales (auto intro: collect_step)

text \<open>C20: What \<open>printf\<close> puts on the console, behind what is there, is the text that the format stands for, whatever is on the
  stack where its buffer is made; it faults or does not end exactly when the formatter does.
\<close>

theorem vprintf_shows_text:
  assumes "length junk = PRINTF_BUFMAX"
  shows "vprintf m junk con fmt args = map_option ((@) con) (formatted m 0 fmt args)"
proof -
  have s: "on_console con \<lparr>buf = junk, index = 0, shown = con\<rparr> []"
    using assms by (simp add: on_console_def)
  show ?thesis
    using console.formatter[OF s, of m 0 fmt args] text_of.formatter[OF conversepI, OF s, of m 0 fmt args]
    unfolding vprintf_def formatted_def
    by (cases "doprnt (\<lambda>_. m) 0 collect fmt args []";
        cases "doprnt (\<lambda>_. m) 0 printf_char fmt args \<lparr>buf = junk, index = 0, shown = con\<rparr>")
      (auto simp: on_console_def flush_def putchar_fold)
qed

section \<open>sprintf stays within its limit, but for the terminator\<close>

definition stored :: "addr \<Rightarrow> bytes \<Rightarrow> u32 \<Rightarrow> sprintf_state \<Rightarrow> u8 list \<Rightarrow> bool" where
  "stored p m limit st out \<longleftrightarrow>
     length out \<le> unat limit \<and> mem st = store_bytes p out m \<and> slen st = of_nat (length out) \<and>
     sbuf st = p + of_nat (length out) \<and> smax st = limit"

lemma store_bytes_snoc: "store_bytes p (bs @ [b]) m = (store_bytes p bs m)(p + of_nat (length bs) := b)"
proof (induction bs arbitrary: p m)
  case (Cons c bs)
  show ?case by (simp only: append_Cons store_bytes.simps Cons.IH length_Cons of_nat_Suc add.assoc)
qed simp

lemma savechar_stored:
  assumes "stored p m limit st out" "limit \<noteq> SPRINTF_UNLIMITED"
  shows "\<exists>st'. savechar c st = Some st' \<and> stored p m limit st' (if length out = unat limit then out else out @ [c])"
proof (cases "length out = unat limit")
  case True
  then show ?thesis using assms by (auto simp: savechar_def stored_def)
next
  case False
  moreover have "(of_nat (length out) :: u32) = limit \<longleftrightarrow> length out = unat limit"
    using assms(1) by (auto simp: stored_def word_unat_eq_iff unat_of_nat unat_lt32 mod_less le_less_trans)
  ultimately show ?thesis using assms by (auto simp: savechar_def stored_def store_bytes_snoc algebra_simps)
qed

lemma savechar_stored_follows:
  assumes "s = t \<and> limit \<noteq> SPRINTF_UNLIMITED \<and> (\<exists>out. stored p m limit s out)"
  shows "follows (\<lambda>s t. s = t \<and> limit \<noteq> SPRINTF_UNLIMITED \<and> (\<exists>out. stored p m limit s out)) (savechar c s) (savechar c t)"
proof -
  obtain out where "stored p m limit s out" using assms by blast
  then obtain st' where "savechar c s = Some st'" "\<exists>out. stored p m limit st' out"
    using savechar_stored[of p m limit s out c] assms by blast
  then show ?thesis using assms by simp
qed

interpretation limited: printer_sim mem savechar mem savechar
  "\<lambda>s t. s = t \<and> limit \<noteq> SPRINTF_UNLIMITED \<and> (\<exists>out. stored p m limit s out)" for p m limit
  by unfold_locales (simp, rule savechar_stored_follows)

text \<open>C35: When \<open>vsnprintf\<close> returns, it has stored at most \<open>limit\<close> characters and a terminator behind them, nothing else, and
  returns the number of the characters.
\<close>

theorem vsnprintf_bounded:
  assumes "vsnprintf p limit fmt args m = Some (n, m')" "limit \<noteq> SPRINTF_UNLIMITED"
  shows "\<exists>out. length out \<le> unat limit \<and> n = of_nat (length out) \<and> m' = store_bytes p (out @ [0]) m"
proof -
  let ?s = "\<lparr>mem = m, sbuf = p, slen = 0, smax = limit\<rparr>"
  have s: "stored p m limit ?s []" by (simp add: stored_def)
  obtain st where st: "doprnt mem 0 savechar fmt args ?s = Some st" "n = slen st" "m' = (mem st)(sbuf st := 0)"
    using assms(1) by (auto simp: vsnprintf_def sprint_with_def split: bind_splits)
  obtain out where "stored p m limit st out"
    using limited.formatter[of ?s ?s limit p m 0 fmt args] s assms(2) st(1) by auto
  then show ?thesis using st(2,3) by (auto simp: stored_def store_bytes_snoc)
qed

text \<open>The text that a format stands for while its first \<open>limit\<close> characters are being stored at \<open>p\<close>: the formatter run with a
  list to collect its characters, the strings that its arguments point to read in the memory as it then is.\<close>

definition formatted_into :: "addr \<Rightarrow> u32 \<Rightarrow> bytes \<Rightarrow> u8 list \<Rightarrow> u32 list \<Rightarrow> u8 list option" where
  "formatted_into p limit m fmt args = doprnt (\<lambda>out. store_bytes p (take (unat limit) out) m) 0 collect fmt args []"

lemma savechar_collects:
  assumes "stored p m limit st (take (unat limit) out)" "limit \<noteq> SPRINTF_UNLIMITED"
  shows "\<exists>st'. savechar c st = Some st' \<and> stored p m limit st' (take (unat limit) (out @ [c]))"
proof -
  have "(if length (take (unat limit) out) = unat limit then take (unat limit) out else take (unat limit) out @ [c]) =
      take (unat limit) (out @ [c])" by auto
  then show ?thesis using savechar_stored[OF assms, of c] by simp
qed

interpretation storing: printer_sim mem savechar "\<lambda>out. store_bytes p (take (unat limit) out) m" collect
  "\<lambda>st out. limit \<noteq> SPRINTF_UNLIMITED \<and> stored p m limit st (take (unat limit) out)" for p m limit
proof unfold_locales
  fix st out c assume "limit \<noteq> SPRINTF_UNLIMITED \<and> stored p m limit st (take (unat limit) out)"
  then show "follows (\<lambda>st out. limit \<noteq> SPRINTF_UNLIMITED \<and> stored p m limit st (take (unat limit) out)) (savechar c st) (collect c out)"
    using savechar_collects[of p m limit st out c] by (auto simp: collect_def)
qed (simp add: stored_def)

interpretation stored_text: printer_sim "\<lambda>out. store_bytes p (take (unat limit) out) m" collect mem savechar
  "\<lambda>out st. limit \<noteq> SPRINTF_UNLIMITED \<and> stored p m limit st (take (unat limit) out)" for p m limit
proof unfold_locales
  fix st out c assume "limit \<noteq> SPRINTF_UNLIMITED \<and> stored p m limit st (take (unat limit) out)"
  then show "follows (\<lambda>out st. limit \<noteq> SPRINTF_UNLIMITED \<and> stored p m limit st (take (unat limit) out)) (collect c out) (savechar c st)"
    using savechar_collects[of p m limit st out c] by (auto simp: collect_def)
qed (simp add: stored_def)

lemma vsnprintf_stores:
  assumes "limit \<noteq> SPRINTF_UNLIMITED"
  shows "vsnprintf p limit fmt args m =
    map_option (\<lambda>out. (of_nat (min (unat limit) (length out)), store_bytes p (take (unat limit) out @ [0]) m))
      (formatted_into p limit m fmt args)"
proof -
  let ?s = "\<lparr>mem = m, sbuf = p, slen = 0, smax = limit\<rparr>"
  have s: "limit \<noteq> SPRINTF_UNLIMITED \<and> stored p m limit ?s (take (unat limit) [])" using assms by (simp add: stored_def)
  show ?thesis
    using storing.formatter[OF s, of 0 fmt args] stored_text.formatter[OF s, of 0 fmt args]
    unfolding formatted_into_def vsnprintf_def sprint_with_def
    by (cases "doprnt (\<lambda>out. store_bytes p (take (unat limit) out) m) 0 collect fmt args []"; cases "doprnt mem 0 savechar fmt args ?s")
      (auto simp: stored_def store_bytes_snoc min.commute)
qed

text \<open>C36: When the text that a format with its arguments stands for, directives included, is at least as long as the limit,
  \<open>vsnprintf\<close> stores as many of its characters as the limit says and then the terminator at the address behind the
  buffer.  The text is what the formatter gives with the memory it reads as it is while the buffer is written.
\<close>

theorem vsnprintf_terminator_behind:
  assumes "formatted_into p limit m fmt args = Some out" "limit \<noteq> SPRINTF_UNLIMITED" "unat limit \<le> length out"
  shows "vsnprintf p limit fmt args m = Some (limit, (store_bytes p (take (unat limit) out) m)(p + limit := 0))"
  using vsnprintf_stores[OF assms(2), of p fmt args m] assms(1,3) by (simp add: store_bytes_snoc min_absorb1)

text \<open>Concrete runs.\<close>

theorem vprintf_shows_text_witness:
  "vprintf (\<lambda>_. 0) (replicate 128 0) [42] (map of_char ''n=%d'') [7] = Some (42 # map of_char ''n=7'')"
proof -
  have "formatted (\<lambda>_. 0) 0 (map of_char ''n=%d'') [7] = Some (map of_char ''n=7'')"
    by (simp add: formatted_def collect_def read_directive_def read_width_def read_prec_def at_def is_digit_def plain_def
        conversion_def number_conversion_def doprnt_truncates_def print_number_def va_arg_def va_long_def print_num_def
        pad_def digits.simps digs_def MAXBUF_def)
  then show ?thesis
    using vprintf_shows_text[of "replicate 128 0" "\<lambda>_. 0" "[42]" "map of_char ''n=%d''" "[7]"] by (simp add: PRINTF_BUFMAX_def)
qed

theorem vsnprintf_bounded_witness:
  "\<exists>out. length out \<le> 2 \<and> (2 :: u32) = of_nat (length out) \<and>
     (\<lambda>_. 0)(100 := 97, 101 := 98, 102 := 0) = store_bytes 100 (out @ [0]) (\<lambda>_. 0)"
proof -
  have "vsnprintf 100 2 (map of_char ''abc'') [] (\<lambda>_. 0) = Some (2, (\<lambda>_. 0)(100 := 97, 101 := 98, 102 := 0))"
    by (simp add: vsnprintf_def sprint_with_def savechar_def SPRINTF_UNLIMITED_def)
  from vsnprintf_bounded[OF this] show ?thesis by (simp add: SPRINTF_UNLIMITED_def)
qed

theorem vsnprintf_terminator_behind_witness:
  "\<exists>m'. vsnprintf 100 2 (map of_char ''n%d'') [42] (\<lambda>_. 7) = Some (2, m') \<and> m' 101 = 52 \<and> m' 102 = 0 \<and> m' 103 = 7"
proof -
  have "formatted_into 100 2 (\<lambda>_. 7) (map of_char ''n%d'') [42] = Some (map of_char ''n42'')"
    by (simp add: formatted_into_def collect_def read_directive_def read_width_def read_prec_def at_def is_digit_def plain_def
        conversion_def number_conversion_def doprnt_truncates_def print_number_def va_arg_def va_long_def print_num_def
        pad_def digits.simps digs_def MAXBUF_def)
  from vsnprintf_terminator_behind[OF this] show ?thesis by (simp add: SPRINTF_UNLIMITED_def)
qed

end
