(* ===== verification/Number_Text.thy ===== *)
theory Number_Text
  imports Formatting
begin

text \<open>
  Numbers as text: the digits that \<open>doprnt\<close> writes are those of the positional representation, and reading them back with
  \<^verbatim>\<open>410kern/stdlib\<close> (\<open>strtol\<close>, \<open>strtoul\<close>, \<open>atol\<close>, \<open>ctype\<close>) gives the number.
\<close>

section \<open>Characters\<close>

text \<open>The functions take an \<open>int\<close>; a \<open>char\<close> is signed.\<close>

definition isascii :: "int \<Rightarrow> bool" where "isascii c \<longleftrightarrow> 0 \<le> c \<and> c \<le> 126"
definition iscntrl :: "int \<Rightarrow> bool" where "iscntrl c \<longleftrightarrow> c < 32 \<or> c > 126"
definition isdigit :: "int \<Rightarrow> bool" where "isdigit c \<longleftrightarrow> 48 \<le> c \<and> c \<le> 57"
definition isgraph :: "int \<Rightarrow> bool" where "isgraph c \<longleftrightarrow> 32 < c \<and> c \<le> 126"
definition islower :: "int \<Rightarrow> bool" where "islower c \<longleftrightarrow> 97 \<le> c \<and> c \<le> 122"
definition isprint :: "int \<Rightarrow> bool" where "isprint c \<longleftrightarrow> 32 \<le> c \<and> c \<le> 126"
definition isspace :: "int \<Rightarrow> bool" where "isspace c \<longleftrightarrow> c = 32 \<or> c = 12 \<or> c = 10 \<or> c = 13 \<or> c = 9 \<or> c = 11"
definition isupper :: "int \<Rightarrow> bool" where "isupper c \<longleftrightarrow> 65 \<le> c \<and> c \<le> 90"
definition isxdigit :: "int \<Rightarrow> bool" where "isxdigit c \<longleftrightarrow> isdigit c \<or> 65 \<le> c \<and> c \<le> 70 \<or> 97 \<le> c \<and> c \<le> 102"
definition isalpha :: "int \<Rightarrow> bool" where "isalpha c \<longleftrightarrow> islower c \<or> isupper c"
definition isalnum :: "int \<Rightarrow> bool" where "isalnum c \<longleftrightarrow> isalpha c \<or> isdigit c"
definition ispunct :: "int \<Rightarrow> bool" where "ispunct c \<longleftrightarrow> isgraph c \<and> \<not> isalnum c"
definition toupper :: "int \<Rightarrow> int" where "toupper c = (if 97 \<le> c \<and> c \<le> 122 then c - 97 + 65 else c)"
definition tolower :: "int \<Rightarrow> int" where "tolower c = (if 65 \<le> c \<and> c \<le> 90 then c - 65 + 97 else c)"

section \<open>Reading numbers\<close>

partial_function (option) skip_space :: "bytes \<Rightarrow> addr \<Rightarrow> addr option" where
  "skip_space m p = (if isspace (sint (m p)) then skip_space m (p + 1) else Some p)"

text \<open>What the prefix of a number says about its base.\<close>

definition number_base :: "bytes \<Rightarrow> addr \<Rightarrow> int \<Rightarrow> int \<times> addr" where
  "number_base m p base =
     (let (base, p) = (if (base = 16 \<or> base = 0) \<and> m p = ch CHR ''0'' \<and> (m (p + 1) = ch CHR ''x'' \<or> m (p + 1) = ch CHR ''X'')
                       then (16, p + 2) else (base, p))
      in if base = 0 then (if m p = ch CHR ''0'' then 8 else 10, p) else (base, p))"

definition digit_value :: "u8 \<Rightarrow> int \<Rightarrow> int option" where
  "digit_value k base =
     (let c = sint k
      in if 48 \<le> c \<and> c \<le> 57 \<and> c - 48 < base then Some (c - 48)
         else if 97 \<le> c \<and> c \<le> 122 \<and> c - 97 + 10 < base then Some (c - 97 + 10)
         else if 65 \<le> c \<and> c \<le> 90 \<and> c - 65 + 10 < base then Some (c - 65 + 10)
         else None)"

partial_function (option) scan_number :: "bytes \<Rightarrow> int \<Rightarrow> addr \<Rightarrow> u32 \<Rightarrow> (u32 \<times> addr) option" where
  "scan_number m base p v =
     (case digit_value (m p) base of
        Some d \<Rightarrow> scan_number m base (p + 1) (v * word_of_int base + word_of_int d)
      | None \<Rightarrow> Some (v, p))"

text \<open>A plus sign is looked at, but not stepped over.\<close>

definition strtol :: "bytes \<Rightarrow> addr \<Rightarrow> int \<Rightarrow> (u32 \<times> addr) option" where
  "strtol m p base =
     do { p \<leftarrow> skip_space m p;
          let (is_neg, p) = (if m p = ch CHR ''-'' then (True, p + 1) else (False, p));
          let (base, p) = number_base m p base;
          (v, p) \<leftarrow> scan_number m base p 0;
          Some (if is_neg then - v else v, p) }"

definition strtoul :: "bytes \<Rightarrow> addr \<Rightarrow> int \<Rightarrow> (u32 \<times> addr) option" where
  "strtoul m p base =
     do { p \<leftarrow> skip_space m p;
          let (base, p) = number_base m p base;
          scan_number m base p 0 }"

partial_function (option) atol_loop :: "bytes \<Rightarrow> addr \<Rightarrow> u32 \<Rightarrow> u32 option" where
  "atol_loop m str n =
     (if isdigit (sint (m str)) then atol_loop m (str + 1) (n * 10 + scast (m str) - 48) else Some n)"

definition atol :: "bytes \<Rightarrow> addr \<Rightarrow> u32 option" where
  "atol m str = atol_loop m str 0"

section \<open>Positional representation\<close>

fun numeral_digits :: "nat \<Rightarrow> nat \<Rightarrow> nat list" where
  "numeral_digits b n = (if n < b \<or> b < 2 then [n] else numeral_digits b (n div b) @ [n mod b])"

declare numeral_digits.simps [simp del]

definition digits_value :: "nat \<Rightarrow> nat list \<Rightarrow> nat" where
  "digits_value b ds = foldl (\<lambda>v d. v * b + d) 0 ds"

lemma numeral_digits_value: "digits_value b (numeral_digits b n) = n"
proof (induction b n rule: numeral_digits.induct)
  case (1 b n)
  then show ?case by (subst numeral_digits.simps) (auto simp: digits_value_def)
qed

lemma numeral_digits_bound: "2 \<le> b \<Longrightarrow> d \<in> set (numeral_digits b n) \<Longrightarrow> d < b"
proof (induction b n rule: numeral_digits.induct)
  case (1 b n)
  then show ?case by (subst (asm) (2) numeral_digits.simps) (auto split: if_splits)
qed

lemma numeral_digits_length: "2 \<le> b \<Longrightarrow> n < b ^ Suc k \<Longrightarrow> length (numeral_digits b n) \<le> Suc k"
proof (induction k arbitrary: n)
  case 0
  then show ?case by (subst numeral_digits.simps) simp
next
  case (Suc k)
  then have "n div b < b ^ Suc k" by (simp add: less_mult_imp_div_less mult.commute)
  then have "length (numeral_digits b (n div b)) \<le> Suc k" by (rule Suc.IH[OF Suc.prems(1)])
  then show ?case by (subst numeral_digits.simps) simp
qed

lemma numeral_digits_nonempty: "numeral_digits b n \<noteq> []"
  by (subst numeral_digits.simps) simp

text \<open>The loop of \<open>doprnt\<close> writes them.\<close>

theorem digits_numeral:
  assumes "2 \<le> b" "b \<le> 16" "length (numeral_digits b (unat u)) + length ds \<le> MAXBUF"
  shows "digits (of_nat b) u ds = Some (map (\<lambda>d. digs ! d) (numeral_digits b (unat u)) @ ds)"
  using assms
proof (induction b "unat u" arbitrary: u ds rule: numeral_digits.induct)
  case (1 b u)
  have b: "unat (of_nat b :: u64) = b" using 1(3) by (simp add: unat_of_nat)
  then have b0: "(of_nat b :: u64) \<noteq> 0" using 1(2) by (auto simp: word_unat_eq_iff)
  have um: "unat (u mod of_nat b) = unat u mod b" "unat (u div of_nat b) = unat u div b"
    by (simp_all add: unat_mod unat_div b)
  have "unat u mod b < b" using 1(2) by simp
  then have in_digs: "\<not> length digs \<le> unat u mod b" using 1(3) by (simp add: digs_def)
  have room: "length ds < MAXBUF" using 1(4) numeral_digits_nonempty[of b "unat u"] by (cases "numeral_digits b (unat u)") auto
  have step: "digits (of_nat b) u ds =
    (if u div of_nat b \<noteq> 0 then digits (of_nat b) (u div of_nat b) (digs ! (unat u mod b) # ds) else Some (digs ! (unat u mod b) # ds))"
    using b0 room in_digs by (subst digits.simps) (simp add: Let_def um)
  have q0: "u div of_nat b = 0 \<longleftrightarrow> unat u < b" using 1(2) by (simp add: word_unat_eq_iff um div_eq_0_iff)
  show ?case
  proof (cases "unat u < b")
    case True
    then show ?thesis unfolding step using q0 by (subst numeral_digits.simps) simp
  next
    case False
    have n: "numeral_digits b (unat u) = numeral_digits b (unat u div b) @ [unat u mod b]"
      using False 1(2) by (subst numeral_digits.simps) simp
    then have "length (numeral_digits b (unat (u div of_nat b))) + length (digs ! (unat u mod b) # ds) \<le> MAXBUF"
      using 1(4) by (simp add: um)
    from 1(1)[OF _ um(2)[symmetric] 1(2,3) this] show ?thesis
      unfolding step n using q0 False 1(2) by (simp add: um)
  qed
qed

section \<open>Reading the digits back\<close>

fun text_at :: "bytes \<Rightarrow> addr \<Rightarrow> u8 list \<Rightarrow> bool" where
  "text_at m p [] = True"
| "text_at m p (c # cs) \<longleftrightarrow> m p = c \<and> text_at m (p + 1) cs"

lemma text_at_append: "text_at m p (xs @ ys) \<longleftrightarrow> text_at m p xs \<and> text_at m (p + of_nat (length xs)) ys"
  by (induction xs arbitrary: p) (auto simp: algebra_simps)

lemma text_at_nth: "(\<And>i. i < length cs \<Longrightarrow> m (p + of_nat i) = cs ! i) \<Longrightarrow> text_at m p cs"
proof (induction cs arbitrary: p)
  case (Cons c cs)
  have "m (p + 1 + of_nat i) = cs ! i" if "i < length cs" for i
    using Cons.prems[of "Suc i"] that by (simp add: algebra_simps)
  then show ?case using Cons.IH Cons.prems[of 0] by simp
qed simp

lemma digit_value_digs: "d < b \<Longrightarrow> b \<le> 16 \<Longrightarrow> digit_value (digs ! d) (int b) = Some (int d)"
proof -
  assume d: "d < b" "b \<le> 16"
  then have "d \<in> {0, 1, 2, 3, 4, 5, 6, 7, 8, 9, 10, 11, 12, 13, 14, 15}" unfolding insert_iff empty_iff by presburger
  then show ?thesis using d by (auto simp: digs_def digit_value_def)
qed

lemma digit_value_nul [simp]: "digit_value 0 b = None"
  by (simp add: digit_value_def)

lemma scan_number_digits:
  assumes "2 \<le> b" "b \<le> 16"
  shows "\<forall>d\<in>set ds. d < b \<Longrightarrow> text_at m p (map (\<lambda>d. digs ! d) ds @ [0]) \<Longrightarrow>
    scan_number m (int b) p (of_nat v) = Some (of_nat (foldl (\<lambda>v d. v * b + d) v ds), p + of_nat (length ds))"
proof (induction ds arbitrary: p v)
  case Nil
  then show ?case by (subst scan_number.simps) simp
next
  case (Cons d ds)
  have "m p = digs ! d" using Cons.prems(2) by simp
  then have "digit_value (m p) (int b) = Some (int d)"
    using digit_value_digs Cons.prems(1) assms by simp
  moreover have "scan_number m (int b) (p + 1) (of_nat (v * b + d)) =
    Some (of_nat (foldl (\<lambda>v d. v * b + d) (v * b + d) ds), p + 1 + of_nat (length ds))"
    using Cons.prems by (intro Cons.IH) simp_all
  ultimately show ?case by (subst scan_number.simps) (simp add: add.assoc)
qed

lemma scan_numeral:
  assumes "2 \<le> b" "b \<le> 16" "text_at m p (map (\<lambda>d. digs ! d) (numeral_digits b n) @ [0])"
  shows "scan_number m (int b) p 0 = Some (of_nat n, p + of_nat (length (numeral_digits b n)))"
proof -
  have "\<forall>d\<in>set (numeral_digits b n). d < b" using numeral_digits_bound assms(1) by blast
  from scan_number_digits[OF assms(1,2) this assms(3), of 0] show ?thesis
    using numeral_digits_value[of b n] by (simp add: digits_value_def)
qed

section \<open>Printing a number\<close>

definition numeral_text :: "nat \<Rightarrow> u8 \<Rightarrow> nat \<Rightarrow> u8 list" where
  "numeral_text b sign n = (if sign \<noteq> 0 then [sign] else []) @ map (\<lambda>d. digs ! d) (numeral_digits b n)"

lemma print_num_plain:
  assumes "2 \<le> b" "b \<le> 16" "length (numeral_digits b (unat u)) \<le> MAXBUF"
  shows "print_num putc plain (int b) sign u s = c_each (numeral_text b sign (unat u)) putc s"
proof -
  have "digits (word_of_int (int b)) u [] = Some (map (\<lambda>d. digs ! d) (numeral_digits b (unat u)))"
    using digits_numeral[of b u "[]"] assms by simp
  then show ?thesis
    using numeral_digits_nonempty[of b "unat u"]
    by (simp add: print_num_def plain_def pad_def numeral_text_def c_each_append Let_def)
qed


lemma number_room:
  assumes "2 \<le> b" "n < 2 ^ 32"
  shows "length (numeral_digits b n) \<le> MAXBUF"
proof -
  have "(2 :: nat) ^ 32 \<le> b ^ 32" using assms(1) by (intro power_mono) simp_all
  then have "n < b ^ Suc 31" using assms(2) by (simp del: power_Suc)
  then have "length (numeral_digits b n) \<le> Suc 31" by (rule numeral_digits_length[OF assms(1)])
  then show ?thesis by (simp add: MAXBUF_def)
qed

lemma magnitude:
  fixes n :: u32
  shows "unat (if sint n < 0 then - (scast n :: u64) else scast n) = nat \<bar>sint n\<bar>" and "nat \<bar>sint n\<bar> < 2 ^ 32"
    and "sint (scast n :: u64) = sint n"
proof -
  have r: "- (2 ^ 31) \<le> sint n" "sint n < 2 ^ 31" using sint_greater_eq[of n] sint_less[of n] by simp_all
  have "uint (word_of_int (\<bar>sint n\<bar>) :: u64) = \<bar>sint n\<bar>"
    using r by (simp add: uint_word_of_int)
  moreover have "(if sint n < 0 then - (scast n :: u64) else scast n) = word_of_int \<bar>sint n\<bar>"
    unfolding scast_eq by (simp only: wi_hom_neg[symmetric] abs_if split: if_split) simp
  ultimately show "unat (if sint n < 0 then - (scast n :: u64) else scast n) = nat \<bar>sint n\<bar>"
    by (simp only: unat_eq_nat_uint)
  show "nat \<bar>sint n\<bar> < 2 ^ 32" using r by auto
  show "sint (scast n :: u64) = sint n" using r by (simp add: signed_scast_eq signed_take_bit_int_eq_self)
qed

lemma read_plain: "c \<in> {ch CHR ''d'', ch CHR ''u'', ch CHR ''o'', ch CHR ''x''} \<Longrightarrow> read_directive [c] args = Some ([c], args, plain)"
  by (auto simp: read_directive_def read_width_def read_prec_def at_def is_digit_def plain_def)

lemma doprnt_signed:
  "doprnt rd radix putc (map of_char ''%d'') [n] s =
    c_each (numeral_text 10 (if sint n < 0 then ch CHR ''-'' else 0) (nat \<bar>sint n\<bar>)) putc s"
proof -
  have "length (numeral_digits 10 (unat (if sint n < 0 then - (scast n :: u64) else scast n))) \<le> MAXBUF"
    unfolding magnitude by (rule number_room[OF _ magnitude(2)]) simp
  then show ?thesis
    using print_num_plain[of 10 "if sint n < 0 then - (scast n :: u64) else scast n"
        putc "if sint n < 0 then ch CHR ''-'' else 0" s] magnitude[of n]
    by (cases "sint n < 0") (simp_all add: read_plain conversion_def number_conversion_def doprnt_truncates_def print_number_def
        va_arg_def va_long_def plain_def)
qed

lemma doprnt_unsigned:
  assumes "(c, b) \<in> {(CHR ''u'', 10), (CHR ''o'', 8), (CHR ''x'', 16)}"
  shows "doprnt rd radix putc [ch CHR ''%'', ch c] [n] s = c_each (numeral_text b 0 (unat n)) putc s"
proof -
  have u: "unat (ucast n :: u64) = unat n" using unat_lt32[of n] by (simp add: unsigned_ucast_eq take_bit_nat_eq_self)
  have b: "2 \<le> b" "b \<le> 16" using assms by auto
  have "length (numeral_digits b (unat (ucast n :: u64))) \<le> MAXBUF"
    unfolding u using number_room[OF b(1)] unat_lt32 by simp
  then show ?thesis
    using print_num_plain[OF b, of "ucast n" putc 0 s] assms unfolding u
    by (auto simp: read_plain conversion_def number_conversion_def doprnt_truncates_def print_number_def
        va_arg_def va_long_def plain_def)
qed

section \<open>Round trip\<close>

lemma savechar_unlimited:
  "smax st = SPRINTF_UNLIMITED \<Longrightarrow> c_each cs savechar st =
     Some (st\<lparr>mem := store_bytes (sbuf st) cs (mem st), sbuf := sbuf st + of_nat (length cs), slen := slen st + of_nat (length cs)\<rparr>)"
  by (induction cs arbitrary: st) (simp_all add: savechar_def add.assoc)

lemma text_at_stored: "length cs \<le> 2 ^ 32 \<Longrightarrow> text_at (store_bytes p cs m) p cs"
  by (rule text_at_nth) (rule store_bytes_in)

lemma vsprintf_text:
  assumes "\<And>s. doprnt mem 0 savechar fmt args s = c_each out savechar s" "length out < 2 ^ 32"
  shows "\<exists>m'. vsprintf p fmt args m = Some (of_nat (length out), m') \<and> text_at m' p (out @ [0])"
proof -
  have "vsprintf p fmt args m = Some (of_nat (length out), store_bytes p (out @ [0]) m)"
    by (simp add: vsprintf_def sprint_with_def assms(1) savechar_unlimited store_bytes_snoc)
  then show ?thesis using text_at_stored[of "out @ [0]" p m] assms(2) by simp
qed

lemma numeral_text_length: "2 \<le> b \<Longrightarrow> n < 2 ^ 32 \<Longrightarrow> length (numeral_text b sign n) < 2 ^ 32"
  using number_room[of b n] by (simp add: numeral_text_def MAXBUF_def)

lemma hd_numeral:
  assumes "2 \<le> b" "b \<le> 16"
  shows "\<exists>d ds. d < b \<and> numeral_digits b n = d # ds"
  using numeral_digits_bound[OF assms(1), of "hd (numeral_digits b n)" n] numeral_digits_nonempty[of b n]
  by (cases "numeral_digits b n") auto

lemma digs_not_special:
  assumes "d < 16"
  shows "\<not> isspace (sint (digs ! d))" "digs ! d \<noteq> ch CHR ''-''" "digs ! d \<noteq> ch CHR ''x''" "digs ! d \<noteq> ch CHR ''X''"
proof -
  have "d \<in> {0, 1, 2, 3, 4, 5, 6, 7, 8, 9, 10, 11, 12, 13, 14, 15}" unfolding insert_iff empty_iff using assms by presburger
  then show "\<not> isspace (sint (digs ! d))" "digs ! d \<noteq> ch CHR ''-''" "digs ! d \<noteq> ch CHR ''x''" "digs ! d \<noteq> ch CHR ''X''"
    by (auto simp: digs_def isspace_def)
qed

lemma number_base_digits:
  assumes "2 \<le> b" "b \<le> 16" "text_at m p (map (\<lambda>d. digs ! d) (numeral_digits b n) @ [0])"
  shows "number_base m p (int b) = (int b, p)" and "skip_space m p = Some p" and "m p \<noteq> ch CHR ''-''"
proof -
  obtain d ds where d: "d < b" "numeral_digits b n = d # ds" using hd_numeral[OF assms(1,2)] by blast
  have "d < 16" using d(1) assms(2) by simp
  then show "skip_space m p = Some p" "m p \<noteq> ch CHR ''-''"
    using digs_not_special[of d] assms(3) by (simp_all add: d skip_space.simps)
  have "m (p + 1) \<noteq> ch CHR ''x'' \<and> m (p + 1) \<noteq> ch CHR ''X''"
  proof (cases ds)
    case Nil
    then show ?thesis using assms(3) by (simp add: d)
  next
    case (Cons e es)
    then have "e < 16" using numeral_digits_bound[OF assms(1), of e n] assms(2) by (simp add: d)
    then show ?thesis using digs_not_special[of e] assms(3) by (simp add: d Cons)
  qed
  then show "number_base m p (int b) = (int b, p)" using assms(1) by (simp add: number_base_def)
qed

text \<open>C21: Printing any word as a signed decimal number into memory and reading it back with \<open>strtol\<close> gives the word, and the
  end of the text.
\<close>

theorem strtol_reads_sprintf:
  "\<exists>l m'. vsprintf p (map of_char ''%d'') [n] m = Some (l, m') \<and> strtol m' p 10 = Some (n, p + l)"
proof -
  define out where "out = numeral_text 10 (if sint n < 0 then ch CHR ''-'' else 0) (nat \<bar>sint n\<bar>)"
  obtain m' where m': "vsprintf p (map of_char ''%d'') [n] m = Some (of_nat (length out), m')" "text_at m' p (out @ [0])"
    using vsprintf_text[of "map of_char ''%d''" "[n]" out p m] numeral_text_length[OF _ magnitude(2), of 10]
    by (auto simp: out_def doprnt_signed simp del: list.map)
  have "strtol m' p 10 = Some (n, p + of_nat (length out))"
  proof (cases "sint n < 0")
    case True
    then have t: "m' p = ch CHR ''-''" "text_at m' (p + 1) (map (\<lambda>d. digs ! d) (numeral_digits 10 (nat \<bar>sint n\<bar>)) @ [0])"
      using m'(2) by (simp_all add: out_def numeral_text_def)
    have "skip_space m' p = Some p" using t(1) by (simp add: skip_space.simps isspace_def)
    then show ?thesis
      using t(1) True scan_numeral[OF _ _ t(2)] number_base_digits(1)[OF _ _ t(2)]
      by (simp add: strtol_def out_def numeral_text_def)
  next
    case False
    then have t: "text_at m' p (map (\<lambda>d. digs ! d) (numeral_digits 10 (nat \<bar>sint n\<bar>)) @ [0])"
      using m'(2) by (simp add: out_def numeral_text_def)
    show ?thesis
      using False scan_numeral[OF _ _ t] number_base_digits[OF _ _ t]
      by (simp add: strtol_def out_def numeral_text_def)
  qed
  then show ?thesis using m'(1) by blast
qed

theorem strtoul_reads_sprintf:
  assumes "(c, b) \<in> {(CHR ''u'', 10), (CHR ''o'', 8), (CHR ''x'', 16)}"
  shows "\<exists>l m'. vsprintf p [ch CHR ''%'', ch c] [n] m = Some (l, m') \<and> strtoul m' p (int b) = Some (n, p + l)"
proof -
  have b: "2 \<le> b" "b \<le> 16" using assms by auto
  define out where "out = numeral_text b 0 (unat n)"
  obtain m' where m': "vsprintf p [ch CHR ''%'', ch c] [n] m = Some (of_nat (length out), m')" "text_at m' p (out @ [0])"
    using vsprintf_text[OF doprnt_unsigned[OF assms], of n p m] numeral_text_length[OF b(1), of "unat n" 0] unat_lt32[of n]
    by (auto simp: out_def)
  have t: "text_at m' p (map (\<lambda>d. digs ! d) (numeral_digits b (unat n)) @ [0])"
    using m'(2) by (simp add: out_def numeral_text_def)
  have "strtoul m' p (int b) = Some (n, p + of_nat (length out))"
    using scan_numeral[OF b t] number_base_digits[OF b t] by (simp add: strtoul_def out_def numeral_text_def)
  then show ?thesis using m'(1) by blast
qed

end
