(* ===== verification/Long_Division.thy ===== *)
theory Long_Division
  imports Quad_Division
begin

text \<open>
  The correctness of the division of 64-bit integers: each step of Quad\_Division is an equation about the numbers
  that its lists of digits stand for.
\<close>

section \<open>The number of a list of digits\<close>

definition digit :: "u32 \<Rightarrow> bool" where "digit x \<longleftrightarrow> unat x < 65536"

fun val :: "u32 list \<Rightarrow> nat" where
  "val [] = 0"
| "val (x # xs) = unat x * 65536 ^ length xs + val xs"

abbreviation digits_ok :: "u32 list \<Rightarrow> bool" where "digits_ok xs \<equiv> \<forall>x\<in>set xs. digit x"

lemma val_append: "val (xs @ ys) = val xs * 65536 ^ length ys + val ys"
  by (induction xs) (simp_all add: power_add algebra_simps)

lemma val_bound: "digits_ok xs \<Longrightarrow> val xs < 65536 ^ length xs"
proof (induction xs)
  case (Cons x xs)
  then have "unat x + 1 \<le> 65536" "val xs < 65536 ^ length xs" by (auto simp: digit_def)
  then have "unat x * 65536 ^ length xs + val xs < (unat x + 1) * 65536 ^ length xs" by simp
  also have "\<dots> \<le> 65536 * 65536 ^ length xs" using \<open>unat x + 1 \<le> 65536\<close> by (rule mult_le_mono1)
  finally show ?case by simp
qed simp

lemma val_zeros [simp]: "val (replicate k 0 @ xs) = val xs"
  by (induction k) simp_all

section \<open>Digits in words\<close>

lemma digit_int: "digit x \<longleftrightarrow> uint x < 65536"
  unfolding digit_def unat_eq_nat_uint by (simp only: nat_less_iff[OF uint_ge_0] of_nat_numeral)

lemma unat_HHALF: "unat (HHALF x) = unat x div 65536"
  by (simp add: HHALF_def drop_bit_eq_div unat_div)

lemma LHALF_take_bit: "LHALF x = take_bit 16 x"
  by (simp add: LHALF_def take_bit_eq_mask mask_numeral)

lemma unat_LHALF: "unat (LHALF x) = unat x mod 65536"
  by (simp add: LHALF_take_bit take_bit_eq_mod unat_mod)

lemma digit_halves [simp]: "digit (HHALF x)" "digit (LHALF x)" "digit 0"
  using unat_lt32[of x] by (simp_all add: digit_def unat_HHALF unat_LHALF less_mult_imp_div_less)

lemma digit_take_bit: "digit x \<Longrightarrow> take_bit 16 x = x"
  by (simp add: digit_def word_unat_eq_iff take_bit_eq_mod unat_mod)

lemma unat_or_disjoint: "a AND b = 0 \<Longrightarrow> unat a + unat b < 2 ^ 32 \<Longrightarrow> unat (a OR b) = unat a + unat (b :: u32)"
  by (simp flip: disjunctive_add_eq_or add: unat_word_ariths)

lemma unat_COMBINE: "digit a \<Longrightarrow> digit b \<Longrightarrow> unat (COMBINE a b) = unat a * 65536 + unat b"
proof -
  assume d: "digit a" "digit b"
  have p: "unat (push_bit 16 a) = unat a * 65536"
    using d(1) by (simp add: push_bit_eq_mult digit_def unat_word_ariths)
  have "push_bit 16 a AND b = 0"
    by (subst digit_take_bit[OF d(2), symmetric], rule bit_word_eqI) (auto simp: bit_simps)
  from unat_or_disjoint[OF this] show ?thesis using d p by (simp add: COMBINE_def digit_def)
qed

section \<open>Multiply, subtract and add back\<close>

lemma borrow_arith:
  fixes z :: int
  assumes "65536 - 2 ^ 32 \<le> z" "z < 65536"
  shows "z = (z mod 2 ^ 32) mod 65536 - (65536 - (z mod 2 ^ 32) div 65536) mod 65536 * 65536"
proof (cases "0 \<le> z")
  case True
  then show ?thesis using assms by simp
next
  case False
  define w where "w = z + 2 ^ 32"
  have "z mod 2 ^ 32 = w mod 2 ^ 32" by (simp add: w_def)
  also have "\<dots> = w" using assms False by (intro mod_pos_pos_trivial) (simp_all add: w_def)
  finally have w: "z mod 2 ^ 32 = w" "65536 \<le> w" "w < 2 ^ 32" using assms False by (simp_all add: w_def)
  define e where "e = w div 65536"
  have "1 \<le> e" unfolding e_def using w(2) by (simp add: pos_imp_zdiv_pos_iff zdiv_mono1 int_one_le_iff_zero_less)
  moreover have "e < 65536" unfolding e_def using w(3) by (simp add: div_less_iff_less_mult)
  ultimately have "(65536 - e) mod 65536 = 65536 - e" by (intro mod_pos_pos_trivial) simp_all
  moreover have "w = e * 65536 + w mod 65536" by (simp add: e_def)
  moreover have "z = w - 4294967296" by (simp add: w_def)
  ultimately show ?thesis unfolding w(1) e_def[symmetric] by (simp only: left_diff_distrib)
qed

lemma unat_LHALF_int: "int (unat (LHALF x)) = uint x mod 65536"
  by (simp add: unat_LHALF zmod_int)

lemma borrow_value: "int (unat ((BASE - HHALF t) AND (BASE - 1))) = (65536 - uint t div 65536) mod 65536"
proof -
  have h: "unat (HHALF t) < 65536" using digit_halves(1) by (simp add: digit_def)
  have "(BASE - HHALF t) AND (BASE - 1) = LHALF (BASE - HHALF t)" by (simp add: BASE_def LHALF_def)
  moreover have "unat (BASE - HHALF t) = 65536 - unat (HHALF t)"
    using h by (subst unat_sub) (simp_all add: BASE_def word_le_nat_alt)
  ultimately show ?thesis using h by (simp add: unat_LHALF unat_HHALF zmod_int of_nat_diff zdiv_int)
qed

lemma subtract_digit:
  assumes "digit u" "digit v" "digit q" "digit c"
  defines "t \<equiv> u - v * q - c"
  shows "int (unat u) - int (unat v) * int (unat q) - int (unat c) =
      int (unat (LHALF t)) - int (unat ((BASE - HHALF t) AND (BASE - 1))) * 65536"
    and "digit ((BASE - HHALF t) AND (BASE - 1))"
proof -
  define z where "z = int (unat u) - int (unat v) * int (unat q) - int (unat c)"
  have "t = word_of_int z" by (simp add: t_def z_def)
  then have t: "uint t = z mod 2 ^ 32" by (simp add: uint_word_of_int)
  have "unat v * unat q \<le> 65535 * 65535"
    using assms(2,3) by (intro mult_le_mono) (simp_all add: digit_def)
  then have "int (unat v) * int (unat q) \<le> 65535 * 65535"
    by (simp only: of_nat_le_iff[symmetric, where 'a = int] of_nat_mult of_nat_numeral)
  then have p: "uint v * uint q \<le> 4294836225" by simp
  have f: "0 \<le> uint v * uint q" "0 \<le> uint u" "0 \<le> uint c" by simp_all
  have g: "uint u < 65536" "uint c < 65536" using assms(1,4) by (simp_all add: digit_int)
  have z: "z = uint u - uint v * uint q - uint c" by (simp add: z_def)
  have "65536 - 4294967296 \<le> z" using p f(2) g(2) z by linarith
  moreover have "z < 65536" using f(1,3) g(1) z by linarith
  ultimately have "65536 - 2 ^ 32 \<le> z" "z < 65536" by simp_all
  from borrow_arith[OF this]
  show "int (unat u) - int (unat v) * int (unat q) - int (unat c) =
      int (unat (LHALF t)) - int (unat ((BASE - HHALF t) AND (BASE - 1))) * 65536"
    unfolding borrow_value unat_LHALF_int t z_def .
  have "(BASE - HHALF t) AND (BASE - 1) = LHALF (BASE - HHALF t)" by (simp add: BASE_def LHALF_def)
  then show "digit ((BASE - HHALF t) AND (BASE - 1))" by simp
qed

lemma multiply_subtract:
  assumes "length us = length vs" "digits_ok us" "digits_ok vs" "digit q" "multiply_subtract us vs q = (us', t)"
  shows "length us' = length us \<and> digits_ok us' \<and> digit t \<and>
    int (val us) - int (unat q) * int (val vs) = int (val us') - int (unat t) * 65536 ^ length us"
  using assms
proof (induction us vs arbitrary: us' t rule: list_induct2)
  case (Cons u us v vs)
  obtain xs c where m: "multiply_subtract us vs q = (xs, c)" by fastforce
  have IH: "length xs = length us" "digits_ok xs" "digit c"
    "int (val us) - int (unat q) * int (val vs) = int (val xs) - int (unat c) * 65536 ^ length us"
    using Cons.IH[OF _ _ _ m] Cons.prems by auto
  let ?t = "u - v * q - c"
  have r: "us' = LHALF ?t # xs" "t = (BASE - HHALF ?t) AND (BASE - 1)" using Cons.prems(4) m by (auto simp: Let_def)
  note s = subtract_digit[of u v q c]
  have "int (val (u # us)) - int (unat q) * int (val (v # vs)) =
    (int (unat u) - int (unat v) * int (unat q)) * 65536 ^ length us + (int (val us) - int (unat q) * int (val vs))"
    using Cons.hyps by (simp add: algebra_simps)
  also have "\<dots> = (int (unat u) - int (unat v) * int (unat q) - int (unat c)) * 65536 ^ length us + int (val xs)"
    unfolding IH(4) by (simp add: algebra_simps)
  also have "\<dots> = (int (unat (LHALF ?t)) - int (unat t) * 65536) * 65536 ^ length us + int (val xs)"
    using s(1) Cons.prems IH(3) unfolding r(2) by simp
  also have "\<dots> = int (val us') - int (unat t) * 65536 ^ length (u # us)"
    using IH(1) by (simp add: r(1) left_diff_distrib)
  finally show ?case using s(2) Cons.prems IH by (simp add: r)
qed simp

lemma add_back:
  assumes "length us = length vs" "digits_ok us" "digits_ok vs" "add_back us vs = (us', t)"
  shows "length us' = length us \<and> digits_ok us' \<and> unat t \<le> 1 \<and> val us + val vs = val us' + unat t * 65536 ^ length us"
  using assms
proof (induction us vs arbitrary: us' t rule: list_induct2)
  case (Cons u us v vs)
  obtain xs c where m: "add_back us vs = (xs, c)" by fastforce
  have IH: "length xs = length us" "digits_ok xs" "unat c \<le> 1"
    "val us + val vs = val xs + unat c * 65536 ^ length us"
    using Cons.IH[OF _ _ m] Cons.prems by auto
  let ?t = "c + (u + v)"
  have r: "us' = LHALF ?t # xs" "t = HHALF ?t" using Cons.prems(3) m by (auto simp: Let_def)
  have d: "unat u < 65536" "unat v < 65536" using Cons.prems by (auto simp: digit_def)
  then have t: "unat ?t = unat c + unat u + unat v" using IH(3) by (simp add: unat_word_ariths)
  then have e: "unat (HHALF ?t) * 65536 + unat (LHALF ?t) = unat c + unat u + unat v"
    by (simp add: unat_HHALF unat_LHALF)
  have "unat (HHALF ?t) \<le> 1" using d IH(3) t by (simp add: unat_HHALF)
  moreover have "val (u # us) + val (v # vs) = (unat c + unat u + unat v) * 65536 ^ length us + val xs"
    using Cons.hyps IH(4) by (simp add: algebra_simps)
  ultimately show ?case using IH(1,2) unfolding e[symmetric] by (simp add: r algebra_simps)
qed simp

section \<open>The estimate of a digit\<close>

text \<open>
  The estimate \<open>q\<close> of a digit goes with a remainder \<open>r\<close> of the first two digits \<open>N\<close>.  It is not too small while
  \<open>U < (q + 1) * V\<close>, and not too large by more than one when it passes the test.
\<close>

definition passes :: "nat \<Rightarrow> nat \<Rightarrow> nat \<Rightarrow> nat \<Rightarrow> nat \<Rightarrow> nat \<Rightarrow> bool" where
  "passes v1 v2 N u2 q r \<longleftrightarrow> q * v1 + r = N \<and> v2 * q \<le> r * 65536 + u2"

lemma decrement:
  assumes "unat q * v1 + r = N" "0 < unat (q :: u32)"
  shows "unat (q - 1) = unat q - 1" and "unat (q - 1) * v1 + (r + v1) = N"
proof -
  show d: "unat (q - 1) = unat q - 1" using assms(2) by (intro unat_minus_one) auto
  obtain k where "unat q = Suc k" using assms(2) by (cases "unat q") auto
  then show "unat (q - 1) * v1 + (r + v1) = N" using assms(1) unfolding d by simp
qed

lemma large_remainder_passes:
  assumes "q * v1 + r = N" "65536 \<le> r" "v2 < 65536" "q \<le> 65536"
  shows "passes v1 v2 N u2 q r"
proof -
  have "v2 * q \<le> 65536 * 65536" using assms by (intro mult_le_mono) simp_all
  also have "\<dots> \<le> r * 65536 + u2" using assms(2) by (simp add: trans_le_add1)
  finally show ?thesis using assms(1) by (simp add: passes_def)
qed

lemma qhat_test:
  assumes "digit v1" "0 < unat v1" "digit v2" "digit u2"
    and large: "\<forall>q r. q * unat v1 + r = N \<longrightarrow> r * 65536 + unat u2 < unat v2 * q \<longrightarrow> U < q * V"
  shows "unat qhat * unat v1 + unat rhat = N \<Longrightarrow> digit qhat \<Longrightarrow> digit rhat \<Longrightarrow> U < (unat qhat + 1) * V \<Longrightarrow>
    \<exists>q r. qhat_test v1 v2 u2 qhat rhat = Some q \<and> unat q \<le> unat qhat \<and> passes (unat v1) (unat v2) N (unat u2) (unat q) r \<and>
      U < (unat q + 1) * V"
proof (induction "65536 - unat rhat" arbitrary: qhat rhat rule: less_induct)
  case less
  have p: "unat (v2 * qhat) = unat v2 * unat qhat"
  proof -
    have "unat v2 * unat qhat \<le> 65535 * 65535"
      using assms(3) less.prems(2) by (intro mult_le_mono) (simp_all add: digit_def)
    then show ?thesis by (simp add: unat_word_ariths)
  qed
  have test: "v2 * qhat > COMBINE rhat u2 \<longleftrightarrow> unat rhat * 65536 + unat u2 < unat v2 * unat qhat"
    using unat_COMBINE[OF less.prems(3) assms(4)] by (simp add: word_less_nat_alt p)
  show ?case
  proof (cases "v2 * qhat > COMBINE rhat u2")
    case False
    then have "passes (unat v1) (unat v2) N (unat u2) (unat qhat) (unat rhat)"
      using less.prems(1) unfolding test passes_def by simp
    then show ?thesis using False less.prems(4) by (subst qhat_test.simps) auto
  next
    case True
    then have q: "0 < unat qhat" unfolding test by (cases "unat qhat") auto
    note d = decrement[OF less.prems(1) q]
    have r: "unat (rhat + v1) = unat rhat + unat v1"
      using less.prems(3) assms(1) by (simp add: digit_def unat_word_ariths)
    have low: "U < (unat (qhat - 1) + 1) * V"
      using large less.prems(1) True q unfolding test d(1) by simp
    have dq: "digit (qhat - 1)" "unat (qhat - 1) \<le> unat qhat" using less.prems(2) d(1) by (simp_all add: digit_def)
    have big: "rhat + v1 \<ge> BASE \<longleftrightarrow> 65536 \<le> unat rhat + unat v1" by (simp add: BASE_def word_le_nat_alt r)
    show ?thesis
    proof (cases "rhat + v1 \<ge> BASE")
      case b: True
      have "passes (unat v1) (unat v2) N (unat u2) (unat (qhat - 1)) (unat rhat + unat v1)"
        using d(2) b assms(3) dq(1) unfolding big by (intro large_remainder_passes) (simp_all add: digit_def)
      then show ?thesis using True b low dq(2) by (subst qhat_test.simps) (auto simp: Let_def)
    next
      case b: False
      then have "\<exists>q r. qhat_test v1 v2 u2 (qhat - 1) (rhat + v1) = Some q \<and> unat q \<le> unat (qhat - 1) \<and>
          passes (unat v1) (unat v2) N (unat u2) (unat q) r \<and> U < (unat q + 1) * V"
        using assms(2) d(2) dq(1) low unfolding big by (intro less.hyps) (simp_all add: r digit_def add.assoc)
      then show ?thesis using True b dq(2) by (subst qhat_test.simps) (auto simp: Let_def)
    qed
  qed
qed

text \<open>Divisor and window of the dividend, split behind the digits that the estimate looks at.\<close>

lemma estimate_too_large:
  fixes v1 v2 v' :: nat
  assumes "q * v1 + r = N" "r * 65536 + u2 < v2 * q" "u' < b"
  shows "(N * 65536 + u2) * b + u' < q * ((v1 * 65536 + v2) * b + v')"
proof -
  have "(N * 65536 + u2) * b + u' < (N * 65536 + u2 + 1) * b" using assms(3) by simp
  also have "N * 65536 + u2 + 1 \<le> q * v1 * 65536 + v2 * q" using assms(1,2) by (auto simp: algebra_simps)
  then have "(N * 65536 + u2 + 1) * b \<le> (q * v1 * 65536 + v2 * q) * b" by (rule mult_le_mono1)
  also have "\<dots> \<le> q * ((v1 * 65536 + v2) * b + v')" by (simp add: algebra_simps)
  finally show ?thesis .
qed

lemma estimate_passes:
  fixes v1 v2 v' :: nat
  assumes "passes v1 v2 N u2 q r" "v' < b" "q < 65536" "0 < v1"
  defines "V \<equiv> (v1 * 65536 + v2) * b + v'"
  shows "q * V \<le> (N * 65536 + u2) * b + u' + V"
proof -
  have "q * (v1 * 65536 + v2) \<le> N * 65536 + u2" using assms(1) by (auto simp: passes_def algebra_simps)
  then have "q * (v1 * 65536 + v2) * b \<le> (N * 65536 + u2) * b" by (rule mult_le_mono1)
  moreover have "q * v' \<le> 65536 * b" using assms(2,3) by (intro mult_le_mono) simp_all
  moreover have "65536 * b \<le> v1 * 65536 * b" using assms(4) by (cases v1) simp_all
  ultimately have "q * (v1 * 65536 + v2) * b + q * v' \<le> (N * 65536 + u2) * b + v1 * 65536 * b" by linarith
  then show ?thesis unfolding V_def by (simp add: algebra_simps)
qed

lemma estimate_start:
  fixes v1 v2 v' :: nat
  assumes "0 < v1" "u2 < 65536" "u' < b"
  shows "(N * 65536 + u2) * b + u' < (N div v1 + 1) * ((v1 * 65536 + v2) * b + v')"
proof -
  have "N + 1 \<le> (N div v1 + 1) * v1"
    using dividend_less_div_times[OF assms(1), of N] by simp
  then have n: "(N + 1) * (65536 * b) \<le> (N div v1 + 1) * v1 * (65536 * b)" by (rule mult_le_mono1)
  have "(N * 65536 + u2) * b + u' < (N * 65536 + u2 + 1) * b" using assms(3) by simp
  also have "\<dots> \<le> (N * 65536 + 65536) * b" using assms(2) by (intro mult_le_mono1) simp
  also have "\<dots> = (N + 1) * (65536 * b)" by (simp add: algebra_simps)
  also have "\<dots> \<le> (N div v1 + 1) * v1 * (65536 * b)" by (rule n)
  also have "\<dots> \<le> (N div v1 + 1) * ((v1 * 65536 + v2) * b + v')" by (simp add: algebra_simps)
  finally show ?thesis .
qed

lemma leading_digit:
  fixes v1 v2 v' u0 u1 u2 u' :: nat
  assumes "((u0 * 65536 + u1) * 65536 + u2) * b + u' < 65536 * ((v1 * 65536 + v2) * b + v')" "u' < b" "v' < b" "v2 < 65536"
  shows "u0 < v1 + 1"
proof -
  have "u0 * (65536 * 65536 * b) \<le> ((u0 * 65536 + u1) * 65536 + u2) * b + u'" by (simp add: algebra_simps)
  also have "\<dots> < 65536 * ((v1 * 65536 + v2) * b + v')" by (rule assms(1))
  also have "(v1 * 65536 + v2) * b + v' < (v1 * 65536 + v2 + 1) * b" using assms(3) by simp
  then have "65536 * ((v1 * 65536 + v2) * b + v') < 65536 * ((v1 * 65536 + v2 + 1) * b)" by simp
  also have "(v1 * 65536 + v2 + 1) * b \<le> (v1 * 65536 + 65536) * b" using assms(4) by (intro mult_le_mono1) simp
  then have "65536 * ((v1 * 65536 + v2 + 1) * b) \<le> (v1 + 1) * (65536 * 65536 * b)" by (simp add: algebra_simps)
  finally show ?thesis by (simp only: mult_less_cancel2)
qed

lemma calculate_qhat:
  assumes d: "digits_ok (v1 # v2 # vs)" "digits_ok (u0 # u1 # u2 # us)" and l: "length us = length vs" and v1: "0 < unat v1"
    and less: "val (u0 # u1 # u2 # us) < 65536 * val (v1 # v2 # vs)"
  shows "\<exists>q. calculate_qhat v1 v2 u0 u1 u2 = Some q \<and> digit q \<and>
    unat q * val (v1 # v2 # vs) \<le> val (u0 # u1 # u2 # us) + val (v1 # v2 # vs) \<and>
    val (u0 # u1 # u2 # us) < (unat q + 1) * val (v1 # v2 # vs)"
proof -
  define b where "b = (65536 :: nat) ^ length vs"
  define N where "N = unat u0 * 65536 + unat u1"
  have b: "val us < b" "val vs < b" using val_bound[of us] val_bound[of vs] d l by (auto simp: b_def)
  have U: "val (u0 # u1 # u2 # us) = (N * 65536 + unat u2) * b + val us" by (simp add: N_def b_def l algebra_simps)
  have V: "val (v1 # v2 # vs) = (unat v1 * 65536 + unat v2) * b + val vs" by (simp add: b_def algebra_simps)
  have dd: "digit v1" "digit v2" "digit u0" "digit u1" "digit u2" using d by auto
  let ?U = "val (u0 # u1 # u2 # us)" and ?V = "val (v1 # v2 # vs)"
  have large: "\<forall>q r. q * unat v1 + r = N \<longrightarrow> r * 65536 + unat u2 < unat v2 * q \<longrightarrow> ?U < q * ?V"
    unfolding U V using estimate_too_large[OF _ _ b(1)] by blast
  have small: "unat q * ?V \<le> ?U + ?V" if "passes (unat v1) (unat v2) N (unat u2) (unat q) r" "digit q" for q r
    unfolding U V using estimate_passes[OF that(1) b(2) _ v1] that(2) by (simp add: digit_def)
  have test: "\<exists>q. qhat_test v1 v2 u2 qhat rhat = Some q \<and> digit q \<and> unat q * ?V \<le> ?U + ?V \<and> ?U < (unat q + 1) * ?V"
    if "unat qhat * unat v1 + unat rhat = N" "digit qhat" "digit rhat" "?U < (unat qhat + 1) * ?V" for qhat rhat
  proof -
    note start = that
    obtain q r where q: "qhat_test v1 v2 u2 qhat rhat = Some q" "unat q \<le> unat qhat"
      "passes (unat v1) (unat v2) N (unat u2) (unat q) r" "?U < (unat q + 1) * ?V"
      using qhat_test[OF dd(1) v1 dd(2) dd(5) large start] by blast
    moreover have "digit q" using q(2) that(2) by (simp add: digit_def)
    ultimately show ?thesis using small by blast
  qed
  show ?thesis
  proof (cases "u0 = v1")
    case True
    have q: "unat (BASE - 1) = 65535" "digit (BASE - 1)" by (simp_all add: BASE_def digit_def)
    have r: "unat (u1 + v1) = unat u1 + unat v1" using dd by (simp add: digit_def unat_word_ariths)
    have n: "unat (BASE - 1) * unat v1 + (unat u1 + unat v1) = N" using True by (simp add: q N_def)
    have low: "?U < (unat (BASE - 1) + 1) * ?V" using less by (simp add: q)
    show ?thesis
    proof (cases "u1 + v1 \<ge> BASE")
      case b: True
      have "passes (unat v1) (unat v2) N (unat u2) (unat (BASE - 1)) (unat u1 + unat v1)"
        using b dd q by (intro large_remainder_passes n) (simp_all add: BASE_def word_le_nat_alt r digit_def)
      then show ?thesis using True b low q(2) small by (auto simp: calculate_qhat_def Let_def)
    next
      case b: False
      then have "digit (u1 + v1)" by (simp add: BASE_def word_le_nat_alt digit_def)
      then show ?thesis using test[of "BASE - 1" "u1 + v1"] True b low q(2) n r by (simp add: calculate_qhat_def Let_def)
    qed
  next
    case False
    have "unat u0 < unat v1 + 1"
      using less b dd(2) unfolding U V N_def digit_def by (rule leading_digit)
    then have u0: "unat u0 < unat v1" using False by (simp add: word_unat_eq_iff)
    have n: "unat (COMBINE u0 u1) = N" using unat_COMBINE[OF dd(3,4)] by (simp add: N_def)
    have "N < unat v1 * 65536" using u0 dd(4) by (simp add: N_def digit_def)
    then have q: "digit (COMBINE u0 u1 div v1)" by (simp add: digit_def unat_div n less_mult_imp_div_less mult.commute)
    have "unat (COMBINE u0 u1 mod v1) < unat v1" using v1 by (simp add: unat_mod)
    then have r: "digit (COMBINE u0 u1 mod v1)" using dd(1) by (simp add: digit_def)
    have "?U < (unat (COMBINE u0 u1 div v1) + 1) * ?V"
      unfolding unat_div n U V using estimate_start[OF v1 _ b(1)] dd(5) by (simp add: digit_def)
    then show ?thesis
      using test[of "COMBINE u0 u1 div v1" "COMBINE u0 u1 mod v1"] q r False
      by (simp add: calculate_qhat_def Let_def unat_div unat_mod n)
  qed
qed

section \<open>One digit of the quotient\<close>

lemma leading_zero:
  fixes a y P :: int
  assumes "0 \<le> y" "y < P" "0 \<le> a * P + y" "a * P + y < P"
  shows "a = 0"
proof -
  have "(a * P + y) div P = a" using assms(1,2) by simp
  moreover have "(a * P + y) div P = 0" using assms(3,4) by (rule div_pos_pos_trivial)
  ultimately show ?thesis by simp
qed

lemma HHALF_minus_one: "HHALF (- 1) \<noteq> 0" "HHALF 0 = 0" "LHALF 0 = 0"
  by (simp_all add: HHALF_def LHALF_def)

lemma subtract_window:
  assumes "multiply_subtract us vs q = (ys, t)" "digit q" "digits_ok vs" "digits_ok us" "length us = length vs" "w = u0 # us"
  shows "length ys = length vs" "digits_ok ys" "int (val ys) < int (65536 ^ length vs)" "int (val vs) < int (65536 ^ length vs)"
    "int (val w) - int (unat q) * int (val vs) = (int (unat u0) - int (unat t)) * int (65536 ^ length vs) + int (val ys)"
proof -
  have ys: "length ys = length us" "digits_ok ys"
    "int (val us) - int (unat q) * int (val vs) = int (val ys) - int (unat t) * 65536 ^ length us"
    using multiply_subtract[OF assms(5,4,3,2,1)] by auto
  show "length ys = length vs" "digits_ok ys" using ys assms(5) by simp_all
  show "int (val ys) < int (65536 ^ length vs)" "int (val vs) < int (65536 ^ length vs)"
    unfolding of_nat_less_iff using val_bound[OF ys(2)] val_bound[OF assms(3)] ys(1) assms(5) by simp_all
  show "int (val w) - int (unat q) * int (val vs) =
      (int (unat u0) - int (unat t)) * int (65536 ^ length vs) + int (val ys)"
    using ys(3) assms(5,6) by (simp add: left_diff_distrib)
qed

lemma divide_step_exact:
  assumes q: "calculate_qhat (vs ! 0) (vs ! 1) (w ! 0) (w ! 1) (w ! 2) = Some q" "digit q"
    and d: "digits_ok vs" "digits_ok w" "length w = length vs + 1"
    and r: "unat q * val vs \<le> val w" "val w < (unat q + 1) * val vs"
  shows "\<exists>w'. divide_step vs w = Some (q, w') \<and> digits_ok w' \<and> length w' = length w \<and> hd w' = 0 \<and>
    val w = unat q * val vs + val w' \<and> val w' < val vs"
proof -
  obtain u0 us where w: "w = u0 # us" "length us = length vs" "digits_ok us" using d(2,3) by (cases w) auto
  obtain ys t where m: "multiply_subtract us vs q = (ys, t)" by fastforce
  note s = subtract_window[OF m q(2) d(1) w(3,2,1)]
  have "int (unat q) * int (val vs) \<le> int (val w)" "int (val w) < int (unat q) * int (val vs) + int (val vs)"
    using r by (simp_all only: flip: of_nat_mult of_nat_add of_nat_le_iff[where 'a = int] of_nat_less_iff[where 'a = int]) simp_all
  then have e: "int (unat u0) - int (unat t) = 0"
    using s(3-5) by (intro leading_zero[of "int (val ys)" "int (65536 ^ length vs)"]) linarith+
  then have "u0 = t" by (simp add: word_uint_eq_iff)
  then have "divide_step vs w = Some (q, 0 # ys)"
    using q(1) m by (simp add: divide_step_def w Let_def HHALF_minus_one)
  moreover have "int (val w) = int (unat q * val vs + val ys)" using s(5) e by simp
  then have "val w = unat q * val vs + val ys" by (simp only: of_nat_eq_iff)
  ultimately show ?thesis using s(1,2) r(2) w(2) by (auto simp: w(1))
qed

lemma divide_step_one_too_large:
  assumes q: "calculate_qhat (vs ! 0) (vs ! 1) (w ! 0) (w ! 1) (w ! 2) = Some q" "digit q"
    and d: "digits_ok vs" "digits_ok w" "length w = length vs + 1"
    and r: "unat q * val vs \<le> val w + val vs" "val w < unat q * val vs"
  shows "\<exists>w'. divide_step vs w = Some (q - 1, w') \<and> digit (q - 1) \<and> digits_ok w' \<and> length w' = length w \<and> hd w' = 0 \<and>
    val w = unat (q - 1) * val vs + val w' \<and> val w' < val vs"
proof -
  obtain u0 us where w: "w = u0 # us" "length us = length vs" "digits_ok us" using d(2,3) by (cases w) auto
  obtain ys t where m: "multiply_subtract us vs q = (ys, t)" by fastforce
  note s = subtract_window[OF m q(2) d(1) w(3,2,1)]
  define P where "P = (65536 :: nat) ^ length vs"
  have "int (unat q) * int (val vs) \<le> int (val w) + int (val vs)" "int (val w) < int (unat q) * int (val vs)"
    using r by (simp_all only: flip: of_nat_mult of_nat_add of_nat_le_iff[where 'a = int] of_nat_less_iff[where 'a = int])
  then have "int (unat u0) - int (unat t) + 1 = 0"
    using s(3-5) by (intro leading_zero[of "int (val ys)" "int (65536 ^ length vs)"]) (unfold distrib_right mult_1_left, linarith+)
  then have t: "unat t = unat u0 + 1" by linarith
  then have "t = u0 + 1" using unat_lt32[of t] by (simp add: word_unat_eq_iff unat_word_ariths)
  then have u: "u0 - t = - 1" by simp
  obtain zs c where a: "add_back ys vs = (zs, c)" by fastforce
  have zs: "length zs = length vs" "digits_ok zs" "unat c \<le> 1" "val ys + val vs = val zs + unat c * P"
    using add_back[OF s(1,2) d(1) a] s(1) by (auto simp: P_def)
  have y: "val ys + unat q * val vs = val w + P"
  proof -
    have "int (val ys + unat q * val vs) = int (val w + P)"
      using s(5) t unfolding P_def[symmetric] by (simp add: distrib_right left_diff_distrib)
    then show ?thesis by (simp only: of_nat_eq_iff)
  qed
  then have "P \<le> val ys + val vs" using r(1) by linarith
  then have "unat c \<noteq> 0" using zs(4) val_bound[OF zs(2)] zs(1) by (cases "unat c = 0") (simp_all add: P_def)
  then have c: "unat c = 1" using zs(3) by simp
  then have "c = 1" by (simp add: word_unat_eq_iff)
  have "0 < unat q" using r(2) by (cases "unat q") auto
  note n = decrement(1)[OF refl this]
  have v: "val w = unat (q - 1) * val vs + val zs"
    using y zs(4) \<open>0 < unat q\<close> unfolding n c by (cases "unat q") simp_all
  have "divide_step vs w = Some (q - 1, 0 # zs)"
    using q(1) m a u \<open>c = 1\<close> by (simp add: divide_step_def w(1) Let_def HHALF_minus_one LHALF_def)
  moreover have "digit (q - 1)" using q(2) n by (simp add: digit_def)
  moreover have "val zs < val vs" using v r(2) n \<open>0 < unat q\<close> by (cases "unat q") simp_all
  ultimately show ?thesis using zs(1,2) v w(2) by (auto simp: w(1))
qed

lemma divide_step:
  assumes d: "digits_ok vs" "digits_ok w" "length w = length vs + 1" "2 \<le> length vs" "0 < unat (hd vs)" "val w < 65536 * val vs"
  shows "\<exists>q w'. divide_step vs w = Some (q, w') \<and> digit q \<and> digits_ok w' \<and> length w' = length w \<and> hd w' = 0 \<and>
    val w = unat q * val vs + val w' \<and> val w' < val vs"
proof -
  obtain v1 v2 vs' where v: "vs = v1 # v2 # vs'" using d(4) by (cases vs; cases "tl vs") auto
  obtain u0 u1 u2 us where w: "w = u0 # u1 # u2 # us" using d(3,4) by (cases w; cases "tl w"; cases "tl (tl w)") auto
  obtain q where q: "calculate_qhat v1 v2 u0 u1 u2 = Some q" "digit q"
    "unat q * val vs \<le> val w + val vs" "val w < (unat q + 1) * val vs"
    using calculate_qhat[of v1 v2 vs' u0 u1 u2 us] d unfolding v w by auto
  have c: "calculate_qhat (vs ! 0) (vs ! 1) (w ! 0) (w ! 1) (w ! 2) = Some q" using q(1) by (simp add: v w)
  show ?thesis
  proof (cases "unat q * val vs \<le> val w")
    case True
    then show ?thesis using divide_step_exact[OF c q(2) d(1-3) True q(4)] q(2) by blast
  next
    case False
    then show ?thesis using divide_step_one_too_large[OF c q(2) d(1-3) q(3)] by auto
  qed
qed

section \<open>The loop\<close>

lemma divide_loop:
  assumes v: "digits_ok vs" "2 \<le> length vs" "0 < unat (hd vs)"
  shows "digits_ok us \<Longrightarrow> length us = length vs + k \<Longrightarrow> 0 < k \<Longrightarrow> val (take (length vs + 1) us) < 65536 * val vs \<Longrightarrow>
    \<exists>qs rest. divide_loop k vs us = Some (qs, replicate k 0 @ rest) \<and> digits_ok qs \<and> length qs = k \<and>
      digits_ok rest \<and> length rest = length vs \<and> val us = val qs * val vs + val rest \<and> val rest < val vs"
proof (induction k arbitrary: us)
  case (Suc k)
  let ?w = "take (length vs + 1) us" and ?r = "drop (length vs + 1) us"
  have dd: "digits_ok ?w" "digits_ok ?r" using Suc.prems(1) by (auto dest: in_set_takeD in_set_dropD)
  obtain q w where s: "divide_step vs ?w = Some (q, w)" "digit q" "digits_ok w" "length w = length vs + 1" "hd w = 0"
    "val ?w = unat q * val vs + val w" "val w < val vs"
    using divide_step[OF v(1) dd(1) _ v(2,3) Suc.prems(4)] Suc.prems(2) by auto
  obtain ws where w: "w = 0 # ws" "length ws = length vs" using s(4,5) by (cases w) auto
  have us: "val us = val ?w * 65536 ^ k + val ?r"
    using val_append[of ?w ?r] Suc.prems(2) by simp
  show ?case
  proof (cases k)
    case 0
    have "divide_loop (Suc k) vs us = Some ([q], 0 # ws)" using s(1) Suc.prems(2) by (simp add: 0 w)
    moreover have "val us = val [q] * val vs + val ws" using us s(6) Suc.prems(2) by (simp add: 0 w)
    ultimately show ?thesis using s(2,3,7) by (intro exI[of _ "[q]"] exI[of _ ws]) (simp add: 0 w)
  next
    case (Suc k')
    let ?us = "ws @ ?r"
    have l: "length ?us = length vs + k" using Suc.prems(2) by (simp add: w)
    have d: "digits_ok ?us" using s(3) dd(2) by (auto simp: w)
    obtain x xs where x: "?r = x # xs" using Suc.prems(2) Suc by (cases ?r) auto
    have "take (length vs + 1) ?us = ws @ [x]" using x by (simp add: w(2))
    moreover have "val ws * 65536 + unat x < 65536 * val vs"
    proof -
      have "val ws + 1 \<le> val vs" using s(7) by (simp add: w)
      moreover have "unat x < 65536" using dd(2) unfolding x by (simp add: digit_def)
      ultimately show ?thesis by linarith
    qed
    ultimately have "val (take (length vs + 1) ?us) < 65536 * val vs" by (simp add: val_append)
    from Suc.IH[OF d l _ this] obtain qs rest where i: "divide_loop k vs ?us = Some (qs, replicate k 0 @ rest)"
      "digits_ok qs" "length qs = k" "digits_ok rest" "length rest = length vs"
      "val ?us = val qs * val vs + val rest" "val rest < val vs"
      using Suc by auto
    have "divide_loop (Suc k) vs us = Some (q # qs, replicate (Suc k) 0 @ rest)"
      using s(1) i(1) by (simp add: w)
    moreover have "val us = val (q # qs) * val vs + val rest"
      using i(6) Suc.prems(2) unfolding us s(6) by (simp add: w val_append i(3) algebra_simps)
    ultimately show ?thesis using s(2) i by auto
  qed
qed simp

section \<open>Shifts\<close>

lemma or_digit:
  assumes "d < 16" "unat a mod 2 ^ d = 0" "unat b < 2 ^ d" "unat a < 65536"
  shows "unat (a OR b) = unat a + unat (b :: u32)"
proof (rule unat_or_disjoint)
  have "unat (take_bit d a) = 0" unfolding unsigned_take_bit_eq using assms(2) by (simp add: take_bit_eq_mod)
  then have a: "take_bit d a = 0" by (simp only: unsigned_eq_0_iff)
  have "unat (take_bit d b) = unat b" unfolding unsigned_take_bit_eq using assms(3) by (simp add: take_bit_eq_mod)
  then have b: "take_bit d b = b" by (simp only: word_unat_eq_iff)
  show "a AND b = 0"
  proof (rule bit_word_eqI)
    fix n assume "n < LENGTH(32)"
    show "bit (a AND b) n = bit 0 n"
      using bit_take_bit_iff[of d a n] bit_take_bit_iff[of d b n] unfolding a b by (auto simp: bit_and_iff)
  qed
  have "(2 :: nat) ^ d \<le> 2 ^ 16" using assms(1) by (intro power_increasing) simp_all
  then show "unat a + unat b < 2 ^ 32" using assms(3,4) by simp
qed

lemma pow16: "d \<le> 16 \<Longrightarrow> (65536 :: nat) = 2 ^ d * 2 ^ (16 - d)"
  by (simp flip: power_add)

lemma mod_plus_small:
  assumes "d \<le> 16" "c < (2 :: nat) ^ d"
  shows "(x * 2 ^ d + c) mod 65536 = x * 2 ^ d mod 65536 + c" "x * 2 ^ d mod 65536 mod 2 ^ d = 0"
proof -
  have m: "x * 2 ^ d mod 65536 = 2 ^ d * (x mod 2 ^ (16 - d))"
    using assms(1) by (subst pow16[OF assms(1)], subst mult.commute) (simp only: mult_mod_right)
  then show "x * 2 ^ d mod 65536 mod 2 ^ d = 0" by simp
  have "x mod 2 ^ (16 - d) + 1 \<le> 2 ^ (16 - d)" by (simp add: Suc_le_eq)
  then have "2 ^ d * (x mod 2 ^ (16 - d) + 1) \<le> 2 ^ d * 2 ^ (16 - d)" by (rule mult_le_mono2)
  then have "x * 2 ^ d mod 65536 + c < 65536" using assms(2) unfolding m pow16[OF assms(1)] by simp
  then show "(x * 2 ^ d + c) mod 65536 = x * 2 ^ d mod 65536 + c" by (metis mod_add_left_eq mod_less)
qed

lemma unat_shift_left: "digit x \<Longrightarrow> d \<le> 16 \<Longrightarrow> unat (LHALF (push_bit d x)) = unat x * 2 ^ d mod 65536"
proof -
  assume d: "digit x" "d \<le> 16"
  have "(2 :: nat) ^ d \<le> 2 ^ 16" using d(2) by (intro power_increasing) simp_all
  then have "unat x * 2 ^ d \<le> 65535 * 65536" using d(1) by (intro mult_le_mono) (simp_all add: digit_def)
  then have "unat (push_bit d x) = unat x * 2 ^ d"
    unfolding unsigned_push_bit_eq by (simp add: push_bit_eq_mult take_bit_eq_mod)
  then show ?thesis by (simp only: unat_LHALF)
qed

lemma unat_shift_right: "unat (drop_bit d (x :: u32)) = unat x div 2 ^ d"
  unfolding unsigned_drop_bit_eq using unat_lt32[of x] by (simp add: drop_bit_eq_div take_bit_eq_mod)

lemma shift_left_digit:
  assumes "digit x" "digit y" "d < 16"
  shows "unat (LHALF (push_bit d x) OR drop_bit (16 - d) y) = (unat x * 2 ^ d + unat y div 2 ^ (16 - d)) mod 65536"
proof -
  have c: "unat y div 2 ^ (16 - d) < 2 ^ d"
    using assms(2,3) pow16[of d] by (simp add: digit_def less_mult_imp_div_less)
  note m = mod_plus_small[of d _ "unat x"]
  have "unat (LHALF (push_bit d x) OR drop_bit (16 - d) y) = unat x * 2 ^ d mod 65536 + unat y div 2 ^ (16 - d)"
    using assms c m(2) by (subst or_digit[of d]) (simp_all add: unat_shift_left unat_shift_right)
  then show ?thesis using m(1)[OF _ c] assms(3) by simp
qed

lemma shift_right_digit:
  assumes "digit x" "digit u" "0 < d" "d < 16"
  shows "unat (drop_bit d x OR LHALF (push_bit (16 - d) u)) = (unat u * 2 ^ (16 - d) + unat x div 2 ^ d) mod 65536"
  using shift_left_digit[of u x "16 - d"] assms by (simp add: or.commute)

lemma digitI: "unat x = n mod 65536 \<Longrightarrow> digit x"
  by (simp add: digit_def)

lemma shifted_out:
  fixes y r P :: nat
  assumes "d \<le> 16" "r < P"
  shows "(y * P + r) * 2 ^ d div (65536 * P) = y div 2 ^ (16 - d)"
proof -
  have e: "65536 * P = P * 2 ^ (16 - d) * 2 ^ d" by (simp add: pow16[OF assms(1)])
  have "(y * P + r) * 2 ^ d div (65536 * P) = (y * P + r) div (P * 2 ^ (16 - d))" unfolding e by (rule div_mult_mult2) simp
  also have "\<dots> = (y * P + r) div P div 2 ^ (16 - d)" by (rule div_mult2_eq)
  also have "(y * P + r) div P = y" using assms(2) by simp
  finally show ?thesis .
qed

lemma shl_digits:
  assumes "d < 16"
  shows "digits_ok xs \<Longrightarrow> length (shl xs d) = length xs \<and> digits_ok (shl xs d) \<and> val (shl xs d) = val xs * 2 ^ d mod 65536 ^ length xs"
proof (induction xs)
  case (Cons x xs)
  show ?case
  proof (cases xs)
    case Nil
    then show ?thesis using Cons.prems unat_shift_left[of x d] assms by simp
  next
    case (Cons y ys)
    define P where "P = (65536 :: nat) ^ length ys"
    define h where "h = LHALF (push_bit d x) OR drop_bit (16 - d) y"
    have d: "digit x" "digit y" "digits_ok ys" using Cons.prems Cons by auto
    have h: "unat h = (unat x * 2 ^ d + unat y div 2 ^ (16 - d)) mod 65536"
      unfolding h_def by (rule shift_left_digit[OF d(1,2) assms])
    have l: "length xs = Suc (length ys)" "val xs = unat y * P + val ys" by (simp_all add: Cons P_def)
    have out: "val xs * 2 ^ d div (65536 * P) = unat y div 2 ^ (16 - d)"
      unfolding l using assms val_bound[OF d(3)] by (intro shifted_out) (simp_all add: P_def)
    have "val (x # xs) * 2 ^ d = unat x * 2 ^ d * (65536 * P) + val xs * 2 ^ d" by (simp add: l P_def algebra_simps)
    then have "val (x # xs) * 2 ^ d div (65536 * P) = unat x * 2 ^ d + unat y div 2 ^ (16 - d)"
      "val (x # xs) * 2 ^ d mod (65536 * P) = val xs * 2 ^ d mod (65536 * P)"
      using out by (simp_all add: P_def)
    then have "val (x # xs) * 2 ^ d mod (65536 * P * 65536) = unat h * (65536 * P) + val xs * 2 ^ d mod (65536 * P)"
      unfolding mod_mult2_eq h by simp
    moreover have "shl (x # xs) d = h # shl xs d" by (simp add: Cons h_def)
    moreover have "length (shl xs d) = length xs \<and> digits_ok (shl xs d) \<and> val (shl xs d) = val xs * 2 ^ d mod 65536 ^ length xs"
      using Cons.IH Cons.prems by simp
    ultimately show ?thesis using digitI[OF h] by (simp add: l P_def mult.commute)
  qed
qed simp

lemma shr_digits:
  assumes "0 < d" "d < 16"
  shows "digits_ok xs \<Longrightarrow> digit u \<Longrightarrow> length (shr u xs d) = length xs \<and> digits_ok (shr u xs d) \<and>
    val (shr u xs d) = (unat u * 65536 ^ length xs + val xs) div 2 ^ d mod 65536 ^ length xs"
proof (induction xs arbitrary: u)
  case (Cons x xs)
  define P where "P = (65536 :: nat) ^ length xs"
  define h where "h = drop_bit d x OR LHALF (push_bit (16 - d) u)"
  define z where "z = unat x * P + val xs"
  have d: "digit x" "digits_ok xs" using Cons.prems by auto
  have h: "unat h = (unat u * 2 ^ (16 - d) + unat x div 2 ^ d) mod 65536"
    unfolding h_def by (rule shift_right_digit[OF d(1) Cons.prems(2) assms])
  have e: "unat u * (65536 * P) = (unat u * 2 ^ (16 - d) * P) * 2 ^ d"
    unfolding pow16[OF less_imp_le[OF assms(2)]] by (simp only: mult.assoc mult.commute mult.left_commute)
  have w: "(unat u * (65536 * P) + z) div 2 ^ d = unat u * 2 ^ (16 - d) * P + z div 2 ^ d"
    unfolding e by (rule div_mult_self3) simp
  have "z div P = unat x" unfolding z_def using val_bound[OF d(2)] by (simp add: P_def)
  then have "z div 2 ^ d div P = unat x div 2 ^ d" by (metis div_mult2_eq mult.commute)
  moreover have "0 < P" by (simp add: P_def)
  ultimately have "(unat u * (65536 * P) + z) div 2 ^ d div P = unat u * 2 ^ (16 - d) + unat x div 2 ^ d"
    "(unat u * (65536 * P) + z) div 2 ^ d mod P = z div 2 ^ d mod P"
    unfolding w by simp_all
  then have "(unat u * (65536 * P) + z) div 2 ^ d mod (P * 65536) = P * unat h + z div 2 ^ d mod P"
    unfolding mod_mult2_eq h by simp
  moreover have "length (shr x xs d) = length xs \<and> digits_ok (shr x xs d) \<and> val (shr x xs d) = z div 2 ^ d mod P"
    using Cons.IH[OF d(2,1)] by (simp add: z_def P_def)
  moreover have "shr u (x # xs) d = h # shr x xs d" by (simp add: h_def)
  ultimately show ?case using digitI[OF h] by (simp add: P_def z_def mult.commute mult.left_commute add.assoc)
qed simp

lemma normal_shift:
  "0 < unat t \<Longrightarrow> digit t \<Longrightarrow> \<exists>k. normal_shift t d = Some (d + k) \<and> k < 16 \<and> 32768 \<le> unat t * 2 ^ k \<and> unat t * 2 ^ k < 65536"
proof (induction "65536 - unat t" arbitrary: t d rule: less_induct)
  case less
  show ?case
  proof (cases "t < 0x8000")
    case False
    then show ?thesis using less.prems by (subst normal_shift.simps) (simp add: word_less_nat_alt digit_def exI[of _ 0])
  next
    case True
    then have t: "unat t < 32768" by (simp add: word_less_nat_alt)
    have p: "unat (push_bit 1 t) = unat t * 2"
      unfolding unsigned_push_bit_eq using t by (simp add: push_bit_eq_mult take_bit_eq_mod)
    have "65536 - unat (push_bit 1 t) < 65536 - unat t" "0 < unat (push_bit 1 t)" "digit (push_bit 1 t)"
      unfolding p digit_def using t less.prems(1) by simp_all
    from less.hyps[OF this, of "d + 1"] obtain k where k: "normal_shift (push_bit 1 t) (d + 1) = Some (d + 1 + k)"
      "32768 \<le> unat t * 2 * 2 ^ k" "unat t * 2 * 2 ^ k < 65536" unfolding p by blast
    have "(2 :: nat) ^ Suc k \<le> unat t * 2 ^ Suc k" using less.prems(1) by (cases "unat t") simp_all
    also have "\<dots> < 2 ^ 16" using k(3) by simp
    finally have "Suc k < 16" by (rule power_less_imp_less_exp[rotated]) simp
    then show ?thesis using k True by (subst normal_shift.simps) (auto intro!: exI[of _ "Suc k"] simp: mult.assoc)
  qed
qed

section \<open>Words and digits\<close>

lemma quad_lt64: "unat (x :: u64) < 2 ^ 64"
  using unsigned_less[of x] by simp

lemma halves:
  shows "val (halves x) = unat x" and "digits_ok (halves x)" and "length (halves x) = 4"
proof -
  define hi lo :: u32 where "hi = ucast (drop_bit 32 x)" and "lo = ucast x"
  have h: "unat hi = unat x div 2 ^ 32"
    unfolding hi_def unsigned_ucast_eq unsigned_drop_bit_eq using quad_lt64[of x]
    by (simp add: take_bit_eq_mod drop_bit_eq_div less_mult_imp_div_less)
  have l: "unat lo = unat x mod 2 ^ 32"
    unfolding lo_def unsigned_ucast_eq by (simp add: take_bit_eq_mod)
  have x: "halves x = [HHALF hi, LHALF hi, HHALF lo, LHALF lo]" by (simp add: halves_def Let_def hi_def lo_def)
  have "unat w = unat (HHALF w) * 65536 + unat (LHALF w)" for w by (simp add: unat_HHALF unat_LHALF)
  from this[of hi] this[of lo] have "val (halves x) = unat hi * 2 ^ 32 + unat lo" unfolding x by simp
  also have "\<dots> = unat x" unfolding h l by simp
  finally show "val (halves x) = unat x" .
  show "digits_ok (halves x)" "length (halves x) = 4" unfolding x by simp_all
qed

lemma quad_of_u32: "unat (ucast (b :: u32) :: u64) = unat b"
  unfolding unsigned_ucast_eq using unat_lt32[of b] by (simp add: take_bit_eq_mod)

lemma unat_pair: "unat (push_bit 32 (ucast (a :: u32)) OR ucast (b :: u32) :: u64) = unat a * 2 ^ 32 + unat b"
proof -
  have p: "unat (push_bit 32 (ucast a) :: u64) = unat a * 2 ^ 32"
    unfolding unsigned_push_bit_eq quad_of_u32 using unat_lt32[of a] by (simp add: push_bit_eq_mult take_bit_eq_mod)
  have "push_bit 32 (ucast a) AND ucast b = (0 :: u64)"
    by (rule bit_word_eqI) (auto simp: bit_simps dest: bit_imp_le_length)
  then have "push_bit 32 (ucast a) OR ucast b = (push_bit 32 (ucast a) + ucast b :: u64)"
    by (simp add: disjunctive_add_eq_or)
  then show ?thesis using p unat_lt32[of a] unat_lt32[of b] by (simp add: unat_word_ariths quad_of_u32)
qed

lemma unat_quad:
  assumes "length xs = 5" "digits_ok xs" "hd xs = 0"
  shows "unat (quad xs) = val xs"
proof -
  obtain a b c d where x: "xs = [0, a, b, c, d]"
    using assms(1,3) by (auto simp: numeral_eq_Suc length_Suc_conv)
  then have "digit a" "digit b" "digit c" "digit d" using assms(2) by auto
  then show ?thesis unfolding x by (simp add: quad_def unat_pair unat_COMBINE algebra_simps)
qed

section \<open>Short division\<close>

lemma short_step:
  assumes "unat r < unat t" "digit t" "digit x"
  shows "digit (COMBINE r x div t)" "unat (COMBINE r x mod t) < unat t"
    "unat (COMBINE r x div t) * unat t + unat (COMBINE r x mod t) = unat r * 65536 + unat x"
proof -
  have r: "digit r" using assms(1,2) by (simp add: digit_def)
  have "(unat r + 1) * 65536 \<le> unat t * 65536" using assms(1) by (intro mult_le_mono1) simp
  then have "unat r * 65536 + unat x < 65536 * unat t" using assms(3) by (simp add: digit_def)
  then show "digit (COMBINE r x div t)"
    unfolding digit_def unat_div unat_COMBINE[OF r assms(3)] by (rule less_mult_imp_div_less)
  show "unat (COMBINE r x mod t) < unat t" using assms(1) by (simp add: unat_mod)
  show "unat (COMBINE r x div t) * unat t + unat (COMBINE r x mod t) = unat r * 65536 + unat x"
    unfolding unat_div unat_mod by (simp add: unat_COMBINE[OF r assms(3)])
qed

lemma short_division:
  assumes d: "digits_ok [a, b, c, e]" and t: "digit t" "0 < unat t" and r: "short_division [0, a, b, c, e] t = (q, rm)"
  shows "unat q = val [a, b, c, e] div unat t \<and> unat rm = val [a, b, c, e] mod unat t"
proof -
  have dd: "digit a" "digit b" "digit c" "digit e" using d by auto
  define q1 r1 where "q1 = a div t" "r1 = a mod t"
  define q2 r2 where "q2 = COMBINE r1 b div t" "r2 = COMBINE r1 b mod t"
  define q3 r3 where "q3 = COMBINE r2 c div t" "r3 = COMBINE r2 c mod t"
  define q4 r4 where "q4 = COMBINE r3 e div t" "r4 = COMBINE r3 e mod t"
  note defs = q1_r1_def q2_r2_def q3_r3_def q4_r4_def
  have 1: "digit q1" "unat r1 < unat t" "unat q1 * unat t + unat r1 = unat a"
    using dd(1) t by (simp_all add: q1_r1_def digit_def unat_div unat_mod div_le_dividend le_less_trans[OF div_le_dividend])
  note 2 = short_step[OF 1(2) t(1) dd(2), folded q2_r2_def]
  note 3 = short_step[OF 2(2) t(1) dd(3), folded q3_r3_def]
  note 4 = short_step[OF 3(2) t(1) dd(4), folded q4_r4_def]
  have "q = push_bit 32 (ucast (COMBINE q1 q2)) OR ucast (COMBINE q3 q4)" "rm = ucast r4"
    using r by (simp_all add: short_division_def defs Let_def)
  then have q: "unat q = val [q1, q2, q3, q4]" "unat rm = unat r4"
    using 1 2 3 4 by (simp_all add: unat_pair unat_COMBINE quad_of_u32)
  have "val [q1, q2, q3, q4] * unat t = unat q1 * unat t * 281474976710656 + unat q2 * unat t * 4294967296 +
      unat q3 * unat t * 65536 + unat q4 * unat t" by (simp add: algebra_simps)
  moreover have "val [a, b, c, e] = unat a * 281474976710656 + unat b * 4294967296 + unat c * 65536 + unat e" by simp
  ultimately have "val [a, b, c, e] = val [q1, q2, q3, q4] * unat t + unat r4"
    using 1(3) 2(3) 3(3) 4(3) by linarith
  then show ?thesis using 4(2) unfolding q by simp
qed

section \<open>Leading zeros\<close>

lemma strip_divisor:
  "0 < val xs \<Longrightarrow> \<exists>k. xs = replicate k 0 @ strip_divisor xs \<and> strip_divisor xs \<noteq> [] \<and> 0 < unat (hd (strip_divisor xs))"
proof (induction xs)
  case (Cons x xs)
  show ?case
  proof (cases "x = 0 \<and> length xs \<noteq> 1")
    case True
    then obtain k where "xs = replicate k 0 @ strip_divisor xs" "strip_divisor xs \<noteq> []" "0 < unat (hd (strip_divisor xs))"
      using Cons by auto
    then show ?thesis using True by (intro exI[of _ "Suc k"]) simp
  next
    case False
    show ?thesis
    proof (cases "x = 0")
      case True
      then obtain y where "xs = [y]" using False by (cases xs; cases "tl xs") auto
      then show ?thesis using Cons.prems True by (intro exI[of _ 1]) simp
    next
      case x: False
      then have "0 < unat x" using unsigned_eq_0_iff[of x] by auto
      then show ?thesis using x by (intro exI[of _ 0]) simp
    qed
  qed
qed simp

lemma strip_dividend:
  "0 < val xs \<Longrightarrow> \<exists>k u1 us. strip_dividend (0 # xs) m = Some (0 # u1 # us, m - int k) \<and> 0 < unat u1 \<and> xs = replicate k 0 @ u1 # us"
proof (induction xs arbitrary: m)
  case (Cons x xs)
  show ?case
  proof (cases "x = 0")
    case True
    then obtain k u1 us where "strip_dividend (0 # xs) (m - 1) = Some (0 # u1 # us, m - 1 - int k)" "0 < unat u1"
      "xs = replicate k 0 @ u1 # us"
      using Cons.IH[of "m - 1"] Cons.prems by auto
    then show ?thesis using True by (intro exI[of _ "Suc k"] exI[of _ u1] exI[of _ us]) simp
  next
    case False
    then have "0 < unat x" using unsigned_eq_0_iff[of x] by auto
    then show ?thesis using False by (intro exI[of _ 0] exI[of _ x] exI[of _ xs]) simp
  qed
qed simp

section \<open>Normalisation\<close>

lemma leading_digit_le: "0 < unat x \<Longrightarrow> 65536 ^ length xs \<le> val (x # xs)"
  by (cases "unat x") simp_all

lemma hd_positive: "digits_ok xs \<Longrightarrow> xs \<noteq> [] \<Longrightarrow> 65536 ^ (length xs - 1) \<le> val xs \<Longrightarrow> 0 < unat (hd xs)"
  using val_bound[of "tl xs"] by (cases xs; cases "unat (hd xs)") auto

text \<open>The divisor after D1: shifted without loss, its first digit not zero.\<close>

lemma normal_divisor:
  assumes v: "digits_ok vs" "vs \<noteq> []" and d: "d < 16" "unat (hd vs) * 2 ^ d < 65536" "0 < unat (hd vs)"
  defines "ws \<equiv> (if d > 0 then shl vs d else vs)"
  shows "digits_ok ws" "length ws = length vs" "val ws = val vs * 2 ^ d" "0 < unat (hd ws)"
proof -
  define P where "P = (65536 :: nat) ^ (length vs - 1)"
  obtain x xs where x: "vs = x # xs" using v(2) by (cases vs) auto
  have e: "(2 :: nat) ^ (16 - d) * 2 ^ d = 65536" using d(1) by (simp flip: power_add)
  have "unat x * 2 ^ d < 2 ^ (16 - d) * 2 ^ d" using d(2) unfolding e x by simp
  then have "unat x + 1 \<le> 2 ^ (16 - d)" by simp
  then have "(unat x + 1) * 2 ^ d \<le> 2 ^ (16 - d) * 2 ^ d" by (rule mult_le_mono1)
  then have x1: "(unat x + 1) * 2 ^ d \<le> 65536" unfolding e .
  have "val vs < (unat x + 1) * P" using val_bound[of xs] v(1) by (simp add: x P_def)
  then have "val vs * 2 ^ d < (unat x + 1) * P * 2 ^ d" by (simp only: mult_less_cancel2) simp
  also have "\<dots> = (unat x + 1) * 2 ^ d * P" by (simp only: mult.assoc mult.commute mult.left_commute)
  also have "\<dots> \<le> 65536 * P" using x1 by (rule mult_le_mono1)
  finally have fits: "val vs * 2 ^ d < 65536 ^ length vs" by (simp add: P_def x)
  show w: "digits_ok ws" "length ws = length vs" "val ws = val vs * 2 ^ d"
    using shl_digits[OF d(1) v(1)] v(1) fits by (simp_all add: ws_def)
  have "P \<le> val vs" using leading_digit_le[of x xs] d(3) by (simp add: P_def x)
  also have "val vs * 1 \<le> val ws" unfolding w(3) by (rule mult_le_mono2) simp
  finally show "0 < unat (hd ws)" using w v(2) by (intro hd_positive) (auto simp: P_def)
qed

lemma normal_dividend:
  assumes u: "digits_ok us" "us \<noteq> []" "hd us = 0" and d: "d < 16"
  defines "ws \<equiv> (if d > 0 then shl us d else us)"
  shows "digits_ok ws" "length ws = length us" "val ws = val us * 2 ^ d"
proof -
  obtain xs where x: "us = 0 # xs" using u(2,3) by (cases us) auto
  have "val us < 65536 ^ length xs" using val_bound[of xs] u(1) by (simp add: x)
  then have "val us * 2 ^ d < 65536 ^ length xs * 2 ^ d" by simp
  also have "\<dots> \<le> 65536 ^ length xs * 2 ^ 16" using d by (intro mult_le_mono2 power_increasing) simp_all
  finally have "val us * 2 ^ d < 65536 ^ length us" by (simp add: x)
  then show "digits_ok ws" "length ws = length us" "val ws = val us * 2 ^ d"
    using shl_digits[OF d u(1)] u(1) by (simp_all add: ws_def)
qed

section \<open>Program D and the division\<close>

lemma shifted_window:
  assumes "digits_ok us" "length us = n + 1 + m" "val us < 65536 ^ (n + m) * 2 ^ d" "65536 ^ n * 2 ^ d \<le> 65536 * V"
  shows "val (take (n + 1) us) < 65536 * V"
proof -
  have "val (take (n + 1) us) * 65536 ^ m \<le> val us"
    using val_append[of "take (n + 1) us" "drop (n + 1) us"] assms(2) by simp
  also have "\<dots> < 65536 ^ n * 2 ^ d * 65536 ^ m" using assms(3) by (simp add: power_add mult.commute mult.left_commute)
  finally have "val (take (n + 1) us) < 65536 ^ n * 2 ^ d" by (simp only: mult_less_cancel2)
  then show ?thesis using assms(4) by linarith
qed

lemma scaled_division:
  fixes U V q r c :: nat
  assumes "U * c = q * (V * c) + r" "r < V * c"
  shows "q = U div V \<and> r = U mod V * c"
proof -
  have c: "0 < c" "0 < V" using assms(2) by (cases c; cases V; simp)+
  have "(q * D + r) div D = q" if "r < D" for D using that by simp
  then have "U * c div (V * c) = q" unfolding assms(1) using assms(2) by blast
  then have q: "q = U div V" using c by simp
  have "U * c = U div V * V * c + U mod V * c" by (metis div_mult_mod_eq distrib_right)
  then show ?thesis using assms(1) q by (simp add: mult.assoc)
qed

lemma divide_normalised:
  assumes u: "digits_ok us" "hd us = 0" "length us = length vs + 1 + m"
    and v: "digits_ok vs" "2 \<le> length vs" "0 < unat (hd vs)"
  shows "\<exists>d qs rest. normal_shift (hd vs) 0 = Some d \<and> d < 16 \<and>
    divide_loop (m + 1) (if d > 0 then shl vs d else vs) (if d > 0 then shl us d else us) = Some (qs, replicate (m + 1) 0 @ rest) \<and>
    digits_ok qs \<and> length qs = m + 1 \<and> digits_ok rest \<and> length rest = length vs \<and>
    val qs = val us div val vs \<and> val rest = val us mod val vs * 2 ^ d"
proof -
  obtain v1 vs' where vs: "vs = v1 # vs'" using v(2) by (cases vs) auto
  obtain us' where us: "us = 0 # us'" "length us' = length vs + m" using u(2,3) by (cases us) auto
  obtain d where d: "normal_shift (hd vs) 0 = Some d" "d < 16" "unat (hd vs) * 2 ^ d < 65536"
    using normal_shift[of "hd vs" 0] v(1,3) vs by auto
  define V U where "V = (if d > 0 then shl vs d else vs)" "U = (if d > 0 then shl us d else us)"
  have V: "digits_ok V" "length V = length vs" "val V = val vs * 2 ^ d" "0 < unat (hd V)"
    using normal_divisor[OF v(1) _ d(2,3) v(3)] vs by (simp_all add: V_U_def)
  have U: "digits_ok U" "length U = length vs + 1 + m" "val U = val us * 2 ^ d"
    using normal_dividend[OF u(1) _ u(2) d(2)] us u(3) by (simp_all add: V_U_def)
  have "val us < 65536 ^ (length vs + m)" using val_bound[of us'] u(1) us by simp
  then have "val U < 65536 ^ (length V + m) * 2 ^ d" unfolding U(3) V(2) by simp
  moreover have "65536 ^ length V * 2 ^ d \<le> 65536 * val V"
    using leading_digit_le[of v1 vs'] v(3) unfolding V(2,3) vs by simp
  ultimately have w: "val (take (length V + 1) U) < 65536 * val V"
    using U(1,2) V(2) by (intro shifted_window) simp_all
  obtain qs rest where r: "divide_loop (m + 1) V U = Some (qs, replicate (m + 1) 0 @ rest)"
    "digits_ok qs" "length qs = m + 1" "digits_ok rest" "length rest = length V"
    "val U = val qs * val V + val rest" "val rest < val V"
    using divide_loop[OF V(1) _ V(4) U(1) _ _ w, of "m + 1"] V(2) v(2) U(2) by auto
  show ?thesis
    using scaled_division[of "val us" "2 ^ d" "val qs" "val vs" "val rest"] r d V U by (auto simp: V_U_def[symmetric])
qed

lemma dividend_split:
  assumes u: "digits_ok us4" "length us4 = 4" and v: "2 \<le> length vs" "0 < unat (hd vs)" "val vs \<le> val us4"
  shows "\<exists>k us m. strip_dividend (0 # us4) (4 - int (length vs)) = Some (0 # us, int m) \<and> us4 = replicate k 0 @ us \<and>
    length us = length vs + m \<and> length vs + m + k = 4"
proof -
  obtain v1 vs' where vs: "vs = v1 # vs'" using v(1) by (cases vs) auto
  have V: "65536 ^ (length vs - 1) \<le> val vs" using leading_digit_le[of v1 vs'] v(2) by (simp add: vs)
  then have "0 < val us4" using v(3) by (metis less_le_trans zero_less_numeral zero_less_power)
  then obtain k u1 us where s: "strip_dividend (0 # us4) (4 - int (length vs)) = Some (0 # u1 # us, 4 - int (length vs) - int k)"
    "us4 = replicate k 0 @ u1 # us" "0 < unat u1"
    using strip_dividend by blast
  have U: "val us4 = val (u1 # us)" and du: "digits_ok (u1 # us)" using u(1) by (simp_all add: s(2))
  have "65536 ^ (length vs - 1) < (65536 :: nat) ^ length (u1 # us)"
    using V v(3) val_bound[of "u1 # us"] du unfolding U by fastforce
  then have "length vs - 1 < length (u1 # us)" by (rule power_less_imp_less_exp[rotated]) simp
  then have "length vs \<le> length (u1 # us)" using v(1) by linarith
  then obtain m where m: "length (u1 # us) = length vs + m" using le_Suc_ex by blast
  then have "length vs + m + k = 4" "4 - int (length vs) - int k = int m" using u(2) by (auto simp: s(2))
  then show ?thesis using s(1,2) m by (intro exI[of _ k] exI[of _ "u1 # us"] exI[of _ m]) simp
qed

text \<open>The remainder is shifted back into its place.\<close>

lemma remainder_digits:
  fixes m :: nat
  assumes "d < 16" "digits_ok rest" "val rest = r * 2 ^ d" "r < 65536 ^ length rest"
  defines "R \<equiv> (if d > 0 then replicate m 0 @ 0 # shr 0 rest d else replicate (m + 1) 0 @ rest)"
  shows "length R = m + 1 + length rest" "digits_ok R" "val R = r" "hd R = 0"
  using shr_digits[OF _ assms(1,2), of 0] assms(2-4) unfolding R_def by (auto simp: hd_append)

lemma program_D:
  assumes u: "digits_ok us4" "length us4 = 4" and v: "digits_ok vs" "2 \<le> length vs" "0 < unat (hd vs)" and le: "val vs \<le> val us4"
  shows "\<exists>q r. program_D (0 # us4) vs = Some (q, r) \<and> unat q = val us4 div val vs \<and> unat r = val us4 mod val vs"
proof -
  obtain k us m where s: "strip_dividend (0 # us4) (4 - int (length vs)) = Some (0 # us, int m)"
    "us4 = replicate k 0 @ us" "length us = length vs + m" "length vs + m + k = 4"
    using dividend_split[OF u v(2,3) le] by blast
  have U: "val us4 = val (0 # us)" "digits_ok (0 # us)" using u(1) by (simp_all add: s(2))
  obtain d qs rest where r: "normal_shift (hd vs) 0 = Some d" "d < 16"
    "divide_loop (m + 1) (if d > 0 then shl vs d else vs) (if d > 0 then shl (0 # us) d else 0 # us) =
      Some (qs, replicate (m + 1) 0 @ rest)"
    "digits_ok qs" "length qs = m + 1" "digits_ok rest" "length rest = length vs"
    "val qs = val us4 div val vs" "val rest = val us4 mod val vs * 2 ^ d"
    using divide_normalised[OF U(2) _ _ v, of m] s(3) unfolding U(1) by auto
  define R where "R = (if d > 0 then replicate m 0 @ 0 # shr 0 rest d else replicate (m + 1) 0 @ rest)"
  have "5 - length (0 # us) = k" "0 # us4 = replicate k 0 @ 0 # us"
    using s(3,4) by (simp_all add: s(2) replicate_app_Cons_same)
  then have tk: "take (5 - length (0 # us)) (0 # us4) = replicate k 0" by simp
  have n: "nat (4 - int m) = 4 - m" "nat (int m + 1) = m + 1" "nat (int m) = m" by simp_all
  have "replicate (m + 1) 0 @ rest = replicate m 0 @ 0 # rest" by (simp add: replicate_app_Cons_same)
  then have l: "take m (replicate (m + 1) 0 @ rest) = replicate m 0" "(replicate (m + 1) 0 @ rest) ! m = 0"
    "drop (m + 1) (replicate (m + 1) 0 @ rest) = rest" by (simp_all add: nth_append)
  have D: "program_D (0 # us4) vs = Some (quad (replicate (4 - m) 0 @ qs), quad (replicate k 0 @ R))"
    by (simp only: program_D_def Let_def s(1) r(1,3) n l tk bind.bind_lunit prod.case R_def)
  have q: "unat (quad (replicate (4 - m) 0 @ qs)) = val qs"
    using r(4,5) s(4) v(2) by (subst unat_quad) auto
  have "0 < val vs" using v(2,3) by (cases vs) auto
  then have "val us4 mod val vs < 65536 ^ length rest"
    using val_bound[OF v(1)] less_trans[OF mod_less_divisor] unfolding r(7) by blast
  note R = remainder_digits[OF r(2,6,9) this, of m, folded R_def]
  have "unat (quad (replicate k 0 @ R)) = val R"
    using R r(7) s(4) by (subst unat_quad) (auto simp: hd_append)
  then show ?thesis using D q R(3) r(8) by simp
qed

text \<open>C22: Division and remainder of 64-bit integers, computed digit by digit, are those of the numbers; only a division by
  zero does not return.
\<close>

theorem qdivrem_correct: "qdivrem a b = (if b = 0 then None else Some (a div b, a mod b))"
proof (cases "b = 0 \<or> a < b")
  case True
  then show ?thesis by (auto simp: qdivrem_def word_unat_eq_iff unat_div unat_mod word_less_nat_alt)
next
  case False
  then have b: "b \<noteq> 0" "unat b \<le> unat a" by (simp_all add: word_less_nat_alt not_less)
  have "0 < val (halves b)" unfolding halves using b(1) by (simp add: unat_gt_0)
  then obtain k where s: "halves b = replicate k 0 @ strip_divisor (halves b)" "strip_divisor (halves b) \<noteq> []"
    "0 < unat (hd (strip_divisor (halves b)))"
    using strip_divisor by blast
  define vs where "vs = strip_divisor (halves b)"
  have v: "digits_ok vs" "val vs = unat b"
    using halves(1,2)[of b] arg_cong[OF s(1), of val] arg_cong[OF s(1), of set] by (auto simp: vs_def)
  have "\<exists>q r. (if length vs = 1 then Some (short_division (0 # halves a) (vs ! 0)) else program_D (0 # halves a) vs) = Some (q, r) \<and>
    unat q = unat a div unat b \<and> unat r = unat a mod unat b"
  proof (cases "length vs = 1")
    case True
    then obtain t where t: "vs = [t]" by (cases vs) auto
    obtain x y z w where h: "halves a = [x, y, z, w]" by (simp add: halves_def Let_def)
    obtain q r where "short_division (0 # halves a) t = (q, r)" by fastforce
    then show ?thesis
      using short_division[of x y z w t q r] halves[of a] v s(3) unfolding h by (simp add: t vs_def[symmetric])
  next
    case False
    then have "2 \<le> length vs" using s(2) by (cases vs; cases "tl vs") (auto simp: vs_def)
    from program_D[OF halves(2,3) v(1) this] show ?thesis
      using False s(3) b(2) v(2) by (simp add: vs_def[symmetric] halves(1))
  qed
  then show ?thesis
    using False by (auto simp: qdivrem_def vs_def Let_def word_unat_eq_iff unat_div unat_mod)
qed

end
