(* ===== verification/Quick_Sort.thy ===== *)
theory Quick_Sort
  imports Prelude "HOL-Library.Multiset"
begin

text \<open>
  The sorting routine of the C library, \<^verbatim>\<open>410kern/stdlib/qsort.c\<close>: the quicksort of Bentley and McIlroy, which collects
  the elements equal to the pivot at both ends, and its insertion sort for small and nearly sorted arrays.

  The array is a list of elements, and a pointer into it is an index, one element being \<open>es\<close> bytes; how \<open>swap\<close> moves
  the bytes of two elements (words or characters) is left out.  An access outside the list is None.  The comparison is a
  function on the elements.
\<close>

section \<open>The array\<close>

type_synonym 'a compare = "'a \<Rightarrow> 'a \<Rightarrow> int"

definition swap :: "nat \<Rightarrow> nat \<Rightarrow> 'a list \<Rightarrow> 'a list option" where
  "swap i j xs = (if i < length xs \<and> j < length xs then Some (xs[i := xs ! j, j := xs ! i]) else None)"

definition cmp_at :: "'a compare \<Rightarrow> nat \<Rightarrow> nat \<Rightarrow> 'a list \<Rightarrow> int option" where
  "cmp_at cmp i j xs = (if i < length xs \<and> j < length xs then Some (cmp (xs ! i) (xs ! j)) else None)"

definition vecswap :: "nat \<Rightarrow> nat \<Rightarrow> nat \<Rightarrow> 'a list \<Rightarrow> 'a list option" where
  "vecswap i j n xs = c_each [0..<n] (\<lambda>k. swap (i + k) (j + k)) xs"

section \<open>Insertion sort\<close>

text \<open>The inner loop over \<open>pl\<close>, then the loop over \<open>pm\<close>.\<close>

partial_function (option) sift :: "'a compare \<Rightarrow> nat \<Rightarrow> nat \<Rightarrow> 'a list \<Rightarrow> 'a list option" where
  "sift cmp a pl xs =
     (if pl > a then
        Option.bind (cmp_at cmp (pl - 1) pl xs) (\<lambda>r.
          if r > 0 then Option.bind (swap pl (pl - 1) xs) (sift cmp a (pl - 1)) else Some xs)
      else Some xs)"

definition insertion_sort :: "'a compare \<Rightarrow> nat \<Rightarrow> nat \<Rightarrow> 'a list \<Rightarrow> 'a list option" where
  "insertion_sort cmp a n xs = c_each [a + 1..<a + n] (sift cmp a) xs"

section \<open>The pivot\<close>

definition med3 :: "'a compare \<Rightarrow> nat \<Rightarrow> nat \<Rightarrow> nat \<Rightarrow> 'a list \<Rightarrow> nat option" where
  "med3 cmp a b c xs =
     do { ab \<leftarrow> cmp_at cmp a b xs;
          if ab < 0 then
            do { bc \<leftarrow> cmp_at cmp b c xs;
                 if bc < 0 then Some b
                 else do { ac \<leftarrow> cmp_at cmp a c xs; Some (if ac < 0 then c else a) } }
          else
            do { bc \<leftarrow> cmp_at cmp b c xs;
                 if bc > 0 then Some b
                 else do { ac \<leftarrow> cmp_at cmp a c xs; Some (if ac < 0 then a else c) } } }"

definition choose_pivot :: "'a compare \<Rightarrow> nat \<Rightarrow> nat \<Rightarrow> 'a list \<Rightarrow> nat option" where
  "choose_pivot cmp a n xs =
     (let pm = a + n div 2
      in if n > 7 then
           let pl = a; pn = a + (n - 1)
           in do {
             (pl, pm, pn) \<leftarrow>
               (if n > 40 then
                  let d = n div 8
                  in do { pl \<leftarrow> med3 cmp pl (pl + d) (pl + 2 * d) xs;
                          pm \<leftarrow> med3 cmp (pm - d) pm (pm + d) xs;
                          pn \<leftarrow> med3 cmp (pn - 2 * d) (pn - d) pn xs;
                          Some (pl, pm, pn) }
                else Some (pl, pm, pn));
             med3 cmp pl pm pn xs }
         else Some pm)"

section \<open>The partition\<close>

text \<open>The two inner loops; \<open>cnt\<close> is \<open>swap_cnt\<close>.\<close>

partial_function (option) scan_up ::
  "'a compare \<Rightarrow> nat \<Rightarrow> nat \<Rightarrow> nat \<Rightarrow> nat \<Rightarrow> bool \<Rightarrow> 'a list \<Rightarrow> (nat \<times> nat \<times> bool \<times> 'a list) option" where
  "scan_up cmp a pc pa pb cnt xs =
     (if pb \<le> pc then
        Option.bind (cmp_at cmp pb a xs) (\<lambda>r.
          if r \<le> 0 then
            if r = 0 then Option.bind (swap pa pb xs) (scan_up cmp a pc (pa + 1) (pb + 1) True)
            else scan_up cmp a pc pa (pb + 1) cnt xs
          else Some (pa, pb, cnt, xs))
      else Some (pa, pb, cnt, xs))"

partial_function (option) scan_down ::
  "'a compare \<Rightarrow> nat \<Rightarrow> nat \<Rightarrow> nat \<Rightarrow> nat \<Rightarrow> bool \<Rightarrow> 'a list \<Rightarrow> (nat \<times> nat \<times> bool \<times> 'a list) option" where
  "scan_down cmp a pb pc pd cnt xs =
     (if pb \<le> pc then
        Option.bind (cmp_at cmp pc a xs) (\<lambda>r.
          if r \<ge> 0 then
            if r = 0 then Option.bind (swap pc pd xs) (scan_down cmp a pb (pc - 1) (pd - 1) True)
            else scan_down cmp a pb (pc - 1) pd cnt xs
          else Some (pc, pd, cnt, xs))
      else Some (pc, pd, cnt, xs))"

partial_function (option) partition_loop ::
  "'a compare \<Rightarrow> nat \<Rightarrow> nat \<Rightarrow> nat \<Rightarrow> nat \<Rightarrow> nat \<Rightarrow> bool \<Rightarrow> 'a list \<Rightarrow> (nat \<times> nat \<times> nat \<times> nat \<times> bool \<times> 'a list) option" where
  "partition_loop cmp a pa pb pc pd cnt xs =
     Option.bind (scan_up cmp a pc pa pb cnt xs) (\<lambda>(pa, pb, cnt, xs).
       Option.bind (scan_down cmp a pb pc pd cnt xs) (\<lambda>(pc, pd, cnt, xs).
         if pb > pc then Some (pa, pb, pc, pd, cnt, xs)
         else Option.bind (swap pb pc xs) (partition_loop cmp a pa (pb + 1) (pc - 1) pd True)))"

section \<open>qsort\<close>

partial_function (option) qsort :: "'a compare \<Rightarrow> nat \<Rightarrow> nat \<Rightarrow> 'a list \<Rightarrow> 'a list option" where
  "qsort cmp a n xs =
     (if n < 7 then insertion_sort cmp a n xs
      else
        Option.bind (choose_pivot cmp a n xs) (\<lambda>pm.
        Option.bind (swap a pm xs) (\<lambda>xs.
        Option.bind (partition_loop cmp a (a + 1) (a + 1) (a + (n - 1)) (a + (n - 1)) False xs) (\<lambda>(pa, pb, pc, pd, cnt, xs).
          if \<not> cnt then insertion_sort cmp a n xs
          else
            let pn = a + n; r = min (pa - a) (pb - pa)
            in Option.bind (vecswap a (pb - r) r xs) (\<lambda>xs.
               let r = min (pd - pc) (pn - pd - 1)
               in Option.bind (vecswap pb (pn - r) r xs) (\<lambda>xs.
                  Option.bind (if pb - pa > 1 then qsort cmp a (pb - pa) xs else Some xs) (\<lambda>xs.
                    if pd - pc > 1 then qsort cmp (pn - (pd - pc)) (pd - pc) xs else Some xs)))))))"

end
