(* ===== verification/Sorting.thy ===== *)
theory Sorting
  imports Quick_Sort
begin

text \<open>
  The correctness of \<open>qsort\<close>: every access is inside the array, it ends, it rearranges exactly the elements of its
  part of the array and leaves them in order.
\<close>

section \<open>Comparisons\<close>

definition comparator :: "'a compare \<Rightarrow> bool" where
  "comparator cmp \<longleftrightarrow>
     (\<forall>x y. cmp x y < 0 \<longleftrightarrow> cmp y x > 0) \<and> (\<forall>x y z. cmp x y \<le> 0 \<longrightarrow> cmp y z \<le> 0 \<longrightarrow> cmp x z \<le> 0)"

lemma comparator_trans: "comparator cmp \<Longrightarrow> cmp x y \<le> 0 \<Longrightarrow> cmp y z \<le> 0 \<Longrightarrow> cmp x z \<le> 0"
  unfolding comparator_def by blast

lemma comparator_flip: "comparator cmp \<Longrightarrow> 0 \<le> cmp x y \<Longrightarrow> cmp y x \<le> 0"
  unfolding comparator_def by (metis not_less)

lemma comparator_refl: "comparator cmp \<Longrightarrow> cmp x x = 0"
  unfolding comparator_def by (metis less_asym linorder_neqE)

text \<open>A part of the array is in order.\<close>

definition ordered :: "'a compare \<Rightarrow> nat \<Rightarrow> nat \<Rightarrow> 'a list \<Rightarrow> bool" where
  "ordered cmp lo hi xs \<longleftrightarrow> (\<forall>i j. lo \<le> i \<longrightarrow> i < j \<longrightarrow> j < hi \<longrightarrow> cmp (xs ! i) (xs ! j) \<le> 0)"

section \<open>Rearranging a part of an array\<close>

definition rearranged :: "nat \<Rightarrow> nat \<Rightarrow> 'a list \<Rightarrow> 'a list \<Rightarrow> bool" where
  "rearranged lo hi xs ys \<longleftrightarrow>
     length ys = length xs \<and> mset ys = mset xs \<and> (\<forall>i. i < lo \<or> hi \<le> i \<longrightarrow> i < length xs \<longrightarrow> ys ! i = xs ! i)"

lemma rearranged_refl [simp]: "rearranged lo hi xs xs"
  by (simp add: rearranged_def)

lemma rearranged_trans: "rearranged lo hi xs ys \<Longrightarrow> rearranged lo hi ys zs \<Longrightarrow> rearranged lo hi xs zs"
  by (simp add: rearranged_def)

lemma rearranged_mono: "rearranged lo hi xs ys \<Longrightarrow> lo' \<le> lo \<Longrightarrow> hi \<le> hi' \<Longrightarrow> rearranged lo' hi' xs ys"
  by (simp add: rearranged_def)

lemma rearranged_length: "rearranged lo hi xs ys \<Longrightarrow> length ys = length xs"
  by (simp add: rearranged_def)

lemma rearranged_outside: "rearranged lo hi xs ys \<Longrightarrow> i < lo \<or> hi \<le> i \<Longrightarrow> i < length xs \<Longrightarrow> ys ! i = xs ! i"
  unfolding rearranged_def by blast

lemma swap_rearranged:
  assumes "lo \<le> i" "i < hi" "lo \<le> j" "j < hi" "hi \<le> length xs"
  shows "swap i j xs = Some (xs[i := xs ! j, j := xs ! i])" "rearranged lo hi xs (xs[i := xs ! j, j := xs ! i])"
  using assms mset_swap[of j xs i] by (auto simp: swap_def rearranged_def nth_list_update)

lemma mset_segment:
  assumes "rearranged lo hi xs ys" "lo \<le> hi" "hi \<le> length xs"
  shows "mset (take (hi - lo) (drop lo ys)) = mset (take (hi - lo) (drop lo xs))"
proof -
  have split: "mset zs = mset (take lo zs) + mset (take (hi - lo) (drop lo zs)) + mset (drop hi zs)" for zs :: "'a list"
  proof -
    have "drop hi zs = drop (hi - lo) (drop lo zs)" using assms(2) by simp
    then have "zs = take lo zs @ take (hi - lo) (drop lo zs) @ drop hi zs" by (simp only: append_take_drop_id)
    then have "mset zs = mset (take lo zs @ take (hi - lo) (drop lo zs) @ drop hi zs)" by (rule arg_cong)
    then show ?thesis by (simp only: mset_append add.assoc)
  qed
  have "take lo ys = take lo xs" "drop hi ys = drop hi xs"
    using assms by (auto intro!: nth_equalityI simp: rearranged_def)
  then show ?thesis using split[of xs] split[of ys] assms(1) by (simp add: rearranged_def)
qed

lemma rearranged_all:
  assumes "rearranged lo hi xs ys" "lo \<le> hi" "hi \<le> length xs" "\<forall>i. lo \<le> i \<longrightarrow> i < hi \<longrightarrow> P (xs ! i)" "lo \<le> k" "k < hi"
  shows "P (ys ! k)"
proof -
  have "ys ! k \<in> set (take (hi - lo) (drop lo ys))"
    using assms(1,3,5,6) by (auto simp: in_set_conv_nth rearranged_def intro!: exI[of _ "k - lo"])
  also have "\<dots> = set (take (hi - lo) (drop lo xs))"
    using mset_segment[OF assms(1-3)] by (rule mset_eq_setD)
  finally obtain i where "i < hi - lo" "ys ! k = xs ! (lo + i)"
    using assms(2,3) by (auto simp: in_set_conv_nth)
  then show ?thesis using assms(4) by simp
qed

section \<open>Insertion sort\<close>

lemma sift_correct:
  assumes c: "comparator cmp" and l: "a \<le> pl" "pl \<le> pm" "pm < length xs"
    and o: "\<forall>i j. a \<le> i \<longrightarrow> i < j \<longrightarrow> j \<le> pm \<longrightarrow> j \<noteq> pl \<longrightarrow> cmp (xs ! i) (xs ! j) \<le> 0"
  shows "\<exists>ys. sift cmp a pl xs = Some ys \<and> rearranged a (pm + 1) xs ys \<and> ordered cmp a (pm + 1) ys"
  using l o
proof (induction pl arbitrary: xs)
  case 0
  then show ?case by (subst sift.simps) (auto simp: ordered_def)
next
  case (Suc p)
  show ?case
  proof (cases "a \<le> p \<and> cmp (xs ! p) (xs ! Suc p) > 0")
    case False
    have "cmp (xs ! i) (xs ! Suc p) \<le> 0" if "a \<le> i" "i < Suc p" for i
    proof (cases "i = p")
      case i: False
      then have "cmp (xs ! i) (xs ! p) \<le> 0" using Suc.prems that by simp
      then show ?thesis using False that by (auto simp: not_less intro: comparator_trans[OF c])
    qed (use False that in auto)
    then have "ordered cmp a (pm + 1) xs"
      using Suc.prems(4) unfolding ordered_def by (metis Suc_eq_plus1 less_Suc_eq_le)
    then show ?thesis using False Suc.prems by (subst sift.simps) (auto simp: cmp_at_def not_less)
  next
    case True
    let ?ys = "xs[Suc p := xs ! p, p := xs ! Suc p]"
    note s = swap_rearranged[of a "Suc p" "pm + 1" p xs]
    have "\<forall>i j. a \<le> i \<longrightarrow> i < j \<longrightarrow> j \<le> pm \<longrightarrow> j \<noteq> p \<longrightarrow> cmp (?ys ! i) (?ys ! j) \<le> 0"
    proof (intro allI impI)
      fix i j
      assume ij: "a \<le> i" "i < j" "j \<le> pm" "j \<noteq> p"
      have le: "cmp (xs ! Suc p) (xs ! p) \<le> 0" using True comparator_flip[OF c] by simp
      consider "j = Suc p" "i = p" | "j = Suc p" "i < p" | "j \<noteq> Suc p" using ij by linarith
      then show "cmp (?ys ! i) (?ys ! j) \<le> 0"
      proof cases
        case 3
        have "cmp (xs ! k) (xs ! j) \<le> 0" if "a \<le> k" "k < j" for k using Suc.prems(4) that ij(3) 3 by blast
        then show ?thesis using ij 3 True Suc.prems by (auto simp: nth_list_update)
      qed (use ij le Suc.prems True in \<open>auto simp: nth_list_update\<close>)
    qed
    then obtain ys where "sift cmp a p ?ys = Some ys" "rearranged a (pm + 1) ?ys ys" "ordered cmp a (pm + 1) ys"
      using Suc.IH[of ?ys] Suc.prems True by auto
    then show ?thesis
      using s True Suc.prems by (subst sift.simps) (auto simp: cmp_at_def intro: rearranged_trans)
  qed
qed


definition sorts :: "'a compare \<Rightarrow> nat \<Rightarrow> nat \<Rightarrow> 'a list \<Rightarrow> 'a list option \<Rightarrow> bool" where
  "sorts cmp a n xs r \<longleftrightarrow> (\<exists>ys. r = Some ys \<and> rearranged a (a + n) xs ys \<and> ordered cmp a (a + n) ys)"

lemma bind_c_each_nil [simp]: "Option.bind x (c_each [] f) = x"
  by (cases x) simp_all

lemma insertion_sort_correct:
  assumes c: "comparator cmp"
  shows "a + n \<le> length xs \<Longrightarrow> sorts cmp a n xs (insertion_sort cmp a n xs)"
proof (induction n)
  case 0
  then show ?case by (simp add: insertion_sort_def sorts_def ordered_def)
next
  case (Suc n)
  obtain ys where ys: "insertion_sort cmp a n xs = Some ys" "rearranged a (a + n) xs ys" "ordered cmp a (a + n) ys"
    using Suc by (auto simp: sorts_def)
  show ?case
  proof (cases n)
    case 0
    then show ?thesis by (auto simp: insertion_sort_def sorts_def ordered_def)
  next
    case (Suc m)
    then have "[a + 1..<a + Suc n] = [a + 1..<a + n] @ [a + n]" by simp
    then have i: "insertion_sort cmp a (Suc n) xs = sift cmp a (a + n) ys"
      using ys(1) by (simp add: insertion_sort_def c_each_append)
    have l: "a + n < length ys" using Suc.prems rearranged_length[OF ys(2)] by simp
    have "\<forall>i j. a \<le> i \<longrightarrow> i < j \<longrightarrow> j \<le> a + n \<longrightarrow> j \<noteq> a + n \<longrightarrow> cmp (ys ! i) (ys ! j) \<le> 0"
      using ys(3) by (simp add: ordered_def)
    from sift_correct[OF c _ _ l this] obtain zs where "sift cmp a (a + n) ys = Some zs"
      "rearranged a (a + n + 1) ys zs" "ordered cmp a (a + n + 1) zs" by auto
    then show ?thesis
      using i rearranged_mono[OF ys(2), of a "a + n + 1"] by (auto simp: sorts_def intro: rearranged_trans)
  qed
qed

section \<open>The pivot\<close>

lemma cmp_at [simp]: "i < length xs \<Longrightarrow> j < length xs \<Longrightarrow> cmp_at cmp i j xs = Some (cmp (xs ! i) (xs ! j))"
  by (simp add: cmp_at_def)

lemma med3_some:
  "a < length xs \<Longrightarrow> b < length xs \<Longrightarrow> c < length xs \<Longrightarrow> \<exists>m. med3 cmp a b c xs = Some m \<and> m \<in> {a, b, c}"
  by (auto simp: med3_def)

lemma med3_range:
  assumes "{a, b, c} \<subseteq> {lo..<hi}" "hi \<le> length xs"
  shows "\<exists>m. med3 cmp a b c xs = Some m \<and> lo \<le> m \<and> m < hi"
  using med3_some[of a xs b c cmp] assms by auto

lemma choose_pivot_range:
  assumes "7 \<le> n" "a + n \<le> length xs"
  shows "\<exists>p. choose_pivot cmp a n xs = Some p \<and> a \<le> p \<and> p < a + n"
proof (cases "n > 40")
  case True
  have d: "a + 2 * (n div 8) < a + n" "n div 8 \<le> n div 2" "n div 2 + n div 8 < n" "2 * (n div 8) \<le> n - 1"
    "a + n div 2 - n div 8 < a + n" "a \<le> a + n div 2 - n div 8"
    "a \<le> a + n - Suc (2 * (n div 8))" "a \<le> a + n - Suc (n div 8)" "a \<le> a + n - Suc 0" using True by linarith+
  obtain pl where pl: "med3 cmp a (a + n div 8) (a + 2 * (n div 8)) xs = Some pl" "a \<le> pl" "pl < a + n"
    using med3_range[of a "a + n div 8" "a + 2 * (n div 8)" a "a + n" xs cmp] assms d by auto
  obtain pm where pm: "med3 cmp (a + n div 2 - n div 8) (a + n div 2) (a + n div 2 + n div 8) xs = Some pm" "a \<le> pm" "pm < a + n"
    using med3_range[of "a + n div 2 - n div 8" "a + n div 2" "a + n div 2 + n div 8" a "a + n" xs cmp] assms d by auto
  obtain pn where pn: "med3 cmp (a + (n - 1) - 2 * (n div 8)) (a + (n - 1) - n div 8) (a + (n - 1)) xs = Some pn" "a \<le> pn" "pn < a + n"
    using med3_range[of "a + (n - 1) - 2 * (n div 8)" "a + (n - 1) - n div 8" "a + (n - 1)" a "a + n" xs cmp] assms d by auto
  show ?thesis
    using med3_range[of pl pm pn a "a + n" xs cmp] pl pm pn assms True by (auto simp: choose_pivot_def Let_def)
next
  case False
  then show ?thesis
    using med3_range[of a "a + n div 2" "a + (n - 1)" a "a + n" xs cmp] assms by (auto simp: choose_pivot_def Let_def)
qed

section \<open>The partition\<close>

text \<open>
  The array during the partition: elements equal to the pivot, smaller ones, a part not yet looked at, larger ones, and
  equal ones again; \<open>b\<close> is the index behind the array.
\<close>

definition parts :: "'a compare \<Rightarrow> nat \<Rightarrow> nat \<Rightarrow> nat \<Rightarrow> nat \<Rightarrow> nat \<Rightarrow> nat \<Rightarrow> 'a list \<Rightarrow> bool" where
  "parts cmp a b pa pb pc pd xs \<longleftrightarrow>
     a < pa \<and> pa \<le> pb \<and> pb \<le> pc + 1 \<and> pc \<le> pd \<and> pd < b \<and> b \<le> length xs \<and>
     (\<forall>i. a \<le> i \<longrightarrow> i < pa \<longrightarrow> cmp (xs ! i) (xs ! a) = 0) \<and>
     (\<forall>i. pa \<le> i \<longrightarrow> i < pb \<longrightarrow> cmp (xs ! i) (xs ! a) < 0) \<and>
     (\<forall>i. pc < i \<longrightarrow> i \<le> pd \<longrightarrow> cmp (xs ! i) (xs ! a) > 0) \<and>
     (\<forall>i. pd < i \<longrightarrow> i < b \<longrightarrow> cmp (xs ! i) (xs ! a) = 0)"

lemma scan_up_correct:
  assumes "comparator cmp"
  shows "parts cmp a b pa pb pc pd xs \<Longrightarrow>
    \<exists>pa' pb' cnt' ys. scan_up cmp a pc pa pb cnt xs = Some (pa', pb', cnt', ys) \<and> rearranged a b xs ys \<and>
      parts cmp a b pa' pb' pc pd ys \<and> (pb' \<le> pc \<longrightarrow> cmp (ys ! pb') (ys ! a) > 0) \<and> pb \<le> pb'"
proof (induction "pc + 1 - pb" arbitrary: pa pb cnt xs rule: less_induct)
  case less
  have r: "a < pa" "pa \<le> pb" "pb \<le> pc + 1" "pc \<le> pd" "pd < b" "b \<le> length xs" using less.prems by (simp_all add: parts_def)
  consider "pc < pb" | "pb \<le> pc" "cmp (xs ! pb) (xs ! a) > 0" | "pb \<le> pc" "cmp (xs ! pb) (xs ! a) = 0"
    | "pb \<le> pc" "cmp (xs ! pb) (xs ! a) < 0" by linarith
  then show ?case
  proof cases
    case 1
    then show ?thesis using less.prems by (subst scan_up.simps) simp
  next
    case 2
    then show ?thesis using less.prems r by (subst scan_up.simps) simp
  next
    case 3
    let ?ys = "xs[pa := xs ! pb, pb := xs ! pa]"
    note s = swap_rearranged[of a pa b pb xs]
    have "parts cmp a b (pa + 1) (pb + 1) pc pd ?ys"
      using less.prems 3 by (auto simp: parts_def nth_list_update less_Suc_eq)
    moreover have m: "pc + 1 - (pb + 1) < pc + 1 - pb" using 3(1) by simp
    ultimately obtain pa' pb' cnt' ys where
      "scan_up cmp a pc (pa + 1) (pb + 1) True ?ys = Some (pa', pb', cnt', ys)" "rearranged a b ?ys ys"
      "parts cmp a b pa' pb' pc pd ys" "pb' \<le> pc \<longrightarrow> cmp (ys ! pb') (ys ! a) > 0" "pb + 1 \<le> pb'"
      using less.hyps[of "pb + 1" "pa + 1" ?ys True] by auto
    then show ?thesis
      using 3 r s by (subst scan_up.simps) (auto intro: rearranged_trans)
  next
    case 4
    have "parts cmp a b pa (pb + 1) pc pd xs" using less.prems 4 by (auto simp: parts_def less_Suc_eq)
    moreover have "pc + 1 - (pb + 1) < pc + 1 - pb" using 4(1) by simp
    ultimately show ?thesis using less.hyps[of "pb + 1" pa xs cnt] 4 r by (subst scan_up.simps) auto
  qed
qed

lemma scan_down_correct:
  assumes "comparator cmp"
  shows "parts cmp a b pa pb pc pd xs \<Longrightarrow>
    \<exists>pc' pd' cnt' ys. scan_down cmp a pb pc pd cnt xs = Some (pc', pd', cnt', ys) \<and> rearranged a b xs ys \<and>
      parts cmp a b pa pb pc' pd' ys \<and> (pb \<le> pc' \<longrightarrow> cmp (ys ! pc') (ys ! a) < 0 \<and> ys ! pb = xs ! pb \<and> ys ! a = xs ! a) \<and>
      pc' \<le> pc"
proof (induction pc arbitrary: pd cnt xs)
  case 0
  then show ?case by (subst scan_down.simps) (simp add: parts_def)
next
  case (Suc pc)
  have r: "a < pa" "pa \<le> pb" "pb \<le> Suc pc + 1" "Suc pc \<le> pd" "pd < b" "b \<le> length xs" using Suc.prems by (simp_all add: parts_def)
  consider "Suc pc < pb" | "pb \<le> Suc pc" "cmp (xs ! Suc pc) (xs ! a) < 0" | "pb \<le> Suc pc" "cmp (xs ! Suc pc) (xs ! a) = 0"
    | "pb \<le> Suc pc" "cmp (xs ! Suc pc) (xs ! a) > 0" by linarith
  then show ?case
  proof cases
    case 1
    then show ?thesis using Suc.prems by (subst scan_down.simps) simp
  next
    case 2
    then show ?thesis using Suc.prems r by (subst scan_down.simps) simp
  next
    case 3
    let ?ys = "xs[Suc pc := xs ! pd, pd := xs ! Suc pc]"
    note s = swap_rearranged[of a "Suc pc" b pd xs]
    have "parts cmp a b pa pb pc (pd - 1) ?ys"
      using Suc.prems 3 by (auto simp: parts_def nth_list_update)
    then obtain pc' pd' cnt' ys where
      "scan_down cmp a pb pc (pd - 1) True ?ys = Some (pc', pd', cnt', ys)" "rearranged a b ?ys ys" "parts cmp a b pa pb pc' pd' ys"
      "pb \<le> pc' \<longrightarrow> cmp (ys ! pc') (ys ! a) < 0 \<and> ys ! pb = ?ys ! pb \<and> ys ! a = ?ys ! a" "pc' \<le> pc"
      using Suc.IH[of "pd - 1" ?ys True] by auto
    moreover have "?ys ! a = xs ! a" using r 3(1) by (simp add: nth_list_update)
    moreover have "?ys ! pb = xs ! pb" if "pb \<le> pc'" using r that \<open>pc' \<le> pc\<close> by (simp add: nth_list_update)
    ultimately show ?thesis
      using 3 r s by (subst scan_down.simps) (auto intro: rearranged_trans)
  next
    case 4
    have g: "cmp (xs ! i) (xs ! a) > 0" if "pc < i" "i \<le> pd" for i
      using Suc.prems 4(2) that by (cases "i = Suc pc") (auto simp: parts_def)
    have "parts cmp a b pa pb pc pd xs" using Suc.prems 4(1) g by (simp add: parts_def)
    then show ?thesis using Suc.IH[of pd xs cnt] 4 r by (subst scan_down.simps) fastforce
  qed
qed

lemma swap_parts:
  assumes "parts cmp a b pa pb pc pd xs" "pb \<le> pc" "cmp (xs ! pb) (xs ! a) > 0" "cmp (xs ! pc) (xs ! a) < 0"
  shows "parts cmp a b pa (pb + 1) (pc - 1) pd (xs[pb := xs ! pc, pc := xs ! pb])" "pb < pc"
proof -
  show "pb < pc" using assms(2-4) by (cases "pb = pc") auto
  then show "parts cmp a b pa (pb + 1) (pc - 1) pd (xs[pb := xs ! pc, pc := xs ! pb])"
    using assms by (auto simp: parts_def nth_list_update less_Suc_eq)
qed

lemma partition_correct:
  assumes c: "comparator cmp"
  shows "parts cmp a b pa pb pc pd xs \<Longrightarrow>
    \<exists>pa' pb' pd' cnt' ys. partition_loop cmp a pa pb pc pd cnt xs = Some (pa', pb', pb' - 1, pd', cnt', ys) \<and>
      rearranged a b xs ys \<and> parts cmp a b pa' pb' (pb' - 1) pd' ys"
proof (induction "pc + 1 - pb" arbitrary: pa pb pc pd cnt xs rule: less_induct)
  case less
  obtain pa1 pb1 cnt1 ys where u: "scan_up cmp a pc pa pb cnt xs = Some (pa1, pb1, cnt1, ys)" "rearranged a b xs ys"
    "parts cmp a b pa1 pb1 pc pd ys" "pb1 \<le> pc \<longrightarrow> cmp (ys ! pb1) (ys ! a) > 0" "pb \<le> pb1"
    using scan_up_correct[OF c less.prems, of cnt] by blast
  obtain pc1 pd1 cnt2 zs where d: "scan_down cmp a pb1 pc pd cnt1 ys = Some (pc1, pd1, cnt2, zs)" "rearranged a b ys zs"
    "parts cmp a b pa1 pb1 pc1 pd1 zs" "pb1 \<le> pc1 \<longrightarrow> cmp (zs ! pc1) (zs ! a) < 0 \<and> zs ! pb1 = ys ! pb1 \<and> zs ! a = ys ! a"
    "pc1 \<le> pc"
    using scan_down_correct[OF c u(3), of cnt1] by blast
  have r: "rearranged a b xs zs" using u(2) d(2) by (rule rearranged_trans)
  show ?case
  proof (cases "pb1 > pc1")
    case True
    then have "pc1 = pb1 - 1" using d(3) by (auto simp: parts_def)
    then show ?thesis using u(1) d(1,3) r True by (subst partition_loop.simps) auto
  next
    case False
    then have k: "pb1 \<le> pc1" "cmp (zs ! pb1) (zs ! a) > 0" "cmp (zs ! pc1) (zs ! a) < 0" using d(4,5) u(4) by auto
    note p = swap_parts[OF d(3) k]
    have s: "swap pb1 pc1 zs = Some (zs[pb1 := zs ! pc1, pc1 := zs ! pb1])"
      "rearranged a b zs (zs[pb1 := zs ! pc1, pc1 := zs ! pb1])"
      using d(3) k(1) by (auto intro!: swap_rearranged[of a pb1 b pc1 zs] simp: parts_def)
    have "pc1 - 1 + 1 - (pb1 + 1) < pc + 1 - pb" using p(2) d(5) u(5) by simp
    from less.hyps[OF this p(1), of True] show ?thesis
      using u(1) d(1) False s(1) by (subst partition_loop.simps) (auto intro: rearranged_trans[OF rearranged_trans[OF r s(2)]])
  qed
qed

section \<open>Moving the equal elements to the middle\<close>

lemma vecswap_correct:
  "lo \<le> i \<Longrightarrow> i + n \<le> j \<Longrightarrow> j + n \<le> hi \<Longrightarrow> hi \<le> length xs \<Longrightarrow>
    \<exists>ys. vecswap i j n xs = Some ys \<and> rearranged lo hi xs ys \<and>
      (\<forall>k < length xs. ys ! k = (if i \<le> k \<and> k < i + n then xs ! (j + (k - i))
                                 else if j \<le> k \<and> k < j + n then xs ! (i + (k - j)) else xs ! k))"
proof (induction n)
  case 0
  then show ?case by (auto simp: vecswap_def)
next
  case (Suc n)
  then obtain ys where ys: "vecswap i j n xs = Some ys" "rearranged lo hi xs ys"
    "\<forall>k < length xs. ys ! k = (if i \<le> k \<and> k < i + n then xs ! (j + (k - i))
                               else if j \<le> k \<and> k < j + n then xs ! (i + (k - j)) else xs ! k)" by auto
  have l: "length ys = length xs" using ys(2) by (rule rearranged_length)
  let ?zs = "ys[i + n := ys ! (j + n), j + n := ys ! (i + n)]"
  have s: "swap (i + n) (j + n) ys = Some ?zs" "rearranged lo hi ys ?zs"
    using swap_rearranged[of lo "i + n" hi "j + n" ys] Suc.prems l by simp_all
  have "vecswap i j (Suc n) xs = Some ?zs" using ys(1) s(1) by (simp add: vecswap_def c_each_append)
  moreover have "rearranged lo hi xs ?zs" using ys(2) s(2) by (rule rearranged_trans)
  moreover have "ys ! (i + n) = xs ! (i + n)" "ys ! (j + n) = xs ! (j + n)" using ys(3) Suc.prems by simp_all
  then have "\<forall>k < length xs. ?zs ! k = (if i \<le> k \<and> k < i + Suc n then xs ! (j + (k - i))
      else if j \<le> k \<and> k < j + Suc n then xs ! (i + (k - j)) else xs ! k)"
    using ys(3) Suc.prems l by (auto simp: nth_list_update less_Suc_eq)
  ultimately show ?case by blast
qed

definition three_parts :: "'a compare \<Rightarrow> 'a \<Rightarrow> nat \<Rightarrow> nat \<Rightarrow> nat \<Rightarrow> nat \<Rightarrow> 'a list \<Rightarrow> bool" where
  "three_parts cmp p a l r b xs \<longleftrightarrow>
     (\<forall>i. a \<le> i \<longrightarrow> i < l \<longrightarrow> cmp (xs ! i) p < 0) \<and> (\<forall>i. l \<le> i \<longrightarrow> i < r \<longrightarrow> cmp (xs ! i) p = 0) \<and>
     (\<forall>i. r \<le> i \<longrightarrow> i < b \<longrightarrow> cmp (xs ! i) p > 0)"

text \<open>After each exchange of blocks, with the smaller of the two lengths as the length of the block.\<close>

lemma exchange_low:
  assumes ys: "\<forall>k < n. ys ! k = (if a \<le> k \<and> k < a + m then xs ! (pb - m + (k - a))
                               else if pb - m \<le> k \<and> k < pb - m + m then xs ! (a + (k - (pb - m))) else xs ! k)"
    and m: "m \<le> pa - a" "m \<le> pb - pa" "m = pa - a \<or> m = pb - pa" and r: "a \<le> pa" "pa \<le> pb" "pb \<le> n"
    and eq: "\<forall>i. a \<le> i \<longrightarrow> i < pa \<longrightarrow> E (xs ! i)" and lt: "\<forall>i. pa \<le> i \<longrightarrow> i < pb \<longrightarrow> L (xs ! i)"
  shows "a \<le> i \<Longrightarrow> i < a + (pb - pa) \<Longrightarrow> L (ys ! i)" and "a + (pb - pa) \<le> i \<Longrightarrow> i < pb \<Longrightarrow> E (ys ! i)"
proof -
  show "L (ys ! i)" if "a \<le> i" "i < a + (pb - pa)"
  proof (cases "i < a + m")
    case True
    then have "ys ! i = xs ! (pb - m + (i - a))" using ys that r by simp
    moreover have "pa \<le> pb - m + (i - a)" "pb - m + (i - a) < pb" using True m r that by linarith+
    ultimately show ?thesis using lt by simp
  next
    case False
    then have "i < pb - m" "pa \<le> i" using m that r by linarith+
    then show ?thesis using ys lt False that r by simp
  qed
  show "E (ys ! i)" if "a + (pb - pa) \<le> i" "i < pb"
  proof (cases "pb - m \<le> i")
    case True
    then have "\<not> i < a + m" "i < pb - m + m" using m r that by linarith+
    then have "ys ! i = xs ! (a + (i - (pb - m)))" using ys that r True by simp
    moreover have "a + (i - (pb - m)) < pa" using True m r that by linarith
    ultimately show ?thesis using eq by simp
  next
    case False
    then have "i < pa" "\<not> i < a + m" using m that r by linarith+
    then show ?thesis using ys eq False that r by simp
  qed
qed

lemma exchange_high:
  assumes zs: "\<forall>k < n. zs ! k = (if pb \<le> k \<and> k < pb + q then ys ! (b - q + (k - pb))
                               else if b - q \<le> k \<and> k < b - q + q then ys ! (pb + (k - (b - q))) else ys ! k)"
    and q: "q \<le> g" "q \<le> b - (pb + g)" "q = g \<or> q = b - (pb + g)" and r: "pb + g \<le> b" "b \<le> n"
    and gt: "\<forall>i. pb \<le> i \<longrightarrow> i < pb + g \<longrightarrow> G (ys ! i)" and eq: "\<forall>i. pb + g \<le> i \<longrightarrow> i < b \<longrightarrow> E (ys ! i)"
  shows "i < pb \<Longrightarrow> zs ! i = ys ! i" and "pb \<le> i \<Longrightarrow> i < b - g \<Longrightarrow> E (zs ! i)" and "b - g \<le> i \<Longrightarrow> i < b \<Longrightarrow> G (zs ! i)"
proof -
  show "zs ! i = ys ! i" if "i < pb"
  proof -
    have "\<not> b - q \<le> i" using q r that by linarith
    then show ?thesis using zs r that by simp
  qed
  show "E (zs ! i)" if "pb \<le> i" "i < b - g"
  proof (cases "i < pb + q")
    case True
    then have "zs ! i = ys ! (b - q + (i - pb))" using zs that r by simp
    moreover have "pb + g \<le> b - q + (i - pb)" "b - q + (i - pb) < b" using True q r that by linarith+
    ultimately show ?thesis using eq by simp
  next
    case False
    then have "i < b - q" "pb + g \<le> i" using q that r by linarith+
    then show ?thesis using zs eq False that r by simp
  qed
  show "G (zs ! i)" if "b - g \<le> i" "i < b"
  proof (cases "b - q \<le> i")
    case True
    then have "\<not> i < pb + q" "i < b - q + q" using q r that by linarith+
    then have "zs ! i = ys ! (pb + (i - (b - q)))" using zs that r True by simp
    moreover have "pb + (i - (b - q)) < pb + g" using True q r that by linarith
    ultimately show ?thesis using gt by simp
  next
    case False
    then have "i < pb + g" "\<not> i < pb + q" "pb \<le> i" using q that r by linarith+
    then show ?thesis using zs gt False that r by simp
  qed
qed

lemma move_equal:
  assumes "parts cmp a b pa pb (pb - 1) pd xs"
  shows "\<exists>ys zs. vecswap a (pb - min (pa - a) (pb - pa)) (min (pa - a) (pb - pa)) xs = Some ys \<and>
    vecswap pb (b - min (pd - (pb - 1)) (b - pd - 1)) (min (pd - (pb - 1)) (b - pd - 1)) ys = Some zs \<and>
    rearranged a b xs zs \<and> three_parts cmp (xs ! a) a (a + (pb - pa)) (b - (pd - (pb - 1))) b zs"
proof -
  have r: "a < pa" "pa \<le> pb" "pb \<le> pd + 1" "pd < b" "b \<le> length xs" using assms by (auto simp: parts_def)
  define m where "m = min (pa - a) (pb - pa)"
  have m: "m \<le> pa - a" "m \<le> pb - pa" "m = pa - a \<or> m = pb - pa" by (auto simp: m_def)
  have f: "a + m \<le> pb - m" "pb - m + m \<le> pb" "pb \<le> length xs" using r m by linarith+
  obtain ys where ys: "vecswap a (pb - m) m xs = Some ys" "rearranged a pb xs ys"
    "\<forall>k < length xs. ys ! k = (if a \<le> k \<and> k < a + m then xs ! (pb - m + (k - a))
                               else if pb - m \<le> k \<and> k < pb - m + m then xs ! (a + (k - (pb - m))) else xs ! k)"
    using vecswap_correct[OF le_refl f] by blast
  define g where "g = pd - (pb - 1)"
  define q where "q = min g (b - pd - 1)"
  have g: "pb + g = pd + 1" using r by (simp add: g_def)
  have q: "q \<le> g" "q \<le> b - (pb + g)" "q = g \<or> q = b - (pb + g)" unfolding g by (auto simp: q_def)
  have l: "length ys = length xs" using ys(2) by (rule rearranged_length)
  have f: "pb + q \<le> b - q" "b - q + q \<le> b" "b \<le> length ys" using r q g l by linarith+
  obtain zs where zs: "vecswap pb (b - q) q ys = Some zs" "rearranged pb b ys zs"
    "\<forall>k < length ys. zs ! k = (if pb \<le> k \<and> k < pb + q then ys ! (b - q + (k - pb))
                               else if b - q \<le> k \<and> k < b - q + q then ys ! (pb + (k - (b - q))) else ys ! k)"
    using vecswap_correct[OF le_refl f] by blast
  have same: "ys ! i = xs ! i" if "pb \<le> i" "i < b" for i using rearranged_outside[OF ys(2)] that r by simp
  have p: "\<forall>i. a \<le> i \<longrightarrow> i < pa \<longrightarrow> cmp (xs ! i) (xs ! a) = 0" "\<forall>i. pa \<le> i \<longrightarrow> i < pb \<longrightarrow> cmp (xs ! i) (xs ! a) < 0"
    using assms by (simp_all add: parts_def)
  have p': "\<forall>i. pb \<le> i \<longrightarrow> i < pb + g \<longrightarrow> cmp (ys ! i) (xs ! a) > 0" "\<forall>i. pb + g \<le> i \<longrightarrow> i < b \<longrightarrow> cmp (ys ! i) (xs ! a) = 0"
    unfolding g using assms same r by (auto simp: parts_def)
  have "a \<le> pa" "pb \<le> length xs" "pb + g \<le> b" "b \<le> length ys" using r g l by simp_all
  note lo = exchange_low[OF ys(3) m this(1) r(2) this(2) p] and hi = exchange_high[OF zs(3) q this(3,4) p']
  have "three_parts cmp (xs ! a) a (a + (pb - pa)) (b - g) b zs"
    unfolding three_parts_def
  proof (intro conjI allI impI)
    fix i
    show "cmp (zs ! i) (xs ! a) < 0" if "a \<le> i" "i < a + (pb - pa)" using lo(1)[OF that] hi(1)[of i] that r by simp
    show "cmp (zs ! i) (xs ! a) = 0" if "a + (pb - pa) \<le> i" "i < b - g"
      using lo(2)[OF that(1)] hi(1)[of i] hi(2)[OF _ that(2)] by (cases "i < pb") simp_all
    show "cmp (zs ! i) (xs ! a) > 0" if "b - g \<le> i" "i < b" using that by (rule hi(3))
  qed
  moreover have "rearranged a b xs zs"
    using rearranged_mono[OF ys(2), of a b] rearranged_mono[OF zs(2), of a b] r by (auto intro: rearranged_trans)
  ultimately show ?thesis using ys(1) zs(1) unfolding m_def q_def g_def by blast
qed

section \<open>qsort\<close>

lemma ordered_three_parts:
  assumes c: "comparator cmp" and t: "three_parts cmp p a l r b xs" and o: "ordered cmp a l xs" "ordered cmp r b xs"
  shows "ordered cmp a b xs"
  unfolding ordered_def
proof (intro allI impI)
  fix i j assume ij: "a \<le> i" "i < j" "j < b"
  have low: "cmp (xs ! k) p \<le> 0" if "a \<le> k" "k < r" for k
    using t that by (cases "k < l") (simp_all add: three_parts_def less_imp_le)
  have high: "cmp p (xs ! k) \<le> 0" if "l \<le> k" "k < b" for k
    using t that by (intro comparator_flip[OF c], cases "k < r") (simp_all add: three_parts_def less_imp_le)
  show "cmp (xs ! i) (xs ! j) \<le> 0"
  proof (cases "j < l \<or> r \<le> i")
    case True
    then show ?thesis using o ij by (auto simp: ordered_def)
  next
    case False
    then show ?thesis using comparator_trans[OF c low high, of i j] ij by simp
  qed
qed


text \<open>Sorting the first or the last part leaves the parts what they are.\<close>

lemma three_parts_low:
  assumes "three_parts cmp p a l r b xs" "rearranged a l xs ys" "a \<le> l" "l \<le> r" "r \<le> b" "b \<le> length xs"
  shows "three_parts cmp p a l r b ys"
  unfolding three_parts_def
proof (intro conjI allI impI)
  fix i
  have same: "ys ! i = xs ! i" if "l \<le> i" "i < b" using rearranged_outside[OF assms(2)] that assms(6) by simp
  show "cmp (ys ! i) p < 0" if "a \<le> i" "i < l"
    using rearranged_all[OF assms(2,3), of "\<lambda>x. cmp x p < 0"] assms that by (simp add: three_parts_def)
  show "cmp (ys ! i) p = 0" if "l \<le> i" "i < r" using same assms(1,5) that by (simp add: three_parts_def)
  show "cmp (ys ! i) p > 0" if "r \<le> i" "i < b" using same assms(1,4) that by (simp add: three_parts_def)
qed

lemma three_parts_high:
  assumes "three_parts cmp p a l r b xs" "rearranged r b xs ys" "a \<le> l" "l \<le> r" "r \<le> b" "b \<le> length xs"
  shows "three_parts cmp p a l r b ys"
  unfolding three_parts_def
proof (intro conjI allI impI)
  fix i
  have same: "ys ! i = xs ! i" if "i < r" using rearranged_outside[OF assms(2)] that assms(5,6) by simp
  show "cmp (ys ! i) p < 0" if "a \<le> i" "i < l" using same assms(1,4) that by (simp add: three_parts_def)
  show "cmp (ys ! i) p = 0" if "l \<le> i" "i < r" using same assms(1) that by (simp add: three_parts_def)
  show "cmp (ys ! i) p > 0" if "r \<le> i" "i < b"
    using rearranged_all[OF assms(2,5,6), of "\<lambda>x. cmp x p > 0"] assms(1) that by (simp add: three_parts_def)
qed

lemma ordered_outside: "ordered cmp a l xs \<Longrightarrow> rearranged r b xs ys \<Longrightarrow> l \<le> r \<Longrightarrow> r \<le> length xs \<Longrightarrow> ordered cmp a l ys"
  unfolding ordered_def using rearranged_outside[of r b xs ys] by (metis (no_types, lifting) less_le_trans less_trans)

lemma sort_parts:
  assumes c: "comparator cmp" and t: "three_parts cmp p a l r b xs" and r: "a \<le> l" "l \<le> r" "r \<le> b" "b \<le> length xs"
    and f: "sorts cmp a (l - a) xs (if l - a > 1 then f xs else Some xs)"
    and g: "\<And>ys. length ys = length xs \<Longrightarrow> sorts cmp r (b - r) ys (if b - r > 1 then g ys else Some ys)"
  shows "sorts cmp a (b - a) xs
    (Option.bind (if l - a > 1 then f xs else Some xs) (\<lambda>xs. if b - r > 1 then g xs else Some xs))"
proof -
  obtain ys where ys: "(if l - a > 1 then f xs else Some xs) = Some ys" "rearranged a l xs ys" "ordered cmp a l ys"
    using f r by (auto simp: sorts_def)
  have ly: "length ys = length xs" using ys(2) by (rule rearranged_length)
  obtain zs where zs: "(if b - r > 1 then g ys else Some ys) = Some zs" "rearranged r b ys zs" "ordered cmp r b zs"
    using g[OF ly] r by (auto simp: sorts_def)
  have "three_parts cmp p a l r b zs"
    using three_parts_high[OF three_parts_low[OF t ys(2)] zs(2)] r ly by simp
  moreover have "ordered cmp a l zs" using ordered_outside[OF ys(3) zs(2)] r ly by simp
  ultimately have "ordered cmp a b zs" using zs(3) by (rule ordered_three_parts[OF c])
  moreover have "rearranged a b xs zs"
    using rearranged_mono[OF ys(2), of a b] rearranged_mono[OF zs(2), of a b] r by (auto intro: rearranged_trans)
  ultimately show ?thesis using ys(1) zs(1) r by (simp add: sorts_def)
qed

lemma sorts_trans: "rearranged a (a + n) xs ys \<Longrightarrow> sorts cmp a n ys r \<Longrightarrow> sorts cmp a n xs r"
  by (auto simp: sorts_def intro: rearranged_trans)

lemma sorts_small: "n \<le> 1 \<Longrightarrow> sorts cmp a n xs (Some xs)"
  by (auto simp: sorts_def ordered_def)

lemma qsort_sorts:
  assumes c: "comparator cmp"
  shows "a + n \<le> length xs \<Longrightarrow> sorts cmp a n xs (qsort cmp a n xs)"
proof (induction n arbitrary: a xs rule: less_induct)
  case (less n)
  show ?case
  proof (cases "n < 7")
    case True
    then show ?thesis using insertion_sort_correct[OF c less.prems] by (subst qsort.simps) simp
  next
    case False
    obtain pm where pm: "choose_pivot cmp a n xs = Some pm" "a \<le> pm" "pm < a + n"
      using choose_pivot_range[of n a xs cmp] False less.prems by auto
    let ?xs = "xs[a := xs ! pm, pm := xs ! a]"
    have s: "swap a pm xs = Some ?xs" "rearranged a (a + n) xs ?xs"
      using swap_rearranged[of a a "a + n" pm xs] pm less.prems False by auto
    have "parts cmp a (a + n) (a + 1) (a + 1) (a + (n - 1)) (a + (n - 1)) ?xs"
      using less.prems False comparator_refl[OF c] by (auto simp: parts_def le_less_Suc_eq)
    then obtain pa pb pd cnt ys where p0:
      "partition_loop cmp a (a + 1) (a + 1) (a + (n - 1)) (a + (n - 1)) False ?xs = Some (pa, pb, pb - 1, pd, cnt, ys)"
      "rearranged a (a + n) ?xs ys" "parts cmp a (a + n) pa pb (pb - 1) pd ys"
      using partition_correct[OF c] by blast
    define pc where pc: "pc = pb - 1"
    note p = p0[folded pc]
    have xy: "rearranged a (a + n) xs ys" using s(2) p(2) by (rule rearranged_trans)
    have ly: "a + n \<le> length ys" using less.prems rearranged_length[OF xy] by simp
    show ?thesis
    proof (cases cnt)
      case False
      then have "qsort cmp a n xs = insertion_sort cmp a n ys"
        using \<open>\<not> n < 7\<close> pm(1) s(1) p(1) by (subst qsort.simps) simp
      then show ?thesis using sorts_trans[OF xy insertion_sort_correct[OF c ly]] by simp
    next
      case True
      obtain us zs where z: "vecswap a (pb - min (pa - a) (pb - pa)) (min (pa - a) (pb - pa)) ys = Some us"
        "vecswap pb (a + n - min (pd - pc) (a + n - pd - 1)) (min (pd - pc) (a + n - pd - 1)) us = Some zs"
        "rearranged a (a + n) ys zs" "three_parts cmp (ys ! a) a (a + (pb - pa)) (a + n - (pd - pc)) (a + n) zs"
        using move_equal[OF p0(3)] unfolding pc by blast
      let ?f = "\<lambda>zs. qsort cmp a (pb - pa) zs" and ?g = "\<lambda>zs. qsort cmp (a + n - (pd - pc)) (pd - pc) zs"
      have q: "qsort cmp a n xs = Option.bind (if pb - pa > 1 then ?f zs else Some zs)
        (\<lambda>xs. if pd - pc > 1 then ?g xs else Some xs)"
        using \<open>\<not> n < 7\<close> pm(1) s(1) p(1) True z(1,2) by (subst qsort.simps) (simp add: Let_def)
      have r: "a < pa" "pa \<le> pb" "pb \<le> pd + 1" "pd < a + n" using p0(3) by (auto simp: parts_def)
      have e: "a + (pb - pa) - a = pb - pa" "a + n - (a + n - (pd - pc)) = pd - pc" "a + n - a = n" using r by (simp_all add: pc)
      have lz: "a + n \<le> length zs" using ly rearranged_length[OF z(3)] by simp
      have "sorts cmp a n zs (qsort cmp a n xs)"
        unfolding q
      proof (rule sort_parts[OF c z(4), unfolded e])
        show "sorts cmp a (pb - pa) zs (if pb - pa > 1 then ?f zs else Some zs)"
          using less.IH[of "pb - pa" a zs] r lz by (auto simp: pc not_less intro!: sorts_small)
        show "sorts cmp (a + n - (pd - pc)) (pd - pc) us (if pd - pc > 1 then ?g us else Some us)"
          if "length us = length zs" for us
          using less.IH[of "pd - pc" "a + n - (pd - pc)" us] r lz that by (auto simp: pc not_less intro!: sorts_small)
      qed (use r lz in \<open>auto simp: pc\<close>)
      then show ?thesis by (rule sorts_trans[OF rearranged_trans[OF xy z(3)]])
    qed
  qed
qed

text \<open>C23: With a comparison that is a total preorder, \<open>qsort\<close> ends without an access outside the array, leaves the rest of
  the array alone, and puts the elements of its part in order, none lost and none added.
\<close>

theorem qsort_correct:
  assumes "comparator cmp" "a + n \<le> length xs"
  shows "\<exists>ys. qsort cmp a n xs = Some ys \<and> length ys = length xs \<and> mset (take n (drop a ys)) = mset (take n (drop a xs)) \<and>
    sorted_wrt (\<lambda>x y. cmp x y \<le> 0) (take n (drop a ys)) \<and> take a ys = take a xs \<and> drop (a + n) ys = drop (a + n) xs"
proof -
  obtain ys where ys: "qsort cmp a n xs = Some ys" "rearranged a (a + n) xs ys" "ordered cmp a (a + n) ys"
    using qsort_sorts[OF assms] by (auto simp: sorts_def)
  have "mset (take n (drop a ys)) = mset (take n (drop a xs))" using mset_segment[OF ys(2)] assms(2) by simp
  moreover have "sorted_wrt (\<lambda>x y. cmp x y \<le> 0) (take n (drop a ys))"
    using ys(3) assms(2) rearranged_length[OF ys(2)] by (auto simp: sorted_wrt_iff_nth_less ordered_def)
  moreover have "take a ys = take a xs" "drop (a + n) ys = drop (a + n) xs"
    using ys(2) assms(2) by (auto intro!: nth_equalityI simp: rearranged_def)
  ultimately show ?thesis using ys(1) rearranged_length[OF ys(2)] by blast
qed

theorem qsort_correct_witness:
  "\<exists>ys. qsort (-) 1 3 [9, 5, 7, 6, 1 :: int] = Some ys \<and> sorted_wrt (\<lambda>x y. x - y \<le> 0) (take 3 (drop 1 ys)) \<and> take 1 ys = [9]"
  using qsort_correct[of "(-) :: int \<Rightarrow> int \<Rightarrow> int" 1 3 "[9, 5, 7, 6, 1]"] by (auto simp: comparator_def)

end
