(* ===== verification/C_Strings.thy ===== *)
theory C_Strings
  imports Usercopy
begin

text \<open>
  The string functions of the C library, \<^verbatim>\<open>410kern/string\<close>, on a map of bytes.  A walk that finds no terminator does not
  return; results of type \<open>char *\<close> are addresses, with 0 for NULL.
\<close>

section \<open>Comparing\<close>

text \<open>\<open>memcmp\<close> reads signed characters into unsigned words; a size that is not positive is 0.\<close>

fun memcmp :: "bytes \<Rightarrow> addr \<Rightarrow> addr \<Rightarrow> nat \<Rightarrow> int" where
  "memcmp m s1 s2 0 = 0"
| "memcmp m s1 s2 (Suc k) =
     (let a = scast (m s1) :: u32; b = scast (m s2)
      in if a \<noteq> b then sint (a - b) else memcmp m (s1 + 1) (s2 + 1) k)"

section \<open>Searching\<close>

text \<open>The argument \<open>c\<close> is an \<open>int\<close>, and the characters are signed.\<close>

partial_function (option) strchr :: "bytes \<Rightarrow> addr \<Rightarrow> int \<Rightarrow> addr option" where
  "strchr m s c = (if sint (m s) = c then Some s else if m s = 0 then Some 0 else strchr m (s + 1) c)"

partial_function (option) rindex_loop :: "bytes \<Rightarrow> addr \<Rightarrow> int \<Rightarrow> addr \<Rightarrow> addr option" where
  "rindex_loop m s c it =
     (let it = (if sint (m s) = c then s else it) in if m s = 0 then Some it else rindex_loop m (s + 1) c it)"

definition rindex :: "bytes \<Rightarrow> addr \<Rightarrow> int \<Rightarrow> addr option" where
  "rindex m s c = rindex_loop m s c 0"

text \<open>Unlike \<open>rindex\<close>, \<open>strrchr\<close> does not find the terminator.\<close>

partial_function (option) strrchr_loop :: "bytes \<Rightarrow> addr \<Rightarrow> int \<Rightarrow> addr \<Rightarrow> addr option" where
  "strrchr_loop m s c save =
     (if m s \<noteq> 0 then strrchr_loop m (s + 1) c (if sint (m s) = c then s else save) else Some save)"

definition strrchr :: "bytes \<Rightarrow> addr \<Rightarrow> int \<Rightarrow> addr option" where
  "strrchr m s c = strrchr_loop m s c 0"

text \<open>The two loops over a set of characters: with its terminator, and without.\<close>

partial_function (option) in_set_nul :: "bytes \<Rightarrow> addr \<Rightarrow> u8 \<Rightarrow> bool option" where
  "in_set_nul m spanp c = (if m spanp = c then Some True else if m spanp \<noteq> 0 then in_set_nul m (spanp + 1) c else Some False)"

partial_function (option) in_set :: "bytes \<Rightarrow> addr \<Rightarrow> u8 \<Rightarrow> bool option" where
  "in_set m spanp c = (if m spanp \<noteq> 0 then if m spanp = c then Some True else in_set m (spanp + 1) c else Some False)"

partial_function (option) strcspn_loop :: "bytes \<Rightarrow> addr \<Rightarrow> addr \<Rightarrow> addr \<Rightarrow> u32 option" where
  "strcspn_loop m s1 s2 p =
     Option.bind (in_set_nul m s2 (m p)) (\<lambda>hit. if hit then Some (p - s1) else strcspn_loop m s1 s2 (p + 1))"

definition strcspn :: "bytes \<Rightarrow> addr \<Rightarrow> addr \<Rightarrow> u32 option" where
  "strcspn m s1 s2 = strcspn_loop m s1 s2 s1"

partial_function (option) strspn_loop :: "bytes \<Rightarrow> addr \<Rightarrow> addr \<Rightarrow> addr \<Rightarrow> u32 option" where
  "strspn_loop m s1 s2 p =
     Option.bind (in_set m s2 (m p)) (\<lambda>hit. if hit then strspn_loop m s1 s2 (p + 1) else Some (p - s1))"

definition strspn :: "bytes \<Rightarrow> addr \<Rightarrow> addr \<Rightarrow> u32 option" where
  "strspn m s1 s2 = strspn_loop m s1 s2 s1"

partial_function (option) strpbrk :: "bytes \<Rightarrow> addr \<Rightarrow> addr \<Rightarrow> addr option" where
  "strpbrk m s1 s2 =
     (if m s1 = 0 then Some 0
      else Option.bind (in_set m s2 (m s1)) (\<lambda>hit. if hit then Some s1 else strpbrk m (s1 + 1) s2))"

text \<open>The lengths are signed.\<close>

partial_function (option) strstr_loop :: "bytes \<Rightarrow> addr \<Rightarrow> addr \<Rightarrow> int \<Rightarrow> int \<Rightarrow> addr option" where
  "strstr_loop m haystack needle hlen nlen =
     (if hlen \<ge> nlen then
        if memcmp m haystack needle (nat nlen) = 0 then Some haystack
        else strstr_loop m (haystack + 1) needle (hlen - 1) nlen
      else Some 0)"

definition strstr :: "bytes \<Rightarrow> addr \<Rightarrow> addr \<Rightarrow> addr option" where
  "strstr m haystack needle =
     do { hlen \<leftarrow> strlen_m m haystack;
          nlen \<leftarrow> strlen_m m needle;
          strstr_loop m haystack needle (sint hlen) (sint nlen) }"

section \<open>Copying\<close>

partial_function (option) string_end :: "bytes \<Rightarrow> addr \<Rightarrow> addr option" where
  "string_end m s = (if m s \<noteq> 0 then string_end m (s + 1) else Some s)"

definition strcat :: "addr \<Rightarrow> addr \<Rightarrow> bytes \<Rightarrow> bytes option" where
  "strcat s add m = do { d \<leftarrow> string_end m s; strcpy_m d add m }"

fun strncat_loop :: "addr \<Rightarrow> addr \<Rightarrow> nat \<Rightarrow> bytes \<Rightarrow> addr \<times> bytes" where
  "strncat_loop d s 0 m = (d, m)"
| "strncat_loop d s (Suc n) m =
     (let m = m(d := m s) in if m d = 0 then (d, m) else strncat_loop (d + 1) (s + 1) n m)"

definition strncat :: "addr \<Rightarrow> addr \<Rightarrow> u32 \<Rightarrow> bytes \<Rightarrow> bytes option" where
  "strncat dst src n m =
     (if n \<noteq> 0 then
        do { d \<leftarrow> string_end m dst;
             let (d, m) = strncat_loop d src (unat n) m;
             Some (m(d := 0)) }
      else Some m)"

text \<open>\<open>strncpy\<close>: what the first loop leaves is filled with zeros by the second.\<close>

fun strncpy_copy :: "addr \<Rightarrow> addr \<Rightarrow> nat \<Rightarrow> bytes \<Rightarrow> addr \<times> nat \<times> bytes" where
  "strncpy_copy to src 0 m = (to, 0, m)"
| "strncpy_copy to src (Suc count) m =
     (let c = m src; m = m(to := c) in if c \<noteq> 0 then strncpy_copy (to + 1) (src + 1) count m else (to + 1, count, m))"

fun strncpy_fill :: "addr \<Rightarrow> nat \<Rightarrow> bytes \<Rightarrow> bytes" where
  "strncpy_fill to 0 m = m"
| "strncpy_fill to (Suc count) m = strncpy_fill (to + 1) count (m(to := 0))"

definition strncpy :: "addr \<Rightarrow> addr \<Rightarrow> int \<Rightarrow> bytes \<Rightarrow> bytes" where
  "strncpy to src count m = (let (to, count, m) = strncpy_copy to src (nat count) m in strncpy_fill to count m)"

section \<open>Tokens\<close>

text \<open>The beginning of a token, behind the delimiters; the end of a token, which may be the terminator.\<close>

partial_function (option) skip_delim :: "bytes \<Rightarrow> addr \<Rightarrow> addr \<Rightarrow> addr option" where
  "skip_delim m delim s = Option.bind (in_set m delim (m s)) (\<lambda>hit. if hit then skip_delim m delim (s + 1) else Some s)"

partial_function (option) token_end :: "bytes \<Rightarrow> addr \<Rightarrow> addr \<Rightarrow> addr option" where
  "token_end m delim s = Option.bind (in_set_nul m delim (m s)) (\<lambda>hit. if hit then Some s else token_end m delim (s + 1))"

text \<open>The static variable \<open>last\<close> is an argument and a result: the token, \<open>last\<close> and the memory.\<close>

definition strtok :: "addr \<Rightarrow> addr \<Rightarrow> addr \<Rightarrow> bytes \<Rightarrow> (addr \<times> addr \<times> bytes) option" where
  "strtok s delim last_s m =
     (let s = (if s = 0 then last_s else s)
      in if s = 0 then Some (0, last_s, m)
         else do {
           tok \<leftarrow> skip_delim m delim s;
           if m tok = 0 then Some (0, 0, m)
           else do {
             e \<leftarrow> token_end m delim (tok + 1);
             if m e = 0 then Some (tok, 0, m) else Some (tok, e + 1, m(e := 0)) } })"

section \<open>Strings as lists\<close>

lemma string_at_nil [simp]: "string_at m a [] \<longleftrightarrow> m a = 0"
  by (simp add: string_at_def)

lemma string_at_cons [simp]: "string_at m a (c # cs) \<longleftrightarrow> m a = c \<and> c \<noteq> 0 \<and> string_at m (a + 1) cs"
  by (auto simp: string_at_def less_Suc_eq_0_disj algebra_simps)

lemma string_at_append:
  "string_at m a (xs @ ys) \<Longrightarrow> string_at m (a + of_nat (length xs)) ys"
  by (induction xs arbitrary: a) (auto simp flip: add.assoc)

lemma strlen_string: "string_at m a cs \<Longrightarrow> strlen_m m a = Some (of_nat (length cs))"
  by (induction cs arbitrary: a; subst strlen_m.simps) (simp_all add: add.commute)

lemma string_end_string: "string_at m a cs \<Longrightarrow> string_end m a = Some (a + of_nat (length cs))"
  by (induction cs arbitrary: a; subst string_end.simps) (simp_all add: algebra_simps)

lemma in_set_string: "string_at m p ds \<Longrightarrow> in_set m p c = Some (c \<in> set ds)"
  by (induction ds arbitrary: p; subst in_set.simps) auto

lemma in_set_nul_string: "string_at m p ds \<Longrightarrow> in_set_nul m p c = Some (c = 0 \<or> c \<in> set ds)"
  by (induction ds arbitrary: p; subst in_set_nul.simps) auto

text \<open>The lengths of the first part of a string inside and outside of a set.\<close>

lemma strspn_string:
  assumes d: "string_at m s2 ds" "0 \<notin> set ds"
  shows "string_at m p cs \<Longrightarrow> strspn_loop m s1 s2 p = Some (p + of_nat (length (takeWhile (\<lambda>c. c \<in> set ds) cs)) - s1)"
  by (induction cs arbitrary: p; subst strspn_loop.simps) (use d in \<open>auto simp: in_set_string algebra_simps\<close>)

lemma strcspn_string:
  assumes d: "string_at m s2 ds"
  shows "string_at m p cs \<Longrightarrow> strcspn_loop m s1 s2 p = Some (p + of_nat (length (takeWhile (\<lambda>c. c \<notin> set ds) cs)) - s1)"
  by (induction cs arbitrary: p; subst strcspn_loop.simps) (use d in \<open>auto simp: in_set_nul_string algebra_simps\<close>)

section \<open>Finding a string\<close>

lemma scast_char_eq: "(scast (x :: u8) :: u32) = scast y \<longleftrightarrow> x = y"
proof
  assume "(scast x :: u32) = scast y"
  then have "sint (scast x :: u32) = sint (scast y :: u32)" by simp
  moreover have "sint (scast z :: u32) = sint z" for z :: u8
    using sint_greater_eq[of z] sint_less[of z] by (simp add: signed_scast_eq signed_take_bit_int_eq_self)
  ultimately show "x = y" by (auto intro: signed_word_eqI)
qed simp

lemma memcmp_string:
  "string_at m a xs \<Longrightarrow> string_at m b ys \<Longrightarrow> length ys \<le> length xs \<Longrightarrow>
    memcmp m a b (length ys) = 0 \<longleftrightarrow> take (length ys) xs = ys"
proof (induction ys arbitrary: a b xs)
  case (Cons y ys)
  then obtain x zs where "xs = x # zs" by (cases xs) auto
  then show ?case using Cons by (simp add: scast_char_eq Let_def signed_eq_0_iff)
qed simp

definition occurs :: "u8 list \<Rightarrow> u8 list \<Rightarrow> nat \<Rightarrow> bool" where
  "occurs ns hs i \<longleftrightarrow> i + length ns \<le> length hs \<and> take (length ns) (drop i hs) = ns"

lemma occurs_Suc [simp]: "occurs ns (h # hs) (Suc i) \<longleftrightarrow> occurs ns hs i"
  by (simp add: occurs_def)

lemma strstr_loop_string:
  assumes n: "string_at m b ns"
  shows "string_at m a hs \<Longrightarrow>
    (\<exists>i. occurs ns hs i \<and> (\<forall>j<i. \<not> occurs ns hs j) \<and>
       strstr_loop m a b (int (length hs)) (int (length ns)) = Some (a + of_nat i)) \<or>
    ((\<forall>i. \<not> occurs ns hs i) \<and> strstr_loop m a b (int (length hs)) (int (length ns)) = Some 0)"
proof (induction hs arbitrary: a)
  case Nil
  show ?case
  proof (cases ns)
    case Nil
    then show ?thesis by (intro disjI1 exI[of _ 0]) (simp add: occurs_def strstr_loop.simps)
  next
    case (Cons c cs)
    then show ?thesis by (auto simp: occurs_def strstr_loop.simps)
  qed
next
  case (Cons h hs)
  consider "length (h # hs) < length ns" | "length ns \<le> length (h # hs)" "occurs ns (h # hs) 0"
    | "length ns \<le> length (h # hs)" "\<not> occurs ns (h # hs) 0" by fastforce
  then show ?case
  proof cases
    case 1
    then show ?thesis by (auto simp: occurs_def strstr_loop.simps)
  next
    case 2
    then have "memcmp m a b (length ns) = 0" using memcmp_string[OF Cons.prems n] by (simp add: occurs_def)
    then show ?thesis using 2 by (intro disjI1 exI[of _ 0]) (simp add: strstr_loop.simps)
  next
    case 3
    then have "memcmp m a b (length ns) \<noteq> 0" using memcmp_string[OF Cons.prems n] by (simp add: occurs_def)
    then have step: "strstr_loop m a b (int (length (h # hs))) (int (length ns)) =
        strstr_loop m (a + 1) b (int (length hs)) (int (length ns))"
      using 3(1) by (subst strstr_loop.simps) simp
    have none: "(\<forall>i. \<not> occurs ns (h # hs) i) \<longleftrightarrow> (\<forall>i. \<not> occurs ns hs i)" using 3(2) by (metis occurs_Suc not0_implies_Suc)
    have first: "(\<forall>j<Suc i. \<not> occurs ns (h # hs) j) \<longleftrightarrow> (\<forall>j<i. \<not> occurs ns hs j)" for i
      using 3(2) by (auto simp: less_Suc_eq_0_disj)
    have "string_at m (a + 1) hs" using Cons.prems by simp
    from Cons.IH[OF this] show ?thesis
    proof
      assume "\<exists>i. occurs ns hs i \<and> (\<forall>j<i. \<not> occurs ns hs j) \<and>
        strstr_loop m (a + 1) b (int (length hs)) (int (length ns)) = Some (a + 1 + of_nat i)"
      then obtain i where "occurs ns hs i" "\<forall>j<i. \<not> occurs ns hs j"
        "strstr_loop m (a + 1) b (int (length hs)) (int (length ns)) = Some (a + 1 + of_nat i)" by blast
      then show ?thesis unfolding step using first[of i] by (intro disjI1 exI[of _ "Suc i"]) (simp add: add.assoc)
    qed (simp only: step none simp_thms)
  qed
qed

text \<open>\<open>strstr\<close> returns the address of the first place at which the one string occurs in the other, and NULL when it
  occurs nowhere.
\<close>

theorem strstr_correct:
  assumes "string_at m a hs" "string_at m b ns" "length hs < 2 ^ 31" "length ns < 2 ^ 31"
  shows "(\<exists>i. occurs ns hs i \<and> (\<forall>j<i. \<not> occurs ns hs j) \<and> strstr m a b = Some (a + of_nat i)) \<or>
    ((\<forall>i. \<not> occurs ns hs i) \<and> strstr m a b = Some 0)"
proof -
  have s: "sint (of_nat k :: u32) = int k" if "k < 2 ^ 31" for k
    using that by (simp add: signed_of_nat signed_take_bit_int_eq_self)
  show ?thesis
    using strstr_loop_string[OF assms(2,1)] assms by (simp add: strstr_def strlen_string s)
qed

lemma strstr_correct_witness:
  "let m = (\<lambda>_. 0)(0x1000 := 97, 0x1001 := 98, 0x1002 := 97, 0x1003 := 99, 0x1005 := 97, 0x1006 := 99)
   in (\<exists>i. occurs [97, 99] [97, 98, 97, 99] i \<and> (\<forall>j<i. \<not> occurs [97, 99] [97, 98, 97, 99] j) \<and>
        strstr m 0x1000 0x1005 = Some (0x1000 + of_nat i)) \<or>
      ((\<forall>i. \<not> occurs [97, 99] [97, 98, 97, 99] i) \<and> strstr m 0x1000 0x1005 = Some 0)"
  unfolding Let_def by (rule strstr_correct) simp_all

section \<open>Taking a string apart\<close>

text \<open>The tokens of a string, and the calls that collect them: the first with the string, the others with NULL.\<close>

function tokens :: "u8 set \<Rightarrow> u8 list \<Rightarrow> u8 list list" where
  "tokens D cs =
     (let cs = dropWhile (\<lambda>c. c \<in> D) cs
      in if cs = [] then []
         else takeWhile (\<lambda>c. c \<notin> D) cs # tokens D (tl (dropWhile (\<lambda>c. c \<notin> D) cs)))"
  by auto
termination
proof (relation "measure (\<lambda>(D, cs). length cs)", goal_cases)
  case (2 D cs xs)
  have "length xs \<le> length cs" using 2(1) by (simp add: length_dropWhile_le)
  moreover have "length (tl (dropWhile (\<lambda>c. c \<notin> D) xs)) < length xs"
    using 2(2) length_dropWhile_le[of "\<lambda>c. c \<notin> D" xs] by (cases xs) (auto simp: less_le_trans)
  ultimately show ?case by simp
qed simp

declare tokens.simps [simp del]

partial_function (option) strtok_calls :: "addr \<Rightarrow> addr \<Rightarrow> addr \<Rightarrow> bytes \<Rightarrow> (addr list \<times> bytes) option" where
  "strtok_calls delim s last_s m =
     Option.bind (strtok s delim last_s m) (\<lambda>(t, last_s, m).
       if t = 0 then Some ([], m)
       else Option.bind (strtok_calls delim 0 last_s m) (\<lambda>(ts, m). Some (t # ts, m)))"

lemma skip_delim_string:
  assumes d: "string_at m delim ds" "0 \<notin> set ds"
  shows "string_at m p cs \<Longrightarrow> skip_delim m delim p = Some (p + of_nat (length (takeWhile (\<lambda>c. c \<in> set ds) cs)))"
  by (induction cs arbitrary: p; subst skip_delim.simps) (use d in \<open>auto simp: in_set_string algebra_simps\<close>)

lemma token_end_string:
  assumes d: "string_at m delim ds"
  shows "string_at m p cs \<Longrightarrow> token_end m delim p = Some (p + of_nat (length (takeWhile (\<lambda>c. c \<notin> set ds) cs)))"
  by (induction cs arbitrary: p; subst token_end.simps) (use d in \<open>auto simp: in_set_nul_string algebra_simps\<close>)

lemma string_at_nonzero: "string_at m a cs \<Longrightarrow> 0 \<notin> set cs"
  by (induction cs arbitrary: a) auto

lemma string_at_frame: "string_at m a cs \<Longrightarrow> (\<And>i. i \<le> length cs \<Longrightarrow> m' (a + of_nat i) = m (a + of_nat i)) \<Longrightarrow> string_at m' a cs"
  by (simp add: string_at_def)

text \<open>One call.\<close>

lemma strtok_none:
  assumes "string_at m delim ds" "string_at m p cs" "dropWhile (\<lambda>c. c \<in> set ds) cs = []" "s = p \<or> s = 0 \<and> last_s = p" "p \<noteq> 0"
  shows "strtok s delim last_s m = Some (0, 0, m)"
proof -
  have t: "takeWhile (\<lambda>c. c \<in> set ds) cs = cs" using assms(3) by (metis takeWhile_dropWhile_id append_Nil2)
  have "skip_delim m delim p = Some (p + of_nat (length cs))"
    using skip_delim_string[OF assms(1) string_at_nonzero[OF assms(1)] assms(2)] unfolding t .
  moreover have "m (p + of_nat (length cs)) = 0" using assms(2) by (simp add: string_at_def)
  ultimately show ?thesis using assms(4,5) by (auto simp: strtok_def Let_def)
qed

lemma strtok_token:
  assumes d: "string_at m delim ds" and c: "string_at m p (pre @ tok @ rest)" and p: "s = p \<or> s = 0 \<and> last_s = p" "p \<noteq> 0"
    and pre: "set pre \<subseteq> set ds" and tok: "tok \<noteq> []" "set tok \<inter> set ds = {}" and rest: "rest \<noteq> [] \<Longrightarrow> hd rest \<in> set ds"
  defines "t \<equiv> p + of_nat (length pre)"
  shows "strtok s delim last_s m = Some (t, if rest = [] then (0, m) else
    (t + of_nat (length tok) + 1, m(t + of_nat (length tok) := 0)))"
proof -
  have z: "0 \<notin> set ds" using d by (rule string_at_nonzero)
  obtain k ks where k: "tok = k # ks" "k \<notin> set ds" using tok by (cases tok) auto
  have "takeWhile (\<lambda>c. c \<in> set ds) (pre @ tok @ rest) = pre" using pre k by (simp add: takeWhile_append subset_iff)
  then have skip: "skip_delim m delim p = Some t" using skip_delim_string[OF d z c] by (simp add: t_def)
  have at: "string_at m t (tok @ rest)" using string_at_append[OF c] by (simp add: t_def)
  then have n: "m t \<noteq> 0" "string_at m (t + 1) (ks @ rest)" using k(1) by auto
  have "takeWhile (\<lambda>c. c \<notin> set ds) (ks @ rest) = ks" using tok(2) rest k(1) by (cases rest) (auto simp: takeWhile_append)
  then have e: "token_end m delim (t + 1) = Some (t + of_nat (length tok))" using token_end_string[OF d n(2)] by (simp add: k(1) add.assoc)
  have "string_at m (t + of_nat (length tok)) rest" using string_at_append[OF at] .
  then have "m (t + of_nat (length tok)) = 0 \<longleftrightarrow> rest = []" by (cases rest) auto
  then show ?thesis using p skip n(1) e by (auto simp: strtok_def Let_def)
qed

lemma unat_offset: "unat (p :: addr) + n < 2 ^ 32 \<Longrightarrow> unat (p + of_nat n) = unat p + n"
  by (simp add: unat_word_ariths unat_of_nat)

lemma offsets_eq: "unat (p :: addr) + i < 2 ^ 32 \<Longrightarrow> unat p + j < 2 ^ 32 \<Longrightarrow> p + of_nat i = p + of_nat j \<longleftrightarrow> i = j"
  using unat_offset[of p i] unat_offset[of p j] by (metis add_left_cancel)

text \<open>What a call leaves: the token with a 0 behind it, and the string after that 0.\<close>

lemma string_cut:
  assumes "string_at m p (xs @ tok @ r # rs)" "unat p + length (xs @ tok @ r # rs) < 2 ^ 32"
  defines "n \<equiv> length xs + length tok"
  shows "string_at (m(p + of_nat n := 0)) (p + of_nat (length xs)) tok"
    and "string_at (m(p + of_nat n := 0)) (p + of_nat (Suc n)) rs"
proof -
  have eq: "p + of_nat i = p + of_nat j \<longleftrightarrow> i = j" if "i \<le> n + Suc (length rs)" "j \<le> n + Suc (length rs)" for i j
    using that assms(2) by (intro offsets_eq) (simp_all add: n_def)
  have m: "m (p + of_nat i) = (xs @ tok @ r # rs) ! i \<and> (xs @ tok @ r # rs) ! i \<noteq> 0" if "i < n + Suc (length rs)" for i
    using assms(1) that by (simp add: string_at_def n_def)
  have "m (p + of_nat (n + Suc (length rs))) = 0" using assms(1) by (simp add: string_at_def n_def add.assoc)
  then have z: "(m(p + of_nat n := 0)) (p + of_nat (Suc n + length rs)) = 0" by (simp add: algebra_simps)
  have u: "(m(p + of_nat n := 0)) (p + of_nat i) = (xs @ tok @ r # rs) ! i \<and> (xs @ tok @ r # rs) ! i \<noteq> 0"
    if "i \<noteq> n" "i < n + Suc (length rs)" for i
    using m[OF that(2)] eq[of i n] that by simp
  have a: "p + of_nat a + of_nat b = p + of_nat (a + b)" for a b by simp
  show "string_at (m(p + of_nat n := 0)) (p + of_nat (length xs)) tok"
    unfolding string_at_def a
  proof (intro conjI allI impI)
    fix i assume "i < length tok"
    then show "(m(p + of_nat n := 0)) (p + of_nat (length xs + i)) = tok ! i" "tok ! i \<noteq> 0"
      using u[of "length xs + i"] by (simp_all only: n_def) (simp_all add: nth_append)
  qed (simp only: n_def fun_upd_same)
  show "string_at (m(p + of_nat n := 0)) (p + of_nat (Suc n)) rs"
    unfolding string_at_def a
  proof (intro conjI allI impI)
    fix i assume "i < length rs"
    then show "(m(p + of_nat n := 0)) (p + of_nat (Suc n + i)) = rs ! i" "rs ! i \<noteq> 0"
      using u[of "Suc n + i"] by (simp_all only: n_def) (simp_all add: nth_append)
  qed (rule z)
qed

text \<open>The parts of a string around its first token.\<close>

lemma token_split:
  assumes "dropWhile (\<lambda>c. c \<in> D) cs \<noteq> []"
  obtains pre tok rest where "cs = pre @ tok @ rest" "set pre \<subseteq> D" "tok \<noteq> []" "set tok \<inter> D = {}"
    "rest \<noteq> [] \<longrightarrow> hd rest \<in> D" "tokens D cs = tok # tokens D (tl rest)"
proof -
  let ?d = "dropWhile (\<lambda>c. c \<in> D) cs"
  have h: "hd ?d \<notin> D" using hd_dropWhile[OF assms] by simp
  show thesis
  proof (rule that)
    show "cs = takeWhile (\<lambda>c. c \<in> D) cs @ takeWhile (\<lambda>c. c \<notin> D) ?d @ dropWhile (\<lambda>c. c \<notin> D) ?d" by simp
    show "set (takeWhile (\<lambda>c. c \<in> D) cs) \<subseteq> D" by (auto dest: set_takeWhileD)
    show "takeWhile (\<lambda>c. c \<notin> D) ?d \<noteq> []" using h assms by (cases ?d) auto
    show "set (takeWhile (\<lambda>c. c \<notin> D) ?d) \<inter> D = {}" by (auto dest: set_takeWhileD)
    show "dropWhile (\<lambda>c. c \<notin> D) ?d \<noteq> [] \<longrightarrow> hd (dropWhile (\<lambda>c. c \<notin> D) ?d) \<in> D" using hd_dropWhile[of "\<lambda>c. c \<notin> D" ?d] by auto
    show "tokens D cs = takeWhile (\<lambda>c. c \<notin> D) ?d # tokens D (tl (dropWhile (\<lambda>c. c \<notin> D) ?d))"
      using assms by (subst tokens.simps) (simp add: Let_def)
  qed
qed

lemma strtok_calls_tokens:
  assumes "string_at m delim ds" "string_at m p cs" "p \<noteq> 0" "s = p \<or> s = 0 \<and> last_s = p" "unat p + length cs < 2 ^ 32"
    "disjoint_bufs delim (length ds + 1) p (length cs + 1)"
  shows "\<exists>ts m'. strtok_calls delim s last_s m = Some (ts, m') \<and> list_all2 (string_at m') ts (tokens (set ds) cs) \<and>
    (\<forall>x. (\<forall>j<length cs. x \<noteq> p + of_nat j) \<longrightarrow> m' x = m x)"
  using assms
proof (induction "length cs" arbitrary: m p cs s last_s rule: less_induct)
  case less
  note a = less.prems
  show ?case
  proof (cases "dropWhile (\<lambda>c. c \<in> set ds) cs = []")
    case True
    then have "tokens (set ds) cs = []" by (subst tokens.simps) simp
    then show ?thesis
      using strtok_none[OF a(1,2) True a(4,3)] by (subst strtok_calls.simps) simp
  next
    case False
    then obtain pre tok rest where c: "cs = pre @ tok @ rest" "set pre \<subseteq> set ds" "tok \<noteq> []" "set tok \<inter> set ds = {}"
      "rest \<noteq> [] \<longrightarrow> hd rest \<in> set ds" "tokens (set ds) cs = tok # tokens (set ds) (tl rest)" by (rule token_split)
    define t e where "t = p + of_nat (length pre)" "e = t + of_nat (length tok)"
    have st: "strtok s delim last_s m = Some (t, if rest = [] then (0, m) else (e + 1, m(e := 0)))"
      using strtok_token[OF a(1) a(2)[unfolded c(1)] a(4,3) c(2-4) c(5)[rule_format]] by (simp add: t_e_def)
    have ut: "unat t = unat p + length pre" "unat e = unat p + length pre + length tok"
      using unat_offset[of p "length pre"] unat_offset[of t "length tok"] a(5) by (simp_all add: t_e_def c(1))
    have "0 < unat p" using a(3) by (simp add: unat_gt_0)
    then have t0: "t \<noteq> 0" using ut(1) by (metis add_gr_0 unsigned_0 less_irrefl)
    have tok: "string_at m t (tok @ rest)" using string_at_append[OF a(2)[unfolded c(1)]] by (simp add: t_e_def)
    show ?thesis
    proof (cases rest)
      case Nil
      have "strtok 0 delim 0 m = Some (0, 0, m)" by (simp add: strtok_def)
      then have "strtok_calls delim 0 0 m = Some ([], m)" by (subst strtok_calls.simps) simp
      then have "strtok_calls delim s last_s m = Some ([t], m)" using st t0 Nil by (subst strtok_calls.simps) simp
      moreover have "tokens (set ds) [] = []" by (subst tokens.simps) simp
      ultimately show ?thesis using tok c(6) Nil by simp
    next
      case (Cons r rs)
      define n where "n = length pre + length tok"
      let ?m = "m(p + of_nat n := 0)" and ?q = "p + of_nat (Suc n)"
      have len: "length cs = Suc n + length rs" using Cons by (simp add: c(1) n_def)
      have e: "e = p + of_nat n" "e + 1 = ?q" by (simp_all add: t_e_def n_def algebra_simps)
      note cut = string_cut[OF a(2)[unfolded c(1) Cons] a(5)[unfolded c(1) Cons], folded n_def t_e_def]
      have off: "p + of_nat i = p + of_nat j \<longleftrightarrow> i = j" if "i \<le> length cs" "j \<le> length cs" for i j
        using that a(5) by (intro offsets_eq) simp_all
      have far: "delim + of_nat i \<noteq> p + of_nat j" if "i \<le> length ds" "j \<le> length cs" for i j
        using a(6) that by (simp add: disjoint_bufs_def)
      have d: "string_at ?m delim ds" by (rule string_at_frame[OF a(1)]) (use far len in simp)
      have dis: "disjoint_bufs delim (length ds + 1) ?q (length rs + 1)"
        using far[of _ "Suc n + _"] len unfolding disjoint_bufs_def by (auto simp: add.assoc)
      have uq: "unat ?q = unat p + Suc n" by (rule unat_offset) (use a(5) len in simp)
      then have q0: "?q \<noteq> 0" by (metis add_Suc_right nat.distinct(1) unsigned_0)
      have "\<exists>ts m'. strtok_calls delim 0 ?q ?m = Some (ts, m') \<and> list_all2 (string_at m') ts (tokens (set ds) rs) \<and>
        (\<forall>x. (\<forall>j<length rs. x \<noteq> ?q + of_nat j) \<longrightarrow> m' x = ?m x)"
        by (rule less.hyps[OF _ d cut(2) q0 _ _ dis]) (use len uq a(5) in simp_all)
      then obtain ts m' where IH: "strtok_calls delim 0 ?q ?m = Some (ts, m')"
        "list_all2 (string_at m') ts (tokens (set ds) rs)" "\<And>x. \<forall>j<length rs. x \<noteq> ?q + of_nat j \<Longrightarrow> m' x = ?m x" by blast
      have st': "strtok s delim last_s m = Some (t, ?q, ?m)"
        using st unfolding e(2) unfolding e(1) by (simp only: Cons list.distinct if_False)
      have q: "?q + of_nat j = p + of_nat (Suc n + j)" for j by simp
      have "t + of_nat i \<noteq> ?q + of_nat j" if "i \<le> length tok" "j < length rs" for i j
      proof -
        have ti: "t + of_nat i = p + of_nat (length pre + i)" by (simp add: t_e_def)
        show ?thesis unfolding q ti by (subst off) (use that len in \<open>simp_all add: n_def c(1)\<close>)
      qed
      then have "m' (t + of_nat i) = ?m (t + of_nat i)" if "i \<le> length tok" for i
        using that by (intro IH(3)) blast
      then have "string_at m' t tok" by (rule string_at_frame[OF cut(1)])
      moreover have "m' x = m x" if x: "\<forall>j<length cs. x \<noteq> p + of_nat j" for x
      proof -
        have "m' x = ?m x" by (rule IH(3)) (use x len in \<open>simp only: q, simp del: of_nat_Suc of_nat_add\<close>)
        then show ?thesis using x len by simp
      qed
      moreover have "strtok_calls delim s last_s m = Some (t # ts, m')"
        using st' t0 IH(1) by (subst strtok_calls.simps) simp
      ultimately show ?thesis using IH(2) c(6) Cons by simp
    qed
  qed
qed

text \<open>C24: the calls of \<open>strtok\<close> on a string, the first with its address and the others with NULL, return its tokens in
  order, each a string of its own in the memory the last call leaves, and then NULL; nothing outside of the string is written.
\<close>

theorem strtok_calls_correct:
  assumes "string_at m delim ds" "string_at m p cs" "p \<noteq> 0" "unat p + length cs < 2 ^ 32"
    "disjoint_bufs delim (length ds + 1) p (length cs + 1)"
  shows "\<exists>ts m'. strtok_calls delim p last_s m = Some (ts, m') \<and> list_all2 (string_at m') ts (tokens (set ds) cs) \<and>
    (\<forall>x. (\<forall>j<length cs. x \<noteq> p + of_nat j) \<longrightarrow> m' x = m x)"
  using strtok_calls_tokens[OF assms(1-3) _ assms(4,5)] by blast

lemma strtok_calls_correct_witness:
  "let m = (\<lambda>_. 0)(0x1000 := 32, 0x1001 := 97, 0x1002 := 98, 0x1003 := 32, 0x1004 := 99, 0x1006 := 32)
   in \<exists>ts m'. strtok_calls 0x1006 0x1000 0 m = Some (ts, m') \<and>
        list_all2 (string_at m') ts (tokens (set [32]) [32, 97, 98, 32, 99]) \<and>
        (\<forall>x. (\<forall>j<length [32, 97, 98, 32, 99 :: u8]. x \<noteq> 0x1000 + of_nat j) \<longrightarrow> m' x = m x)"
proof -
  have "disjoint_bufs 0x1006 (length [32 :: u8] + 1) 0x1000 (length [32, 97, 98, 32, 99 :: u8] + 1)"
    by (simp add: disjoint_bufs_def All_less_Suc)
  then show ?thesis unfolding Let_def by (intro strtok_calls_correct) simp_all
qed

end
