(* ===== verification/String_Copy.thy ===== *)
theory String_Copy
  imports C_Strings Heap_Properties
begin

text \<open>
  Copies of strings on the heap, \<^verbatim>\<open>410kern/string/strdup.c\<close>: \<open>strdup\<close> puts together the string functions and the
  kernel's heap, and its correctness the theorems about both.
\<close>

definition strdup :: "addr \<Rightarrow> lmm \<Rightarrow> (addr \<times> lmm) option" where
  "strdup src h =
     do { n \<leftarrow> strlen_m (hmem h) src;
          (p, h) \<leftarrow> malloc (n + 1) h;
          if p \<noteq> NULL then do { m \<leftarrow> strcpy_m p src (hmem h); Some (p, h\<lparr>hmem := m\<rparr>) }
          else Some (p, h) }"

section \<open>Copying\<close>

lemma strcpy_string:
  assumes "string_at m src cs" "unat dst + length cs < 2 ^ 32" "disjoint_bufs src (Suc (length cs)) dst (Suc (length cs))"
  shows "\<exists>m'. strcpy_m dst src m = Some m' \<and> string_at m' dst cs \<and> (\<forall>x. (\<forall>j\<le>length cs. x \<noteq> dst + of_nat j) \<longrightarrow> m' x = m x)"
  using assms
proof (induction cs arbitrary: m src dst)
  case Nil
  then show ?case by (subst strcpy_m.simps) (auto simp: Let_def)
next
  case (Cons c cs)
  let ?m = "m(dst := c)"
  have c: "m src = c" "c \<noteq> 0" "string_at m (src + 1) cs" using Cons.prems(1) by simp_all
  have far: "src + of_nat i \<noteq> dst + of_nat j" if "i \<le> Suc (length cs)" "j \<le> Suc (length cs)" for i j
    using Cons.prems(3) that by (simp add: disjoint_bufs_def less_Suc_eq_le)
  have u: "unat (dst + 1) = unat dst + 1" using unat_offset[of dst 1] Cons.prems(2) by simp
  have "string_at ?m (src + 1) cs"
    by (rule string_at_frame[OF c(3)]) (use far[of "Suc _" 0] in \<open>simp add: add.assoc\<close>)
  moreover have "disjoint_bufs (src + 1) (Suc (length cs)) (dst + 1) (Suc (length cs))"
    using far[of "Suc _" "Suc _"] by (simp add: disjoint_bufs_def add.assoc less_Suc_eq_le)
  moreover have "unat (dst + 1) + length cs < 2 ^ 32" using Cons.prems(2) u by simp
  ultimately obtain m' where IH: "strcpy_m (dst + 1) (src + 1) ?m = Some m'" "string_at m' (dst + 1) cs"
    "\<And>x. \<forall>j\<le>length cs. x \<noteq> dst + 1 + of_nat j \<Longrightarrow> m' x = ?m x"
    using Cons.IH[of ?m "src + 1" "dst + 1"] by blast
  have "dst \<noteq> dst + 1 + of_nat j" if "j \<le> length cs" for j
    using offsets_eq[of dst 0 "Suc j"] that Cons.prems(2) by (simp add: add.assoc)
  then have "m' dst = c" using IH(3)[of dst] by simp
  moreover have "m' x = m x" if x: "\<forall>j\<le>length (c # cs). x \<noteq> dst + of_nat j" for x
  proof -
    have "x \<noteq> dst + 1 + of_nat j" if "j \<le> length cs" for j using x[rule_format, of "Suc j"] that by (simp add: add.assoc)
    then show ?thesis using IH(3)[of x] x[rule_format, of 0] by simp
  qed
  ultimately show ?case using IH(1,2) c by (subst strcpy_m.simps) (simp add: Let_def)
qed

lemma copy_into_block:
  assumes "heap_own h p (of_nat (length cs + 1))" "string_at (hmem h) src cs" "length cs < 2 ^ 31"
    "\<forall>i\<le>length cs. unat (src + of_nat i) \<notin> heap_block p (of_nat (length cs + 1))"
  obtains m where "strcpy_m p src (hmem h) = Some m" "string_at m p cs"
    "\<And>x. unat x \<notin> {unat p..<unat p + (length cs + 1)} \<Longrightarrow> m x = hmem h x"
    "{unat p..<unat p + (length cs + 1)} \<subseteq> heap_block p (of_nat (length cs + 1))"
proof -
  let ?sz = "of_nat (length cs + 1) :: u32"
  have sz: "unat ?sz = length cs + 1" using assms(3) by (subst unat_of_nat32) simp_all
  have blk: "{unat p - 4..<unat p + (length cs + 1)} \<subseteq> heap_block p ?sz" "unat p + (length cs + 1) < 2 ^ 32"
    using heap_own_pos(4,5)[OF assms(1)] unfolding sz by blast+
  have at: "unat (p + of_nat j) = unat p + j" if "j \<le> length cs" for j by (rule unat_offset) (use that blk(2) in simp)
  have in_blk: "unat (p + of_nat j) \<in> heap_block p ?sz" if "j \<le> length cs" for j using at[OF that] that blk(1) by auto
  have "src + of_nat i \<noteq> p + of_nat j" if "i \<le> length cs" "j \<le> length cs" for i j
    using in_blk[OF that(2)] assms(4) that(1) by metis
  then have "disjoint_bufs src (Suc (length cs)) p (Suc (length cs))" by (simp add: disjoint_bufs_def less_Suc_eq_le)
  from strcpy_string[OF assms(2) _ this] blk(2) obtain m where m: "strcpy_m p src (hmem h) = Some m" "string_at m p cs"
    "\<And>x. \<forall>j\<le>length cs. x \<noteq> p + of_nat j \<Longrightarrow> m x = hmem h x" by auto
  have "{unat p..<unat p + (length cs + 1)} \<subseteq> {unat p - 4..<unat p + (length cs + 1)}" by auto
  then have "{unat p..<unat p + (length cs + 1)} \<subseteq> heap_block p ?sz" using blk(1) by (rule order_trans)
  moreover have "m x = hmem h x" if "unat x \<notin> {unat p..<unat p + (length cs + 1)}" for x
    by (rule m(3)) (use at that in auto)
  ultimately show thesis using m(1,2) that by blast
qed

section \<open>strdup\<close>

text \<open>C26: The copy that \<open>strdup\<close> makes is a block of the heap of its own that holds the string; neither the string nor any
  other memory in use changes, and the block may be given to \<open>free\<close>.  When there is no memory it returns NULL and
  nothing changes.
\<close>

theorem strdup_correct:
  assumes "heap_inv h nss" "string_at (hmem h) src cs" "\<forall>i\<le>length cs. unat (src + of_nat i) \<notin> free_of nss"
    "length cs < 2 ^ 31"
  shows "\<exists>p h' nss'. strdup src h = Some (p, h') \<and> heap_inv h' nss' \<and>
    (if p = NULL then h' = h \<and> nss' = nss
     else string_at (hmem h') p cs \<and> string_at (hmem h') src cs \<and> heap_own h' p (of_nat (length cs + 1)) \<and>
       heap_block p (of_nat (length cs + 1)) \<subseteq> free_of nss \<and> free_of nss' = free_of nss - heap_block p (of_nat (length cs + 1)) \<and>
       (\<forall>x. unat x \<notin> free_of nss \<longrightarrow> hmem h' x = hmem h x))"
proof -
  let ?sz = "of_nat (length cs + 1) :: u32"
  have sz: "unat ?sz = length cs + 1" using assms(4) by (subst unat_of_nat32) simp_all
  then have lim: "unat ?sz \<le> 2 ^ 32 - 12" using assms(4) by simp
  obtain n nss' where sp: "alloc_spec (room (?sz + 4)) 0 (flags_of h) nss = (n, nss')" by fastforce
  obtain p h1 where M: "malloc ?sz h = Some (p, h1)" "map shape (regions h1) = map shape (regions h)"
    "\<And>x. unat x \<notin> free_of nss \<Longrightarrow> hmem h1 x = hmem h x"
    "if n = 0 then p = NULL \<and> h1 = h \<and> nss' = nss
     else unat p = n + 4 \<and> heap_own h1 p ?sz \<and> heap_inv h1 nss' \<and> heap_block p ?sz \<subseteq> free_of nss \<and>
       free_of nss' = free_of nss - heap_block p ?sz"
    using malloc_run[OF assms(1) lim sp] by blast
  have len: "strlen_m (hmem h) src = Some (of_nat (length cs))" using strlen_string[OF assms(2)] .
  show ?thesis
  proof (cases "n = 0")
    case True
    then have "strdup src h = Some (NULL, h)" using M(1,4) len by (simp add: strdup_def add.commute)
    then show ?thesis using assms(1) by auto
  next
    case False
    then have p: "p \<noteq> NULL" "heap_own h1 p ?sz" "heap_inv h1 nss'" "heap_block p ?sz \<subseteq> free_of nss"
      "free_of nss' = free_of nss - heap_block p ?sz" using M(4) by auto
    have src: "string_at (hmem h1) src cs" by (rule string_at_frame[OF assms(2)]) (use M(3) assms(3) in blast)
    have "\<forall>i\<le>length cs. unat (src + of_nat i) \<notin> heap_block p ?sz" using assms(3) p(4) by blast
    from copy_into_block[OF p(2) src assms(4) this] obtain m where m: "strcpy_m p src (hmem h1) = Some m" "string_at m p cs"
      "\<And>x. unat x \<notin> {unat p..<unat p + (length cs + 1)} \<Longrightarrow> m x = hmem h1 x"
      "{unat p..<unat p + (length cs + 1)} \<subseteq> heap_block p ?sz" by blast
    then have out: "m x = hmem h1 x" if "unat x \<notin> heap_block p ?sz" for x by (intro m(3)) (use that in blast)
    let ?h = "h1\<lparr>hmem := m\<rparr>"
    have "strdup src h = Some (p, ?h)" using M(1) len m(1) p(1) by (simp add: strdup_def add.commute)
    moreover have "heap_inv ?h nss'" by (rule heap_inv_frame[OF p(3)]) (use out p(5) in blast)
    moreover have "heap_own ?h p ?sz" by (rule heap_own_frame[OF p(2)]) (use m(3) in auto)
    moreover have keep: "m x = hmem h x" if "unat x \<notin> free_of nss" for x
      using out[of x] M(3)[OF that] that p(4) by (metis subsetD)
    moreover have "string_at m src cs" by (rule string_at_frame[OF assms(2)]) (use keep assms(3) in blast)
    ultimately show ?thesis using m(2) p by auto
  qed
qed

lemma strdup_correct_witness:
  "let h = a_heap\<lparr>hmem := (hmem a_heap)(0x100 := 104, 0x101 := 105, 0x102 := 0)\<rparr>; nss = [[(0x00200000, 0x00e00000)], [], []]
   in \<exists>p h' nss'. strdup 0x100 h = Some (p, h') \<and> heap_inv h' nss' \<and>
    (if p = NULL then h' = h \<and> nss' = nss
     else string_at (hmem h') p [104, 105] \<and> string_at (hmem h') 0x100 [104, 105] \<and> heap_own h' p (of_nat (length [104, 105 :: u8] + 1)) \<and>
       heap_block p (of_nat (length [104, 105 :: u8] + 1)) \<subseteq> free_of nss \<and>
       free_of nss' = free_of nss - heap_block p (of_nat (length [104, 105 :: u8] + 1)) \<and>
       (\<forall>x. unat x \<notin> free_of nss \<longrightarrow> hmem h' x = hmem h x))"
proof -
  let ?nss = "[[(0x00200000, 0x00e00000)], [], []] :: blocks list"
  have f: "free_of ?nss = {0x00200000..<0x01000000}" by (simp add: covers_def)
  have "heap_inv (a_heap\<lparr>hmem := (hmem a_heap)(0x100 := 104, 0x101 := 105, 0x102 := 0)\<rparr>) ?nss"
    by (rule heap_inv_frame[OF a_heap_start(1)]) (auto simp: f)
  moreover have "unat (0x100 + of_nat i :: u32) \<notin> free_of ?nss" if "i \<le> 2" for i
  proof -
    from that consider "i = 0" | "i = 1" | "i = 2" by linarith
    then show ?thesis by cases (simp_all add: f)
  qed
  then have "\<forall>i\<le>length [104, 105 :: u8]. unat (0x100 + of_nat i :: u32) \<notin> free_of ?nss" by simp
  ultimately show ?thesis unfolding Let_def by (intro strdup_correct) simp_all
qed

end
