(* ===== verification/Keyhelp.thy ===== *)
theory Keyhelp
  imports Printf
begin

text \<open>
  The translation of scan codes into characters, \<^verbatim>\<open>410kern/x86/keyhelp.c\<close>: a state machine with the modifier keys that are
  down, the prefixes that have been seen, and the place in the sequence of the Pause key.  The two switches are tables
  from scan codes to what the branch does; a key that is not in the table is the \<open>default\<close> branch.
\<close>

section \<open>The result and the state\<close>

definition KH_RESULT_HASRAW :: u32 where "KH_RESULT_HASRAW = 0x08"
definition KH_RESULT_HASDATA :: u32 where "KH_RESULT_HASDATA = 0x04"
definition KH_RESULT_NUMPAD :: u32 where "KH_RESULT_NUMPAD = 0x02"
definition KH_RESULT_MAKE :: u32 where "KH_RESULT_MAKE = 0x01"

definition KH_LSHIFT_KEY :: u16 where "KH_LSHIFT_KEY = 0x8000"
definition KH_RSHIFT_KEY :: u16 where "KH_RSHIFT_KEY = 0x4000"
definition KH_LCONTROL_KEY :: u16 where "KH_LCONTROL_KEY = 0x2000"
definition KH_RCONTROL_KEY :: u16 where "KH_RCONTROL_KEY = 0x1000"
definition KH_LALT_KEY :: u16 where "KH_LALT_KEY = 0x0800"
definition KH_RALT_KEY :: u16 where "KH_RALT_KEY = 0x0400"
definition KH_CAPS_LOCK :: u16 where "KH_CAPS_LOCK = 0x0200"
definition KH_NUM_LOCK :: u16 where "KH_NUM_LOCK = 0x0100"

definition KH_STATE :: "u32 \<Rightarrow> u32" where "KH_STATE k = drop_bit 16 k AND 0xFF00"
definition KH_RMODS :: "u32 \<Rightarrow> u32" where "KH_RMODS k = drop_bit 16 k AND 0x000F"
definition KH_GETRAW :: "u32 \<Rightarrow> u32" where "KH_GETRAW k = drop_bit 8 k AND 0xFF"
definition KH_GETCHAR :: "u32 \<Rightarrow> u32" where "KH_GETCHAR k = k AND 0xFF"
definition KH_HASRAW :: "u32 \<Rightarrow> bool" where "KH_HASRAW k \<longleftrightarrow> drop_bit 16 k AND KH_RESULT_HASRAW \<noteq> 0"
definition KH_HASDATA :: "u32 \<Rightarrow> bool" where "KH_HASDATA k \<longleftrightarrow> drop_bit 16 k AND KH_RESULT_HASDATA \<noteq> 0"
definition KH_ISMAKE :: "u32 \<Rightarrow> bool" where "KH_ISMAKE k \<longleftrightarrow> drop_bit 16 k AND KH_RESULT_MAKE \<noteq> 0"

text \<open>The codes of the keys that are no characters.\<close>

definition KHE_UNDEFINED :: u8 where "KHE_UNDEFINED = 0x80"
definition KHE_ARROW_UP :: u8 where "KHE_ARROW_UP = 0x81"
definition KHE_ARROW_LEFT :: u8 where "KHE_ARROW_LEFT = 0x82"
definition KHE_ARROW_DOWN :: u8 where "KHE_ARROW_DOWN = 0x83"
definition KHE_ARROW_RIGHT :: u8 where "KHE_ARROW_RIGHT = 0x84"
definition KHE_LALT :: u8 where "KHE_LALT = 0x85"
definition KHE_RALT :: u8 where "KHE_RALT = 0x86"
definition KHE_LCTL :: u8 where "KHE_LCTL = 0x87"
definition KHE_RCTL :: u8 where "KHE_RCTL = 0x88"
definition KHE_LSHIFT :: u8 where "KHE_LSHIFT = 0x89"
definition KHE_RSHIFT :: u8 where "KHE_RSHIFT = 0x8a"
definition KHE_CAPSLOCK :: u8 where "KHE_CAPSLOCK = 0x8b"
definition KHE_NUMLOCK :: u8 where "KHE_NUMLOCK = 0x8c"
definition KHE_F1 :: u8 where "KHE_F1 = 0x8d"
definition KHE_F2 :: u8 where "KHE_F2 = 0x8e"
definition KHE_F3 :: u8 where "KHE_F3 = 0x8f"
definition KHE_F4 :: u8 where "KHE_F4 = 0x90"
definition KHE_F5 :: u8 where "KHE_F5 = 0x91"
definition KHE_F6 :: u8 where "KHE_F6 = 0x92"
definition KHE_F7 :: u8 where "KHE_F7 = 0x93"
definition KHE_F8 :: u8 where "KHE_F8 = 0x94"
definition KHE_F9 :: u8 where "KHE_F9 = 0x95"
definition KHE_F10 :: u8 where "KHE_F10 = 0x96"
definition KHE_F11 :: u8 where "KHE_F11 = 0x97"
definition KHE_F12 :: u8 where "KHE_F12 = 0x98"
definition KHE_PAUSE :: u8 where "KHE_PAUSE = 0x99"
definition KHE_PRINT_SCREEN :: u8 where "KHE_PRINT_SCREEN = 0x9a"

definition KH_PRSCR_UP_SCAN :: u16 where "KH_PRSCR_UP_SCAN = 0x0008"
definition KH_PRSCR_DOWN_SCAN :: u16 where "KH_PRSCR_DOWN_SCAN = 0x0004"
definition KH_PAUSE_SCAN :: u16 where "KH_PAUSE_SCAN = 0x0002"
definition KH_EXTENDED_SCAN :: u16 where "KH_EXTENDED_SCAN = 0x0001"

record keyhelp =
  key_state :: u16
  key_internal_state :: u16
  key_sequence :: int

definition keyhelp_initial :: keyhelp where
  "keyhelp_initial = \<lparr>key_state = 0, key_internal_state = 0, key_sequence = 0\<rparr>"

definition KHS_SHIFT_CORE :: "u16 \<Rightarrow> bool" where
  "KHS_SHIFT_CORE ks \<longleftrightarrow> ks AND (KH_LSHIFT_KEY OR KH_RSHIFT_KEY) \<noteq> 0"

definition KHS_CTL_CORE :: "u16 \<Rightarrow> bool" where
  "KHS_CTL_CORE ks \<longleftrightarrow> ks AND (KH_LCONTROL_KEY OR KH_RCONTROL_KEY) \<noteq> 0"

section \<open>The branches of the switches\<close>

datatype key_action =
    Fixed u8
  | Numpad u8
  | KHS_SHIFT u8 u8
  | KHS_SHIFTCTL u8 u8 u8
  | KHS_SHIFTCAPSCTL u8 u8 u8
  | Modifier u8 u16
  | Lock u8 u16

text \<open>The character, and the raw code that depends on no modifier; \<open>KHE_UNDEFINED\<close> when a branch does not set it.\<close>

fun action_code :: "key_action \<Rightarrow> u16 \<Rightarrow> u8" where
  "action_code (Fixed c) ks = c"
| "action_code (Numpad c) ks = c"
| "action_code (KHS_SHIFT s u) ks = (if KHS_SHIFT_CORE ks then s else u)"
| "action_code (KHS_SHIFTCTL cc s u) ks = (if KHS_CTL_CORE ks then cc else if KHS_SHIFT_CORE ks then s else u)"
| "action_code (KHS_SHIFTCAPSCTL cc s u) ks =
     (if KHS_CTL_CORE ks then cc
      else if (KHS_SHIFT_CORE ks \<or> ks AND KH_CAPS_LOCK \<noteq> 0) \<and> \<not> (KHS_SHIFT_CORE ks \<and> ks AND KH_CAPS_LOCK \<noteq> 0) then s
      else u)"
| "action_code (Modifier r k) ks = KHE_UNDEFINED"
| "action_code (Lock r k) ks = KHE_UNDEFINED"

fun action_raw :: "key_action \<Rightarrow> u8" where
  "action_raw (Fixed c) = c"
| "action_raw (Numpad c) = c"
| "action_raw (KHS_SHIFT s u) = u"
| "action_raw (KHS_SHIFTCTL cc s u) = u"
| "action_raw (KHS_SHIFTCAPSCTL cc s u) = u"
| "action_raw (Modifier r k) = r"
| "action_raw (Lock r k) = r"

definition action_res :: "key_action \<Rightarrow> u32" where
  "action_res a = (case a of Numpad c \<Rightarrow> push_bit 16 KH_RESULT_NUMPAD | _ \<Rightarrow> 0)"

fun action_state :: "key_action \<Rightarrow> bool \<Rightarrow> u16 \<Rightarrow> u16" where
  "action_state (Modifier r k) pressed ks = (if pressed then ks OR k else ks AND NOT k)"
| "action_state (Lock r k) pressed ks =
     (if pressed then if ks AND k \<noteq> 0 then ks AND NOT k else ks OR k else ks)"
| "action_state _ pressed ks = ks"

text \<open>The end of both functions.\<close>

definition kh_result :: "u32 \<Rightarrow> u8 \<Rightarrow> u8 \<Rightarrow> u32" where
  "kh_result res code rcode =
     (let data = (rcode \<noteq> KHE_UNDEFINED \<and> code \<noteq> KHE_UNDEFINED);
          res = (if data then res OR push_bit 16 KH_RESULT_HASDATA else res);
          code = (if data then code else 0)
      in res OR ucast code OR push_bit 8 (ucast rcode) OR push_bit 16 KH_RESULT_HASRAW)"

definition take_action :: "key_action option \<Rightarrow> bool \<Rightarrow> keyhelp \<Rightarrow> u32 \<times> keyhelp" where
  "take_action act pressed h =
     (case act of None \<Rightarrow> (kh_result 0 KHE_UNDEFINED KHE_UNDEFINED, h)
      | Some a \<Rightarrow> (kh_result (action_res a) (action_code a (key_state h)) (action_raw a),
                  h\<lparr>key_state := action_state a pressed (key_state h)\<rparr>))"

section \<open>The keys\<close>

definition number_row :: "(u32 \<times> key_action) list" where
  "number_row =
    [(0x1, Fixed 0x1B), (0x2, KHS_SHIFT (ch CHR ''!'') (ch CHR ''1'')),
     (0x3, KHS_SHIFTCTL 0x00 (ch CHR ''@'') (ch CHR ''2'')), (0x4, KHS_SHIFT (ch CHR ''#'') (ch CHR ''3'')),
     (0x5, KHS_SHIFT (ch CHR ''$'') (ch CHR ''4'')), (0x6, KHS_SHIFT (ch CHR ''%'') (ch CHR ''5'')),
     (0x7, KHS_SHIFTCTL 0x1E (ch CHR ''^'') (ch CHR ''6'')), (0x8, KHS_SHIFT (ch CHR ''&'') (ch CHR ''7'')),
     (0x9, KHS_SHIFT (ch CHR ''*'') (ch CHR ''8'')), (0xA, KHS_SHIFT (ch CHR ''('') (ch CHR ''9'')),
     (0xB, KHS_SHIFT (ch CHR '')'') (ch CHR ''0'')), (0xC, KHS_SHIFTCTL 0x1F (ch CHR ''_'') (ch CHR ''-'')),
     (0xD, KHS_SHIFT (ch CHR ''+'') (ch CHR ''='')), (0xE, Fixed 8)]"

definition upper_row :: "(u32 \<times> key_action) list" where
  "upper_row =
    [(0xF, Fixed 9), (0x10, KHS_SHIFTCAPSCTL 0x11 (ch CHR ''Q'') (ch CHR ''q'')),
     (0x11, KHS_SHIFTCAPSCTL 0x17 (ch CHR ''W'') (ch CHR ''w'')),
     (0x12, KHS_SHIFTCAPSCTL 0x05 (ch CHR ''E'') (ch CHR ''e'')),
     (0x13, KHS_SHIFTCAPSCTL 0x12 (ch CHR ''R'') (ch CHR ''r'')),
     (0x14, KHS_SHIFTCAPSCTL 0x14 (ch CHR ''T'') (ch CHR ''t'')),
     (0x15, KHS_SHIFTCAPSCTL 0x19 (ch CHR ''Y'') (ch CHR ''y'')),
     (0x16, KHS_SHIFTCAPSCTL 0x15 (ch CHR ''U'') (ch CHR ''u'')),
     (0x17, KHS_SHIFTCAPSCTL 0x09 (ch CHR ''I'') (ch CHR ''i'')),
     (0x18, KHS_SHIFTCAPSCTL 0x0F (ch CHR ''O'') (ch CHR ''o'')),
     (0x19, KHS_SHIFTCAPSCTL 0x10 (ch CHR ''P'') (ch CHR ''p'')),
     (0x1A, KHS_SHIFTCAPSCTL 0x1B (ch CHR ''{'') (ch CHR ''['')),
     (0x1B, KHS_SHIFTCAPSCTL 0x1D (ch CHR ''}'') (ch CHR '']'')), (0x1C, Fixed 10)]"

definition middle_row :: "(u32 \<times> key_action) list" where
  "middle_row =
    [(0x1D, Modifier KHE_LCTL KH_LCONTROL_KEY), (0x1E, KHS_SHIFTCAPSCTL 0x01 (ch CHR ''A'') (ch CHR ''a'')),
     (0x1F, KHS_SHIFTCAPSCTL 0x13 (ch CHR ''S'') (ch CHR ''s'')),
     (0x20, KHS_SHIFTCAPSCTL 0x04 (ch CHR ''D'') (ch CHR ''d'')),
     (0x21, KHS_SHIFTCAPSCTL 0x06 (ch CHR ''F'') (ch CHR ''f'')),
     (0x22, KHS_SHIFTCAPSCTL 0x07 (ch CHR ''G'') (ch CHR ''g'')),
     (0x23, KHS_SHIFTCAPSCTL 0x08 (ch CHR ''H'') (ch CHR ''h'')),
     (0x24, KHS_SHIFTCAPSCTL 0x0A (ch CHR ''J'') (ch CHR ''j'')),
     (0x25, KHS_SHIFTCAPSCTL 0x0B (ch CHR ''K'') (ch CHR ''k'')),
     (0x26, KHS_SHIFTCAPSCTL 0x0C (ch CHR ''L'') (ch CHR ''l'')), (0x27, KHS_SHIFT (ch CHR '':'') (ch CHR '';'')),
     (0x28, KHS_SHIFT 34 39), (0x29, KHS_SHIFT (ch CHR ''~'') 96)]"

definition lower_row :: "(u32 \<times> key_action) list" where
  "lower_row =
    [(0x2A, Modifier KHE_LSHIFT KH_LSHIFT_KEY), (0x2B, KHS_SHIFTCTL 0x1C (ch CHR ''|'') 92),
     (0x2C, KHS_SHIFTCAPSCTL 0x1A (ch CHR ''Z'') (ch CHR ''z'')),
     (0x2D, KHS_SHIFTCAPSCTL 0x18 (ch CHR ''X'') (ch CHR ''x'')),
     (0x2E, KHS_SHIFTCAPSCTL 0x03 (ch CHR ''C'') (ch CHR ''c'')),
     (0x2F, KHS_SHIFTCAPSCTL 0x16 (ch CHR ''V'') (ch CHR ''v'')),
     (0x30, KHS_SHIFTCAPSCTL 0x02 (ch CHR ''B'') (ch CHR ''b'')),
     (0x31, KHS_SHIFTCAPSCTL 0x0E (ch CHR ''N'') (ch CHR ''n'')),
     (0x32, KHS_SHIFTCAPSCTL 0x0D (ch CHR ''M'') (ch CHR ''m'')), (0x33, KHS_SHIFT (ch CHR ''<'') (ch CHR '','')),
     (0x34, KHS_SHIFT (ch CHR ''>'') (ch CHR ''.'')), (0x35, KHS_SHIFT (ch CHR ''?'') (ch CHR ''/'')),
     (0x36, Modifier KHE_RSHIFT KH_RSHIFT_KEY), (0x37, Numpad (ch CHR ''*'')), (0x38, Modifier KHE_LALT KH_LALT_KEY),
     (0x39, Fixed (ch CHR '' ''))]"

definition function_keys :: "(u32 \<times> key_action) list" where
  "function_keys =
    [(0x3A, Lock KHE_CAPSLOCK KH_CAPS_LOCK), (0x3B, Fixed KHE_F1), (0x3C, Fixed KHE_F2), (0x3D, Fixed KHE_F3),
     (0x3E, Fixed KHE_F4), (0x3F, Fixed KHE_F5), (0x40, Fixed KHE_F6), (0x41, Fixed KHE_F7), (0x42, Fixed KHE_F8),
     (0x43, Fixed KHE_F9), (0x44, Fixed KHE_F10)]"

definition numpad_keys :: "(u32 \<times> key_action) list" where
  "numpad_keys =
    [(0x45, Lock KHE_NUMLOCK KH_NUM_LOCK), (0x47, Numpad (ch CHR ''7'')), (0x48, Numpad (ch CHR ''8'')),
     (0x49, Numpad (ch CHR ''9'')), (0x4A, Numpad (ch CHR ''-'')), (0x4B, Numpad (ch CHR ''4'')),
     (0x4C, Numpad (ch CHR ''5'')), (0x4D, Numpad (ch CHR ''6'')), (0x4E, Numpad (ch CHR ''+'')),
     (0x4F, Numpad (ch CHR ''1'')), (0x50, Numpad (ch CHR ''2'')), (0x51, Numpad (ch CHR ''3'')),
     (0x52, Numpad (ch CHR ''0'')), (0x53, Numpad (ch CHR ''.'')), (0x57, Fixed KHE_F11), (0x58, Fixed KHE_F12)]"

definition simple_keys :: "(u32 \<times> key_action) list" where
  "simple_keys = number_row @ upper_row @ middle_row @ lower_row @ function_keys @ numpad_keys"

definition extended_keys :: "(u32 \<times> key_action) list" where
  "extended_keys =
    [(0x1C, Numpad 10), (0x1D, Modifier KHE_RCTL KH_RCONTROL_KEY), (0x35, Numpad (ch CHR ''/'')),
     (0x38, Modifier KHE_RALT KH_RALT_KEY), (0x48, Fixed KHE_ARROW_UP), (0x4B, Fixed KHE_ARROW_LEFT),
     (0x4D, Fixed KHE_ARROW_RIGHT), (0x50, Fixed KHE_ARROW_DOWN), (0x53, Fixed 0x7F)]"

section \<open>The state machine\<close>

text \<open>The test for the next byte of the sequence of the Pause key, which every other byte that is tested ends.\<close>

definition pause_stage :: "int \<Rightarrow> keyhelp \<Rightarrow> bool \<times> keyhelp" where
  "pause_stage n h =
     (if key_internal_state h AND KH_PAUSE_SCAN \<noteq> 0 \<and> key_sequence h = n then
        (True, h\<lparr>key_sequence := key_sequence h + 1\<rparr>)
      else (False, h\<lparr>key_internal_state := key_internal_state h AND NOT KH_PAUSE_SCAN, key_sequence := 0\<rparr>))"

definition process_simple_scan :: "u32 \<Rightarrow> bool \<Rightarrow> keyhelp \<Rightarrow> u32 \<times> keyhelp" where
  "process_simple_scan scancode pressed h =
     (let k = scancode AND 0x7F
      in if k = 0x61 \<and> key_internal_state h AND KH_PAUSE_SCAN = 0 then
           (0, h\<lparr>key_internal_state := key_internal_state h OR KH_PAUSE_SCAN, key_sequence := 0\<rparr>)
         else
           let (stage, h) = (if k = 0x1D then pause_stage 0 h
                             else if k = 0x45 then pause_stage 1 h
                             else if k = 0x61 then pause_stage 2 h
                             else (False, h))
           in if stage then (0, h) else take_action (map_of simple_keys k) pressed h)"

text \<open>Each half of the sequences of the Print Screen key.\<close>

definition print_screen_stage :: "u16 \<Rightarrow> u16 \<Rightarrow> keyhelp \<Rightarrow> u32 \<times> keyhelp" where
  "print_screen_stage first_half second_half h =
     (if key_internal_state h AND second_half \<noteq> 0 then
        (kh_result 0 KHE_PRINT_SCREEN KHE_PRINT_SCREEN,
         h\<lparr>key_internal_state := key_internal_state h AND NOT second_half AND NOT KH_EXTENDED_SCAN\<rparr>)
      else (0, h\<lparr>key_internal_state := (key_internal_state h OR first_half) AND NOT KH_EXTENDED_SCAN\<rparr>))"

definition process_extended_scan :: "u32 \<Rightarrow> bool \<Rightarrow> keyhelp \<Rightarrow> u32 \<times> keyhelp" where
  "process_extended_scan keypress pressed h =
     (let k = keypress AND 0x7F
      in if k = 0x2A then print_screen_stage KH_PRSCR_DOWN_SCAN KH_PRSCR_UP_SCAN h
         else if k = 0x37 then print_screen_stage KH_PRSCR_UP_SCAN KH_PRSCR_DOWN_SCAN h
         else let (res, h) = take_action (map_of extended_keys k) pressed h
              in (res, h\<lparr>key_internal_state := key_internal_state h AND NOT KH_EXTENDED_SCAN\<rparr>))"

text \<open>The branch \<open>default\<close>, and the end of \<open>process_scancode\<close>.\<close>

definition scan_default :: "u32 \<Rightarrow> bool \<Rightarrow> keyhelp \<Rightarrow> u32 \<times> keyhelp" where
  "scan_default keycode pressed h =
     process_simple_scan keycode pressed
       (h\<lparr>key_internal_state := key_internal_state h AND NOT (KH_PRSCR_UP_SCAN OR KH_PRSCR_DOWN_SCAN)\<rparr>)"

definition scan_result :: "bool \<Rightarrow> u32 \<times> keyhelp \<Rightarrow> u32 \<times> keyhelp" where
  "scan_result pressed rh =
     (let (res, h) = rh;
          res = (if pressed then res OR push_bit 16 KH_RESULT_MAKE else res)
      in (res OR push_bit 16 (scast (key_state h) AND 0xFF00), h))"

definition process_scancode :: "u32 \<Rightarrow> keyhelp \<Rightarrow> u32 \<times> keyhelp" where
  "process_scancode keypress h =
     (let pressed = (keypress AND 0x80 = 0); keycode = keypress AND 0x7F
      in if key_internal_state h AND KH_EXTENDED_SCAN \<noteq> 0 then
           scan_result pressed (process_extended_scan keycode pressed h)
         else if keypress AND 0xFF = 0x9D then
           let (stage, h) = pause_stage 3 h
           in if stage then (0, h) else scan_result pressed (scan_default keycode pressed h)
         else if keypress AND 0xFF = 0xC5 then
           if key_internal_state h AND KH_PAUSE_SCAN \<noteq> 0 \<and> key_sequence h = 4 then
             scan_result pressed
               (ucast KHE_PAUSE OR push_bit 8 (ucast KHE_PAUSE) OR push_bit 16 KH_RESULT_HASDATA,
                h\<lparr>key_internal_state := key_internal_state h AND NOT KH_PAUSE_SCAN\<rparr>)
           else scan_result pressed (scan_default keycode pressed
                  (h\<lparr>key_internal_state := key_internal_state h AND NOT KH_PAUSE_SCAN, key_sequence := 0\<rparr>))
         else if keypress AND 0xFF = 0xE0 then
           (push_bit 16 (scast (key_state h)),
            h\<lparr>key_internal_state := key_internal_state h OR KH_EXTENDED_SCAN\<rparr>)
         else scan_result pressed (scan_default keycode pressed h))"

end
