(* ===== verification/Key_Events.thy ===== *)
theory Key_Events
  imports Keyhelp
begin

text \<open>
  What the keyboard sends, and what \<open>process_scancode\<close> makes of it: every event on the keyboard is decoded into one
  result, whatever came before it, and the modifier keys of the state are those that are down.
\<close>

section \<open>The fields of a result\<close>

declare bit_numeral_word_iff [simp del] push_bit_and [simp del]

lemma bit_flags: "bit (0x10000 :: u32) n \<longleftrightarrow> n = 16" "bit (0x20000 :: u32) n \<longleftrightarrow> n = 17" "bit (0x40000 :: u32) n \<longleftrightarrow> n = 18"
  "bit (0x80000 :: u32) n \<longleftrightarrow> n = 19"
proof -
  have b: "bit ((2 :: u32) ^ k) n \<longleftrightarrow> n = k" if "k < 32" for k using that by (auto simp: bit_exp_iff)
  show "bit (0x10000 :: u32) n \<longleftrightarrow> n = 16" "bit (0x20000 :: u32) n \<longleftrightarrow> n = 17" "bit (0x40000 :: u32) n \<longleftrightarrow> n = 18"
    "bit (0x80000 :: u32) n \<longleftrightarrow> n = 19"
    using b[of 16] b[of 17] b[of 18] b[of 19] by simp_all
qed

lemma bit_ucast_u8: "bit (ucast (x :: u8) :: u32) n \<longleftrightarrow> bit x n"
  using bit_imp_le_length[of x n] by (auto simp: bit_simps)

lemma bit_FF00: "bit (0xFF00 :: u32) n \<longleftrightarrow> 8 \<le> n \<and> n < 16"
proof -
  have "(0xFF00 :: u32) = push_bit 8 (mask 8)" by (simp add: mask_eq_exp_minus_1)
  then show ?thesis by (simp only: bit_push_bit_iff bit_mask_iff) auto
qed

lemma bit_state: "bit (push_bit 16 (scast (ks :: u16) AND 0xFF00) :: u32) n \<longleftrightarrow> 24 \<le> n \<and> n < 32 \<and> bit ks (n - 16)"
proof -
  have "bit ks (n - 16) = bit ks 15" if "15 \<le> n - 16" "n < 32"
  proof -
    have "n - 16 = 15" using that by simp
    then show ?thesis by simp
  qed
  then show ?thesis by (auto simp: bit_push_bit_iff bit_and_iff bit_FF00 bit_signed_iff min_def)
qed

definition has_data :: "u8 \<Rightarrow> u8 \<Rightarrow> bool" where
  "has_data code rcode \<longleftrightarrow> rcode \<noteq> KHE_UNDEFINED \<and> code \<noteq> KHE_UNDEFINED"

lemma bit_kh_result:
  "bit (kh_result res code rcode) n \<longleftrightarrow> bit res n \<or> has_data code rcode \<and> (n = 18 \<or> bit code n) \<or>
     8 \<le> n \<and> n < 32 \<and> bit rcode (n - 8) \<or> n = 19"
  by (auto simp: kh_result_def has_data_def Let_def KH_RESULT_HASDATA_def KH_RESULT_HASRAW_def bit_or_iff bit_flags
      bit_ucast_u8 bit_push_bit_iff)

lemma bit_scan_result:
  "bit (fst (scan_result pressed (r, h))) n \<longleftrightarrow> bit r n \<or> pressed \<and> n = 16 \<or> 24 \<le> n \<and> n < 32 \<and> bit (key_state h) (n - 16)"
  by (auto simp: scan_result_def KH_RESULT_MAKE_def bit_or_iff bit_flags bit_state)

lemma flags_bit: "KH_HASRAW k \<longleftrightarrow> bit k 19" "KH_HASDATA k \<longleftrightarrow> bit k 18" "KH_ISMAKE k \<longleftrightarrow> bit k 16"
proof -
  have a: "drop_bit 16 k AND 2 ^ n \<noteq> 0 \<longleftrightarrow> bit k (16 + n)" for n
    by (simp add: and_exp_eq_0_iff_not_bit bit_drop_bit_eq add.commute)
  show "KH_HASRAW k \<longleftrightarrow> bit k 19" using a[of 3] by (simp add: KH_HASRAW_def KH_RESULT_HASRAW_def)
  show "KH_HASDATA k \<longleftrightarrow> bit k 18" using a[of 2] by (simp add: KH_HASDATA_def KH_RESULT_HASDATA_def)
  show "KH_ISMAKE k \<longleftrightarrow> bit k 16" using a[of 0] by (simp add: KH_ISMAKE_def KH_RESULT_MAKE_def)
qed

lemma bit_FF: "bit (0xFF :: u32) n \<longleftrightarrow> n < 8"
  using bit_mask_iff[where 'a = "32 word", of 8 n] by (auto simp: mask_eq_exp_minus_1)

lemma bit_fields: "bit (KH_GETRAW k) n \<longleftrightarrow> n < 8 \<and> bit k (n + 8)" "bit (KH_GETCHAR k) n \<longleftrightarrow> n < 8 \<and> bit k n"
  "bit (KH_STATE k) n \<longleftrightarrow> 8 \<le> n \<and> n < 16 \<and> bit k (n + 16)"
  by (auto simp: KH_GETRAW_def KH_GETCHAR_def KH_STATE_def bit_and_iff bit_drop_bit_eq bit_FF bit_FF00 add.commute)

text \<open>The result for a key.\<close>

lemma result_fields:
  assumes "res = 0 \<or> res = push_bit 16 KH_RESULT_NUMPAD" "r = fst (scan_result pressed (kh_result res code rcode, h))"
  shows "KH_HASRAW r" "KH_HASDATA r \<longleftrightarrow> has_data code rcode" "KH_ISMAKE r \<longleftrightarrow> pressed" "KH_GETRAW r = ucast rcode"
    "KH_GETCHAR r = (if has_data code rcode then ucast code else 0)" "KH_STATE r = ucast (key_state h) AND 0xFF00"
proof -
  have res: "bit res n \<Longrightarrow> n = 17" for n using assms(1) by (auto simp: KH_RESULT_NUMPAD_def bit_flags)
  have u8: "bit (x :: u8) n \<Longrightarrow> n < 8" for x n using bit_imp_le_length by fastforce
  note b = assms(2) bit_scan_result bit_kh_result flags_bit bit_fields
  show "KH_HASRAW r" by (simp add: b)
  show "KH_HASDATA r \<longleftrightarrow> has_data code rcode" using res[of 18] u8[of rcode 10] u8[of code 18] by (auto simp: b)
  show "KH_ISMAKE r \<longleftrightarrow> pressed" using res[of 16] u8[of rcode 8] u8[of code 16] by (auto simp: b)
  show "KH_GETRAW r = ucast rcode"
    by (rule bit_eqI) (use u8 in \<open>fastforce simp: b bit_ucast_u8 dest: res u8\<close>)
  show "KH_GETCHAR r = (if has_data code rcode then ucast code else 0)"
    by (rule bit_eqI) (auto simp: b bit_ucast_u8 dest: res u8)
  show "KH_STATE r = ucast (key_state h) AND 0xFF00"
    by (rule bit_eqI) (auto simp: b bit_and_iff bit_FF00 bit_unsigned_iff dest: res u8)
qed

section \<open>What the keyboard sends\<close>

text \<open>A key goes down or up; the keys with a prefix; the two keys with a sequence of their own.\<close>

datatype key_event = Key u32 bool | Ext u32 bool | Print_Screen bool | Pause

fun scan_codes :: "key_event \<Rightarrow> u32 list" where
  "scan_codes (Key k down) = [if down then k else k OR 0x80]"
| "scan_codes (Ext k down) = [0xE0, if down then k else k OR 0x80]"
| "scan_codes (Print_Screen down) = (if down then [0xE0, 0x2A, 0xE0, 0x37] else [0xE0, 0xB7, 0xE0, 0xAA])"
| "scan_codes Pause = [0xE1, 0x1D, 0x45, 0xE1, 0x9D, 0xC5]"

fun key_event_ok :: "key_event \<Rightarrow> bool" where
  "key_event_ok (Key k down) \<longleftrightarrow> k < 0x60"
| "key_event_ok (Ext k down) \<longleftrightarrow> k < 0x80 \<and> k \<noteq> 0x2A \<and> k \<noteq> 0x37"
| "key_event_ok _ \<longleftrightarrow> True"

fun goes_down :: "key_event \<Rightarrow> bool" where
  "goes_down (Key k down) = down"
| "goes_down (Ext k down) = down"
| "goes_down (Print_Screen down) = down"
| "goes_down Pause = True"

fun process_scancodes :: "u32 list \<Rightarrow> keyhelp \<Rightarrow> u32 list \<times> keyhelp" where
  "process_scancodes [] h = ([], h)"
| "process_scancodes (k # ks) h =
     (let (r, h) = process_scancode k h; (rs, h) = process_scancodes ks h in (r # rs, h))"

text \<open>What an event means: its branch, its raw code, its character, and the modifier keys after it.\<close>

fun event_action :: "key_event \<Rightarrow> key_action" where
  "event_action (Key k down) = (case map_of simple_keys k of Some a \<Rightarrow> a | None \<Rightarrow> Fixed KHE_UNDEFINED)"
| "event_action (Ext k down) = (case map_of extended_keys k of Some a \<Rightarrow> a | None \<Rightarrow> Fixed KHE_UNDEFINED)"
| "event_action (Print_Screen down) = Fixed KHE_PRINT_SCREEN"
| "event_action Pause = Fixed KHE_PAUSE"

definition event_state :: "key_event \<Rightarrow> u16 \<Rightarrow> u16" where
  "event_state e ks = action_state (event_action e) (goes_down e) ks"

definition idle :: "keyhelp \<Rightarrow> bool" where
  "idle h \<longleftrightarrow> key_internal_state h = 0 \<and> key_state h AND 0xFF = 0"

text \<open>A caller may use a result that has a raw code or data.  The flag of the raw code and the one of a key that goes
  down are right for every event but Pause, whose result has neither, though it is reported as the key goes down.\<close>

definition answers :: "u32 list \<Rightarrow> u32 list" where
  "answers rs = [r \<leftarrow> rs. KH_HASRAW r \<or> KH_HASDATA r]"

definition result_of :: "key_event \<Rightarrow> u16 \<Rightarrow> u32 \<Rightarrow> bool" where
  "result_of e ks r \<longleftrightarrow>
     (let a = event_action e; c = action_code a ks
      in (KH_HASRAW r \<longleftrightarrow> e \<noteq> Pause) \<and> (KH_HASDATA r \<longleftrightarrow> has_data c (action_raw a)) \<and> KH_GETRAW r = ucast (action_raw a) \<and>
         (KH_HASDATA r \<longrightarrow> KH_GETCHAR r = ucast c) \<and> (KH_ISMAKE r \<longleftrightarrow> goes_down e \<and> e \<noteq> Pause) \<and>
         KH_STATE r = ucast (event_state e ks))"

lemma result_of_answer: "result_of e ks r \<Longrightarrow> KH_HASRAW r \<or> KH_HASDATA r"
  by (cases "e = Pause") (auto simp: result_of_def has_data_def Let_def KHE_PAUSE_def KHE_UNDEFINED_def)

section \<open>One event\<close>

lemma bit_80: "bit (0x80 :: u32) n \<longleftrightarrow> n = 7" "bit (0x7F :: u32) n \<longleftrightarrow> n < 7"
proof -
  have "bit ((2 :: u32) ^ k) n \<longleftrightarrow> n = k" if "k < 32" for k using that by (auto simp: bit_exp_iff)
  from this[of 7] show "bit (0x80 :: u32) n \<longleftrightarrow> n = 7" by simp
  show "bit (0x7F :: u32) n \<longleftrightarrow> n < 7"
    using bit_mask_iff[where 'a = "32 word", of 7 n] by (auto simp: mask_eq_exp_minus_1)
qed

lemma bit_code: "(k :: u32) < 0x80 \<Longrightarrow> bit k n \<Longrightarrow> n < 7"
proof -
  assume k: "k < 0x80" "bit k n"
  have "unat k < 128" using k(1) by (simp add: word_less_nat_alt)
  then have "unat (take_bit 7 k) = unat k" by (simp add: unsigned_take_bit_eq take_bit_nat_eq_self)
  then have "take_bit 7 k = k" by (rule unsigned_word_eqI)
  then show "n < 7" using k(2) by (metis bit_take_bit_iff)
qed

lemma code_bits:
  assumes "(k :: u32) < 0x80"
  shows "k AND 0x7F = k" "(k OR 0x80) AND 0x7F = k" "k AND 0x80 = 0" "(k OR 0x80) AND 0x80 \<noteq> 0" "k AND 0xFF = k"
    "(k OR 0x80) AND 0xFF = k OR 0x80"
proof -
  note b = bit_and_iff bit_or_iff bit_80 bit_FF
  show "k AND 0x7F = k" "(k OR 0x80) AND 0x7F = k" "k AND 0x80 = 0" "k AND 0xFF = k" "(k OR 0x80) AND 0xFF = k OR 0x80"
    by (rule bit_eqI; use bit_code[OF assms] in \<open>fastforce simp: b\<close>)+
  have "bit ((k OR 0x80) AND 0x80) 7" by (simp add: b)
  then show "(k OR 0x80) AND 0x80 \<noteq> 0" by auto
qed

lemma code_up: "(k :: u32) < 0x80 \<Longrightarrow> j < 0x80 \<Longrightarrow> k OR 0x80 = j OR 0x80 \<longleftrightarrow> k = j"
  using code_bits(2) by metis

text \<open>The branches keep the low byte of the modifier keys clear.\<close>

fun action_ok :: "key_action \<Rightarrow> bool" where
  "action_ok (Modifier r k) \<longleftrightarrow> k AND 0xFF = 0"
| "action_ok (Lock r k) \<longleftrightarrow> k AND 0xFF = 0"
| "action_ok _ \<longleftrightarrow> True"

lemmas key_defs = number_row_def upper_row_def middle_row_def lower_row_def function_keys_def numpad_keys_def
lemmas modifier_defs = KH_LSHIFT_KEY_def KH_RSHIFT_KEY_def KH_LCONTROL_KEY_def KH_RCONTROL_KEY_def KH_LALT_KEY_def
  KH_RALT_KEY_def KH_CAPS_LOCK_def KH_NUM_LOCK_def

lemma modifier_low: "KH_LSHIFT_KEY AND 0xFF = 0" "KH_RSHIFT_KEY AND 0xFF = 0" "KH_LCONTROL_KEY AND 0xFF = 0"
  "KH_RCONTROL_KEY AND 0xFF = 0" "KH_LALT_KEY AND 0xFF = 0" "KH_RALT_KEY AND 0xFF = 0" "KH_CAPS_LOCK AND 0xFF = 0"
  "KH_NUM_LOCK AND 0xFF = 0"
  by (simp_all add: modifier_defs)

lemma actions_ok: "map_of simple_keys k = Some a \<Longrightarrow> action_ok a" "map_of extended_keys k = Some a \<Longrightarrow> action_ok a"
proof -
  have "list_all (\<lambda>x. action_ok (snd x)) simple_keys" "list_all (\<lambda>x. action_ok (snd x)) extended_keys"
    by (simp_all only: simple_keys_def extended_keys_def key_defs append_Cons append_Nil list.pred_inject snd_conv action_ok.simps
        simp_thms modifier_low)
  then show "map_of simple_keys k = Some a \<Longrightarrow> action_ok a" "map_of extended_keys k = Some a \<Longrightarrow> action_ok a"
    by (auto simp: list_all_iff dest!: map_of_SomeD)
qed

lemma action_state_low:
  assumes "ks AND 0xFF = 0" "action_ok a"
  shows "action_state a p ks AND 0xFF = 0"
proof -
  have "(ks AND x) AND 0xFF = (ks AND 0xFF) AND x" for x by (rule bit_eqI) (auto simp only: bit_and_iff)
  then have "(ks AND x) AND 0xFF = 0" for x using assms(1) by simp
  moreover have "(ks OR x) AND 0xFF = 0" if "x AND 0xFF = 0" for x using assms(1) that by (simp only: bit.conj_disj_distrib2 or.right_neutral)
  ultimately show ?thesis using assms by (cases a) simp_all
qed

lemma event_action_ok: "action_ok (event_action e)"
  using actions_ok by (cases e) (auto split: option.split)

lemma event_state_low: "ks AND 0xFF = 0 \<Longrightarrow> event_state e ks AND 0xFF = 0"
  unfolding event_state_def by (rule action_state_low[OF _ event_action_ok])

lemma take_action_alt:
  "take_action act down h =
     (let a = (case act of Some a \<Rightarrow> a | None \<Rightarrow> Fixed KHE_UNDEFINED)
      in (kh_result (action_res a) (action_code a (key_state h)) (action_raw a), h\<lparr>key_state := action_state a down (key_state h)\<rparr>))"
  by (simp add: take_action_def action_res_def split: option.split)

text \<open>The result of a branch.\<close>

lemma state_high: "(ks :: u16) AND 0xFF = 0 \<Longrightarrow> (ucast ks :: u32) AND 0xFF00 = ucast ks"
proof (rule bit_eqI)
  fix n assume ks: "ks AND 0xFF = 0"
  have "bit (ks AND 0xFF) n \<longleftrightarrow> bit ks n \<and> n < 8"
    using bit_mask_iff[where 'a = "16 word", of 8 n] by (auto simp: mask_eq_exp_minus_1 bit_and_iff)
  then show "bit ((ucast ks :: u32) AND 0xFF00) n = bit (ucast ks :: u32) n"
    using ks bit_imp_le_length[of ks n] by (auto simp: bit_and_iff bit_FF00 bit_unsigned_iff)
qed

lemma action_result:
  assumes "a = event_action e" "key_state h AND 0xFF = 0" "key_state h' = event_state e (key_state h)" "e \<noteq> Pause"
  shows "result_of e (key_state h) (fst (scan_result (goes_down e)
    (kh_result (action_res a) (action_code a (key_state h)) (action_raw a), h')))"
proof -
  have "action_res a = 0 \<or> action_res a = push_bit 16 KH_RESULT_NUMPAD" by (cases a) (simp_all add: action_res_def)
  note f = result_fields[OF this[unfolded assms(1)] refl]
  show ?thesis unfolding result_of_def Let_def
    by (simp only: f assms(1,3) state_high[OF event_state_low[OF assms(2)]] if_True simp_thms split: if_splits) (simp add: assms(4))
qed

text \<open>A key without a prefix, and one with it.\<close>

lemma scan_simple:
  assumes "idle h" "(k :: u32) < 0x60"
  shows "\<exists>q. process_scancode (if down then k else k OR 0x80) h = scan_result down (take_action (map_of simple_keys k) down (h\<lparr>key_sequence := q\<rparr>))"
proof -
  have k: "k < 0x80" "k \<noteq> 0x61" "k \<noteq> 0x60" using assms(2) by (auto simp: word_less_nat_alt)
  note b = code_bits[OF k(1)]
  obtain ks s0 where i: "h = \<lparr>key_state = ks, key_internal_state = 0, key_sequence = s0\<rparr>"
    using assms(1) by (cases h) (auto simp: idle_def)
  have up: "k OR 0x80 = 0x9D \<longleftrightarrow> k = 0x1D" "k OR 0x80 = 0xC5 \<longleftrightarrow> k = 0x45" "k OR 0x80 \<noteq> 0xE0"
    using code_up[OF k(1), of "0x1D"] code_up[OF k(1), of "0x45"] code_up[OF k(1), of "0x60"] k(3) by simp_all
  have lo: "k \<noteq> 0x9D" "k \<noteq> 0xC5" "k \<noteq> 0xE0" using k(1) by auto
  have s: "\<exists>q. scan_default k down (h\<lparr>key_sequence := s\<rparr>) = take_action (map_of simple_keys k) down (h\<lparr>key_sequence := q\<rparr>)" for s
    using k(2) i by (auto simp: scan_default_def process_simple_scan_def b pause_stage_def Let_def)
  show ?thesis
  proof (cases down)
    case True
    then show ?thesis using s[of s0] by (auto simp: process_scancode_def b i lo Let_def)
  next
    case False
    then show ?thesis using s[of 0] s[of s0] by (auto simp: process_scancode_def b i up pause_stage_def Let_def)
  qed
qed

lemma scan_ext:
  assumes "idle h" "(k :: u32) < 0x80" "k \<noteq> 0x2A" "k \<noteq> 0x37"
  shows "process_scancodes [0xE0, if down then k else k OR 0x80] h =
    (let (r, h') = scan_result down (take_action (map_of extended_keys k) down h) in ([push_bit 16 (scast (key_state h)), r], h'))"
proof -
  note b = code_bits[OF assms(2)]
  obtain ks s0 where i: "h = \<lparr>key_state = ks, key_internal_state = 0, key_sequence = s0\<rparr>"
    using assms(1) by (cases h) (auto simp: idle_def)
  define code where "code = (if down then k else k OR 0x80)"
  have c: "(code AND 0x80 = 0) = down" "code AND 0x7F = k" using b by (simp_all add: code_def)
  have "process_scancode code (h\<lparr>key_internal_state := KH_EXTENDED_SCAN\<rparr>) =
      scan_result down (take_action (map_of extended_keys k) down h)"
    using assms(3,4) b(1)
    by (simp add: process_scancode_def c process_extended_scan_def i KH_EXTENDED_SCAN_def take_action_alt scan_result_def Let_def)
  then show ?thesis unfolding code_def[symmetric]
    by (simp add: process_scancode_def[of "0xE0"] i KH_EXTENDED_SCAN_def split: prod.split)
qed

text \<open>The bytes before the last one of a sequence give no answer.\<close>

lemma low_bit: "(ks :: u16) AND 0xFF = 0 \<Longrightarrow> n < 8 \<Longrightarrow> \<not> bit ks n"
  using bit_mask_iff[where 'a = "16 word", of 8 n] bit_and_iff[of ks "0xFF" n] by (auto simp: mask_eq_exp_minus_1)

lemma no_answer:
  assumes "idle h"
  shows "answers [push_bit 16 (scast (key_state h))] = []" "answers [fst (scan_result down (0, h))] = []"
  using low_bit[of "key_state h" 2] low_bit[of "key_state h" 3] assms
  by (simp_all add: answers_def flags_bit bit_scan_result idle_def bit_push_bit_iff bit_signed_iff min_def)

lemma answers_append [simp]: "answers (xs @ ys) = answers xs @ answers ys"
  by (simp add: answers_def)

lemma pause_result:
  assumes "key_state h AND 0xFF = 0"
  shows "result_of Pause (key_state h) (fst (scan_result False
    (ucast KHE_PAUSE OR push_bit 8 (ucast KHE_PAUSE) OR push_bit 16 KH_RESULT_HASDATA, h)))"
    (is "result_of _ _ ?r")
proof -
  have u8: "bit KHE_PAUSE n \<Longrightarrow> n < 8" for n using bit_imp_le_length[of KHE_PAUSE] by fastforce
  have b: "bit ?r n \<longleftrightarrow> bit KHE_PAUSE n \<or> 8 \<le> n \<and> n < 32 \<and> bit KHE_PAUSE (n - 8) \<or> n = 18 \<or>
      24 \<le> n \<and> n < 32 \<and> bit (key_state h) (n - 16)" for n
    by (auto simp: bit_scan_result bit_or_iff bit_ucast_u8 bit_push_bit_iff KH_RESULT_HASDATA_def bit_flags)
  have "KH_GETRAW ?r = ucast KHE_PAUSE" "KH_GETCHAR ?r = ucast KHE_PAUSE"
    by (rule bit_eqI; auto simp: bit_fields b bit_ucast_u8 dest: u8)+
  moreover have "KH_STATE ?r = ucast (key_state h) AND 0xFF00"
    by (rule bit_eqI) (auto simp: bit_fields b bit_and_iff bit_FF00 bit_unsigned_iff dest: u8)
  moreover have "KH_HASDATA ?r" "\<not> KH_ISMAKE ?r" "\<not> KH_HASRAW ?r"
    using u8[of 16] u8[of 8] u8[of 19] u8[of 11] by (auto simp: flags_bit b)
  ultimately show ?thesis
    by (simp add: result_of_def has_data_def event_state_def state_high[OF assms] KHE_PAUSE_def KHE_UNDEFINED_def)
qed

lemma action_event:
  assumes "idle h" "event_action e = (case act of Some a \<Rightarrow> a | None \<Rightarrow> Fixed KHE_UNDEFINED)" "e \<noteq> Pause"
  shows "\<exists>r h'. scan_result (goes_down e) (take_action act (goes_down e) h) = (r, h') \<and> result_of e (key_state h) r \<and>
    idle h' \<and> key_state h' = event_state e (key_state h)"
proof -
  have low: "key_state h AND 0xFF = 0" using assms(1) by (simp add: idle_def)
  let ?h = "h\<lparr>key_state := event_state e (key_state h)\<rparr>"
  have "take_action act (goes_down e) h =
      (kh_result (action_res (event_action e)) (action_code (event_action e) (key_state h)) (action_raw (event_action e)), ?h)"
    by (simp add: take_action_alt assms(2)[symmetric] event_state_def Let_def)
  moreover have "snd (scan_result (goes_down e) (x, ?h)) = ?h" for x by (simp add: scan_result_def Let_def)
  moreover have "idle ?h" using assms(1) event_state_low[OF low] by (simp add: idle_def)
  ultimately show ?thesis using action_result[OF refl low _ assms(3), of ?h] by (metis prod.collapse select_convs(1) surjective update_convs(1))
qed

definition decodes :: "key_event \<Rightarrow> keyhelp \<Rightarrow> bool" where
  "decodes e h \<longleftrightarrow> (\<exists>rs r h'. process_scancodes (scan_codes e) h = (rs @ [r], h') \<and> answers rs = [] \<and>
    result_of e (key_state h) r \<and> idle h' \<and> key_state h' = event_state e (key_state h))"

lemma decodes_key:
  assumes "idle h" "key_event_ok e" and Key: "e = Key k down"
  shows "decodes e h"
proof -
  obtain q where q: "process_scancode (if down then k else k OR 0x80) h =
      scan_result down (take_action (map_of simple_keys k) down (h\<lparr>key_sequence := q\<rparr>))"
    using scan_simple[OF assms(1)] assms(2) Key by auto
  have "idle (h\<lparr>key_sequence := q\<rparr>)" using assms(1) by (simp add: idle_def)
  from action_event[OF this, of e "map_of simple_keys k"] obtain r h' where
    "scan_result down (take_action (map_of simple_keys k) down (h\<lparr>key_sequence := q\<rparr>)) = (r, h')" "result_of e (key_state h) r"
    "idle h'" "key_state h' = event_state e (key_state h)" by (auto simp: Key)
  then show ?thesis unfolding decodes_def using q by (intro exI[of _ "[]"]) (simp add: Key answers_def)
qed

lemma decodes_ext:
  assumes "idle h" "key_event_ok e" and Ext: "e = Ext k down"
  shows "decodes e h"
proof -
  from action_event[OF assms(1), of e "map_of extended_keys k"] obtain r h' where
    "scan_result down (take_action (map_of extended_keys k) down h) = (r, h')" "result_of e (key_state h) r"
    "idle h'" "key_state h' = event_state e (key_state h)" by (auto simp: Ext)
  then show ?thesis unfolding decodes_def
    using scan_ext[OF assms(1), of k down] assms(2) no_answer(1)[OF assms(1)]
    by (intro exI[of _ "[push_bit 16 (scast (key_state h))]"]) (simp add: Ext)
qed

lemma decodes_print_screen:
  assumes "idle h" and Print_Screen: "e = Print_Screen down"
  shows "decodes e h"
proof -
  from action_event[OF assms(1), of e "Some (Fixed KHE_PRINT_SCREEN)"] obtain r h' where
    "scan_result down (take_action (Some (Fixed KHE_PRINT_SCREEN)) down h) = (r, h')" "result_of e (key_state h) r"
    "idle h'" "key_state h' = event_state e (key_state h)" by (auto simp: Print_Screen)
  moreover obtain ks s0 where h: "h = \<lparr>key_state = ks, key_internal_state = 0, key_sequence = s0\<rparr>"
    using assms(1) by (cases h) (auto simp: idle_def)
  let ?p = "push_bit 16 (scast (key_state h))"
  have "process_scancodes (scan_codes e) h =
      (let (r, h') = scan_result down (take_action (Some (Fixed KHE_PRINT_SCREEN)) down h)
       in ([?p, fst (scan_result down (0, h)), ?p, r], h'))"
    by (cases down) (simp_all add: Print_Screen h process_scancode_def process_extended_scan_def print_screen_stage_def
        KH_EXTENDED_SCAN_def KH_PRSCR_UP_SCAN_def KH_PRSCR_DOWN_SCAN_def take_action_def action_res_def scan_result_def Let_def)
  ultimately show ?thesis unfolding decodes_def
    using no_answer(1)[OF assms(1)] no_answer(2)[OF assms(1), of down]
    by (intro exI[of _ "[?p, fst (scan_result down (0, h)), ?p]"]) (auto simp: answers_def split: if_splits)
qed

lemma decodes_pause:
  assumes "idle h" and Pause: "e = Pause"
  shows "decodes e h"
proof -
  obtain ks s0 where h: "h = \<lparr>key_state = ks, key_internal_state = 0, key_sequence = s0\<rparr>"
    using assms(1) by (cases h) (auto simp: idle_def)
  let ?n = "\<lambda>down. fst (scan_result down (0, h))"
  have "process_scancodes (scan_codes e) h =
      ([?n False, ?n True, ?n True, ?n False, 0] @ [fst (scan_result False
         (ucast KHE_PAUSE OR push_bit 8 (ucast KHE_PAUSE) OR push_bit 16 KH_RESULT_HASDATA, h))], h\<lparr>key_sequence := 4\<rparr>)"
    by (simp add: Pause h process_scancode_def scan_default_def process_simple_scan_def pause_stage_def KH_PAUSE_SCAN_def
        KH_EXTENDED_SCAN_def KH_PRSCR_UP_SCAN_def KH_PRSCR_DOWN_SCAN_def scan_result_def Let_def)
  moreover have "answers [?n False, ?n True, ?n True, ?n False, 0] = []"
    using no_answer(2)[OF assms(1), of True] no_answer(2)[OF assms(1), of False] by (simp add: answers_def flags_bit split: if_splits)
  ultimately show ?thesis unfolding decodes_def using assms(1) pause_result[of h]
    by (intro exI) (auto simp: Pause idle_def event_state_def)
qed

lemma scan_event: "idle h \<Longrightarrow> key_event_ok e \<Longrightarrow> decodes e h"
  using decodes_key decodes_ext decodes_print_screen decodes_pause by (cases e) blast+

section \<open>All events\<close>

lemma process_scancodes_append:
  "process_scancodes (xs @ ys) h =
     (let (rs, h) = process_scancodes xs h; (rs', h) = process_scancodes ys h in (rs @ rs', h))"
  by (induction xs arbitrary: h) (simp_all add: Let_def split: prod.split)

lemma scan_events:
  assumes "idle h" "\<forall>e\<in>set evs. key_event_ok e"
  shows "\<exists>rs h'. process_scancodes (concat (map scan_codes evs)) h = (rs, h') \<and> length (answers rs) = length evs \<and>
    (\<forall>i<length evs. result_of (evs ! i) (fold event_state (take i evs) (key_state h)) (answers rs ! i)) \<and>
    idle h' \<and> key_state h' = fold event_state evs (key_state h)"
  using assms
proof (induction evs arbitrary: h)
  case (Cons e evs)
  from Cons.prems scan_event[of h e, unfolded decodes_def] obtain rs r h1 where e: "process_scancodes (scan_codes e) h = (rs @ [r], h1)"
    "answers rs = []" "result_of e (key_state h) r" "idle h1" "key_state h1 = event_state e (key_state h)" by auto
  from Cons.IH[OF e(4)] Cons.prems(2) obtain rs' h' where IH: "process_scancodes (concat (map scan_codes evs)) h1 = (rs', h')"
    "length (answers rs') = length evs"
    "\<forall>i<length evs. result_of (evs ! i) (fold event_state (take i evs) (key_state h1)) (answers rs' ! i)"
    "idle h'" "key_state h' = fold event_state evs (key_state h1)" by auto
  have "KH_HASRAW r \<or> KH_HASDATA r" by (rule result_of_answer[OF e(3)])
  then have "answers [r] = [r]" by (simp add: answers_def)
  then have "answers (rs @ [r] @ rs') = r # answers rs'" by (simp only: answers_append e(2)) simp
  then show ?case using e IH by (auto simp: process_scancodes_append less_Suc_eq_0_disj nth_Cons')
qed (simp add: answers_def)

section \<open>The modifier keys\<close>

fun action_mask :: "key_action \<Rightarrow> u16" where
  "action_mask (Modifier r k) = k"
| "action_mask (Lock r k) = k"
| "action_mask _ = 0"

lemma modifier_nonzero [simp]: "KH_LSHIFT_KEY \<noteq> 0" "KH_RSHIFT_KEY \<noteq> 0" "KH_LCONTROL_KEY \<noteq> 0" "KH_RCONTROL_KEY \<noteq> 0"
  "KH_LALT_KEY \<noteq> 0" "KH_RALT_KEY \<noteq> 0" "KH_CAPS_LOCK \<noteq> 0" "KH_NUM_LOCK \<noteq> 0"
  by (simp_all add: modifier_defs)

lemma simple_masks:
  "filter (\<lambda>(k, m). m \<noteq> 0) (map (\<lambda>(k, a). (k, action_mask a)) simple_keys) =
     [(0x1D, KH_LCONTROL_KEY), (0x2A, KH_LSHIFT_KEY), (0x36, KH_RSHIFT_KEY), (0x38, KH_LALT_KEY), (0x3A, KH_CAPS_LOCK),
      (0x45, KH_NUM_LOCK)]"
  "filter (\<lambda>(k, m). m \<noteq> 0) (map (\<lambda>(k, a). (k, action_mask a)) extended_keys) =
     [(0x1D, KH_RCONTROL_KEY), (0x38, KH_RALT_KEY)]"
  by (simp_all only: simple_keys_def extended_keys_def key_defs append_Cons append_Nil list.map filter.simps prod.case
        action_mask.simps modifier_nonzero if_True if_False simp_thms cong: if_weak_cong)

lemma map_of_nonzero:
  "map_of xs k = Some a \<Longrightarrow> action_mask a \<noteq> 0 \<Longrightarrow> (k, action_mask a) \<in> set (filter (\<lambda>(k, m). m \<noteq> 0) (map (\<lambda>(k, a). (k, action_mask a)) xs))"
  by (force dest: map_of_SomeD)

definition modifier_events :: "(bool \<Rightarrow> key_event) list" where
  "modifier_events = [Key 0x1D, Key 0x2A, Key 0x36, Key 0x38, Key 0x3A, Key 0x45, Ext 0x1D, Ext 0x38]"

lemma plain_event:
  assumes "\<forall>mk\<in>set modifier_events. \<forall>down. e \<noteq> mk down"
  shows "event_state e ks = ks"
proof -
  have "action_mask (event_action e) = 0"
  proof (rule ccontr)
    assume m: "action_mask (event_action e) \<noteq> 0"
    have "(k, action_mask a) \<in> set (filter (\<lambda>(k, m). m \<noteq> 0) (map (\<lambda>(k, a). (k, action_mask a)) simple_keys))"
      if "e = Key k d" "map_of simple_keys k = Some a" for k d a using map_of_nonzero[OF that(2)] m that by simp
    moreover have "(k, action_mask a) \<in> set (filter (\<lambda>(k, m). m \<noteq> 0) (map (\<lambda>(k, a). (k, action_mask a)) extended_keys))"
      if "e = Ext k d" "map_of extended_keys k = Some a" for k d a using map_of_nonzero[OF that(2)] m that by simp
    ultimately show False using m assms unfolding simple_masks modifier_events_def
      by (cases e) (auto split: option.splits)
  qed
  moreover have "action_mask a = 0 \<Longrightarrow> action_state a d ks = ks" for a d by (cases a) auto
  ultimately show ?thesis by (simp add: event_state_def)
qed

lemma modifier_actions:
  "map_of simple_keys 0x1D = Some (Modifier KHE_LCTL KH_LCONTROL_KEY)" "map_of simple_keys 0x2A = Some (Modifier KHE_LSHIFT KH_LSHIFT_KEY)"
  "map_of simple_keys 0x36 = Some (Modifier KHE_RSHIFT KH_RSHIFT_KEY)" "map_of simple_keys 0x38 = Some (Modifier KHE_LALT KH_LALT_KEY)"
  "map_of simple_keys 0x3A = Some (Lock KHE_CAPSLOCK KH_CAPS_LOCK)" "map_of simple_keys 0x45 = Some (Lock KHE_NUMLOCK KH_NUM_LOCK)"
  "map_of extended_keys 0x1D = Some (Modifier KHE_RCTL KH_RCONTROL_KEY)" "map_of extended_keys 0x38 = Some (Modifier KHE_RALT KH_RALT_KEY)"
  by (simp_all add: simple_keys_def extended_keys_def key_defs)

lemma bit_modifier: "bit KH_LSHIFT_KEY n \<longleftrightarrow> n = 15" "bit KH_RSHIFT_KEY n \<longleftrightarrow> n = 14" "bit KH_LCONTROL_KEY n \<longleftrightarrow> n = 13"
  "bit KH_RCONTROL_KEY n \<longleftrightarrow> n = 12" "bit KH_LALT_KEY n \<longleftrightarrow> n = 11" "bit KH_RALT_KEY n \<longleftrightarrow> n = 10" "bit KH_CAPS_LOCK n \<longleftrightarrow> n = 9"
  "bit KH_NUM_LOCK n \<longleftrightarrow> n = 8"
proof -
  have b: "bit ((2 :: u16) ^ k) n \<longleftrightarrow> n = k" if "k < 16" for k using that by (auto simp: bit_exp_iff)
  show "bit KH_LSHIFT_KEY n \<longleftrightarrow> n = 15" "bit KH_RSHIFT_KEY n \<longleftrightarrow> n = 14" "bit KH_LCONTROL_KEY n \<longleftrightarrow> n = 13"
    "bit KH_RCONTROL_KEY n \<longleftrightarrow> n = 12" "bit KH_LALT_KEY n \<longleftrightarrow> n = 11" "bit KH_RALT_KEY n \<longleftrightarrow> n = 10" "bit KH_CAPS_LOCK n \<longleftrightarrow> n = 9"
    "bit KH_NUM_LOCK n \<longleftrightarrow> n = 8"
    using b[of 15] b[of 14] b[of 13] b[of 12] b[of 11] b[of 10] b[of 9] b[of 8] by (simp_all add: modifier_defs)
qed

lemma and_bit: "(\<And>n. bit (m :: u16) n \<longleftrightarrow> n = k) \<Longrightarrow> x AND m = 0 \<longleftrightarrow> \<not> bit x k"
  using bit_eq_iff[of "x AND m" 0] bit_imp_le_length[of x k] by (auto simp: bit_and_iff)

lemmas and_modifier = bit_modifier[THEN and_bit]

text \<open>A key is down when it went down and has not come up since; a lock key is on when it went down an odd number of times.\<close>

definition key_down :: "(bool \<Rightarrow> key_event) \<Rightarrow> key_event list \<Rightarrow> bool" where
  "key_down mk evs \<longleftrightarrow> mk True \<in> set (takeWhile (\<lambda>e. e \<noteq> mk False) (rev evs))"

definition key_on :: "(bool \<Rightarrow> key_event) \<Rightarrow> key_event list \<Rightarrow> bool" where
  "key_on mk evs \<longleftrightarrow> odd (count_list evs (mk True))"

definition held_keys :: "(u16 \<times> (bool \<Rightarrow> key_event)) list" where
  "held_keys = [(KH_LSHIFT_KEY, Key 0x2A), (KH_RSHIFT_KEY, Key 0x36), (KH_LCONTROL_KEY, Key 0x1D), (KH_RCONTROL_KEY, Ext 0x1D),
     (KH_LALT_KEY, Key 0x38), (KH_RALT_KEY, Ext 0x38)]"

definition lock_keys :: "(u16 \<times> (bool \<Rightarrow> key_event)) list" where
  "lock_keys = [(KH_CAPS_LOCK, Key 0x3A), (KH_NUM_LOCK, Key 0x45)]"

lemma modifier_event:
  "event_state (Key 0x1D d) ks = (if d then ks OR KH_LCONTROL_KEY else ks AND NOT KH_LCONTROL_KEY)"
  "event_state (Key 0x2A d) ks = (if d then ks OR KH_LSHIFT_KEY else ks AND NOT KH_LSHIFT_KEY)"
  "event_state (Key 0x36 d) ks = (if d then ks OR KH_RSHIFT_KEY else ks AND NOT KH_RSHIFT_KEY)"
  "event_state (Key 0x38 d) ks = (if d then ks OR KH_LALT_KEY else ks AND NOT KH_LALT_KEY)"
  "event_state (Ext 0x1D d) ks = (if d then ks OR KH_RCONTROL_KEY else ks AND NOT KH_RCONTROL_KEY)"
  "event_state (Ext 0x38 d) ks = (if d then ks OR KH_RALT_KEY else ks AND NOT KH_RALT_KEY)"
  "event_state (Key 0x3A d) ks = (if d then if ks AND KH_CAPS_LOCK \<noteq> 0 then ks AND NOT KH_CAPS_LOCK else ks OR KH_CAPS_LOCK else ks)"
  "event_state (Key 0x45 d) ks = (if d then if ks AND KH_NUM_LOCK \<noteq> 0 then ks AND NOT KH_NUM_LOCK else ks OR KH_NUM_LOCK else ks)"
  by (simp_all add: event_state_def modifier_actions)

definition step_ok :: "key_event \<Rightarrow> u16 \<Rightarrow> bool" where
  "step_ok e ks \<longleftrightarrow>
     (\<forall>(m, mk)\<in>set held_keys. event_state e ks AND m \<noteq> 0 \<longleftrightarrow> e = mk True \<or> e \<noteq> mk False \<and> ks AND m \<noteq> 0) \<and>
     (\<forall>(m, mk)\<in>set lock_keys. event_state e ks AND m \<noteq> 0 \<longleftrightarrow> (e = mk True) \<noteq> (ks AND m \<noteq> 0))"

lemma modifier_step_ok:
  assumes "mk \<in> set modifier_events"
  shows "step_ok (mk d) ks"
proof -
  note simps = step_ok_def held_keys_def lock_keys_def list.set ball_simps prod.case modifier_event and_modifier bit_modifier
    bit_or_iff bit_and_iff bit_not_iff
  have "step_ok (Key 0x1D d) ks" by (cases d) (simp_all add: simps)
  moreover have "step_ok (Key 0x2A d) ks" by (cases d) (simp_all add: simps)
  moreover have "step_ok (Key 0x36 d) ks" by (cases d) (simp_all add: simps)
  moreover have "step_ok (Key 0x38 d) ks" by (cases d) (simp_all add: simps)
  moreover have "step_ok (Ext 0x1D d) ks" by (cases d) (simp_all add: simps)
  moreover have "step_ok (Ext 0x38 d) ks" by (cases d) (simp_all add: simps)
  moreover have "step_ok (Key 0x3A d) ks" by (cases d; cases "bit ks 9") (simp_all add: simps)
  moreover have "step_ok (Key 0x45 d) ks" by (cases d; cases "bit ks 8") (simp_all add: simps)
  ultimately show ?thesis using assms by (auto simp: modifier_events_def)
qed

lemma step_ok: "step_ok e ks"
proof (cases "\<forall>mk\<in>set modifier_events. \<forall>down. e \<noteq> mk down")
  case True
  then show ?thesis unfolding step_ok_def plain_event[OF True, of ks]
    by (simp add: held_keys_def lock_keys_def modifier_events_def)
qed (use modifier_step_ok in blast)

lemma held_step: "(m, mk) \<in> set held_keys \<Longrightarrow> event_state e ks AND m \<noteq> 0 \<longleftrightarrow> e = mk True \<or> e \<noteq> mk False \<and> ks AND m \<noteq> 0"
  using step_ok[of e ks, unfolded step_ok_def, THEN conjunct1, THEN bspec, of "(m, mk)"] by (simp only: prod.case)

lemma lock_step: "(m, mk) \<in> set lock_keys \<Longrightarrow> event_state e ks AND m \<noteq> 0 \<longleftrightarrow> (e = mk True) \<noteq> (ks AND m \<noteq> 0)"
  using step_ok[of e ks, unfolded step_ok_def, THEN conjunct2, THEN bspec, of "(m, mk)"] by (simp only: prod.case)

lemma modifiers_tracked:
  "(m, mk) \<in> set held_keys \<Longrightarrow> fold event_state evs 0 AND m \<noteq> 0 \<longleftrightarrow> key_down mk evs"
  "(m, mk) \<in> set lock_keys \<Longrightarrow> fold event_state evs 0 AND m \<noteq> 0 \<longleftrightarrow> key_on mk evs"
proof -
  show "(m, mk) \<in> set held_keys \<Longrightarrow> fold event_state evs 0 AND m \<noteq> 0 \<longleftrightarrow> key_down mk evs"
  proof (induction evs rule: rev_induct)
    case (snoc e evs)
    note step = held_step[OF snoc.prems]
    have "mk True \<noteq> mk False" using snoc.prems by (auto simp: held_keys_def)
    then show ?case using snoc.IH[OF snoc.prems] by (auto simp: key_down_def step)
  qed (simp add: key_down_def)
  show "(m, mk) \<in> set lock_keys \<Longrightarrow> fold event_state evs 0 AND m \<noteq> 0 \<longleftrightarrow> key_on mk evs"
  proof (induction evs rule: rev_induct)
    case (snoc e evs)
    show ?case using snoc.IH[OF snoc.prems] lock_step[OF snoc.prems, of e "fold event_state evs 0"] by (simp add: key_on_def)
  qed (simp add: key_on_def)
qed

section \<open>The keys of the layout\<close>

text \<open>The keys that print, row by row: the first scan code, the characters, and those with a shift key.\<close>

definition layout_rows :: "(nat \<times> string \<times> string) list" where
  "layout_rows =
    [(0x02, ''1234567890-='', ''!@#$%^&*()_+''), (0x10, ''qwertyuiop[]'', ''QWERTYUIOP{}''),
     (0x1E, ''asdfghjkl;'' @ [CHR 0x27, CHR 0x60], ''ASDFGHJKL:'' @ [CHR 0x22] @ ''~''),
     (0x2B, [CHR 0x5C] @ ''zxcvbnm,./'', ''|ZXCVBNM<>?'')]"

definition layout :: "(u32 \<times> char \<times> char) list" where
  "layout = concat (map (\<lambda>(k, us, ss). zip (map of_nat [k..<k + length us]) (zip us ss)) layout_rows)"

text \<open>The keys that the Caps Lock key changes: the letters, and the square brackets as well.\<close>

definition caps_key :: "char \<Rightarrow> bool" where
  "caps_key u \<longleftrightarrow> u \<in> set ''abcdefghijklmnopqrstuvwxyz[]''"

fun gives_char :: "key_action \<Rightarrow> bool \<Rightarrow> u8 \<Rightarrow> u8 \<Rightarrow> bool" where
  "gives_char (KHS_SHIFTCAPSCTL c s' u') caps u s \<longleftrightarrow> caps \<and> s' = s \<and> u' = u"
| "gives_char (KHS_SHIFT s' u') caps u s \<longleftrightarrow> \<not> caps \<and> s' = s \<and> u' = u"
| "gives_char (KHS_SHIFTCTL c s' u') caps u s \<longleftrightarrow> \<not> caps \<and> s' = s \<and> u' = u"
| "gives_char _ caps u s \<longleftrightarrow> False"

lemma layout_typed:
  "list_all (\<lambda>(k, u, s). case map_of simple_keys k of Some a \<Rightarrow> gives_char a (caps_key u) (ch u) (ch s) | None \<Rightarrow> False) layout"
  by code_simp

lemma layout_codes: "list_all (\<lambda>(k, u, s). k < 0x60) layout"
  by code_simp

lemma layout_ascii: "list_all (\<lambda>(k, u, s). ch u \<noteq> KHE_UNDEFINED \<and> ch s \<noteq> KHE_UNDEFINED) layout"
  by code_simp

lemma typed_code:
  assumes "gives_char a caps u s" "\<not> KHS_CTL_CORE ks"
  shows "action_code a ks = (if KHS_SHIFT_CORE ks \<noteq> (ks AND KH_CAPS_LOCK \<noteq> 0 \<and> caps) then s else u)" "action_raw a = u"
proof -
  show "action_code a ks = (if KHS_SHIFT_CORE ks \<noteq> (ks AND KH_CAPS_LOCK \<noteq> 0 \<and> caps) then s else u)"
    using assms by (cases a; cases "KHS_SHIFT_CORE ks"; cases "ks AND KH_CAPS_LOCK = 0"; simp)
  show "action_raw a = u" using assms by (cases a) simp_all
qed

lemma core_bits:
  "KHS_SHIFT_CORE ks \<longleftrightarrow> ks AND KH_LSHIFT_KEY \<noteq> 0 \<or> ks AND KH_RSHIFT_KEY \<noteq> 0"
  "KHS_CTL_CORE ks \<longleftrightarrow> ks AND KH_LCONTROL_KEY \<noteq> 0 \<or> ks AND KH_RCONTROL_KEY \<noteq> 0"
proof -
  have "ks AND (x OR y) = 0 \<longleftrightarrow> ks AND x = 0 \<and> ks AND y = 0" for x y by (simp only: bit.conj_disj_distrib or_eq_0_iff)
  then show "KHS_SHIFT_CORE ks \<longleftrightarrow> ks AND KH_LSHIFT_KEY \<noteq> 0 \<or> ks AND KH_RSHIFT_KEY \<noteq> 0"
    "KHS_CTL_CORE ks \<longleftrightarrow> ks AND KH_LCONTROL_KEY \<noteq> 0 \<or> ks AND KH_RCONTROL_KEY \<noteq> 0"
    by (simp_all only: KHS_SHIFT_CORE_def KHS_CTL_CORE_def de_Morgan_conj)
qed

section \<open>Properties\<close>

text \<open>C25: Whatever is pressed and released on the keyboard, prefixed keys and the sequences of the Pause and Print Screen keys
  included, each event gives one result with a raw code or data, in order: the raw code of its key, the character
  that the modifier keys give it and whether there is one, and the modifier keys after it.  For every event but Pause
  the result also has the flag of the raw code, and the flag of a key that goes down exactly if it goes down.  For
  Pause, which the keyboard reports as it goes down, both flags are missing: by the rules of the header its result
  must not be used, and it looks like a key released.\<close>

theorem key_events_decoded:
  assumes "\<forall>e\<in>set evs. key_event_ok e"
  shows "let rs = answers (fst (process_scancodes (concat (map scan_codes evs)) keyhelp_initial))
    in length rs = length evs \<and> (\<forall>i<length evs. result_of (evs ! i) (fold event_state (take i evs) 0) (rs ! i))"
proof -
  have "idle keyhelp_initial" by (simp add: idle_def keyhelp_initial_def)
  from scan_events[OF this assms] show ?thesis by (auto simp: keyhelp_initial_def Let_def)
qed

lemma key_events_decoded_witness:
  "let evs = [Key 0x2A True, Key 0x10 True, Key 0x10 False, Pause, Ext 0x48 True, Print_Screen False];
       rs = answers (fst (process_scancodes (concat (map scan_codes evs)) keyhelp_initial))
   in length rs = length evs \<and> (\<forall>i<length evs. result_of (evs ! i) (fold event_state (take i evs) 0) (rs ! i))"
  using key_events_decoded[of "[Key 0x2A True, Key 0x10 True, Key 0x10 False, Pause, Ext 0x48 True, Print_Screen False]"]
  by (simp add: Let_def)

text \<open>C27: A key that prints gives the character of the layout: the one with shift when exactly one of these holds, that a
  shift key is down and that Caps Lock is on and changes the key, if no control key is down.  Caps Lock changes the
  square brackets, too.
\<close>

theorem typed_character:
  assumes "\<forall>e\<in>set evs. key_event_ok e" "(k, u, s) \<in> set layout" "\<not> key_down (Key 0x1D) evs" "\<not> key_down (Ext 0x1D) evs"
  shows "let rs = answers (fst (process_scancodes (concat (map scan_codes (evs @ [Key k True]))) keyhelp_initial));
      shift = (key_down (Key 0x2A) evs \<or> key_down (Key 0x36) evs); caps = (key_on (Key 0x3A) evs \<and> caps_key u)
    in length rs = Suc (length evs) \<and> KH_HASDATA (last rs) \<and> KH_ISMAKE (last rs) \<and>
       KH_GETCHAR (last rs) = ucast (ch (if shift \<noteq> caps then s else u))"
proof -
  let ?evs = "evs @ [Key k True]" and ?ks = "fold event_state evs 0"
  have "case map_of simple_keys k of Some a \<Rightarrow> gives_char a (caps_key u) (ch u) (ch s) | None \<Rightarrow> False"
    using layout_typed assms(2) unfolding list_all_iff by blast
  then obtain a where a: "map_of simple_keys k = Some a" "gives_char a (caps_key u) (ch u) (ch s)" by (auto split: option.splits)
  have k: "k < 0x60" "ch u \<noteq> KHE_UNDEFINED" "ch s \<noteq> KHE_UNDEFINED"
    using layout_codes layout_ascii assms(2) unfolding list_all_iff by blast+
  have "idle keyhelp_initial" by (simp add: idle_def keyhelp_initial_def)
  from scan_events[OF this, of ?evs] assms(1) k(1) obtain rs h' where
    r: "process_scancodes (concat (map scan_codes ?evs)) keyhelp_initial = (rs, h')" "length (answers rs) = length ?evs"
    "\<forall>i<length ?evs. result_of (?evs ! i) (fold event_state (take i ?evs) (key_state keyhelp_initial)) (answers rs ! i)" by auto
  have "result_of (Key k True) ?ks (answers rs ! length evs)" using r(3)[rule_format, of "length evs"] by (simp add: keyhelp_initial_def)
  moreover have "answers rs \<noteq> []" using r(2) by auto
  then have "answers rs ! length evs = last (answers rs)" using r(2) by (simp add: last_conv_nth)
  ultimately have res: "result_of (Key k True) ?ks (last (answers rs))" by simp
  note m = modifiers_tracked[of _ _ evs]
  have core: "KHS_CTL_CORE ?ks = False" "KHS_SHIFT_CORE ?ks \<longleftrightarrow> key_down (Key 0x2A) evs \<or> key_down (Key 0x36) evs"
    "?ks AND KH_CAPS_LOCK \<noteq> 0 \<longleftrightarrow> key_on (Key 0x3A) evs"
    using assms(3,4) m(1)[of KH_LSHIFT_KEY "Key 0x2A"] m(1)[of KH_RSHIFT_KEY "Key 0x36"] m(1)[of KH_LCONTROL_KEY "Key 0x1D"]
      m(1)[of KH_RCONTROL_KEY "Ext 0x1D"] m(2)[of KH_CAPS_LOCK "Key 0x3A"]
    by (simp_all add: core_bits held_keys_def lock_keys_def)
  define b where "b \<longleftrightarrow> (key_down (Key 0x2A) evs \<or> key_down (Key 0x36) evs) \<noteq> (key_on (Key 0x3A) evs \<and> caps_key u)"
  have "KHS_SHIFT_CORE ?ks \<noteq> (?ks AND KH_CAPS_LOCK \<noteq> 0 \<and> caps_key u) \<longleftrightarrow> b" by (simp only: core b_def)
  then have c: "action_code a ?ks = ch (if b then s else u)" "action_raw a = ch u"
    using typed_code[OF a(2), of ?ks] core(1) by (cases b; simp)+
  have d: "has_data (action_code a ?ks) (action_raw a)" using k(2,3) by (simp add: has_data_def c)
  have e: "event_action (Key k True) = a" by (simp add: a(1))
  have "KH_HASDATA (last (answers rs))" "KH_ISMAKE (last (answers rs))" "KH_GETCHAR (last (answers rs)) = ucast (ch (if b then s else u))"
    using res d unfolding result_of_def Let_def e c by simp_all
  then show ?thesis using r(2) unfolding r(1) Let_def b_def by simp
qed

lemma typed_character_witness:
  "let evs = [Key 0x3A True, Key 0x3A False, Key 0x36 True];
     rs = answers (fst (process_scancodes (concat (map scan_codes (evs @ [Key 0x1A True]))) keyhelp_initial));
      shift = (key_down (Key 0x2A) evs \<or> key_down (Key 0x36) evs); caps = (key_on (Key 0x3A) evs \<and> caps_key CHR ''['')
    in length rs = Suc (length evs) \<and> KH_HASDATA (last rs) \<and> KH_ISMAKE (last rs) \<and>
       KH_GETCHAR (last rs) = ucast (ch (if shift \<noteq> caps then CHR ''{'' else CHR ''[''))"
proof -
  have "(0x1A, CHR ''['', CHR ''{'') \<in> set layout" by code_simp
  then show ?thesis
    unfolding Let_def by (intro typed_character[unfolded Let_def]) (simp_all add: key_down_def)
qed

end
