(* ===== verification/Spec2Isabelle.thy ===== *)
theory Spec2Isabelle
  imports Page_Properties Frames Loader Usercopy Keyboard Xen_Console Regions Sched_Machine Calls Traps Interrupts Heap_Aligned Number_Text Long_Division Sorting String_Copy Key_Events
begin

text \<open>
  A verification development for the Pebbles kernel as it runs on the Xen hypervisor (\<^verbatim>\<open>src/kern\<close>).

  \<^bold>\<open>The program.\<close>  The kernel runs user tasks, each with an address space and one or more threads, as a
  paravirtualised guest: physical memory is the gigabyte that Xen gives it, page tables are changed by requests
  that Xen applies, and the console is a pair of rings shared with a daemon.  From the bottom up:

  \<^item> Prelude, C\_Memory: words, page arithmetic, bounded loops; a flat memory of bytes.
  \<^item> Variable\_Queue (\<^verbatim>\<open>inc/variable_queue.h\<close>), Variable\_Hash (\<^verbatim>\<open>inc/variable_hash.h\<close>, the hash functions of
    \<^verbatim>\<open>sched.c\<close>): the queues whose links are fields of their elements, as maps from addresses to links with the
    macros acting on them, and the hash tables built on them.  Their interfaces are the locales queue\_interface,
    shared\_links and lookup\_table, interpreted on these definitions.
  \<^item> Vmm\_Zone (\<^verbatim>\<open>vmm_zone.c\<close>): the buddy allocator; zone\_inv is its invariant, free\_bytes what it has to give.
  \<^item> Vmm\_Page (\<^verbatim>\<open>vmm_page.c\<close>): page directories, the queue of update requests, the frame allocator; the
    hypercalls are functions of the record xen\_env.  Page\_Map, Page\_Properties and Frames hold its theorems.
  \<^item> Loader (\<^verbatim>\<open>loader.c\<close>), Usercopy (\<^verbatim>\<open>usercopy.c\<close>), Keyboard (\<^verbatim>\<open>keyboard.c\<close>), Xen\_Console (\<^verbatim>\<open>xen_console.c\<close>,
    \<^verbatim>\<open>xencons_ring.c\<close>): the embedded executables, access to user memory, and the two ends of the console.  The
    key buffer and the output ring implement the locale bounded\_fifo.
  \<^item> Kernel\_State: the records of the structures (\<^verbatim>\<open>file_t\<close>, \<^verbatim>\<open>vm_area_t\<close>, \<^verbatim>\<open>task_t\<close>, \<^verbatim>\<open>thread_t\<close>) and of the whole
    kernel, kstate, with one map per kind of object, one map of links per list the object is on, and kern\_env
    for what is outside the kernel (the embedded files, the hypercalls, the context switch).
  \<^item> Vm\_Area and Vma\_Lifecycle (\<^verbatim>\<open>vm_area.c\<close>), Vmm (\<^verbatim>\<open>vmm.c\<close>): regions and address spaces; Regions holds theorems.
  \<^item> Sched (\<^verbatim>\<open>sched.c\<close>, \<^verbatim>\<open>kernel_timer.c\<close>), Task\_Thread (\<^verbatim>\<open>task.c\<close>, \<^verbatim>\<open>thread.c\<close>), Process (\<^verbatim>\<open>process.c\<close>), Syscalls
    (\<^verbatim>\<open>mm.c\<close>, \<^verbatim>\<open>consoleio.c\<close>, \<^verbatim>\<open>sysmisc.c\<close>, \<^verbatim>\<open>kernel_exceptions.c\<close>): scheduling, the life of tasks and threads and the
    system calls; Scheduling, Waiting and Calls hold theorems.
  \<^item> Elf\_Loader (\<^verbatim>\<open>410kern/elf/load_helper.c\<close>): the reader of executables; Text\_Console (\<^verbatim>\<open>console.c\<close>): the VGA
    screen, which keeps the cursor and the colour that system calls set.
  \<^item> Xen\_Events (\<^verbatim>\<open>xen_events.c\<close>, \<^verbatim>\<open>inc/xen_bitops.h\<close>), Xen\_Time (\<^verbatim>\<open>xen_time.c\<close>) and Traps (\<^verbatim>\<open>handler_install.c\<close>):
    what Xen and the kernel exchange besides page tables: event channels on a state whose last component is the
    rest of the kernel, the time read from a page that may change between any two accesses, the trap tables.
    Interrupts puts the timer and the console handler on these event channels and on the whole kernel.
  \<^item> Kernel\_Heap (\<^verbatim>\<open>410kern/lmm\<close>, \<^verbatim>\<open>410kern/malloc\<close>, \<^verbatim>\<open>malloc_wrappers.c\<close>, \<^verbatim>\<open>boot/util_lmm.c\<close>): the heap, whose
    free lists lie in the memory that they manage.  Heap\_Lists relates a list in memory to the list of its blocks,
    Heap\_Properties the whole heap to one such list per region.  The interface block\_allocator of Block\_Allocator
    is implemented by the heap and by the buddy allocator; Heap\_Aligned adds allocation with alignment.
  \<^item> Printf (\<^verbatim>\<open>410kern/stdio\<close>): formatted output to the console and to memory.  Formatting proves, with the
    locale printer\_sim, that two printers whose \<open>putc\<close> agree print the same text; Number\_Text (\<^verbatim>\<open>410kern/stdlib\<close>)
    holds the readers of numbers and the round trip of printing and reading.
  \<^item> Quad\_Division (\<^verbatim>\<open>410kern/misc/gccisms.c\<close>), Quick\_Sort (\<^verbatim>\<open>410kern/stdlib/qsort.c\<close>) and C\_Strings
    (\<^verbatim>\<open>410kern/string\<close>): division of 64-bit integers, sorting and strings.  Long\_Division shows each step of the
    division to be an equation about the numbers that the digits stand for, Sorting each step of the sort to keep the
    parts of the array in order; C\_Strings relates the strings in memory to lists, and
    String\_Copy joins them to the heap.
  \<^item> Keyhelp (\<^verbatim>\<open>410kern/x86/keyhelp.c\<close>): the translation of scan codes; Key\_Events decodes what the keyboard sends.
  \<^item> Sched\_Machine: the scheduler as a step relation, its reachable states and their invariant.

  \<^bold>\<open>Conventions.\<close>  A pointer to an object is its address, a word of 32 bits, and dereferencing it looks the
  address up in the map of its type.  None is a panic, a failed assertion, a wild pointer or a computation that
  does not end; errors that the code reports are values.  Interrupts are not interleaved: the operations run
  with interrupts off or under the scheduler's lock, and the interrupt handlers are operations of their own.
  Debug output is left out.  No fuel is used: loops over numbers are recursive functions with a measure, walks
  over linked structures are partial functions whose ending is part of the theorems.

  \<^bold>\<open>What the theorems show.\<close>  Each names its claim C1, C2, \<dots> in the text before it.  The allocator hands out
  whole, aligned, free blocks and gets back exactly what it gave; the page tables map what was asked for once
  the queue is flushed; regions stay sorted and are found by address; the queues and tables of the scheduler
  refine lists and finite sets, scheduling is a rotation, waking is a filter, and in every state that the
  steps of Sched\_Machine reach each thread is where its state says and the scheduler finds one to run; user buffers, console rings and the screen
  contain what was written; an upcall serves exactly the active ports, and the copy of the time is one that Xen
  published; what is written into an executable is what the reader returns; the heap serves any sequence of requests
  (of at most \<^verbatim>\<open>2^32 - 12\<close> bytes each), releases and stores without losing memory or handing any out twice.  Some theorems establish
  deviations: pages lost by an allocation of several pages, a mapping lost when it is changed back before the
  flush, huge requests that destroy the free list of the heap, sleeps that end at once, waiting threads that are put on two queues, a negative print size, a lost
  carry and a wrapped interval in the clock, exception handlers that are never registered.

  \<^bold>\<open>Not modelled.\<close>  The assembly (context switch, return to user mode, the lock instruction) and the order of
  start-up; \<^verbatim>\<open>hypervisor.c\<close>, which is not compiled; of the support library \<^verbatim>\<open>410kern\<close> the multiboot
  and the rest of the x86 code and \<open>sscanf\<close>; and the user programs.  The step relation of the scheduler leaves out waiting for other
  threads, whose lists share the links of the sleep queue, and the release of the last reference of a thread.
\<close>

end
